(* ===== verification/Prelude.thy ===== *)
theory Prelude
  imports Main "HOL-Library.Word" "HOL-Library.List_Lexorder" "HOL-Library.Char_ord"
begin

text \<open>
  Shared vocabulary of the development: bytes and byte strings, the little- and big-endian
  integer codecs of Go's \<open>encoding/binary\<close>, reading and overwriting a range of a buffer
  (\<open>buf[off:off+n]\<close> and \<open>copy(buf[off:], data)\<close>), operations that pass a state and may fail,
  and key-ordered association lists as the abstract value of an ordered store.
\<close>

section \<open>Lemma collections\<close>

named_theorems buf_simps \<open>reading back ranges of a buffer after overwriting ranges\<close>
named_theorems codec_simps \<open>integer codecs\<close>
named_theorems kv_simps \<open>key-ordered association lists\<close>
named_theorems keeps_intros \<open>operations that leave a part of the state alone\<close>

section \<open>Bytes\<close>

type_synonym byte = "8 word"
type_synonym bytes = "byte list"

text \<open>A Go \<open>string\<close> is a sequence of bytes; \<open>[]byte(s)\<close> converts it.\<close>

definition bytes_of :: "string \<Rightarrow> bytes" where
  "bytes_of s = map (\<lambda>c. of_nat (of_char c)) s"

lemma length_bytes_of [simp]: "length (bytes_of s) = length s"
  by (simp add: bytes_of_def)

lemma of_char_byte_inj: "(of_nat (of_char c) :: byte) = of_nat (of_char d) \<longleftrightarrow> c = d"
proof
  assume *: "(of_nat (of_char c) :: byte) = of_nat (of_char d)"
  have u: "unat (of_nat (of_char c) :: byte) = of_char c" for c :: char
    by (simp add: unat_of_nat)
  from * have "unat (of_nat (of_char c) :: byte) = unat (of_nat (of_char d) :: byte)"
    by (rule arg_cong)
  then show "c = d" by (simp only: u of_char_eq_iff)
qed simp

lemma bytes_of_inj [simp]: "bytes_of s = bytes_of t \<longleftrightarrow> s = t"
  unfolding bytes_of_def by (rule inj_map_eq_map) (simp add: inj_def of_char_byte_inj)

lemma bytes_of_Nil [simp]: "bytes_of s = [] \<longleftrightarrow> s = []"
  by (simp add: bytes_of_def)

lemma unat_byte_less: "unat (b :: byte) < 256"
  using unsigned_less [of b] by simp

section \<open>Ranges of a buffer\<close>

definition slice :: "'a list \<Rightarrow> nat \<Rightarrow> nat \<Rightarrow> 'a list" where
  "slice xs off n = take n (drop off xs)"

definition splice :: "'a list \<Rightarrow> nat \<Rightarrow> 'a list \<Rightarrow> 'a list" where
  "splice xs off ys = take off xs @ ys @ drop (off + length ys) xs"

lemma length_slice [simp]: "length (slice xs off n) = min n (length xs - off)"
  by (simp add: slice_def)

lemma length_splice [simp]: "off + length ys \<le> length xs \<Longrightarrow> length (splice xs off ys) = length xs"
  by (simp add: splice_def)

lemma nth_splice:
  assumes "off + length ys \<le> length xs" "i < length xs"
  shows "splice xs off ys ! i =
    (if i < off then xs ! i else if i < off + length ys then ys ! (i - off) else xs ! i)"
  using assms by (auto simp: splice_def nth_append min_def)

lemma nth_slice: "i < n \<Longrightarrow> off + n \<le> length xs \<Longrightarrow> slice xs off n ! i = xs ! (off + i)"
  by (simp add: slice_def)

lemma slice_eqI:
  assumes "off + n \<le> length xs" "off + n \<le> length ys"
    and "\<And>i. off \<le> i \<Longrightarrow> i < off + n \<Longrightarrow> xs ! i = ys ! i"
  shows "slice xs off n = slice ys off n"
  by (rule nth_equalityI) (use assms in \<open>auto simp: nth_slice\<close>)

lemma slice_splice_same [buf_simps]:
  assumes "off + length ys \<le> length xs" "n = length ys"
  shows "slice (splice xs off ys) off n = ys"
  using assms by (simp add: slice_def splice_def)

lemma slice_splice_before [buf_simps]:
  assumes "off + length ys \<le> length xs" "a + n \<le> off"
  shows "slice (splice xs off ys) a n = slice xs a n"
  by (rule slice_eqI) (use assms in \<open>auto simp: nth_splice\<close>)

lemma slice_splice_after [buf_simps]:
  assumes "off + length ys \<le> a" "a + n \<le> length xs"
  shows "slice (splice xs off ys) a n = slice xs a n"
  by (rule slice_eqI) (use assms in \<open>auto simp: nth_splice\<close>)

lemma slice_splice_outside:
  assumes "off + length ys \<le> length xs" "a + n \<le> off \<or> off + length ys \<le> a \<and> a + n \<le> length xs"
  shows "slice (splice xs off ys) a n = slice xs a n"
  using assms slice_splice_before slice_splice_after by blast

lemma slice_slice [buf_simps]:
  "a + m \<le> n \<Longrightarrow> slice (slice xs off n) a m = slice xs (off + a) m"
  by (simp add: slice_def drop_take add.commute)

lemma slice_splice_within [buf_simps]:
  assumes "off + length ys \<le> length xs" "off \<le> a" "a + n \<le> off + length ys"
  shows "slice (splice xs off ys) a n = slice ys (a - off) n"
  by (rule nth_equalityI) (use assms in \<open>auto simp: nth_slice nth_splice\<close>)

lemma splice_splice_same [buf_simps]:
  "off + length ys \<le> length xs \<Longrightarrow> length zs = length ys \<Longrightarrow>
    splice (splice xs off ys) off zs = splice xs off zs"
  by (simp add: splice_def)

lemma splice_slice_id [buf_simps]:
  "off + n \<le> length xs \<Longrightarrow> splice xs off (slice xs off n) = xs"
  by (rule nth_equalityI) (auto simp: nth_splice nth_slice)

lemma slice_append_left [buf_simps]: "a + n \<le> length xs \<Longrightarrow> slice (xs @ ys) a n = slice xs a n"
  by (simp add: slice_def)

lemma slice_append_right [buf_simps]:
  "length xs \<le> a \<Longrightarrow> slice (xs @ ys) a n = slice ys (a - length xs) n"
  by (simp add: slice_def)

lemma slice_all [buf_simps]: "n = length xs \<Longrightarrow> slice xs 0 n = xs"
  by (simp add: slice_def)

lemma slice_replicate [buf_simps]: "a + n \<le> m \<Longrightarrow> slice (replicate m x) a n = replicate n x"
  by (simp add: slice_def)

section \<open>Integer codecs\<close>

text \<open>\<open>PutUint16/32/64\<close> and \<open>Uint16/32/64\<close> of \<open>binary.LittleEndian\<close>, by width in bytes; the
  stored value is the argument modulo \<open>2\<^bsup>8k\<^esup>\<close>, as the conversion to the unsigned type makes it.\<close>

fun putLE :: "nat \<Rightarrow> nat \<Rightarrow> bytes" where
  "putLE 0 n = []"
| "putLE (Suc k) n = of_nat (n mod 256) # putLE k (n div 256)"

fun getLE :: "bytes \<Rightarrow> nat" where
  "getLE [] = 0"
| "getLE (b # bs) = unat b + 256 * getLE bs"

definition putBE :: "nat \<Rightarrow> nat \<Rightarrow> bytes" where
  "putBE k n = rev (putLE k n)"

definition getBE :: "bytes \<Rightarrow> nat" where
  "getBE bs = getLE (rev bs)"

lemma length_putLE [simp]: "length (putLE k n) = k"
  by (induction k arbitrary: n) auto

lemma length_putBE [simp]: "length (putBE k n) = k"
  by (simp add: putBE_def)

lemma getLE_bound: "getLE bs < 256 ^ length bs"
proof (induction bs)
  case (Cons b bs)
  have "unat b < 256" by (rule unat_byte_less)
  with Cons show ?case by simp
qed simp

lemma getLE_putLE [codec_simps]: "getLE (putLE k n) = n mod 256 ^ k"
proof (induction k arbitrary: n)
  case (Suc k)
  have "unat (of_nat (n mod 256) :: byte) = n mod 256"
    by (simp add: unat_of_nat)
  with Suc show ?case by (simp add: mod_mult2_eq)
qed simp

lemma getLE_putLE_small [codec_simps]: "n < 256 ^ k \<Longrightarrow> getLE (putLE k n) = n"
  by (simp add: getLE_putLE)

lemma getBE_putBE [codec_simps]: "n < 256 ^ k \<Longrightarrow> getBE (putBE k n) = n"
  by (simp add: getBE_def putBE_def getLE_putLE_small)

lemma putLE_getLE [codec_simps]: "putLE (length bs) (getLE bs) = bs"
proof (induction bs)
  case (Cons b bs)
  have "unat b < 256" by (rule unat_byte_less)
  with Cons show ?case by simp
qed simp

lemma getLE_replicate_zero [codec_simps]: "getLE (replicate n 0) = 0"
  by (induction n) auto

text \<open>\<open>x++\<close> and \<open>x--\<close> on a \<open>uint64\<close>.\<close>

definition inc64 :: "nat \<Rightarrow> nat" where
  "inc64 n = (n + 1) mod 2 ^ 64"

definition dec64 :: "nat \<Rightarrow> nat" where
  "dec64 n = (n + 2 ^ 64 - 1) mod 2 ^ 64"

lemma inc64_small [codec_simps]: "n + 1 < 2 ^ 64 \<Longrightarrow> inc64 n = n + 1"
  by (simp add: inc64_def)

lemma dec64_pos [codec_simps]: "0 < n \<Longrightarrow> n < 2 ^ 64 \<Longrightarrow> dec64 n = n - 1"
proof -
  assume "0 < n" "n < 2 ^ 64"
  then have "n + 2 ^ 64 - 1 = (n - 1) + 2 ^ 64" by simp
  moreover have "(n - 1) mod 2 ^ 64 = n - 1" using \<open>n < 2 ^ 64\<close> by simp
  ultimately show ?thesis unfolding dec64_def by (metis mod_add_self2)
qed

section \<open>Operations on a state that may fail\<close>

text \<open>
  A method that mutates its receiver and returns \<open>(value, error)\<close> is a function from the state
  to the result and the state it leaves, which an error leaves as it was at that point.
\<close>

type_synonym ('s, 'e, 'a) op = "'s \<Rightarrow> ('e + 'a) \<times> 's"

definition bindE :: "('s, 'e, 'a) op \<Rightarrow> ('a \<Rightarrow> ('s, 'e, 'b) op) \<Rightarrow> ('s, 'e, 'b) op" where
  "bindE m f s = (case m s of (Inl e, s') \<Rightarrow> (Inl e, s') | (Inr x, s') \<Rightarrow> f x s')"

definition returnE :: "'a \<Rightarrow> ('s, 'e, 'a) op" where
  "returnE x s = (Inr x, s)"

definition throwE :: "'e \<Rightarrow> ('s, 'e, 'a) op" where
  "throwE e s = (Inl e, s)"

text \<open>A read-only query as an operation.\<close>

definition queryE :: "('s \<Rightarrow> 'e + 'a) \<Rightarrow> ('s, 'e, 'a) op" where
  "queryE f s = (f s, s)"

lemma returnE_apply [simp]: "returnE x s = (Inr x, s)"
  by (simp add: returnE_def)

lemma throwE_apply [simp]: "throwE e s = (Inl e, s)"
  by (simp add: throwE_def)

lemma queryE_apply [simp]: "queryE f s = (f s, s)"
  by (simp add: queryE_def)

lemma bindE_Inr [simp]: "m s = (Inr x, s') \<Longrightarrow> bindE m f s = f x s'"
  by (simp add: bindE_def)

lemma bindE_Inl [simp]: "m s = (Inl e, s') \<Longrightarrow> bindE m f s = (Inl e, s')"
  by (simp add: bindE_def)

lemma bindE_InrE:
  assumes "bindE m f s = (Inr y, s'')"
  obtains x s' where "m s = (Inr x, s')" "f x s' = (Inr y, s'')"
  using assms by (auto simp: bindE_def split: prod.splits sum.splits)

lemma bindE_queryE_InrE:
  assumes "bindE (queryE f) g s = (Inr y, s')"
  obtains x where "f s = Inr x" "g x s = (Inr y, s')"
  using assms by (auto simp: bindE_def queryE_def split: sum.splits)

text \<open>An operation that never changes the part \<open>f\<close> of the state, whether it succeeds or fails.\<close>

definition keeps :: "('s \<Rightarrow> 'b) \<Rightarrow> ('s, 'e, 'a) op \<Rightarrow> bool" where
  "keeps f m \<longleftrightarrow> (\<forall>s. f (snd (m s)) = f s)"

lemma keepsD: "keeps f m \<Longrightarrow> m s = (r, s') \<Longrightarrow> f s' = f s"
  by (metis keeps_def snd_conv)

lemma keeps_bindE [keeps_intros]: "keeps f m \<Longrightarrow> (\<And>x. keeps f (g x)) \<Longrightarrow> keeps f (bindE m g)"
  by (auto simp: keeps_def bindE_def split: prod.splits sum.splits) (metis snd_conv)+

lemma keeps_returnE [keeps_intros]: "keeps f (returnE x)"
  by (simp add: keeps_def)

lemma keeps_throwE [keeps_intros]: "keeps f (throwE x)"
  by (simp add: keeps_def)

lemma keeps_queryE [keeps_intros]: "keeps f (queryE q)"
  by (simp add: keeps_def)

lemma keeps_if [keeps_intros]: "keeps f m \<Longrightarrow> keeps f m' \<Longrightarrow> keeps f (if b then m else m')"
  by simp

section \<open>Key-ordered association lists\<close>

text \<open>
  The abstract value of every ordered container of the program: an association list with
  strictly increasing keys, with its update and removal.
\<close>

definition kv_sorted :: "('k::linorder \<times> 'v) list \<Rightarrow> bool" where
  "kv_sorted xs \<longleftrightarrow> sorted_wrt (<) (map fst xs)"

definition kv_upd :: "'k::linorder \<Rightarrow> 'v \<Rightarrow> ('k \<times> 'v) list \<Rightarrow> ('k \<times> 'v) list" where
  "kv_upd k v xs = takeWhile (\<lambda>p. fst p < k) xs @ (k, v) # dropWhile (\<lambda>p. fst p \<le> k) xs"

definition kv_del :: "'k \<Rightarrow> ('k \<times> 'v) list \<Rightarrow> ('k \<times> 'v) list" where
  "kv_del k xs = filter (\<lambda>p. fst p \<noteq> k) xs"

lemma kv_sorted_Nil [kv_simps]: "kv_sorted []"
  by (simp add: kv_sorted_def)

lemma kv_sorted_Cons [kv_simps]:
  "kv_sorted (p # xs) \<longleftrightarrow> (\<forall>q \<in> set xs. fst p < fst q) \<and> kv_sorted xs"
  by (simp add: kv_sorted_def)

lemma kv_sorted_append [kv_simps]:
  "kv_sorted (xs @ ys) \<longleftrightarrow> kv_sorted xs \<and> kv_sorted ys \<and> (\<forall>p \<in> set xs. \<forall>q \<in> set ys. fst p < fst q)"
  by (auto simp: kv_sorted_def sorted_wrt_append)

lemma kv_upd_Nil [kv_simps]: "kv_upd k v [] = [(k, v)]"
  by (simp add: kv_upd_def)

lemma kv_upd_Cons [kv_simps]:
  "kv_sorted (p # xs) \<Longrightarrow> kv_upd k v (p # xs) =
     (if fst p < k then p # kv_upd k v xs else if fst p = k then (k, v) # xs else (k, v) # p # xs)"
  by (cases xs) (auto simp: kv_upd_def kv_sorted_def)

lemma set_kv_upd: "kv_sorted xs \<Longrightarrow> set (kv_upd k v xs) = insert (k, v) {p \<in> set xs. fst p \<noteq> k}"
  by (induction xs) (auto simp: kv_simps)

lemma kv_sorted_kv_upd: "kv_sorted xs \<Longrightarrow> kv_sorted (kv_upd k v xs)"
  by (induction xs) (auto simp: kv_simps set_kv_upd)

lemma map_of_kv_upd: "kv_sorted xs \<Longrightarrow> map_of (kv_upd k v xs) = (map_of xs)(k \<mapsto> v)"
  by (induction xs) (auto simp: kv_simps)

lemma kv_upd_ne [simp]: "kv_upd k v xs \<noteq> []"
  by (simp add: kv_upd_def)

lemma kv_upd_context:
  assumes "\<And>p. p \<in> set xs \<Longrightarrow> fst p < k" "\<And>p. p \<in> set zs \<Longrightarrow> k < fst p"
  shows "kv_upd k v (xs @ ys @ zs) = xs @ kv_upd k v ys @ zs"
proof -
  have zs: "takeWhile (\<lambda>p. fst p < k) zs = []" "dropWhile (\<lambda>p. fst p \<le> k) zs = zs"
    using assms(2) by (cases zs, simp, force)+
  have "takeWhile (\<lambda>p. fst p < k) (ys @ zs) = takeWhile (\<lambda>p. fst p < k) ys"
    by (induction ys) (simp_all add: zs)
  moreover have "dropWhile (\<lambda>p. fst p \<le> k) (ys @ zs) = dropWhile (\<lambda>p. fst p \<le> k) ys @ zs"
    by (induction ys) (simp_all add: zs)
  moreover have "dropWhile (\<lambda>p. fst p \<le> k) (xs @ us) = dropWhile (\<lambda>p. fst p \<le> k) us" for us
    by (rule dropWhile_append2) (simp add: assms(1) order_less_imp_le)
  ultimately show ?thesis using assms(1) by (simp add: kv_upd_def)
qed

lemma set_kv_del: "set (kv_del k xs) = {p \<in> set xs. fst p \<noteq> k}"
  by (auto simp: kv_del_def)

lemma kv_sorted_filter: "kv_sorted xs \<Longrightarrow> kv_sorted (filter P xs)"
  by (induction xs) (auto simp: kv_simps)

lemma kv_sorted_kv_del: "kv_sorted xs \<Longrightarrow> kv_sorted (kv_del k xs)"
  by (simp add: kv_del_def kv_sorted_filter)

lemma map_of_kv_del: "map_of (kv_del k xs) = (map_of xs)(k := None)"
  by (induction xs) (auto simp: kv_del_def)

lemma kv_del_append [kv_simps]: "kv_del k (xs @ ys) = kv_del k xs @ kv_del k ys"
  by (simp add: kv_del_def)

lemma kv_del_absent: "(\<And>p. p \<in> set xs \<Longrightarrow> fst p \<noteq> k) \<Longrightarrow> kv_del k xs = xs"
  by (simp add: kv_del_def)

lemma map_of_context:
  assumes "\<And>p. p \<in> set xs \<Longrightarrow> fst p < k" "\<And>p. p \<in> set zs \<Longrightarrow> (k::'k::linorder) < fst p"
  shows "map_of (xs @ ys @ zs) k = map_of ys k"
proof -
  have "map_of xs k = None" "map_of zs k = None"
    using assms by (auto simp: map_of_eq_None_iff)
  thus ?thesis by (auto simp: map_add_def split: option.splits)
qed

lemma kv_sorted_fst_inj:
  "kv_sorted xs \<Longrightarrow> map_of xs k = Some v \<longleftrightarrow> (k, v) \<in> set xs"
  by (induction xs) (auto simp: kv_simps map_of_eq_None_iff)

end
