(* ===== verification/Pager.thy ===== *)
theory Pager
  imports Prelude
begin

text \<open>
  The page file of the embedded store (\<open>internal/kvstore/pager.go\<close>): a file of 4096-byte pages,
  page 0 holding the metadata, the free pages linked through their first eight bytes. The file is
  mapped shared, so the mapping \<open>p.data\<close> and the file are one buffer; \<open>mapped\<close> says that
  \<open>p.data\<close> is not nil. \<open>disk_limit\<close> is the size up to which the operating system lets the
  file grow: \<open>Truncate\<close> fails beyond it. Page ids and counters are \<open>uint64\<close> values, kept as
  naturals with the wrap-around of \<open>++\<close> and \<open>--\<close> written out.

  The invariant \<open>pager_inv\<close> says that the metadata page describes the in-memory metadata and
  that the free list is a chain of distinct pages, which are the members of \<open>freeSet\<close>. Every
  operation keeps it, allocation never hands out a page in use, and reopening the file of a
  pager gives the same pager.
\<close>

section \<open>State and errors\<close>

datatype kv_error =
    PagerPathRequired
  | InvalidFileSize nat
  | InvalidPageCount nat nat
  | PagerClosed
  | PagerNotOpen
  | CannotFreeMeta
  | PageOutOfRange nat
  | PageAlreadyFree nat
  | RootOutOfRange nat
  | MappingTooSmall
  | InvalidMagic
  | UnsupportedVersion nat
  | UnsupportedPageSize nat
  | FreeListMismatch
  | FreePageOutOfRange nat
  | FreeListCycle nat
  | CannotMapEmpty
  | DiskFull
  | PageSizeMismatch nat nat
  | InvalidNodeType nat byte
  | DirectoryOverflow nat
  | EmptyEntryKey nat nat
  | KeyOutOfRange nat nat
  | ValueOutOfRange nat nat
  | KeysOutOfOrder nat
  | BranchEntryNoChild nat nat
  | NodeDoesNotFit nat
  | NotABranch nat
  | BranchEmpty nat
  | KeyRequired
  | UnsupportedNodeType byte
  | ReachableOutOfRange nat
  | WalTooShort
  | InvalidWalMagic
  | DatabaseClosed
  | RootMissing
  | TxReadOnly
  | RollbackFailed kv_error kv_error
  | InvalidBucketName
  | InvalidBucketKey
  | IndexPanic
  | OutOfFuel
  | CallbackError string

definition PageSize :: nat where "PageSize = 4096"

definition pagerMagic :: bytes where "pagerMagic = [0x4B, 0x52, 0x4B, 0x56]"

definition pagerVersion :: nat where "pagerVersion = 1"

definition metaPageID :: nat where "metaPageID = 0"

record pager =
  contents :: bytes
  mapped :: bool
  disk_limit :: nat
  PageCount :: nat
  FreeHead :: nat
  FreeCount :: nat
  RootPage :: nat
  freeSet :: "nat set"
  closed :: bool

definition pager_data :: "pager \<Rightarrow> bytes" where
  "pager_data p = (if mapped p then contents p else [])"

definition zeroPage :: bytes where
  "zeroPage = replicate PageSize 0"

section \<open>Operations\<close>

definition ensureOpen :: "pager \<Rightarrow> kv_error + unit" where
  "ensureOpen p =
     (if closed p then Inl PagerClosed
      else if \<not> mapped p then Inl PagerNotOpen
      else Inr ())"

definition pageLocked :: "pager \<Rightarrow> nat \<Rightarrow> kv_error + bytes" where
  "pageLocked p i =
     (if i \<ge> PageCount p then Inl (PageOutOfRange i)
      else Inr (slice (pager_data p) (i * PageSize) PageSize))"

text \<open>Writing through the slice that \<open>pageLocked\<close> returned.\<close>

definition setPage :: "nat \<Rightarrow> bytes \<Rightarrow> pager \<Rightarrow> pager" where
  "setPage i page p = p\<lparr>contents := splice (contents p) (i * PageSize) page\<rparr>"

definition metaPage :: "pager \<Rightarrow> bytes" where
  "metaPage p =
     pagerMagic @ putLE 2 pagerVersion @ putLE 2 PageSize @ putLE 8 (PageCount p)
       @ putLE 8 (FreeHead p) @ putLE 8 (FreeCount p) @ putLE 8 (RootPage p)
       @ replicate (PageSize - 40) 0"

definition writeMeta :: "(pager, kv_error, unit) op" where
  "writeMeta p =
     (if length (pager_data p) < PageSize then (Inl MappingTooSmall, p)
      else (Inr (), setPage 0 (metaPage p) p))"

definition readMeta :: "(pager, kv_error, unit) op" where
  "readMeta p =
     (if length (pager_data p) < PageSize then (Inl MappingTooSmall, p)
      else
        let page = slice (pager_data p) 0 PageSize;
            version = getLE (slice page 4 2);
            pageSize = getLE (slice page 6 2)
        in if slice page 0 4 \<noteq> pagerMagic then (Inl InvalidMagic, p)
           else if version \<noteq> pagerVersion then (Inl (UnsupportedVersion version), p)
           else if pageSize \<noteq> PageSize then (Inl (UnsupportedPageSize pageSize), p)
           else (Inr (), p\<lparr>PageCount := getLE (slice page 8 8),
                           FreeHead := getLE (slice page 16 8),
                           FreeCount := getLE (slice page 24 8),
                           RootPage := getLE (slice page 32 8)\<rparr>))"

definition unmap :: "pager \<Rightarrow> pager" where
  "unmap p = p\<lparr>mapped := False\<rparr>"

definition mapFile :: "(pager, kv_error, unit) op" where
  "mapFile p = (if contents p = [] then (Inl CannotMapEmpty, p) else (Inr (), p\<lparr>mapped := True\<rparr>))"

definition truncateFile :: "nat \<Rightarrow> (pager, kv_error, unit) op" where
  "truncateFile sz p =
     (if sz > disk_limit p then (Inl DiskFull, p)
      else (Inr (), p\<lparr>contents := take sz (contents p) @ replicate (sz - length (contents p)) 0\<rparr>))"

definition resize :: "nat \<Rightarrow> (pager, kv_error, unit) op" where
  "resize sz p = bindE (truncateFile sz) (\<lambda>_. mapFile) (unmap p)"

text \<open>The loop of \<open>rebuildFreeSet\<close>; the second argument is \<open>FreeCount - seen\<close>.\<close>

fun rebuildLoop :: "pager \<Rightarrow> nat \<Rightarrow> nat \<Rightarrow> nat set \<Rightarrow> kv_error + nat set" where
  "rebuildLoop p 0 i fs = (if i = 0 then Inr fs else Inl FreeListMismatch)"
| "rebuildLoop p (Suc left) i fs =
     (if i = 0 then Inr fs
      else if i \<ge> PageCount p then Inl (FreePageOutOfRange i)
      else if i \<in> fs then Inl (FreeListCycle i)
      else (case pageLocked p i of
              Inl e \<Rightarrow> Inl e
            | Inr page \<Rightarrow> rebuildLoop p left (getLE (slice page 0 8)) (insert i fs)))"

definition rebuildFreeSet :: "(pager, kv_error, unit) op" where
  "rebuildFreeSet p =
     (case rebuildLoop p (FreeCount p) (FreeHead p) {} of
        Inl e \<Rightarrow> (Inl e, p)
      | Inr fs \<Rightarrow>
          if card fs \<noteq> FreeCount p then (Inl FreeListMismatch, p\<lparr>freeSet := fs\<rparr>)
          else (Inr (), p\<lparr>freeSet := fs\<rparr>))"

text \<open>\<open>OpenPager\<close> on a file with the given contents (empty when the open created it).\<close>

definition initPager :: "nat \<Rightarrow> bytes \<Rightarrow> pager" where
  "initPager limit bs =
     \<lparr>contents = bs, mapped = False, disk_limit = limit, PageCount = 0, FreeHead = 0,
      FreeCount = 0, RootPage = 0, freeSet = {}, closed = False\<rparr>"

definition pager_open :: "(pager, kv_error, unit) op" where
  "pager_open p =
     (let sz = length (contents p) in
      if sz = 0 then
        bindE (truncateFile PageSize) (\<lambda>_.
        bindE mapFile (\<lambda>_ q. writeMeta (q\<lparr>PageCount := 1, FreeHead := 0, FreeCount := 0, RootPage := 0\<rparr>))) p
      else if sz mod PageSize \<noteq> 0 then (Inl (InvalidFileSize sz), p)
      else
        bindE mapFile (\<lambda>_.
        bindE readMeta (\<lambda>_ q.
          if PageCount q = 0 \<or> PageCount q > sz div PageSize
          then (Inl (InvalidPageCount (PageCount q) sz), unmap q)
          else rebuildFreeSet q)) p)"

definition OpenPager :: "nat \<Rightarrow> bytes \<Rightarrow> kv_error + pager" where
  "OpenPager limit bs =
     (case pager_open (initPager limit bs) of
        (Inl e, _) \<Rightarrow> Inl e
      | (Inr _, p) \<Rightarrow> Inr p)"

text \<open>\<open>Close\<close> runs every step and returns the first error.\<close>

definition Close :: "(pager, kv_error, unit) op" where
  "Close p =
     (if closed p then (Inr (), p)
      else (case writeMeta p of (r, q) \<Rightarrow> (r, (unmap q)\<lparr>closed := True\<rparr>)))"

definition Flush :: "(pager, kv_error, unit) op" where
  "Flush = bindE (queryE ensureOpen) (\<lambda>_. writeMeta)"

definition AllocPage :: "(pager, kv_error, nat) op" where
  "AllocPage p =
     (case ensureOpen p of Inl e \<Rightarrow> (Inl e, p) | Inr _ \<Rightarrow>
      if FreeHead p \<noteq> 0 then
        (let i = FreeHead p in
         case pageLocked p i of Inl e \<Rightarrow> (Inl e, p) | Inr page \<Rightarrow>
           bindE writeMeta (\<lambda>_. returnE i)
             (setPage i zeroPage
               (p\<lparr>freeSet := freeSet p - {i}, FreeHead := getLE (slice page 0 8),
                  FreeCount := dec64 (FreeCount p)\<rparr>)))
      else
        (let i = PageCount p; p1 = p\<lparr>PageCount := inc64 (PageCount p)\<rparr> in
         case resize (PageCount p1 * PageSize) p1 of
           (Inl e, p2) \<Rightarrow> (Inl e, p2\<lparr>PageCount := dec64 (PageCount p2)\<rparr>)
         | (Inr _, p2) \<Rightarrow>
             (case pageLocked p2 i of Inl e \<Rightarrow> (Inl e, p2) | Inr _ \<Rightarrow>
                bindE writeMeta (\<lambda>_. returnE i) (setPage i zeroPage p2))))"

definition FreePage :: "nat \<Rightarrow> (pager, kv_error, unit) op" where
  "FreePage i p =
     (case ensureOpen p of Inl e \<Rightarrow> (Inl e, p) | Inr _ \<Rightarrow>
      if i = metaPageID then (Inl CannotFreeMeta, p)
      else if i \<ge> PageCount p then (Inl (PageOutOfRange i), p)
      else if i \<in> freeSet p then (Inl (PageAlreadyFree i), p)
      else (case pageLocked p i of Inl e \<Rightarrow> (Inl e, p) | Inr _ \<Rightarrow>
        writeMeta
          ((setPage i (splice zeroPage 0 (putLE 8 (FreeHead p))) p)
             \<lparr>FreeHead := i, FreeCount := inc64 (FreeCount p), freeSet := insert i (freeSet p)\<rparr>)))"

definition Page :: "pager \<Rightarrow> nat \<Rightarrow> kv_error + bytes" where
  "Page p i = (case ensureOpen p of Inl e \<Rightarrow> Inl e | Inr _ \<Rightarrow> pageLocked p i)"

definition IsFree :: "pager \<Rightarrow> nat \<Rightarrow> bool" where
  "IsFree p i \<longleftrightarrow> i \<in> freeSet p"

definition SetRootPage :: "nat \<Rightarrow> (pager, kv_error, unit) op" where
  "SetRootPage i p =
     (case ensureOpen p of Inl e \<Rightarrow> (Inl e, p) | Inr _ \<Rightarrow>
      if i \<noteq> 0 \<and> i \<ge> PageCount p then (Inl (RootOutOfRange i), p)
      else writeMeta (p\<lparr>RootPage := i\<rparr>))"

section \<open>Pages and the free list\<close>

definition page_at :: "pager \<Rightarrow> nat \<Rightarrow> bytes" where
  "page_at p i = slice (contents p) (i * PageSize) PageSize"

definition nextFree :: "pager \<Rightarrow> nat \<Rightarrow> nat" where
  "nextFree p i = getLE (slice (page_at p i) 0 8)"

fun free_chain :: "pager \<Rightarrow> nat \<Rightarrow> nat list \<Rightarrow> bool" where
  "free_chain p h [] \<longleftrightarrow> h = 0"
| "free_chain p h (x # xs) \<longleftrightarrow> h = x \<and> x \<noteq> 0 \<and> free_chain p (nextFree p x) xs"

text \<open>The pages handed out and not returned.\<close>

definition live :: "pager \<Rightarrow> nat set" where
  "live p = {i. 0 < i \<and> i < PageCount p \<and> i \<notin> freeSet p}"

definition pager_sized :: "pager \<Rightarrow> bool" where
  "pager_sized p \<longleftrightarrow>
     \<not> closed p \<and> mapped p \<and> 1 \<le> PageCount p \<and> length (contents p) mod PageSize = 0 \<and>
     PageCount p * PageSize \<le> length (contents p) \<and> length (contents p) \<le> disk_limit p \<and>
     disk_limit p < 2 ^ 63"

definition free_list_ok :: "pager \<Rightarrow> bool" where
  "free_list_ok p \<longleftrightarrow>
     (\<exists>xs. free_chain p (FreeHead p) xs \<and> distinct xs \<and> set xs = freeSet p \<and>
        length xs = FreeCount p \<and> (\<forall>x \<in> set xs. x < PageCount p))"

definition pager_core :: "pager \<Rightarrow> bool" where
  "pager_core p \<longleftrightarrow> pager_sized p \<and> free_list_ok p \<and> RootPage p < PageCount p"

definition pager_inv :: "pager \<Rightarrow> bool" where
  "pager_inv p \<longleftrightarrow> pager_core p \<and> page_at p 0 = metaPage p"

lemma PageSize_pos [simp]: "0 < PageSize" "PageSize \<noteq> 0"
  by (simp_all add: PageSize_def)

lemma length_zeroPage [simp]: "length zeroPage = PageSize"
  by (simp add: zeroPage_def)

lemma length_metaPage [simp]: "length (metaPage p) = PageSize"
  by (simp add: metaPage_def pagerMagic_def PageSize_def)

lemma page_bound:
  assumes "pager_sized p" "i < PageCount p"
  shows "i * PageSize + PageSize \<le> length (contents p)"
proof -
  have "i * PageSize + PageSize = Suc i * PageSize" by simp
  also have "\<dots> \<le> PageCount p * PageSize" using assms(2) by (intro mult_le_mono1) simp
  also have "\<dots> \<le> length (contents p)" using assms(1) by (simp add: pager_sized_def)
  finally show ?thesis .
qed

lemma page_disjoint: "i < j \<Longrightarrow> i * PageSize + PageSize \<le> j * PageSize"
proof -
  assume "i < j"
  then have "Suc i * PageSize \<le> j * PageSize" by (intro mult_le_mono1) simp
  then show ?thesis by simp
qed

lemma length_page_at: "pager_sized p \<Longrightarrow> i < PageCount p \<Longrightarrow> length (page_at p i) = PageSize"
  using page_bound [of p i] by (simp add: page_at_def)

lemma setPage_fields [simp]:
  "mapped (setPage i b p) = mapped p" "disk_limit (setPage i b p) = disk_limit p"
  "PageCount (setPage i b p) = PageCount p" "FreeHead (setPage i b p) = FreeHead p"
  "FreeCount (setPage i b p) = FreeCount p" "RootPage (setPage i b p) = RootPage p"
  "freeSet (setPage i b p) = freeSet p" "closed (setPage i b p) = closed p"
  "metaPage (setPage i b p) = metaPage p" "live (setPage i b p) = live p"
  by (simp_all add: setPage_def metaPage_def live_def)

lemma page_at_setPage:
  assumes "pager_sized p" "i < PageCount p" "j < PageCount p" "length b = PageSize"
  shows "page_at (setPage i b p) j = (if j = i then b else page_at p j)"
proof -
  consider "j = i" | "j < i" | "i < j" by linarith
  then show ?thesis
  proof cases
    case 1
    then show ?thesis using page_bound [OF assms(1,2)] assms(4)
      by (simp add: page_at_def setPage_def slice_splice_same)
  next
    case 2
    then show ?thesis using page_bound [OF assms(1,2)] page_disjoint [of j i] assms(4)
      by (simp add: page_at_def setPage_def slice_splice_before)
  next
    case 3
    then show ?thesis using page_bound [OF assms(1,3)] page_disjoint [of i j] assms(4)
      by (simp add: page_at_def setPage_def slice_splice_after)
  qed
qed

lemma pager_sized_setPage:
  assumes "pager_sized p" "i < PageCount p" "length b = PageSize"
  shows "pager_sized (setPage i b p)"
  using assms page_bound [OF assms(1,2)] by (simp add: pager_sized_def setPage_def)

lemma free_chain_cong:
  assumes "free_chain p h xs" "\<And>x. x \<in> set xs \<Longrightarrow> page_at q x = page_at p x"
  shows "free_chain q h xs"
  using assms by (induction xs arbitrary: h) (auto simp: nextFree_def)

lemma free_chain_no_zero: "free_chain p h xs \<Longrightarrow> 0 \<notin> set xs"
  by (induction xs arbitrary: h) auto

lemma pageLocked_eq:
  "pager_sized p \<Longrightarrow> i < PageCount p \<Longrightarrow> pageLocked p i = Inr (page_at p i)"
  by (simp add: pageLocked_def pager_data_def page_at_def pager_sized_def)

lemma ensureOpen_sized: "pager_sized p \<Longrightarrow> ensureOpen p = Inr ()"
  by (simp add: ensureOpen_def pager_sized_def)

lemma Page_eq: "pager_sized p \<Longrightarrow> i < PageCount p \<Longrightarrow> Page p i = Inr (page_at p i)"
  by (simp add: Page_def ensureOpen_sized pageLocked_eq)

lemma writeMeta_eq: "pager_sized p \<Longrightarrow> writeMeta p = (Inr (), setPage 0 (metaPage p) p)"
  using page_bound [of p 0] by (simp add: writeMeta_def pager_data_def pager_sized_def)

text \<open>Once the other fields are consistent, writing the metadata page restores the invariant.\<close>

lemma writeMeta_inv:
  assumes "pager_core p"
  shows "writeMeta p = (Inr (), setPage 0 (metaPage p) p)"
    and "pager_inv (setPage 0 (metaPage p) p)"
    and "\<And>j. j \<in> live p \<Longrightarrow> page_at (setPage 0 (metaPage p) p) j = page_at p j"
proof -
  from assms have sz: "pager_sized p" and fl: "free_list_ok p" and rt: "RootPage p < PageCount p"
    by (auto simp: pager_core_def)
  show "writeMeta p = (Inr (), setPage 0 (metaPage p) p)" by (rule writeMeta_eq [OF sz])
  have z: "0 < PageCount p" using sz by (simp add: pager_sized_def)
  have other: "page_at (setPage 0 (metaPage p) p) j = page_at p j" if "j < PageCount p" "j \<noteq> 0" for j
    using page_at_setPage [OF sz z that(1)] that(2) by simp
  then show "\<And>j. j \<in> live p \<Longrightarrow> page_at (setPage 0 (metaPage p) p) j = page_at p j"
    by (simp add: live_def)
  from fl obtain xs where xs: "free_chain p (FreeHead p) xs" "distinct xs" "set xs = freeSet p"
      "length xs = FreeCount p" "\<forall>x \<in> set xs. x < PageCount p"
    by (auto simp: free_list_ok_def)
  have "free_chain (setPage 0 (metaPage p) p) (FreeHead p) xs"
    by (rule free_chain_cong [OF xs(1)])
       (use xs(5) free_chain_no_zero [OF xs(1)] in \<open>auto intro!: other intro: gr0I\<close>)
  with xs have "free_list_ok (setPage 0 (metaPage p) p)"
    by (auto simp: free_list_ok_def)
  moreover have "page_at (setPage 0 (metaPage p) p) 0 = metaPage p"
    using page_at_setPage [OF sz z z] by simp
  ultimately show "pager_inv (setPage 0 (metaPage p) p)"
    using pager_sized_setPage [OF sz z] rt by (simp add: pager_inv_def pager_core_def)
qed

lemma pager_invD:
  assumes "pager_inv p"
  shows "pager_core p" "pager_sized p" "free_list_ok p" "RootPage p < PageCount p"
    "0 < PageCount p" "page_at p 0 = metaPage p"
  using assms by (auto simp: pager_inv_def pager_core_def pager_sized_def)

lemma PageCount_small: "pager_sized p \<Longrightarrow> PageCount p < 2 ^ 51"
  by (simp add: pager_sized_def PageSize_def)

lemma free_count_small:
  assumes "pager_sized p" "free_list_ok p"
  shows "FreeCount p < PageCount p"
proof -
  from assms obtain xs where xs: "free_chain p (FreeHead p) xs" "distinct xs"
      "length xs = FreeCount p" "\<forall>x \<in> set xs. x < PageCount p"
    by (auto simp: free_list_ok_def)
  have "set xs \<subseteq> {1..<PageCount p}" using xs(4) free_chain_no_zero [OF xs(1)]
    by (auto simp: Suc_le_eq intro: gr0I)
  then have "card (set xs) \<le> PageCount p - 1" using card_mono [of "{1..<PageCount p}" "set xs"] by simp
  moreover have "1 \<le> PageCount p" using assms(1) by (simp add: pager_sized_def)
  ultimately show ?thesis using xs(2,3) by (simp add: distinct_card)
qed

text \<open>Overwriting a page that is in use.\<close>

lemma setPage_inv:
  assumes "pager_inv p" "i \<in> live p" "length b = PageSize"
  shows "pager_inv (setPage i b p)"
    and "\<And>j. j \<in> live p \<Longrightarrow> page_at (setPage i b p) j = (if j = i then b else page_at p j)"
proof -
  note inv = pager_invD [OF assms(1)]
  from assms(2) have i: "i < PageCount p" "i \<noteq> 0" "i \<notin> freeSet p" by (auto simp: live_def)
  show "\<And>j. j \<in> live p \<Longrightarrow> page_at (setPage i b p) j = (if j = i then b else page_at p j)"
    using page_at_setPage [OF inv(2) i(1) _ assms(3)] by (simp add: live_def)
  from inv(3) obtain xs where xs: "free_chain p (FreeHead p) xs" "distinct xs" "set xs = freeSet p"
      "length xs = FreeCount p" "\<forall>x \<in> set xs. x < PageCount p"
    by (auto simp: free_list_ok_def)
  have "free_chain (setPage i b p) (FreeHead p) xs"
    by (rule free_chain_cong [OF xs(1)])
       (use xs(3,5) i in \<open>auto simp: page_at_setPage [OF inv(2) i(1) _ assms(3)]\<close>)
  with xs have "free_list_ok (setPage i b p)" by (auto simp: free_list_ok_def)
  then show "pager_inv (setPage i b p)"
    using pager_sized_setPage [OF inv(2) i(1) assms(3)] inv i
      page_at_setPage [OF inv(2) i(1) inv(5) assms(3)]
    by (simp add: pager_inv_def pager_core_def)
qed

section \<open>What the operations do\<close>

lemma SetRootPage_ok:
  assumes "pager_inv p" "i < PageCount p"
  obtains q where "SetRootPage i p = (Inr (), q)" "pager_inv q" "RootPage q = i" "live q = live p"
    "disk_limit q = disk_limit p" "\<And>j. j \<in> live p \<Longrightarrow> page_at q j = page_at p j"
proof -
  note inv = pager_invD [OF assms(1)]
  let ?p = "p\<lparr>RootPage := i\<rparr>"
  have chain: "free_chain ?p h xs = free_chain p h xs" for h xs
    by (induction xs arbitrary: h) (auto simp: nextFree_def page_at_def)
  have "pager_core ?p"
    using inv assms(2) by (simp add: pager_core_def pager_sized_def free_list_ok_def chain)
  note w = writeMeta_inv [OF this]
  have "SetRootPage i p = (Inr (), setPage 0 (metaPage ?p) ?p)"
    using assms(2) w(1) by (simp add: SetRootPage_def ensureOpen_sized [OF inv(2)])
  then show thesis
    by (rule that) (use w in \<open>auto simp: live_def page_at_def\<close>)
qed

lemma FreePage_ok:
  assumes "pager_inv p" "i \<in> live p"
  obtains q where "FreePage i p = (Inr (), q)" "pager_inv q" "live q = live p - {i}"
    "freeSet q = insert i (freeSet p)" "PageCount q = PageCount p" "disk_limit q = disk_limit p"
    "RootPage q = RootPage p" "\<And>j. j \<in> live p \<Longrightarrow> j \<noteq> i \<Longrightarrow> page_at q j = page_at p j"
proof -
  note inv = pager_invD [OF assms(1)]
  from assms(2) have i: "i < PageCount p" "i \<noteq> 0" "i \<notin> freeSet p" by (auto simp: live_def)
  let ?b = "splice zeroPage 0 (putLE 8 (FreeHead p))"
  let ?q = "(setPage i ?b p)\<lparr>FreeHead := i, FreeCount := inc64 (FreeCount p), freeSet := insert i (freeSet p)\<rparr>"
  have lb: "length ?b = PageSize" by (simp add: PageSize_def)
  note pg = page_at_setPage [OF inv(2) i(1) _ lb]
  have pq: "page_at ?q j = page_at (setPage i ?b p) j" for j by (simp add: page_at_def)
  from inv(3) obtain xs where xs: "free_chain p (FreeHead p) xs" "distinct xs" "set xs = freeSet p"
      "length xs = FreeCount p" "\<forall>x \<in> set xs. x < PageCount p"
    by (auto simp: free_list_ok_def)
  have head: "FreeHead p < 256 ^ 8"
  proof (cases xs)
    case Nil
    with xs(1) show ?thesis by simp
  next
    case (Cons y ys)
    then have "FreeHead p < PageCount p" using xs(1,5) by simp
    then show ?thesis using PageCount_small [OF inv(2)] by simp
  qed
  have "nextFree ?q i = FreeHead p"
    using head by (simp add: nextFree_def pq pg i lb slice_splice_same PageSize_def getLE_putLE_small)
  moreover have "free_chain ?q (FreeHead p) xs"
    by (rule free_chain_cong [OF xs(1)]) (use xs(3,5) i in \<open>auto simp: pq pg\<close>)
  ultimately have "free_chain ?q i (i # xs)" using i by simp
  moreover have "inc64 (FreeCount p) = Suc (FreeCount p)"
    using free_count_small [OF inv(2,3)] PageCount_small [OF inv(2)] by (simp add: inc64_def)
  ultimately have "free_list_ok ?q"
    unfolding free_list_ok_def using xs i by (intro exI [of _ "i # xs"]) auto
  moreover have "pager_sized ?q"
    using pager_sized_setPage [OF inv(2) i(1) lb] by (simp add: pager_sized_def)
  ultimately have "pager_core ?q" using inv(4) by (simp add: pager_core_def)
  note w = writeMeta_inv [OF this]
  have "FreePage i p = (Inr (), setPage 0 (metaPage ?q) ?q)"
    using i w(1)
    by (simp add: FreePage_def ensureOpen_sized [OF inv(2)] pageLocked_eq [OF inv(2)] metaPageID_def)
  moreover have "live ?q = live p - {i}" by (auto simp: live_def)
  moreover have "page_at (setPage 0 (metaPage ?q) ?q) j = page_at p j" if "j \<in> live p" "j \<noteq> i" for j
  proof -
    have "j \<in> live ?q" "j < PageCount p" using that by (auto simp: live_def)
    then show ?thesis using w(3) [of j] that by (simp add: pq pg)
  qed
  ultimately show thesis
    using that [of "setPage 0 (metaPage ?q) ?q"] w(2) by simp
qed

text \<open>Freeing the metadata page, a page beyond the file or a free page is refused.\<close>

lemma FreePage_refused:
  assumes "pager_inv p" "i \<notin> live p"
  shows "\<exists>e. FreePage i p = (Inl e, p)"
  using assms(2) ensureOpen_sized [OF pager_invD(2) [OF assms(1)]]
  by (auto simp: FreePage_def live_def metaPageID_def)

lemma AllocPage_reuse:
  assumes "pager_inv p" "FreeHead p \<noteq> 0"
  obtains q where "AllocPage p = (Inr (FreeHead p), q)" "pager_inv q" "FreeHead p \<in> freeSet p"
    "live q = insert (FreeHead p) (live p)" "disk_limit q = disk_limit p" "RootPage q = RootPage p"
    "PageCount q = PageCount p" "freeSet q = freeSet p - {FreeHead p}"
    "page_at q (FreeHead p) = zeroPage" "\<And>j. j \<in> live p \<Longrightarrow> page_at q j = page_at p j"
proof -
  note inv = pager_invD [OF assms(1)]
  let ?i = "FreeHead p"
  from inv(3) obtain ys where ys: "free_chain p ?i ys" "distinct ys" "set ys = freeSet p"
      "length ys = FreeCount p" "\<forall>x \<in> set ys. x < PageCount p"
    by (auto simp: free_list_ok_def)
  with assms(2) obtain xs where xs: "ys = ?i # xs" by (cases ys) auto
  with ys have i: "?i < PageCount p" "?i \<in> freeSet p" "?i \<notin> set xs" by auto
  let ?r = "p\<lparr>freeSet := freeSet p - {?i}, FreeHead := nextFree p ?i, FreeCount := dec64 (FreeCount p)\<rparr>"
  let ?q = "setPage ?i zeroPage ?r"
  have szr: "pager_sized ?r" using inv(2) by (simp add: pager_sized_def)
  have pr: "page_at ?r j = page_at p j" for j by (simp add: page_at_def)
  have pg: "page_at ?q j = (if j = ?i then zeroPage else page_at p j)" if "j < PageCount p" for j
    using page_at_setPage [of ?r ?i j zeroPage] szr i(1) that by (simp add: pr)
  have "free_chain ?q (nextFree p ?i) xs"
  proof (rule free_chain_cong [of p])
    show "free_chain p (nextFree p ?i) xs" using ys(1) xs by simp
    show "page_at ?q x = page_at p x" if "x \<in> set xs" for x
      using pg [of x] that i(3) ys(5) xs by auto
  qed
  moreover have "FreeCount p < 2 ^ 64"
    using free_count_small [OF inv(2,3)] PageCount_small [OF inv(2)] by simp
  moreover have "0 < FreeCount p" using ys(4) xs by (cases "FreeCount p") auto
  ultimately have "free_list_ok ?q"
    unfolding free_list_ok_def using ys xs
    by (intro exI [of _ xs]) (auto simp: dec64_pos)
  moreover have "pager_sized ?q" by (rule pager_sized_setPage [OF szr]) (simp_all add: i)
  ultimately have core: "pager_core ?q" using inv(4) by (simp add: pager_core_def)
  note w = writeMeta_inv [OF core]
  have "AllocPage p = (Inr ?i, setPage 0 (metaPage ?q) ?q)"
    using assms(2) w(1)
    by (simp add: AllocPage_def ensureOpen_sized [OF inv(2)] pageLocked_eq [OF inv(2) i(1)] nextFree_def Let_def)
  moreover have "live ?q = insert ?i (live p)" using i assms(2) by (auto simp: live_def)
  moreover have "page_at (setPage 0 (metaPage ?q) ?q) ?i = zeroPage"
    using w(3) [of ?i] i assms(2) pg by (simp add: live_def)
  moreover have "page_at (setPage 0 (metaPage ?q) ?q) j = page_at p j" if "j \<in> live p" for j
  proof -
    have "j \<in> live ?q" "j < PageCount p" "j \<noteq> ?i" using that i by (auto simp: live_def)
    then show ?thesis using w(3) [of j] by (simp add: pg)
  qed
  ultimately show thesis
    using that [of "setPage 0 (metaPage ?q) ?q"] w(2) i by simp
qed

lemma AllocPage_grow:
  assumes "pager_inv p" "FreeHead p = 0" "(PageCount p + 1) * PageSize \<le> disk_limit p"
  obtains q where "AllocPage p = (Inr (PageCount p), q)" "pager_inv q"
    "live q = insert (PageCount p) (live p)" "disk_limit q = disk_limit p" "RootPage q = RootPage p"
    "PageCount q = PageCount p + 1" "freeSet q = freeSet p"
    "page_at q (PageCount p) = zeroPage" "\<And>j. j \<in> live p \<Longrightarrow> page_at q j = page_at p j"
proof -
  note inv = pager_invD [OF assms(1)]
  let ?i = "PageCount p" let ?n = "(PageCount p + 1) * PageSize"
  have inc: "inc64 ?i = ?i + 1" using PageCount_small [OF inv(2)] by (simp add: inc64_def)
  obtain C where C: "C = take ?n (contents p) @ replicate (?n - length (contents p)) 0" by blast
  then have len: "length C = ?n" by simp
  let ?r = "p\<lparr>contents := C, PageCount := ?i + 1\<rparr>"
  let ?q = "setPage ?i zeroPage ?r"
  have mp: "mapped p" and lim: "disk_limit p < 2 ^ 63" using inv(2) by (auto simp: pager_sized_def)
  have szr: "pager_sized ?r"
    using inv(2) assms(3) by (simp add: pager_sized_def len del: mult_Suc)
  have old: "j * PageSize + PageSize \<le> min ?n (length (contents p))" if "j < ?i" for j
    using page_bound [OF inv(2) that] page_disjoint [of j ?i] that by simp
  have pr: "page_at ?r j = page_at p j" if "j < ?i" for j
    unfolding page_at_def using old [OF that] len
    by (intro slice_eqI) (auto simp: C nth_append PageSize_def)
  have pg: "page_at ?q j = (if j = ?i then zeroPage else page_at p j)" if "j < ?i + 1" for j
    using page_at_setPage [of ?r ?i j zeroPage] szr that pr [of j] by auto
  from inv(3) obtain xs where xs: "free_chain p (FreeHead p) xs" "distinct xs" "set xs = freeSet p"
      "length xs = FreeCount p" "\<forall>x \<in> set xs. x < PageCount p"
    by (auto simp: free_list_ok_def)
  have "free_chain ?q (FreeHead p) xs"
    by (rule free_chain_cong [OF xs(1)]) (use xs(5) pg in fastforce)
  then have "free_list_ok ?q"
    unfolding free_list_ok_def using xs by (intro exI [of _ xs]) auto
  moreover have "pager_sized ?q" by (rule pager_sized_setPage [OF szr]) simp_all
  ultimately have "pager_core ?q" using inv(4) by (simp add: pager_core_def)
  note w = writeMeta_inv [OF this]
  have "C \<noteq> []" using len by auto
  then have rs: "resize ?n (p\<lparr>PageCount := ?i + 1\<rparr>) = (Inr (), ?r)"
    using assms(3) mp
    by (cases p) (simp add: resize_def bindE_def truncateFile_def mapFile_def unmap_def C del: mult_Suc)
  have "AllocPage p = (Inr ?i, setPage 0 (metaPage ?q) ?q)"
    using assms(2) w(1) rs pageLocked_eq [OF szr, of ?i]
    by (simp add: AllocPage_def ensureOpen_sized [OF inv(2)] Let_def inc del: mult_Suc)
  moreover have "?i \<notin> freeSet p" using xs(3,5) by auto
  moreover from this have "live ?q = insert ?i (live p)" using inv(5) by (auto simp: live_def)
  moreover from this have "page_at (setPage 0 (metaPage ?q) ?q) ?i = zeroPage"
    using w(3) [of ?i] pg [of ?i] by simp
  moreover have "page_at (setPage 0 (metaPage ?q) ?q) j = page_at p j" if "j \<in> live p" for j
  proof -
    have "j \<in> live ?q" "j < ?i" using that by (auto simp: live_def)
    then show ?thesis using w(3) [of j] pg [of j] by simp
  qed
  ultimately show thesis
    using that [of "setPage 0 (metaPage ?q) ?q"] w(2) by simp
qed

text \<open>When the file cannot grow, \<open>AllocPage\<close> fails and leaves the pager unmapped: \<open>resize\<close>
  unmaps before it truncates, so every later operation reports that the pager is not open.\<close>

lemma AllocPage_full:
  assumes "pager_inv p" "FreeHead p = 0" "(PageCount p + 1) * PageSize > disk_limit p"
  shows "AllocPage p = (Inl DiskFull, unmap p)"
proof -
  note inv = pager_invD [OF assms(1)]
  have inc: "inc64 (PageCount p) = PageCount p + 1"
    using PageCount_small [OF inv(2)] by (simp add: inc64_def)
  have dec: "dec64 (PageCount p + 1) = PageCount p"
    using PageCount_small [OF inv(2)] by (subst dec64_pos) simp_all
  show ?thesis
    using assms(2,3) dec
    by (simp add: AllocPage_def ensureOpen_sized [OF inv(2)] Let_def inc resize_def bindE_def
        truncateFile_def unmap_def del: mult_Suc)
qed

text \<open>The law of allocation the B+Tree relies on.\<close>

lemma AllocPage_Inr:
  assumes "pager_inv p" "AllocPage p = (Inr i, q)"
  shows "pager_inv q" "i \<notin> live p" "live q = insert i (live p)" "disk_limit q = disk_limit p"
    "RootPage q = RootPage p" "page_at q i = zeroPage"
    "\<And>j. j \<in> live p \<Longrightarrow> page_at q j = page_at p j"
proof -
  consider (reuse) "FreeHead p \<noteq> 0"
    | (grow) "FreeHead p = 0" "(PageCount p + 1) * PageSize \<le> disk_limit p"
    | (full) "FreeHead p = 0" "(PageCount p + 1) * PageSize > disk_limit p"
    by linarith
  then have "pager_inv q \<and> i \<notin> live p \<and> live q = insert i (live p) \<and> disk_limit q = disk_limit p \<and>
    RootPage q = RootPage p \<and> page_at q i = zeroPage \<and> (\<forall>j \<in> live p. page_at q j = page_at p j)"
  proof cases
    case reuse
    obtain q' where q': "AllocPage p = (Inr (FreeHead p), q')" "pager_inv q'" "FreeHead p \<in> freeSet p"
        "live q' = insert (FreeHead p) (live p)" "disk_limit q' = disk_limit p" "RootPage q' = RootPage p"
        "page_at q' (FreeHead p) = zeroPage" "\<And>j. j \<in> live p \<Longrightarrow> page_at q' j = page_at p j"
      using AllocPage_reuse [OF assms(1) reuse] by metis
    moreover have "i = FreeHead p" "q = q'" using q'(1) assms(2) by auto
    ultimately show ?thesis by (simp add: live_def)
  next
    case grow
    obtain q' where q': "AllocPage p = (Inr (PageCount p), q')" "pager_inv q'"
        "live q' = insert (PageCount p) (live p)" "disk_limit q' = disk_limit p" "RootPage q' = RootPage p"
        "page_at q' (PageCount p) = zeroPage" "\<And>j. j \<in> live p \<Longrightarrow> page_at q' j = page_at p j"
      using AllocPage_grow [OF assms(1) grow] by metis
    moreover have "i = PageCount p" "q = q'" using q'(1) assms(2) by auto
    ultimately show ?thesis by (simp add: live_def)
  next
    case full
    then show ?thesis using AllocPage_full [OF assms(1) full] assms(2) by simp
  qed
  then show "pager_inv q" "i \<notin> live p" "live q = insert i (live p)" "disk_limit q = disk_limit p"
    "RootPage q = RootPage p" "page_at q i = zeroPage"
    "\<And>j. j \<in> live p \<Longrightarrow> page_at q j = page_at p j"
    by auto
qed

section \<open>Reopening\<close>

lemma rebuildLoop_chain:
  assumes "pager_sized p" "free_chain p h xs" "distinct xs" "set xs \<inter> fs = {}"
    "\<forall>x \<in> set xs. x < PageCount p" "length xs \<le> n"
  shows "rebuildLoop p n h fs = Inr (set xs \<union> fs)"
  using assms(2-)
proof (induction xs arbitrary: h n fs)
  case Nil
  then show ?case by (cases n) auto
next
  case (Cons x xs)
  then obtain m where m: "n = Suc m" "length xs \<le> m" by (cases n) auto
  have "rebuildLoop p m (nextFree p x) (insert x fs) = Inr (set xs \<union> insert x fs)"
    by (rule Cons.IH) (use Cons.prems m in auto)
  then show ?case
    using Cons.prems m pageLocked_eq [OF assms(1), of x] by (auto simp: nextFree_def)
qed

lemma metaPage_fields:
  assumes "pager_sized p" "free_list_ok p" "RootPage p < PageCount p" "page_at p 0 = metaPage p"
  shows "readMeta p = (Inr (), p)"
proof -
  have b: "PageCount p < 256 ^ 8" "FreeCount p < 256 ^ 8" "RootPage p < 256 ^ 8"
    using PageCount_small [OF assms(1)] free_count_small [OF assms(1,2)] assms(3) by simp_all
  have "FreeHead p < PageCount p"
  proof -
    from assms(2) obtain xs where "free_chain p (FreeHead p) xs" "\<forall>x \<in> set xs. x < PageCount p"
      by (auto simp: free_list_ok_def)
    then show ?thesis using assms(3) by (cases xs) auto
  qed
  with b(1) have h: "FreeHead p < 256 ^ 8" by simp
  have page: "slice (pager_data p) 0 PageSize = metaPage p"
    using assms(1,4) by (simp add: pager_data_def page_at_def pager_sized_def)
  have len: "\<not> length (pager_data p) < PageSize"
    using page_bound [OF assms(1), of 0] assms(1) by (simp add: pager_data_def pager_sized_def)
  have magic: "length pagerMagic = 4" by (simp add: pagerMagic_def)
  show ?thesis
    unfolding readMeta_def page using len b h magic
    by (simp add: metaPage_def buf_simps codec_simps PageSize_def pagerVersion_def Let_def)
qed

lemma OpenPager_reopen:
  assumes "pager_inv p"
  shows "OpenPager (disk_limit p) (contents p) = Inr p"
proof -
  note inv = pager_invD [OF assms]
  let ?i = "(initPager (disk_limit p) (contents p))\<lparr>mapped := True\<rparr>"
  from inv(3) obtain xs where xs: "free_chain p (FreeHead p) xs" "distinct xs" "set xs = freeSet p"
      "length xs = FreeCount p" "\<forall>x \<in> set xs. x < PageCount p"
    by (auto simp: free_list_ok_def)
  have len: "length (contents p) \<noteq> 0" "length (contents p) mod PageSize = 0" "contents p \<noteq> []"
    and fl: "mapped p" "\<not> closed p"
    using page_bound [OF inv(2,5)] inv(2) by (auto simp: pager_sized_def)
  have rm: "readMeta ?i = (Inr (), p\<lparr>freeSet := {}\<rparr>)"
  proof -
    have "readMeta p = (Inr (), p)" by (rule metaPage_fields [OF inv(2,3,4,6)])
    then show ?thesis using fl
      by (cases p) (auto simp: readMeta_def pager_data_def initPager_def Let_def split: if_splits)
  qed
  have cnt: "\<not> (PageCount p = 0 \<or> PageCount p > length (contents p) div PageSize)"
    using inv(2) by (auto simp: pager_sized_def PageSize_def)
  have sz: "pager_sized (p\<lparr>freeSet := {}\<rparr>)" using inv(2) by (simp add: pager_sized_def)
  have "free_chain (p\<lparr>freeSet := {}\<rparr>) (FreeHead p) xs"
    by (rule free_chain_cong [OF xs(1)]) (simp add: page_at_def)
  then have "rebuildLoop (p\<lparr>freeSet := {}\<rparr>) (FreeCount p) (FreeHead p) {} = Inr (set xs \<union> {})"
    by (intro rebuildLoop_chain [OF sz]) (use xs in auto)
  then have rb: "rebuildFreeSet (p\<lparr>freeSet := {}\<rparr>) = (Inr (), p)"
    using xs by (simp add: rebuildFreeSet_def distinct_card [symmetric])
  have "pager_open (initPager (disk_limit p) (contents p)) = (Inr (), p)"
    unfolding pager_open_def Let_def
    using len cnt rm rb by (simp add: bindE_def mapFile_def initPager_def)
  then show ?thesis by (simp add: OpenPager_def)
qed

text \<open>A new file.\<close>

lemma OpenPager_fresh:
  assumes "PageSize \<le> limit" "limit < 2 ^ 63"
  obtains p where "OpenPager limit [] = Inr p" "pager_inv p" "live p = {}" "RootPage p = 0" "FreeHead p = 0"
    "PageCount p = 1" "freeSet p = {}" "disk_limit p = limit"
proof -
  let ?p = "(initPager limit (replicate PageSize 0))\<lparr>mapped := True, PageCount := 1\<rparr>"
  let ?q = "setPage 0 (metaPage ?p) ?p"
  have sz: "pager_sized ?p" using assms by (simp add: pager_sized_def initPager_def)
  have "OpenPager limit [] = Inr ?q"
    using assms(1)
    by (simp add: OpenPager_def pager_open_def initPager_def truncateFile_def mapFile_def writeMeta_def
        pager_data_def)
  moreover have "pager_inv ?q"
  proof -
    have "free_list_ok ?q" by (auto simp: free_list_ok_def initPager_def intro: exI [of _ "[]"])
    moreover have "metaPage ?q = metaPage ?p" by (simp add: metaPage_def)
    moreover have "page_at ?q 0 = metaPage ?p"
      by (subst page_at_setPage [OF sz]) (simp_all add: initPager_def)
    ultimately show ?thesis
      using pager_sized_setPage [OF sz, of 0 "metaPage ?p"] by (simp add: pager_inv_def pager_core_def initPager_def)
  qed
  ultimately show thesis by (rule that) (auto simp: live_def initPager_def)
qed

end
