(* ===== verification/Btree_Node.thy ===== *)
theory Btree_Node
  imports Pager
begin

text \<open>
  The nodes of the B+Tree (\<open>internal/kvstore/btree.go\<close>): their search and update routines and
  their byte layout in a page. A node page has a 16-byte header (type, entry count, next leaf),
  a directory of 16 bytes per entry, and the values and keys packed downwards from the end of
  the page. The binary search is shown to be the linear one, insertion and removal of entries
  to act on the key-ordered association list, and a node that fits to be read back as written.
\<close>

section \<open>Nodes\<close>

definition nodeHeaderSize :: nat where "nodeHeaderSize = 16"

definition nodeEntrySize :: nat where "nodeEntrySize = 16"

definition nodeLeaf :: byte where "nodeLeaf = 1"

definition nodeBranch :: byte where "nodeBranch = 2"

record btreeEntry =
  ekey :: bytes
  evalue :: bytes
  echild :: nat

record btreeNode =
  nid :: nat
  ntyp :: byte
  nnext :: nat
  nentries :: "btreeEntry list"

text \<open>The loop of \<open>lowerBound\<close>.\<close>

function lowerBoundLoop :: "btreeEntry list \<Rightarrow> bytes \<Rightarrow> nat \<Rightarrow> nat \<Rightarrow> nat" where
  "lowerBoundLoop es k lo hi =
     (if lo < hi then
        let mid = lo + (hi - lo) div 2 in
        if ekey (es ! mid) < k then lowerBoundLoop es k (mid + 1) hi
        else lowerBoundLoop es k lo mid
      else lo)"
  by pat_completeness auto
termination
  by (relation "measure (\<lambda>(es, k, lo, hi). hi - lo)") auto

declare lowerBoundLoop.simps [simp del]

definition lowerBound :: "btreeEntry list \<Rightarrow> bytes \<Rightarrow> nat" where
  "lowerBound es k = lowerBoundLoop es k 0 (length es)"

text \<open>The index of the key, when the node holds it.\<close>

definition search :: "btreeEntry list \<Rightarrow> bytes \<Rightarrow> nat option" where
  "search es k =
     (let idx = lowerBound es k in
      if idx \<ge> length es \<or> ekey (es ! idx) \<noteq> k then None else Some idx)"

definition childFor :: "btreeNode \<Rightarrow> bytes \<Rightarrow> kv_error + nat" where
  "childFor n k =
     (if ntyp n \<noteq> nodeBranch then Inl (NotABranch (nid n))
      else if nentries n = [] then Inl (BranchEmpty (nid n))
      else
        let es = nentries n;
            idx0 = lowerBound es k;
            idx1 = (if idx0 \<ge> length es then length es - 1 else idx0);
            idx = (if k < ekey (es ! idx1) \<and> idx1 > 0 then idx1 - 1 else idx1)
        in Inr (echild (es ! idx)))"

text \<open>\<open>childIndexFor\<close> returns \<open>-1\<close> on a node without entries.\<close>

definition childIndexFor :: "btreeEntry list \<Rightarrow> bytes \<Rightarrow> int" where
  "childIndexFor es k =
     (let idx = lowerBound es k in
      if idx \<ge> length es then int (length es) - 1
      else if k < ekey (es ! idx) \<and> idx > 0 then int idx - 1
      else int idx)"

text \<open>Indexing a slice with an \<open>int\<close>, which panics out of range.\<close>

definition entryAt :: "btreeEntry list \<Rightarrow> int \<Rightarrow> kv_error + btreeEntry" where
  "entryAt es i = (if 0 \<le> i \<and> i < int (length es) then Inr (es ! nat i) else Inl IndexPanic)"

definition firstKey :: "btreeNode \<Rightarrow> bytes" where
  "firstKey n = (case nentries n of [] \<Rightarrow> [] | e # _ \<Rightarrow> ekey e)"

definition nodeUsed :: "btreeEntry list \<Rightarrow> nat" where
  "nodeUsed es = nodeHeaderSize + length es * nodeEntrySize
     + sum_list (map (\<lambda>e. length (ekey e) + length (evalue e)) es)"

definition nodeFits :: "btreeNode \<Rightarrow> bool" where
  "nodeFits n \<longleftrightarrow> nodeUsed (nentries n) \<le> PageSize"

definition insertEntry :: "btreeEntry list \<Rightarrow> btreeEntry \<Rightarrow> btreeEntry list" where
  "insertEntry es e =
     (let idx = lowerBound es (ekey e) in
      if idx < length es \<and> ekey (es ! idx) = ekey e then es[idx := e]
      else take idx es @ e # drop idx es)"

definition deleteEntry :: "btreeEntry list \<Rightarrow> bytes \<Rightarrow> btreeEntry list \<times> bool" where
  "deleteEntry es k =
     (case search es k of None \<Rightarrow> (es, False)
      | Some idx \<Rightarrow> (take idx es @ drop (idx + 1) es, True))"

definition splitEntries :: "btreeEntry list \<Rightarrow> btreeEntry list \<times> btreeEntry list" where
  "splitEntries es =
     (let mid0 = length es div 2; mid = (if mid0 = 0 then 1 else mid0)
      in (take mid es, drop mid es))"

section \<open>Byte layout\<close>

fun decodeEntries :: "nat \<Rightarrow> byte \<Rightarrow> bytes \<Rightarrow> nat \<Rightarrow> nat \<Rightarrow> bytes option \<Rightarrow> kv_error + btreeEntry list" where
  "decodeEntries i typ page pos 0 prev = Inr []"
| "decodeEntries i typ page pos (Suc left) prev =
     (let base = nodeHeaderSize + pos * nodeEntrySize;
          keyOff = getLE (slice page base 2);
          keyLen = getLE (slice page (base + 2) 2);
          valOff = getLE (slice page (base + 4) 2);
          valLen = getLE (slice page (base + 6) 2);
          chd = getLE (slice page (base + 8) 8)
      in if keyLen = 0 then Inl (EmptyEntryKey i pos)
         else if keyOff + keyLen > PageSize then Inl (KeyOutOfRange i pos)
         else if valOff + valLen > PageSize then Inl (ValueOutOfRange i pos)
         else
           let k = slice page keyOff keyLen in
           if (case prev of None \<Rightarrow> False | Some pk \<Rightarrow> pk \<ge> k) then Inl (KeysOutOfOrder i)
           else if typ = nodeBranch \<and> chd = 0 then Inl (BranchEntryNoChild i pos)
           else (case decodeEntries i typ page (Suc pos) left (Some k) of
                   Inl e \<Rightarrow> Inl e
                 | Inr es \<Rightarrow>
                     Inr (\<lparr>ekey = k, evalue = slice page valOff valLen, echild = chd\<rparr> # es)))"

definition decodeNode :: "nat \<Rightarrow> bytes \<Rightarrow> kv_error + btreeNode" where
  "decodeNode i page =
     (if length page \<noteq> PageSize then Inl (PageSizeMismatch i (length page))
      else
        let typ = page ! 0; count = getLE (slice page 2 2); nxt = getLE (slice page 8 8) in
        if typ \<noteq> nodeLeaf \<and> typ \<noteq> nodeBranch then Inl (InvalidNodeType i typ)
        else if nodeHeaderSize + count * nodeEntrySize > PageSize then Inl (DirectoryOverflow i)
        else (case decodeEntries i typ page 0 count None of
                Inl e \<Rightarrow> Inl e
              | Inr es \<Rightarrow> Inr \<lparr>nid = i, ntyp = typ, nnext = nxt, nentries = es\<rparr>))"

text \<open>The loop of \<open>writeNode\<close>: what it has written when it meets an empty key stays written.\<close>

fun writeEntries :: "nat \<Rightarrow> nat \<Rightarrow> nat \<Rightarrow> btreeEntry list \<Rightarrow> (bytes, kv_error, unit) op" where
  "writeEntries i pos cursor [] page = (Inr (), page)"
| "writeEntries i pos cursor (e # es) page =
     (if ekey e = [] then (Inl (EmptyEntryKey i pos), page)
      else
        let valueOff = cursor - length (evalue e);
            page1 = splice page valueOff (evalue e);
            keyOff = valueOff - length (ekey e);
            page2 = splice page1 keyOff (ekey e);
            base = nodeHeaderSize + pos * nodeEntrySize;
            page3 = splice page2 base
              (putLE 2 keyOff @ putLE 2 (length (ekey e)) @ putLE 2 valueOff
                @ putLE 2 (length (evalue e)) @ putLE 8 (echild e))
        in writeEntries i (Suc pos) keyOff es page3)"

definition headerPage :: "btreeNode \<Rightarrow> bytes" where
  "headerPage n =
     splice (splice (splice zeroPage 0 [ntyp n]) 2 (putLE 2 (length (nentries n))))
       8 (putLE 8 (nnext n))"

definition readNode :: "pager \<Rightarrow> nat \<Rightarrow> kv_error + btreeNode" where
  "readNode p i = (case Page p i of Inl e \<Rightarrow> Inl e | Inr page \<Rightarrow> decodeNode i page)"

definition writeNode :: "btreeNode \<Rightarrow> (pager, kv_error, unit) op" where
  "writeNode n p =
     (case Page p (nid n) of Inl e \<Rightarrow> (Inl e, p) | Inr _ \<Rightarrow>
      if \<not> nodeFits n then (Inl (NodeDoesNotFit (nid n)), p)
      else (case writeEntries (nid n) 0 PageSize (nentries n) (headerPage n) of
              (r, page) \<Rightarrow> (r, setPage (nid n) page p)))"

section \<open>Searching a node\<close>

definition sorted_entries :: "btreeEntry list \<Rightarrow> bool" where
  "sorted_entries es \<longleftrightarrow> sorted_wrt (<) (map ekey es)"

lemma sorted_entries_nth_less:
  "sorted_entries es \<Longrightarrow> i < j \<Longrightarrow> j < length es \<Longrightarrow> ekey (es ! i) < ekey (es ! j)"
  by (simp add: sorted_entries_def sorted_wrt_iff_nth_less)

lemma lowerBoundLoop_split:
  assumes "sorted_entries es" "lo \<le> hi" "hi \<le> length es"
    "\<And>j. j < lo \<Longrightarrow> ekey (es ! j) < k" "\<And>j. hi \<le> j \<Longrightarrow> j < length es \<Longrightarrow> \<not> ekey (es ! j) < k"
  shows "lowerBoundLoop es k lo hi \<le> length es \<and>
    (\<forall>j < lowerBoundLoop es k lo hi. ekey (es ! j) < k) \<and>
    (\<forall>j. lowerBoundLoop es k lo hi \<le> j \<longrightarrow> j < length es \<longrightarrow> \<not> ekey (es ! j) < k)"
  using assms
proof (induction es k lo hi rule: lowerBoundLoop.induct)
  case (1 es k lo hi)
  show ?case
  proof (cases "lo < hi")
    case False
    hence "lowerBoundLoop es k lo hi = lo" by (simp add: lowerBoundLoop.simps)
    with False "1.prems" show ?thesis by auto
  next
    case True
    define mid where "mid = lo + (hi - lo) div 2"
    with True have mid: "lo \<le> mid" "mid < hi" by auto
    show ?thesis
    proof (cases "ekey (es ! mid) < k")
      case less: True
      have "ekey (es ! j) < k" if "j < mid + 1" for j
        using that less mid "1.prems"(3) sorted_entries_nth_less [OF "1.prems"(1), of j mid]
        by (cases "j = mid") auto
      with "1.IH"(1) [OF True mid_def less "1.prems"(1)] "1.prems" mid
      show ?thesis using True less by (simp add: lowerBoundLoop.simps [of es k lo hi] mid_def [symmetric] Let_def)
    next
      case ge: False
      have "\<not> ekey (es ! j) < k" if "mid \<le> j" "j < length es" for j
        using that ge sorted_entries_nth_less [OF "1.prems"(1), of mid j]
        by (cases "j = mid") auto
      with "1.IH"(2) [OF True mid_def ge "1.prems"(1)] "1.prems" mid
      show ?thesis using True ge by (simp add: lowerBoundLoop.simps [of es k lo hi] mid_def [symmetric] Let_def)
    qed
  qed
qed

text \<open>On ordered entries the binary search finds the number of entries below the key.\<close>

lemma lowerBound_props:
  assumes "sorted_entries es"
  shows "lowerBound es k \<le> length es"
    and "\<And>j. j < lowerBound es k \<Longrightarrow> ekey (es ! j) < k"
    and "\<And>j. lowerBound es k \<le> j \<Longrightarrow> j < length es \<Longrightarrow> k \<le> ekey (es ! j)"
  using lowerBoundLoop_split [OF assms, of 0 "length es" k]
  by (auto simp: lowerBound_def not_less)

lemma lowerBound_takeWhile:
  assumes "sorted_entries es"
  shows "lowerBound es k = length (takeWhile (\<lambda>e. ekey e < k) es)"
proof -
  note lb = lowerBound_props [OF assms, where k = k]
  have "take (lowerBound es k) es = takeWhile (\<lambda>e. ekey e < k) es"
  proof (rule takeWhile_eq_take_P_nth [symmetric])
    show "ekey (es ! i) < k" if "i < lowerBound es k" for i using that lb(2) by blast
    show "\<not> ekey (es ! lowerBound es k) < k" if "lowerBound es k < length es"
      using lb(3) [of "lowerBound es k"] that by simp
  qed
  from this [symmetric] show ?thesis using lb(1) by simp
qed

lemma search_Some:
  assumes "sorted_entries es"
  shows "search es k = Some i \<longleftrightarrow> i < length es \<and> ekey (es ! i) = k"
proof -
  note lb = lowerBound_props [OF assms, where k = k]
  have "i = lowerBound es k" if "i < length es" "ekey (es ! i) = k" for i
  proof (cases i "lowerBound es k" rule: linorder_cases)
    assume "i < lowerBound es k"
    with lb(2) [of i] that show ?thesis by simp
  next
    assume "lowerBound es k < i"
    with lb(3) [of "lowerBound es k"] sorted_entries_nth_less [OF assms, of "lowerBound es k" i] that
    show ?thesis by simp
  qed
  hence "(i < length es \<and> ekey (es ! i) = k) = (i = lowerBound es k \<and> i < length es \<and> ekey (es ! i) = k)"
    by blast
  thus ?thesis by (auto simp: search_def Let_def)
qed

lemma search_None:
  assumes "sorted_entries es"
  shows "search es k = None \<longleftrightarrow> k \<notin> ekey ` set es"
proof (cases "search es k")
  case None
  have "ekey (es ! i) \<noteq> k" if "i < length es" for i
    using None search_Some [OF assms, of k i] that by auto
  hence "k \<notin> ekey ` set es" by (force simp: in_set_conv_nth)
  with None show ?thesis by simp
next
  case (Some i)
  hence "i < length es" "ekey (es ! i) = k" by (simp_all add: search_Some [OF assms])
  with Some show ?thesis by auto
qed

lemma dropWhile_le_less:
  assumes "sorted_entries es"
  shows "dropWhile (\<lambda>e. ekey e \<le> k) es =
    (case dropWhile (\<lambda>e. ekey e < k) es of [] \<Rightarrow> []
     | e # r \<Rightarrow> if ekey e = k then r else e # r)"
  using assms
proof (induction es)
  case (Cons e es)
  show ?case
  proof (cases "ekey e = k")
    case True
    with Cons.prems have "dropWhile (\<lambda>e. ekey e \<le> k) es = es"
      by (cases es) (auto simp: sorted_entries_def)
    with True show ?thesis by simp
  qed (use Cons in \<open>auto simp: sorted_entries_def\<close>)
qed simp

text \<open>Insertion in place is the ordered update of the entry list.\<close>

lemma insertEntry_eq:
  assumes "sorted_entries es"
  shows "insertEntry es e =
    takeWhile (\<lambda>x. ekey x < ekey e) es @ e # dropWhile (\<lambda>x. ekey x \<le> ekey e) es"
proof -
  let ?i = "lowerBound es (ekey e)"
  have i: "?i = length (takeWhile (\<lambda>x. ekey x < ekey e) es)"
    by (rule lowerBound_takeWhile [OF assms])
  have tw: "take ?i es = takeWhile (\<lambda>x. ekey x < ekey e) es"
    by (simp add: i takeWhile_eq_take [symmetric])
  have dw: "drop ?i es = dropWhile (\<lambda>x. ekey x < ekey e) es"
    by (simp add: i dropWhile_eq_drop [symmetric])
  show ?thesis
  proof (cases "?i < length es")
    case True
    hence "drop ?i es = es ! ?i # drop (Suc ?i) es" by (simp add: Cons_nth_drop_Suc)
    with True show ?thesis
      by (simp add: insertEntry_def Let_def upd_conv_take_nth_drop dropWhile_le_less [OF assms]
          dw [symmetric] tw)
  next
    case False
    hence "drop ?i es = []" by simp
    with False show ?thesis
      by (simp add: insertEntry_def Let_def dropWhile_le_less [OF assms] dw [symmetric] tw)
  qed
qed

lemma deleteEntry_eq:
  assumes "sorted_entries es"
  shows "deleteEntry es k = (filter (\<lambda>e. ekey e \<noteq> k) es, k \<in> ekey ` set es)"
proof (cases "search es k")
  case None
  hence "k \<notin> ekey ` set es" by (simp add: search_None [OF assms])
  moreover from this have "filter (\<lambda>e. ekey e \<noteq> k) es = es" by (auto intro: filter_True)
  ultimately show ?thesis using None by (simp add: deleteEntry_def)
next
  case (Some i)
  hence i: "i < length es" "ekey (es ! i) = k" by (simp_all add: search_Some [OF assms])
  have "es = take i es @ es ! i # drop (Suc i) es" using i(1) by (rule id_take_nth_drop)
  hence "filter (\<lambda>e. ekey e \<noteq> k) es =
      filter (\<lambda>e. ekey e \<noteq> k) (take i es @ es ! i # drop (Suc i) es)"
    by (rule arg_cong)
  moreover have "filter (\<lambda>e. ekey e \<noteq> k) (take i es) = take i es"
  proof (rule filter_True, rule ballI)
    fix e assume "e \<in> set (take i es)"
    then obtain j where "j < i" "e = es ! j" by (auto simp: in_set_conv_nth)
    with sorted_entries_nth_less [OF assms, of j i] i show "ekey e \<noteq> k" by simp
  qed
  moreover have "filter (\<lambda>e. ekey e \<noteq> k) (drop (Suc i) es) = drop (Suc i) es"
  proof (rule filter_True, rule ballI)
    fix e assume "e \<in> set (drop (Suc i) es)"
    then obtain j where "j < length es - Suc i" "e = es ! (Suc i + j)"
      by (auto simp: in_set_conv_nth)
    moreover from this i have "Suc i + j < length es" by simp
    ultimately show "ekey e \<noteq> k"
      using sorted_entries_nth_less [OF assms, of i "Suc i + j"] i by simp
  qed
  ultimately have "filter (\<lambda>e. ekey e \<noteq> k) es = take i es @ drop (Suc i) es"
    using i(2) by simp
  moreover have "k \<in> ekey ` set es" using i by auto
  ultimately show ?thesis using Some by (simp add: deleteEntry_def)
qed

text \<open>The child that a branch descends to: the last whose separator is not above the key, or the first.\<close>

lemma childIndexFor_props:
  assumes "sorted_entries es" "es \<noteq> []"
  obtains i where "childIndexFor es k = int i" "i < length es"
    "i = 0 \<or> ekey (es ! i) \<le> k" "\<And>j. i < j \<Longrightarrow> j < length es \<Longrightarrow> k < ekey (es ! j)"
proof -
  note lb = lowerBound_props [OF assms(1), where k = k]
  let ?l = "lowerBound es k"
  have above: "k < ekey (es ! j)" if "?l < j" "j < length es" for j
    using lb(3) [of ?l] sorted_entries_nth_less [OF assms(1), of ?l j] that by force
  consider "length es \<le> ?l" | "?l < length es" "k < ekey (es ! ?l)" "0 < ?l"
    | "?l < length es" "\<not> (k < ekey (es ! ?l) \<and> 0 < ?l)" by linarith
  thus thesis
  proof cases
    case 1
    with assms(2) have "length es - 1 < ?l" by (cases es) auto
    with 1 lb(2) [of "length es - 1"] assms(2) show thesis
      by (intro that [of "length es - 1"]) (auto simp: childIndexFor_def Let_def of_nat_diff Suc_leI)
  next
    case 2
    have "k < ekey (es ! j)" if "?l - 1 < j" "j < length es" for j
      using that 2 above [of j] by (cases "j = ?l") auto
    with 2 lb(2) [of "?l - 1"] show thesis
      by (intro that [of "?l - 1"]) (auto simp: childIndexFor_def Let_def of_nat_diff Suc_leI)
  next
    case 3
    with lb(3) [of ?l] above show thesis
      by (intro that [of ?l]) (auto simp: childIndexFor_def Let_def)
  qed
qed

lemma childFor_eq:
  assumes "ntyp n = nodeBranch" "nentries n \<noteq> []" "sorted_entries (nentries n)"
  shows "childFor n k = Inr (echild (nentries n ! nat (childIndexFor (nentries n) k)))"
proof (cases "length (nentries n) \<le> lowerBound (nentries n) k")
  case True
  with assms(2) have "length (nentries n) - 1 < lowerBound (nentries n) k"
    by (cases "nentries n") auto
  hence "\<not> k < ekey (nentries n ! (length (nentries n) - 1))"
    using lowerBound_props(2) [OF assms(3)] by (metis order.asym)
  moreover have "nat (int (length (nentries n)) - 1) = length (nentries n) - 1" by simp
  ultimately show ?thesis using True assms(1,2)
    by (simp add: childFor_def childIndexFor_def Let_def)
next
  case False
  with assms(1,2) show ?thesis
    by (simp add: childFor_def childIndexFor_def Let_def nat_diff_distrib)
qed

section \<open>A written node is read back\<close>

text \<open>The nodes that the tree writes: typed, with ordered non-empty keys, and with page ids that fit.\<close>

definition entry_ok :: "byte \<Rightarrow> btreeEntry \<Rightarrow> bool" where
  "entry_ok typ e \<longleftrightarrow> ekey e \<noteq> [] \<and> echild e < 2 ^ 64 \<and> (typ = nodeBranch \<longrightarrow> echild e \<noteq> 0)"

definition node_ok :: "btreeNode \<Rightarrow> bool" where
  "node_ok n \<longleftrightarrow> (ntyp n = nodeLeaf \<or> ntyp n = nodeBranch) \<and> nnext n < 2 ^ 64
     \<and> sorted_entries (nentries n) \<and> (\<forall>e \<in> set (nentries n). entry_ok (ntyp n) e)"

definition entriesSize :: "btreeEntry list \<Rightarrow> nat" where
  "entriesSize es = sum_list (map (\<lambda>e. length (ekey e) + length (evalue e)) es)"

lemma nodeUsed_eq: "nodeUsed es = 16 + length es * 16 + entriesSize es"
  by (simp add: nodeUsed_def entriesSize_def nodeHeaderSize_def nodeEntrySize_def)

lemma dirRecord_fields:
  fixes page :: bytes
  assumes "slice page b 16 = putLE 2 ko @ putLE 2 kl @ putLE 2 vo @ putLE 2 vl @ putLE 8 c"
    "ko < 2 ^ 16" "kl < 2 ^ 16" "vo < 2 ^ 16" "vl < 2 ^ 16" "c < 2 ^ 64"
  shows "getLE (slice page b 2) = ko" "getLE (slice page (b + 2) 2) = kl"
    "getLE (slice page (b + 4) 2) = vo" "getLE (slice page (b + 6) 2) = vl"
    "getLE (slice page (b + 8) 8) = c"
proof -
  have *: "slice page (b + a) m = slice (slice page b 16) a m" if "a + m \<le> 16" for a m
    using that by (simp add: slice_slice)
  show "getLE (slice page b 2) = ko" "getLE (slice page (b + 2) 2) = kl"
    "getLE (slice page (b + 4) 2) = vo" "getLE (slice page (b + 6) 2) = vl"
    "getLE (slice page (b + 8) 8) = c"
    using *[of 0 2] *[of 2 2] *[of 4 2] *[of 6 2] *[of 8 8] assms(2-)
    by (simp_all add: assms(1) buf_simps codec_simps)
qed

text \<open>
  The loop succeeds when the entries fit below the cursor; it changes only the directory
  records from \<open>pos\<close> on and bytes below the cursor, and decoding from \<open>pos\<close> gives the
  entries back.
\<close>

lemma writeEntries_decode:
  assumes "length page = PageSize" "16 + (pos + length es) * 16 + entriesSize es \<le> cursor"
    "cursor \<le> PageSize" "\<forall>e \<in> set es. entry_ok typ e" "sorted_entries es"
    "\<And>pk e. prev = Some pk \<Longrightarrow> e \<in> set es \<Longrightarrow> pk < ekey e"
  shows "\<exists>page'. writeEntries i pos cursor es page = (Inr (), page') \<and> length page' = PageSize
    \<and> (\<forall>a m. a + m \<le> 16 + pos * 16 \<or> cursor \<le> a \<and> a + m \<le> PageSize
         \<longrightarrow> slice page' a m = slice page a m)
    \<and> decodeEntries i typ page' pos (length es) prev = Inr es"
  using assms
proof (induction es arbitrary: pos cursor page prev)
  case (Cons e es)
  let ?vo = "cursor - length (evalue e)"
  let ?ko = "?vo - length (ekey e)"
  let ?b = "16 + pos * 16"
  let ?rec = "putLE 2 ?ko @ putLE 2 (length (ekey e)) @ putLE 2 ?vo
    @ putLE 2 (length (evalue e)) @ putLE 8 (echild e)"
  define page1 where "page1 = splice page ?vo (evalue e)"
  define page2 where "page2 = splice page1 ?ko (ekey e)"
  define page3 where "page3 = splice page2 ?b ?rec"
  have sz: "16 + (Suc pos + length es) * 16 + entriesSize es
      + (length (ekey e) + length (evalue e)) \<le> cursor"
    using Cons.prems(2) by (simp add: entriesSize_def)
  hence room: "?b + 16 \<le> ?ko" "?ko + length (ekey e) = ?vo" "?vo + length (evalue e) = cursor"
    "16 + (Suc pos + length es) * 16 + entriesSize es \<le> ?ko" by simp_all
  have len: "length page1 = PageSize" "length page2 = PageSize" "length page3 = PageSize"
    using room Cons.prems(1,3) by (simp_all add: page1_def page2_def page3_def)
  have e_ok: "entry_ok typ e" using Cons.prems(4) by simp
  have "\<exists>page'. writeEntries i (Suc pos) ?ko es page3 = (Inr (), page') \<and> length page' = PageSize
    \<and> (\<forall>a m. a + m \<le> 16 + Suc pos * 16 \<or> ?ko \<le> a \<and> a + m \<le> PageSize
         \<longrightarrow> slice page' a m = slice page3 a m)
    \<and> decodeEntries i typ page' (Suc pos) (length es) (Some (ekey e)) = Inr es"
    by (rule Cons.IH)
      (use len(3) room Cons.prems(3-5) in \<open>auto simp: sorted_entries_def\<close>)
  then obtain page' where w: "writeEntries i (Suc pos) ?ko es page3 = (Inr (), page')"
    and l: "length page' = PageSize"
    and fr: "\<And>a m. a + m \<le> 16 + Suc pos * 16 \<or> ?ko \<le> a \<and> a + m \<le> PageSize
         \<Longrightarrow> slice page' a m = slice page3 a m"
    and d: "decodeEntries i typ page' (Suc pos) (length es) (Some (ekey e)) = Inr es" by blast
  have k: "slice page' ?ko (length (ekey e)) = ekey e"
  proof -
    have "slice page' ?ko (length (ekey e)) = slice page3 ?ko (length (ekey e))"
      using room Cons.prems(3) by (intro fr) auto
    also have "\<dots> = slice page2 ?ko (length (ekey e))"
      unfolding page3_def by (rule slice_splice_after) (use room Cons.prems(3) len in auto)
    also have "\<dots> = ekey e"
      unfolding page2_def by (rule slice_splice_same) (use room Cons.prems(3) len in auto)
    finally show ?thesis .
  qed
  have v: "slice page' ?vo (length (evalue e)) = evalue e"
  proof -
    have "slice page' ?vo (length (evalue e)) = slice page3 ?vo (length (evalue e))"
      using room Cons.prems(3) by (intro fr) auto
    also have "\<dots> = slice page2 ?vo (length (evalue e))"
      unfolding page3_def by (rule slice_splice_after) (use room Cons.prems(3) len in auto)
    also have "\<dots> = slice page1 ?vo (length (evalue e))"
      unfolding page2_def by (rule slice_splice_after) (use room Cons.prems(3) len in auto)
    also have "\<dots> = evalue e"
      unfolding page1_def by (rule slice_splice_same) (use room Cons.prems(1,3) in auto)
    finally show ?thesis .
  qed
  have r: "slice page' ?b 16 = ?rec"
  proof -
    have "slice page' ?b 16 = slice page3 ?b 16" by (intro fr) simp
    also have "\<dots> = ?rec"
      unfolding page3_def by (rule slice_splice_same) (use room Cons.prems(3) len in auto)
    finally show ?thesis .
  qed
  have "?vo \<le> PageSize" "?ko \<le> PageSize" "length (ekey e) \<le> PageSize" "length (evalue e) \<le> PageSize"
    using room Cons.prems(3) by linarith+
  hence small: "?ko < 2 ^ 16" "length (ekey e) < 2 ^ 16" "?vo < 2 ^ 16" "length (evalue e) < 2 ^ 16"
    by (simp_all add: PageSize_def)
  note fields = dirRecord_fields [OF r small] 
  have "echild e < 2 ^ 64" "ekey e \<noteq> []" "typ = nodeBranch \<longrightarrow> echild e \<noteq> 0"
    using e_ok by (simp_all add: entry_ok_def)
  note ok = this
  have "decodeEntries i typ page' pos (length (e # es)) prev = Inr (e # es)"
    using fields [OF ok(1)] ok k v d room Cons.prems(3) Cons.prems(6)
    by (cases prev) (auto simp: nodeHeaderSize_def nodeEntrySize_def Let_def not_le)
  moreover have "writeEntries i pos cursor (e # es) page = (Inr (), page')"
    using ok w by (simp add: Let_def page3_def page2_def page1_def nodeHeaderSize_def nodeEntrySize_def)
  moreover have "slice page' a m = slice page a m"
    if "a + m \<le> 16 + pos * 16 \<or> cursor \<le> a \<and> a + m \<le> PageSize" for a m
  proof -
    have "slice page' a m = slice page3 a m" using that room by (intro fr) auto
    also have "\<dots> = slice page2 a m" unfolding page3_def
      by (rule slice_splice_outside) (use that room Cons.prems(1,3) len in auto)
    also have "\<dots> = slice page1 a m" unfolding page2_def
      by (rule slice_splice_outside) (use that room Cons.prems(1,3) len in auto)
    also have "\<dots> = slice page a m" unfolding page1_def
      by (rule slice_splice_outside) (use that room Cons.prems(1,3) len in auto)
    finally show ?thesis .
  qed
  ultimately show ?case using l by blast
qed simp

lemma headerPage_fields:
  assumes "nnext n < 2 ^ 64" "length (nentries n) < 2 ^ 16"
  shows "length (headerPage n) = PageSize" "slice (headerPage n) 0 1 = [ntyp n]"
    "getLE (slice (headerPage n) 2 2) = length (nentries n)"
    "getLE (slice (headerPage n) 8 8) = nnext n"
  using assms by (simp_all add: headerPage_def zeroPage_def PageSize_def buf_simps codec_simps)

text \<open>\<open>decodeNode\<close> inverts \<open>writeNode\<close> on every node that fits.\<close>

lemma decodeNode_written:
  assumes "node_ok n" "nodeFits n"
  obtains page where "writeEntries (nid n) 0 PageSize (nentries n) (headerPage n) = (Inr (), page)"
    "length page = PageSize" "decodeNode (nid n) page = Inr n"
proof -
  have used: "16 + length (nentries n) * 16 + entriesSize (nentries n) \<le> PageSize"
    using assms(2) by (simp add: nodeFits_def nodeUsed_eq)
  hence cnt: "length (nentries n) < 2 ^ 16" by (simp add: PageSize_def)
  note n_ok = assms(1) [unfolded node_ok_def]
  note hd_page = headerPage_fields [OF _ cnt]
  have "\<exists>page'. writeEntries (nid n) 0 PageSize (nentries n) (headerPage n) = (Inr (), page')
    \<and> length page' = PageSize
    \<and> (\<forall>a m. a + m \<le> 16 + 0 * 16 \<or> PageSize \<le> a \<and> a + m \<le> PageSize
         \<longrightarrow> slice page' a m = slice (headerPage n) a m)
    \<and> decodeEntries (nid n) (ntyp n) page' 0 (length (nentries n)) None = Inr (nentries n)"
    by (rule writeEntries_decode) (use n_ok used hd_page in auto)
  then obtain page where w: "writeEntries (nid n) 0 PageSize (nentries n) (headerPage n) = (Inr (), page)"
    and l: "length page = PageSize"
    and fr: "\<And>a m. a + m \<le> 16 \<Longrightarrow> slice page a m = slice (headerPage n) a m"
    and d: "decodeEntries (nid n) (ntyp n) page 0 (length (nentries n)) None = Inr (nentries n)"
    by auto
  have "page ! 0 = slice page 0 1 ! 0" using l by (simp add: nth_slice PageSize_def)
  also have "\<dots> = ntyp n" using fr [of 0 1] hd_page(2) n_ok by simp
  finally have tp: "page ! 0 = ntyp n" .
  have "decodeNode (nid n) page = Inr n"
    using l tp d fr [of 2 2] fr [of 8 8] hd_page n_ok used
    by (auto simp: decodeNode_def Let_def nodeHeaderSize_def nodeEntrySize_def)
  with w l show thesis by (rule that)
qed

text \<open>On a pager that satisfies its invariant: a node written to an allocated page is read back,
  the other pages keep their nodes, and a node that does not fit is refused.\<close>

lemma readNode_eq:
  "pager_inv p \<Longrightarrow> 0 < i \<Longrightarrow> i < PageCount p \<Longrightarrow> readNode p i = decodeNode i (page_at p i)"
  by (simp add: readNode_def Page_eq pager_invD)

lemma writeNode_ok:
  assumes "pager_inv p" "nid n \<in> live p" "node_ok n" "nodeFits n"
  obtains q where "writeNode n p = (Inr (), q)" "pager_inv q" "live q = live p"
    "freeSet q = freeSet p" "PageCount q = PageCount p" "disk_limit q = disk_limit p"
    "RootPage q = RootPage p" "readNode q (nid n) = Inr n"
    "\<And>j. j \<in> live p \<Longrightarrow> j \<noteq> nid n \<Longrightarrow> readNode q j = readNode p j"
proof -
  note inv = pager_invD [OF assms(1)]
  have i: "0 < nid n" "nid n < PageCount p" using assms(2) by (auto simp: live_def)
  obtain page where w: "writeEntries (nid n) 0 PageSize (nentries n) (headerPage n) = (Inr (), page)"
    "length page = PageSize" "decodeNode (nid n) page = Inr n"
    by (rule decodeNode_written [OF assms(3,4)])
  let ?q = "setPage (nid n) page p"
  note q = setPage_inv [OF assms(1,2) w(2)]
  have rd: "readNode ?q j = decodeNode j (page_at ?q j)" "readNode p j = decodeNode j (page_at p j)"
    if "j \<in> live p" for j
    using that q(1) assms(1) by (auto simp: live_def readNode_eq)
  show thesis
  proof (rule that [of ?q])
    show "writeNode n p = (Inr (), ?q)"
      using w(1) assms(4) by (simp add: writeNode_def Page_eq [OF inv(2) i(2)])
    show "readNode ?q (nid n) = Inr n" using rd assms(2) q(2) w(3) by simp
    show "readNode ?q j = readNode p j" if "j \<in> live p" "j \<noteq> nid n" for j
      using that rd q(2) by simp
  qed (simp_all add: q(1) live_def)
qed

lemma writeNode_refused:
  assumes "pager_inv p" "nid n < PageCount p" "\<not> nodeFits n"
  shows "writeNode n p = (Inl (NodeDoesNotFit (nid n)), p)"
  using assms by (simp add: writeNode_def Page_eq pager_invD)

end
