(* ===== verification/Btree.thy ===== *)
theory Btree
  imports Btree_Node
begin

text \<open>
  The operations of the B+Tree (\<open>internal/kvstore/btree.go\<close>) over an interface of node
  storage: \<open>t.readNode\<close>, \<open>t.writeNode\<close>, \<open>t.pager.AllocPage\<close> and \<open>t.pager.FreePage\<close> are the
  fields of the record \<open>nodeStore\<close>, and the laws they satisfy are the locale \<open>node_store\<close>, which
  is interpreted on the pager and the node codec. The recursion of the code follows page ids
  read from the file and nothing in the file bounds its depth: it runs on fuel here, and the
  lemmas show that a fuel above the height of the tree is enough.

  A stored tree is described by a \<open>ptree\<close>, the pages of the tree with the key-value pairs of
  their leaves; its value is the list of its pairs in order.
\<close>

section \<open>Operations\<close>

record 's nodeStore =
  readNodeOp :: "'s \<Rightarrow> nat \<Rightarrow> kv_error + btreeNode"
  writeNodeOp :: "btreeNode \<Rightarrow> ('s, kv_error, unit) op"
  allocOp :: "('s, kv_error, nat) op"
  freeOp :: "nat \<Rightarrow> ('s, kv_error, unit) op"

abbreviation readE :: "'s nodeStore \<Rightarrow> nat \<Rightarrow> ('s, kv_error, btreeNode) op" where
  "readE N i \<equiv> queryE (\<lambda>s. readNodeOp N s i)"

abbreviation liftE :: "('e + 'a) \<Rightarrow> ('s, 'e, 'a) op" where
  "liftE r \<equiv> queryE (\<lambda>_. r)"

definition leafEntry :: "bytes \<Rightarrow> bytes \<Rightarrow> btreeEntry" where
  "leafEntry k v = \<lparr>ekey = k, evalue = v, echild = 0\<rparr>"

definition branchEntry :: "bytes \<Rightarrow> nat \<Rightarrow> btreeEntry" where
  "branchEntry k c = \<lparr>ekey = k, evalue = [], echild = c\<rparr>"

definition CreateBTree :: "'s nodeStore \<Rightarrow> ('s, kv_error, nat) op" where
  "CreateBTree N =
     bindE (allocOp N) (\<lambda>root.
     bindE (writeNodeOp N \<lparr>nid = root, ntyp = nodeLeaf, nnext = 0, nentries = []\<rparr>) (\<lambda>_.
     returnE root))"

fun getAt :: "'s nodeStore \<Rightarrow> nat \<Rightarrow> 's \<Rightarrow> nat \<Rightarrow> bytes \<Rightarrow> kv_error + bytes option" where
  "getAt N 0 s i k = Inl OutOfFuel"
| "getAt N (Suc f) s i k =
     (case readNodeOp N s i of Inl e \<Rightarrow> Inl e | Inr node \<Rightarrow>
      if ntyp node = nodeLeaf then
        (case search (nentries node) k of None \<Rightarrow> Inr None
         | Some idx \<Rightarrow> Inr (Some (evalue (nentries node ! idx))))
      else if ntyp node = nodeBranch then
        (case childFor node k of Inl e \<Rightarrow> Inl e | Inr c \<Rightarrow> getAt N f s c k)
      else Inl (UnsupportedNodeType (ntyp node)))"

definition BTree_Get :: "'s nodeStore \<Rightarrow> nat \<Rightarrow> nat \<Rightarrow> 's \<Rightarrow> bytes \<Rightarrow> kv_error + bytes option" where
  "BTree_Get N fuel root s k = (if k = [] then Inl KeyRequired else getAt N fuel s root k)"

definition splitNonRoot :: "'s nodeStore \<Rightarrow> btreeNode \<Rightarrow> ('s, kv_error, btreeEntry option) op" where
  "splitNonRoot N node =
     (case splitEntries (nentries node) of (leftEntries, rightEntries) \<Rightarrow>
      bindE (allocOp N) (\<lambda>rightID.
        let leaf = (ntyp node = nodeLeaf);
            right = \<lparr>nid = rightID, ntyp = ntyp node, nnext = (if leaf then nnext node else 0),
                     nentries = rightEntries\<rparr>;
            left = node\<lparr>nentries := leftEntries, nnext := (if leaf then rightID else 0)\<rparr>
        in bindE (writeNodeOp N left) (\<lambda>_.
           bindE (writeNodeOp N right) (\<lambda>_.
           returnE (Some (branchEntry (firstKey right) rightID))))))"

text \<open>The two splits of the root, which differ in the type of the halves and in the leaf link.\<close>

definition splitRoot :: "'s nodeStore \<Rightarrow> byte \<Rightarrow> btreeNode \<Rightarrow> ('s, kv_error, unit) op" where
  "splitRoot N typ root =
     (case splitEntries (nentries root) of (leftEntries, rightEntries) \<Rightarrow>
      bindE (allocOp N) (\<lambda>leftID.
      bindE (allocOp N) (\<lambda>rightID.
        let left = \<lparr>nid = leftID, ntyp = typ, nnext = (if typ = nodeLeaf then rightID else 0),
                    nentries = leftEntries\<rparr>;
            right = \<lparr>nid = rightID, ntyp = typ, nnext = 0, nentries = rightEntries\<rparr>;
            branch = \<lparr>nid = nid root, ntyp = nodeBranch, nnext = 0,
                      nentries = [branchEntry (firstKey left) leftID,
                                  branchEntry (firstKey right) rightID]\<rparr>
        in bindE (writeNodeOp N left) (\<lambda>_.
           bindE (writeNodeOp N right) (\<lambda>_.
           writeNodeOp N branch)))))"

definition splitRootLeaf :: "'s nodeStore \<Rightarrow> btreeNode \<Rightarrow> ('s, kv_error, unit) op" where
  "splitRootLeaf N = splitRoot N nodeLeaf"

definition splitRootBranch :: "'s nodeStore \<Rightarrow> btreeNode \<Rightarrow> ('s, kv_error, unit) op" where
  "splitRootBranch N = splitRoot N nodeBranch"

text \<open>The entries of a branch after an insertion below its child \<open>ci\<close>.\<close>

definition refreshChild :: "btreeEntry list \<Rightarrow> nat \<Rightarrow> bytes \<Rightarrow> btreeEntry option \<Rightarrow> btreeEntry list" where
  "refreshChild es ci k split =
     (let es' = es[ci := (es ! ci)\<lparr>ekey := k\<rparr>]
      in case split of None \<Rightarrow> es' | Some e \<Rightarrow> insertEntry es' e)"

fun putNonRoot :: "'s nodeStore \<Rightarrow> nat \<Rightarrow> btreeNode \<Rightarrow> bytes \<Rightarrow> bytes \<Rightarrow> ('s, kv_error, btreeEntry option) op" where
  "putNonRoot N 0 node k v = throwE OutOfFuel"
| "putNonRoot N (Suc f) node k v =
     (if ntyp node = nodeLeaf then
        let node' = node\<lparr>nentries := insertEntry (nentries node) (leafEntry k v)\<rparr> in
        if nodeFits node' then bindE (writeNodeOp N node') (\<lambda>_. returnE None)
        else splitNonRoot N node'
      else if ntyp node = nodeBranch then
        let ci = childIndexFor (nentries node) k in
        bindE (liftE (entryAt (nentries node) ci)) (\<lambda>ent.
        bindE (readE N (echild ent)) (\<lambda>child.
        bindE (putNonRoot N f child k v) (\<lambda>split.
        bindE (readE N (echild ent)) (\<lambda>child'.
          let node' = node\<lparr>nentries := refreshChild (nentries node) (nat ci) (firstKey child') split\<rparr> in
          if nodeFits node' then bindE (writeNodeOp N node') (\<lambda>_. returnE None)
          else splitNonRoot N node'))))
      else throwE (UnsupportedNodeType (ntyp node)))"

definition putRootBranch :: "'s nodeStore \<Rightarrow> nat \<Rightarrow> btreeNode \<Rightarrow> bytes \<Rightarrow> bytes \<Rightarrow> ('s, kv_error, unit) op" where
  "putRootBranch N fuel root k v =
     (let ci = childIndexFor (nentries root) k in
      bindE (liftE (entryAt (nentries root) ci)) (\<lambda>ent.
      bindE (readE N (echild ent)) (\<lambda>child.
      bindE (putNonRoot N fuel child k v) (\<lambda>split.
      bindE (readE N (echild ent)) (\<lambda>child'.
        let root' = root\<lparr>nentries := refreshChild (nentries root) (nat ci) (firstKey child') split\<rparr> in
        if nodeFits root' then writeNodeOp N root' else splitRootBranch N root')))))"

definition BTree_Put :: "'s nodeStore \<Rightarrow> nat \<Rightarrow> nat \<Rightarrow> bytes \<Rightarrow> bytes \<Rightarrow> ('s, kv_error, unit) op" where
  "BTree_Put N fuel rootID k v =
     (if k = [] then throwE KeyRequired else
      bindE (readE N rootID) (\<lambda>root.
        if ntyp root = nodeLeaf then
          let root' = root\<lparr>nentries := insertEntry (nentries root) (leafEntry k v)\<rparr> in
          if nodeFits root' then writeNodeOp N root' else splitRootLeaf N root'
        else if ntyp root = nodeBranch then putRootBranch N fuel root k v
        else throwE (UnsupportedNodeType (ntyp root))))"

text \<open>The end of \<open>deleteFromBranch\<close>: the child has lost the key and is dropped when it is empty.\<close>

definition settleChild :: "'s nodeStore \<Rightarrow> btreeNode \<Rightarrow> nat \<Rightarrow> btreeNode \<Rightarrow> bool \<Rightarrow> ('s, kv_error, bool) op" where
  "settleChild N node ci child isRoot =
     bindE
       (if nentries child = [] then
          bindE (if isRoot then returnE () else freeOp N (nid child)) (\<lambda>_.
          returnE (take ci (nentries node) @ drop (ci + 1) (nentries node)))
        else
          bindE (writeNodeOp N child) (\<lambda>_.
          returnE ((nentries node)[ci := (nentries node ! ci)\<lparr>ekey := firstKey child\<rparr>])))
       (\<lambda>es. bindE (writeNodeOp N (node\<lparr>nentries := es\<rparr>)) (\<lambda>_. returnE True))"

fun deleteFromBranch :: "'s nodeStore \<Rightarrow> nat \<Rightarrow> btreeNode \<Rightarrow> bytes \<Rightarrow> bool \<Rightarrow> ('s, kv_error, bool) op" where
  "deleteFromBranch N 0 node k isRoot = throwE OutOfFuel"
| "deleteFromBranch N (Suc f) node k isRoot =
     (if nentries node = [] then throwE (BranchEmpty (nid node)) else
      let ci = childIndexFor (nentries node) k in
      bindE (liftE (entryAt (nentries node) ci)) (\<lambda>ent.
      bindE (readE N (echild ent)) (\<lambda>child.
        if ntyp child = nodeLeaf then
          (case deleteEntry (nentries child) k of (es, ok) \<Rightarrow>
           if \<not> ok then returnE False
           else settleChild N node (nat ci) (child\<lparr>nentries := es\<rparr>) isRoot)
        else if ntyp child = nodeBranch then
          bindE (deleteFromBranch N f child k False) (\<lambda>deleted.
            if \<not> deleted then returnE False
            else bindE (readE N (nid child)) (\<lambda>child'. settleChild N node (nat ci) child' isRoot))
        else throwE (UnsupportedNodeType (ntyp child)))))"

definition BTree_Delete :: "'s nodeStore \<Rightarrow> nat \<Rightarrow> nat \<Rightarrow> bytes \<Rightarrow> ('s, kv_error, unit) op" where
  "BTree_Delete N fuel rootID k =
     (if k = [] then throwE KeyRequired else
      bindE (readE N rootID) (\<lambda>root.
        if ntyp root = nodeLeaf then
          (case deleteEntry (nentries root) k of (es, ok) \<Rightarrow>
           if \<not> ok then returnE () else writeNodeOp N (root\<lparr>nentries := es\<rparr>))
        else if ntyp root = nodeBranch then
          bindE (deleteFromBranch N fuel root k True) (\<lambda>deleted.
            if \<not> deleted then returnE ()
            else bindE (readE N (nid root)) (\<lambda>root'.
              if length (nentries root') = 1 then
                bindE (readE N (echild (nentries root' ! 0))) (\<lambda>only.
                writeNodeOp N (only\<lparr>nid := rootID\<rparr>))
              else writeNodeOp N root'))
        else throwE (UnsupportedNodeType (ntyp root))))"

fun firstLeafAt :: "'s nodeStore \<Rightarrow> nat \<Rightarrow> 's \<Rightarrow> nat \<Rightarrow> bytes \<Rightarrow> kv_error + btreeNode" where
  "firstLeafAt N 0 s i k = Inl OutOfFuel"
| "firstLeafAt N (Suc f) s i k =
     (case readNodeOp N s i of Inl e \<Rightarrow> Inl e | Inr node \<Rightarrow>
      if ntyp node = nodeLeaf then Inr node
      else if ntyp node = nodeBranch then
        (case childFor node k of Inl e \<Rightarrow> Inl e | Inr c \<Rightarrow> firstLeafAt N f s c k)
      else Inl (UnsupportedNodeType (ntyp node)))"

text \<open>An iterator; \<open>itEnd = None\<close> is the nil bound.\<close>

record iter =
  itNode :: btreeNode
  itIndex :: nat
  itEnd :: "bytes option"
  itErr :: "kv_error option"

fun skipEmpty :: "'s nodeStore \<Rightarrow> nat \<Rightarrow> 's \<Rightarrow> iter \<Rightarrow> iter" where
  "skipEmpty N 0 s it = it\<lparr>itErr := Some OutOfFuel\<rparr>"
| "skipEmpty N (Suc f) s it =
     (if itErr it = None \<and> ntyp (itNode it) = nodeLeaf
          \<and> length (nentries (itNode it)) \<le> itIndex it \<and> nnext (itNode it) \<noteq> 0
      then (case readNodeOp N s (nnext (itNode it)) of
              Inl e \<Rightarrow> it\<lparr>itErr := Some e\<rparr>
            | Inr nd \<Rightarrow> skipEmpty N f s (it\<lparr>itNode := nd, itIndex := 0\<rparr>))
      else it)"

definition emptyIter :: iter where
  "emptyIter = \<lparr>itNode = \<lparr>nid = 0, ntyp = 0, nnext = 0, nentries = []\<rparr>, itIndex = 0, itEnd = None, itErr = None\<rparr>"

definition BTree_Scan :: "'s nodeStore \<Rightarrow> nat \<Rightarrow> nat \<Rightarrow> 's \<Rightarrow> bytes \<Rightarrow> bytes option \<Rightarrow> kv_error + iter" where
  "BTree_Scan N fuel root s start stop =
     (if (case stop of None \<Rightarrow> False | Some e \<Rightarrow> e \<le> start) then Inr emptyIter
      else (case firstLeafAt N fuel s root start of Inl e \<Rightarrow> Inl e | Inr leaf \<Rightarrow>
        Inr (skipEmpty N fuel s
          \<lparr>itNode = leaf, itIndex = lowerBound (nentries leaf) start, itEnd = stop, itErr = None\<rparr>)))"

definition pastEnd :: "iter \<Rightarrow> bool" where
  "pastEnd it = (case itEnd it of None \<Rightarrow> False | Some e \<Rightarrow> e \<le> ekey (nentries (itNode it) ! itIndex it))"

definition Iterator_Valid :: "iter \<Rightarrow> bool" where
  "Iterator_Valid it \<longleftrightarrow> itErr it = None \<and> ntyp (itNode it) = nodeLeaf
     \<and> itIndex it < length (nentries (itNode it)) \<and> \<not> pastEnd it"

definition Iterator_Key :: "iter \<Rightarrow> bytes" where
  "Iterator_Key it = (if Iterator_Valid it then ekey (nentries (itNode it) ! itIndex it) else [])"

definition Iterator_Value :: "iter \<Rightarrow> bytes" where
  "Iterator_Value it = (if Iterator_Valid it then evalue (nentries (itNode it) ! itIndex it) else [])"

definition Iterator_Next :: "'s nodeStore \<Rightarrow> nat \<Rightarrow> 's \<Rightarrow> iter \<Rightarrow> iter" where
  "Iterator_Next N fuel s it =
     (if Iterator_Valid it then skipEmpty N fuel s (it\<lparr>itIndex := itIndex it + 1\<rparr>) else it)"

text \<open>
  The loop of every caller, \<open>for it.Valid() { ...; it.Next() }\<close> followed by \<open>it.Err()\<close>: the
  pairs it sees. The first fuel bounds the number of rounds, the second the leaves one
  \<open>Next\<close> passes.
\<close>

fun collect :: "'s nodeStore \<Rightarrow> nat \<Rightarrow> nat \<Rightarrow> 's \<Rightarrow> iter \<Rightarrow> kv_error + (bytes \<times> bytes) list" where
  "collect N rounds fuel s it =
     (if Iterator_Valid it then
        (case rounds of 0 \<Rightarrow> Inl OutOfFuel | Suc r \<Rightarrow>
           (case collect N r fuel s (Iterator_Next N fuel s it) of
              Inl e \<Rightarrow> Inl e
            | Inr kvs \<Rightarrow> Inr ((Iterator_Key it, Iterator_Value it) # kvs)))
      else (case itErr it of Some e \<Rightarrow> Inl e | None \<Rightarrow> Inr []))"

declare collect.simps [simp del]

definition scanAll :: "'s nodeStore \<Rightarrow> nat \<Rightarrow> nat \<Rightarrow> nat \<Rightarrow> 's \<Rightarrow> bytes \<Rightarrow> bytes option \<Rightarrow>
    kv_error + (bytes \<times> bytes) list" where
  "scanAll N rounds fuel root s start stop =
     (case BTree_Scan N fuel root s start stop of Inl e \<Rightarrow> Inl e
      | Inr it \<Rightarrow> collect N rounds fuel s it)"

end
