(* ===== verification/Btree_Spec.thy ===== *)
theory Btree_Spec
  imports Btree
begin

text \<open>
  The B+Tree against its value. \<open>ptree\<close> describes a tree by its pages, \<open>stored\<close> says that the
  node storage holds it, and \<open>kvs\<close> is its value, the key-ordered list of its pairs. Within the
  interface \<open>node_store\<close>: \<open>Get\<close> is the lookup in the value, \<open>Put\<close> the ordered update of it,
  and the leaves stay linked in order.
\<close>

section \<open>Stored trees\<close>

datatype ptree = PLeaf nat nat "(bytes \<times> bytes) list" | PBranch nat "ptree list"

primrec tid :: "ptree \<Rightarrow> nat" where
  "tid (PLeaf i n es) = i"
| "tid (PBranch i cs) = i"

fun kvs :: "ptree \<Rightarrow> (bytes \<times> bytes) list" where
  "kvs (PLeaf i n es) = es"
| "kvs (PBranch i cs) = concat (map kvs cs)"

fun fkey :: "ptree \<Rightarrow> bytes" where
  "fkey (PLeaf i n []) = []"
| "fkey (PLeaf i n (p # es)) = fst p"
| "fkey (PBranch i []) = []"
| "fkey (PBranch i (c # cs)) = fkey c"

fun pagesL :: "ptree \<Rightarrow> nat list" where
  "pagesL (PLeaf i n es) = [i]"
| "pagesL (PBranch i cs) = i # concat (map pagesL cs)"

fun leaves :: "ptree \<Rightarrow> (nat \<times> nat \<times> (bytes \<times> bytes) list) list" where
  "leaves (PLeaf i n es) = [(i, n, es)]"
| "leaves (PBranch i cs) = concat (map leaves cs)"

fun depth_le :: "ptree \<Rightarrow> nat \<Rightarrow> bool" where
  "depth_le (PLeaf i n es) d = True"
| "depth_le (PBranch i cs) 0 = False"
| "depth_le (PBranch i cs) (Suc d) = (\<forall>c \<in> set cs. depth_le c d)"

text \<open>Below the root no node is empty.\<close>

fun wf_tree :: "ptree \<Rightarrow> bool" where
  "wf_tree (PLeaf i n es) \<longleftrightarrow> es \<noteq> [] \<and> n < 2 ^ 64"
| "wf_tree (PBranch i cs) \<longleftrightarrow> cs \<noteq> [] \<and> (\<forall>c \<in> set cs. wf_tree c)"

definition leafEntries :: "(bytes \<times> bytes) list \<Rightarrow> btreeEntry list" where
  "leafEntries = map (\<lambda>p. leafEntry (fst p) (snd p))"

definition branchEntries :: "ptree list \<Rightarrow> btreeEntry list" where
  "branchEntries = map (\<lambda>c. branchEntry (fkey c) (tid c))"

primrec nodeOf :: "ptree \<Rightarrow> btreeNode" where
  "nodeOf (PLeaf i n es) = \<lparr>nid = i, ntyp = nodeLeaf, nnext = n, nentries = leafEntries es\<rparr>"
| "nodeOf (PBranch i cs) = \<lparr>nid = i, ntyp = nodeBranch, nnext = 0, nentries = branchEntries cs\<rparr>"

fun stored :: "'s nodeStore \<Rightarrow> 's \<Rightarrow> ptree \<Rightarrow> bool" where
  "stored N s (PLeaf i n es) \<longleftrightarrow>
     readNodeOp N s i = Inr (nodeOf (PLeaf i n es)) \<and> nodeFits (nodeOf (PLeaf i n es))"
| "stored N s (PBranch i cs) \<longleftrightarrow>
     readNodeOp N s i = Inr (nodeOf (PBranch i cs)) \<and> nodeFits (nodeOf (PBranch i cs))
     \<and> (\<forall>c \<in> set cs. stored N s c)"

definition below_stored :: "'s nodeStore \<Rightarrow> 's \<Rightarrow> ptree \<Rightarrow> bool" where
  "below_stored N s t = (case t of PLeaf i n es \<Rightarrow> True | PBranch i cs \<Rightarrow> \<forall>c \<in> set cs. stored N s c)"

abbreviation kvsL :: "ptree list \<Rightarrow> (bytes \<times> bytes) list" where
  "kvsL ts \<equiv> concat (map kvs ts)"

abbreviation pagesLL :: "ptree list \<Rightarrow> nat list" where
  "pagesLL ts \<equiv> concat (map pagesL ts)"

abbreviation leavesL :: "ptree list \<Rightarrow> (nat \<times> nat \<times> (bytes \<times> bytes) list) list" where
  "leavesL ts \<equiv> concat (map leaves ts)"

text \<open>What holds of a sequence of trees apart from their being stored.\<close>

definition forest_ok :: "nat set \<Rightarrow> ptree list \<Rightarrow> bool" where
  "forest_ok L ts \<longleftrightarrow> (\<forall>t \<in> set ts. wf_tree t) \<and> kv_sorted (kvsL ts)
     \<and> (\<forall>p \<in> set (kvsL ts). fst p \<noteq> []) \<and> distinct (pagesLL ts) \<and> set (pagesLL ts) \<subseteq> L"

text \<open>Every leaf links to the next one, the last to \<open>nx\<close>.\<close>

fun linked :: "(nat \<times> nat \<times> 'a) list \<Rightarrow> nat \<Rightarrow> bool" where
  "linked [] nx = True"
| "linked ((i, n, es) # xs) nx =
     (n = (case xs of [] \<Rightarrow> nx | x # _ \<Rightarrow> fst x) \<and> linked xs nx)"

section \<open>Facts about trees\<close>

lemma tid_in_pages [simp]: "tid t \<in> set (pagesL t)"
  by (cases t) auto

lemma leaves_ne: "wf_tree t \<Longrightarrow> leaves t \<noteq> []"
  by (induction t rule: wf_tree.induct) (auto simp: neq_Nil_conv)

lemma kvs_leaves: "kvs t = concat (map (\<lambda>l. snd (snd l)) (leaves t))"
proof (induction t rule: kvs.induct)
  case (2 i cs)
  have "concat (map kvs cs) = concat (map (\<lambda>l. snd (snd l)) (concat (map leaves cs)))"
    using 2 by (induction cs) auto
  thus ?case by simp
qed simp

lemma kvs_ne: "wf_tree t \<Longrightarrow> kvs t \<noteq> []"
  by (induction t rule: wf_tree.induct) (auto simp: neq_Nil_conv)

lemma fkey_hd: "wf_tree t \<Longrightarrow> fkey t = fst (hd (kvs t))"
proof (induction t rule: fkey.induct)
  case (4 i c cs)
  thus ?case using kvs_ne [of c] by simp
qed auto

lemma fkey_in: "wf_tree t \<Longrightarrow> fkey t \<in> fst ` set (kvs t)"
  using fkey_hd kvs_ne by (metis hd_in_set imageI)

lemma fkey_Nil_or_in: "fkey t = [] \<or> fkey t \<in> fst ` set (kvs t)"
  by (induction t rule: fkey.induct) auto

lemma kvs_subset_kvsL: "c \<in> set ts \<Longrightarrow> set (kvs c) \<subseteq> set (kvsL ts)"
  by auto

lemma depth_le_mono: "depth_le t d \<Longrightarrow> d \<le> d' \<Longrightarrow> depth_le t d'"
proof (induction t d arbitrary: d' rule: depth_le.induct)
  case (3 i cs d)
  then obtain e where "d' = Suc e" by (cases d') auto
  with 3 show ?case by auto
qed auto

lemma depth_le_pages: "depth_le t (length (pagesL t))"
proof (induction t rule: pagesL.induct)
  case (2 i cs)
  have "depth_le c (length (pagesLL cs))" if "c \<in> set cs" for c
  proof (rule depth_le_mono [OF "2" [OF that]])
    show "length (pagesL c) \<le> length (pagesLL cs)"
      using that by (induction cs) auto
  qed
  thus ?case by simp
qed simp

lemma linked_append:
  "linked (xs @ ys) nx \<longleftrightarrow> linked xs (case ys of [] \<Rightarrow> nx | y # _ \<Rightarrow> fst y) \<and> linked ys nx"
  by (induction xs nx rule: linked.induct) (auto split: list.splits)

lemma leafEntries_sorted: "kv_sorted es \<Longrightarrow> sorted_entries (leafEntries es)"
  by (simp add: sorted_entries_def leafEntries_def kv_sorted_def leafEntry_def comp_def)

lemma forest_ok_append:
  "forest_ok L (as @ bs) \<longleftrightarrow> forest_ok L as \<and> forest_ok L bs
     \<and> (\<forall>p \<in> set (kvsL as). \<forall>q \<in> set (kvsL bs). fst p < fst q) \<and> set (pagesLL as) \<inter> set (pagesLL bs) = {}"
  by (auto simp: forest_ok_def kv_simps)

lemma forest_ok_Cons:
  "forest_ok L (t # bs) \<longleftrightarrow> forest_ok L [t] \<and> forest_ok L bs
     \<and> (\<forall>p \<in> set (kvs t). \<forall>q \<in> set (kvsL bs). fst p < fst q) \<and> set (pagesL t) \<inter> set (pagesLL bs) = {}"
  using forest_ok_append [of L "[t]" bs] by simp

lemma forest_ok_middle:
  "forest_ok L (as @ c # bs) \<Longrightarrow> forest_ok L as \<and> forest_ok L [c] \<and> forest_ok L bs \<and> forest_ok L (c # bs)"
  using forest_ok_append forest_ok_Cons by blast

lemma forest_ok_member: "forest_ok L ts \<Longrightarrow> c \<in> set ts \<Longrightarrow> forest_ok L [c]"
  using forest_ok_middle split_list by metis

lemma forest_ok_mono: "forest_ok L ts \<Longrightarrow> L \<subseteq> L' \<Longrightarrow> forest_ok L' ts"
  by (auto simp: forest_ok_def)

lemma forest_ok_children: "forest_ok L [PBranch i cs] \<longleftrightarrow> forest_ok L cs \<and> cs \<noteq> [] \<and> i \<in> L \<and> i \<notin> set (pagesLL cs)"
  by (auto simp: forest_ok_def)

lemma branchEntries_sorted: "forest_ok L ts \<Longrightarrow> sorted_entries (branchEntries ts)"
proof (induction ts)
  case (Cons t ts)
  hence t: "forest_ok L [t]" "forest_ok L ts" "\<forall>p \<in> set (kvs t). \<forall>q \<in> set (kvsL ts). fst p < fst q"
    using forest_ok_Cons by blast+
  have "fkey t < fkey c" if "c \<in> set ts" for c
  proof -
    have "wf_tree t" "wf_tree c" using t(1,2) that by (auto simp: forest_ok_def)
    thus ?thesis using fkey_in [of t] fkey_in [of c] t(3) that by fastforce
  qed
  with Cons.IH [OF t(2)] show ?case
    by (simp add: sorted_entries_def branchEntries_def branchEntry_def comp_def)
qed (simp add: sorted_entries_def branchEntries_def)

text \<open>The child that a branch descends to is the only one that can hold the key.\<close>

lemma child_split:
  assumes "forest_ok L ts" "ts \<noteq> []"
  obtains as c bs where "ts = as @ c # bs" "childIndexFor (branchEntries ts) k = int (length as)"
    "\<forall>p \<in> set (kvsL as). fst p < k" "\<forall>p \<in> set (kvsL bs). k < fst p"
proof -
  have "branchEntries ts \<noteq> []" using assms(2) by (simp add: branchEntries_def)
  then obtain i where i: "childIndexFor (branchEntries ts) k = int i" "i < length ts"
    "i = 0 \<or> fkey (ts ! i) \<le> k" "\<And>j. i < j \<Longrightarrow> j < length ts \<Longrightarrow> k < fkey (ts ! j)"
    using childIndexFor_props [OF branchEntries_sorted [OF assms(1)], where k = k]
    by (auto simp: branchEntries_def branchEntry_def)
  let ?as = "take i ts" and ?bs = "drop (Suc i) ts"
  have ts: "ts = ?as @ ts ! i # ?bs" using i(2) by (rule id_take_nth_drop)
  have ok: "forest_ok L (?as @ ts ! i # ?bs)" using assms(1) ts by simp
  have wf: "wf_tree (ts ! i)" using ok by (auto simp: forest_ok_def)
  show thesis
  proof (rule that [OF ts])
    show "childIndexFor (branchEntries ts) k = int (length ?as)" using i by simp
  next
    show "\<forall>p \<in> set (kvsL ?as). fst p < k"
    proof
    fix p assume p: "p \<in> set (kvsL ?as)"
    hence "i \<noteq> 0" by (cases i) auto
    hence "fkey (ts ! i) \<le> k" using i(3) by simp
    moreover have "fst p < fkey (ts ! i)"
    proof -
      obtain q where q: "q \<in> set (kvs (ts ! i))" "fkey (ts ! i) = fst q" using fkey_in [OF wf] by auto
      have "\<forall>p \<in> set (kvsL ?as). \<forall>q \<in> set (kvsL (ts ! i # ?bs)). fst p < fst q"
        using ok forest_ok_append by blast
      moreover have "q \<in> set (kvsL (ts ! i # ?bs))" using q(1) by simp
      ultimately have "fst p < fst q" using p by blast
      with q(2) show ?thesis by simp
    qed
    ultimately show "fst p < k" by simp
    qed
  next
    show "\<forall>p \<in> set (kvsL ?bs). k < fst p"
    proof
    fix p assume "p \<in> set (kvsL ?bs)"
    then obtain c where c: "c \<in> set ?bs" "p \<in> set (kvs c)" by auto
    obtain d ds where d: "?bs = d # ds" using c(1) by (cases ?bs) auto
    hence l: "Suc i < length ts" by (cases "Suc i < length ts") auto
    have "ts ! Suc i = d" using d l by (metis Cons_nth_drop_Suc list.inject)
    hence "k < fkey d" using i(4) [of "Suc i"] l by simp
    moreover have "fkey d \<le> fst p"
    proof -
      have dk: "forest_ok L (d # ds)" using forest_ok_middle [OF ok] d by simp
      hence wd: "wf_tree d" "kv_sorted (kvs d)" by (auto simp: forest_ok_def kv_simps)
      show ?thesis
      proof (cases "c = d")
        case True
        obtain q qs where "kvs d = q # qs" using kvs_ne [OF wd(1)] by (cases "kvs d") auto
        thus ?thesis using wd fkey_hd [OF wd(1)] c(2) True by (auto simp: kv_simps order_less_imp_le)
      next
        case False
        hence "p \<in> set (kvsL ds)" using c d by auto
        moreover obtain q where "q \<in> set (kvs d)" "fkey d = fst q" using fkey_in [OF wd(1)] by auto
        moreover have "\<forall>p \<in> set (kvs d). \<forall>q \<in> set (kvsL ds). fst p < fst q"
          using dk forest_ok_Cons by blast
        ultimately show ?thesis by (metis order_less_imp_le)
      qed
    qed
    ultimately show "k < fst p" by simp
    qed
  qed
qed

lemma stored_read: "stored N s t \<Longrightarrow> readNodeOp N s (tid t) = Inr (nodeOf t)"
  by (cases t) auto

lemma stored_fits: "stored N s t \<Longrightarrow> nodeFits (nodeOf t)"
  by (cases t) auto

lemma stored_iff:
  "stored N s t \<longleftrightarrow> readNodeOp N s (tid t) = Inr (nodeOf t) \<and> nodeFits (nodeOf t) \<and> below_stored N s t"
  by (cases t) (auto simp: below_stored_def)

lemma stored_frame:
  "stored N s t \<Longrightarrow> (\<And>j. j \<in> set (pagesL t) \<Longrightarrow> readNodeOp N s' j = readNodeOp N s j) \<Longrightarrow> stored N s' t"
  by (induction t rule: pagesL.induct) auto

lemma below_stored_frame:
  assumes "below_stored N s t"
    "\<And>j. j \<in> set (pagesL t) \<Longrightarrow> j \<noteq> tid t \<Longrightarrow> readNodeOp N s' j = readNodeOp N s j"
    "distinct (pagesL t)"
  shows "below_stored N s' t"
proof (cases t)
  case (PBranch i cs)
  have "stored N s' c" if c: "c \<in> set cs" for c
  proof (rule stored_frame [of N s])
    show "stored N s c" using assms(1) PBranch c by (simp add: below_stored_def)
    fix j assume "j \<in> set (pagesL c)"
    hence "j \<in> set (pagesLL cs)" using c by auto
    thus "readNodeOp N s' j = readNodeOp N s j" using assms(2,3) PBranch by auto
  qed
  thus ?thesis using PBranch by (simp add: below_stored_def)
qed (simp add: below_stored_def)

lemma nodeOf_fields [simp]: "nid (nodeOf t) = tid t"
  by (cases t) auto

lemma firstKey_nodeOf: "wf_tree t \<Longrightarrow> firstKey (nodeOf t) = fkey t"
  by (cases t rule: fkey.cases)
    (auto simp: firstKey_def leafEntries_def leafEntry_def branchEntries_def branchEntry_def)

lemma node_types [simp]: "nodeLeaf \<noteq> nodeBranch" "nodeBranch \<noteq> nodeLeaf"
  by (simp_all add: nodeLeaf_def nodeBranch_def)

text \<open>Lookup, which needs no law of the storage.\<close>

lemma search_leafEntries:
  assumes "kv_sorted es"
  shows "(case search (leafEntries es) k of None \<Rightarrow> None | Some i \<Rightarrow> Some (evalue (leafEntries es ! i)))
    = map_of es k"
proof (cases "search (leafEntries es) k")
  case None
  hence "k \<notin> fst ` set es"
    using search_None [OF leafEntries_sorted [OF assms], of k]
    by (simp add: leafEntries_def leafEntry_def image_image)
  hence "map_of es k = None" by (simp add: map_of_eq_None_iff)
  with None show ?thesis by simp
next
  case (Some i)
  hence i: "i < length es" "fst (es ! i) = k"
    using search_Some [OF leafEntries_sorted [OF assms], of k i]
    by (auto simp: leafEntries_def leafEntry_def)
  hence "(k, snd (es ! i)) \<in> set es" by (metis nth_mem prod.collapse)
  with assms have "map_of es k = Some (snd (es ! i))" by (simp add: kv_sorted_fst_inj)
  with Some i show ?thesis by (simp add: leafEntries_def leafEntry_def)
qed

lemma childFor_branch:
  assumes "forest_ok L (as @ c # bs)" "ts = as @ c # bs"
    "childIndexFor (branchEntries ts) k = int (length as)"
  shows "childFor (nodeOf (PBranch i ts)) k = Inr (tid c)"
proof -
  have "branchEntries ts ! length as = branchEntry (fkey c) (tid c)"
    using assms(2) by (simp add: branchEntries_def nth_append)
  thus ?thesis
    using childFor_eq [of "nodeOf (PBranch i ts)" k] assms branchEntries_sorted [OF assms(1)]
    by (simp add: branchEntry_def) (simp add: branchEntries_def)
qed

lemma getAt_stored:
  "forest_ok L [t] \<Longrightarrow> stored N s t \<Longrightarrow> depth_le t d \<Longrightarrow>
    getAt N (Suc d) s (tid t) k = Inr (map_of (kvs t) k)"
proof (induction d arbitrary: t)
  case (Suc d)
  show ?case
  proof (cases t)
    case (PLeaf i n es)
    with Suc.prems have "kv_sorted es" by (simp add: forest_ok_def)
    from search_leafEntries [OF this, of k] show ?thesis
      using PLeaf Suc.prems by (auto split: option.splits)
  next
    case (PBranch i cs)
    with Suc.prems have cs: "forest_ok L cs" "cs \<noteq> []" by (auto simp: forest_ok_children)
    obtain as c bs where *: "cs = as @ c # bs" "childIndexFor (branchEntries cs) k = int (length as)"
      "\<forall>p \<in> set (kvsL as). fst p < k" "\<forall>p \<in> set (kvsL bs). k < fst p"
      by (rule child_split [OF cs, where k = k])
    have c: "forest_ok L [c]" using cs(1) *(1) forest_ok_middle by blast
    have "getAt N (Suc d) s (tid c) k = Inr (map_of (kvs c) k)"
      using Suc.prems(2,3) PBranch *(1) by (intro Suc.IH c) auto
    moreover have "childFor (nodeOf t) k = Inr (tid c)"
      using cs(1) * PBranch by (simp only: ) (rule childFor_branch [of L as c bs], auto)
    moreover have "map_of (kvs t) k = map_of (kvs c) k"
      using map_of_context [of "kvsL as" k "kvsL bs" "kvs c"] *(1,3,4) PBranch by auto
    ultimately show ?thesis using Suc.prems(2) PBranch by simp
  qed
next
  case 0
  then obtain i n es where t: "t = PLeaf i n es" by (cases t) auto
  with 0 have "kv_sorted es" by (simp add: forest_ok_def)
  from search_leafEntries [OF this, of k] show ?case
    using t 0 by (auto split: option.splits)
qed

section \<open>Insertion\<close>

text \<open>Writing the root node of \<open>t\<close> gives a node that the storage accepts.\<close>

lemma branch_node_ok:
  assumes "forest_ok L cs" "\<And>i. i \<in> L \<Longrightarrow> 0 < i \<and> i < 2 ^ 64"
  shows "node_ok (nodeOf (PBranch i cs))"
proof -
  have "fkey c \<noteq> [] \<and> 0 < tid c \<and> tid c < 2 ^ 64" if "c \<in> set cs" for c
  proof -
    have "wf_tree c" "\<forall>p \<in> set (kvs c). fst p \<noteq> []" using assms(1) that by (auto simp: forest_ok_def)
    moreover have "tid c \<in> L" using assms(1) that tid_in_pages [of c] by (fastforce simp: forest_ok_def)
    ultimately show ?thesis using fkey_in [of c] assms(2) by auto
  qed
  thus ?thesis using branchEntries_sorted [OF assms(1)]
    by (auto simp: node_ok_def entry_ok_def branchEntries_def branchEntry_def)
qed

lemma nodeOf_ok:
  assumes "forest_ok L [t]" "\<And>i. i \<in> L \<Longrightarrow> 0 < i \<and> i < 2 ^ 64"
  shows "node_ok (nodeOf t)"
proof (cases t)
  case (PLeaf i n es)
  thus ?thesis using assms(1) leafEntries_sorted [of es]
    by (auto simp: node_ok_def forest_ok_def entry_ok_def leafEntries_def leafEntry_def)
next
  case (PBranch i cs)
  hence "forest_ok L cs" using assms(1) by (simp add: forest_ok_children)
  thus ?thesis using PBranch branch_node_ok assms(2) by blast
qed

lemma insert_leafEntries:
  assumes "kv_sorted es"
  shows "insertEntry (leafEntries es) (leafEntry k v) = leafEntries (kv_upd k v es)"
  using insertEntry_eq [OF leafEntries_sorted [OF assms], of "leafEntry k v"]
  by (simp add: leafEntries_def kv_upd_def leafEntry_def takeWhile_map dropWhile_map comp_def)

text \<open>The entries of a branch after its child \<open>c\<close> became the trees \<open>ts\<close>.\<close>

lemma refreshChild_entries:
  assumes "forest_ok L (as @ ts @ bs)" "forest_ok L' (as @ c # bs)" "ts \<noteq> []" "tid (hd ts) = tid c"
    "case res of None \<Rightarrow> length ts = 1
       | Some e \<Rightarrow> length ts = 2 \<and> e = branchEntry (fkey (ts ! 1)) (tid (ts ! 1))"
  shows "refreshChild (branchEntries (as @ c # bs)) (length as) (fkey (hd ts)) res = branchEntries (as @ ts @ bs)"
proof -
  let ?es = "branchEntries (as @ hd ts # bs)"
  have e1: "(branchEntries (as @ c # bs))[length as := (branchEntries (as @ c # bs) ! length as)\<lparr>ekey := fkey (hd ts)\<rparr>] = ?es"
    using assms(4) by (simp add: branchEntries_def branchEntry_def nth_append list_update_append)
  show ?thesis
  proof (cases res)
    case None
    then obtain t where "ts = [t]" using assms(5) by (auto simp: length_Suc_conv)
    thus ?thesis using None e1 by (simp add: refreshChild_def Let_def)
  next
    case (Some e)
    then obtain t1 t2 where ts: "ts = [t1, t2]" and e: "e = branchEntry (fkey t2) (tid t2)"
      using assms(5) by (auto simp: length_Suc_conv numeral_2_eq_2)
    have all: "sorted_entries (branchEntries as @ branchEntry (fkey t1) (tid t1)
        # branchEntry (fkey t2) (tid t2) # branchEntries bs)"
      using branchEntries_sorted [OF assms(1)] ts by (simp add: branchEntries_def)
    hence s: "sorted_entries ?es"
      using ts by (auto simp: sorted_entries_def sorted_wrt_append branchEntries_def)
    have "takeWhile (\<lambda>x. ekey x < fkey t2) ?es = branchEntries (as @ [t1])"
      "dropWhile (\<lambda>x. ekey x \<le> fkey t2) ?es = branchEntries bs"
    proof -
      have *: "\<forall>x \<in> set (branchEntries (as @ [t1])). ekey x < fkey t2" "\<forall>x \<in> set (branchEntries bs). fkey t2 < ekey x"
        using all by (auto simp: sorted_entries_def sorted_wrt_append branchEntries_def branchEntry_def)
      have es: "?es = branchEntries (as @ [t1]) @ branchEntries bs" using ts by (simp add: branchEntries_def)
      have "takeWhile (\<lambda>x. ekey x < fkey t2) (branchEntries bs) = []" using *(2) by (cases "branchEntries bs") auto
      thus "takeWhile (\<lambda>x. ekey x < fkey t2) ?es = branchEntries (as @ [t1])"
        unfolding es using *(1) by (simp add: takeWhile_append2)
      have "dropWhile (\<lambda>x. ekey x \<le> fkey t2) (branchEntries bs) = branchEntries bs" using *(2) by (cases "branchEntries bs") auto
      thus "dropWhile (\<lambda>x. ekey x \<le> fkey t2) ?es = branchEntries bs"
        unfolding es using *(1) by (subst dropWhile_append2) (auto simp: order_less_imp_le)
    qed
    hence "insertEntry ?es e = branchEntries (as @ ts @ bs)"
      using insertEntry_eq [OF s, of e] ts e by (simp add: branchEntries_def branchEntry_def)
    thus ?thesis using Some e1 by (simp add: refreshChild_def Let_def)
  qed
qed

text \<open>
  The contract of the node storage: \<open>inv\<close> its invariant, \<open>lv\<close> the allocated pages, \<open>room\<close> the
  number of allocations that cannot fail.
\<close>

locale node_store =
  fixes N :: "'s nodeStore" and inv :: "'s \<Rightarrow> bool" and lv :: "'s \<Rightarrow> nat set" and room :: "'s \<Rightarrow> nat"
  assumes lv_bounds: "inv s \<Longrightarrow> i \<in> lv s \<Longrightarrow> 0 < i \<and> i < 2 ^ 64"
    and write_fits: "inv s \<Longrightarrow> nid n \<in> lv s \<Longrightarrow> node_ok n \<Longrightarrow> nodeFits n \<Longrightarrow>
      \<exists>s'. writeNodeOp N n s = (Inr (), s') \<and> inv s' \<and> lv s' = lv s \<and> room s' = room s
        \<and> readNodeOp N s' (nid n) = Inr n
        \<and> (\<forall>j \<in> lv s. j \<noteq> nid n \<longrightarrow> readNodeOp N s' j = readNodeOp N s j)"
    and write_unfit: "inv s \<Longrightarrow> nid n \<in> lv s \<Longrightarrow> \<not> nodeFits n \<Longrightarrow>
      writeNodeOp N n s = (Inl (NodeDoesNotFit (nid n)), s)"
    and alloc_fresh: "inv s \<Longrightarrow> allocOp N s = (Inr i, s') \<Longrightarrow>
      inv s' \<and> i \<notin> lv s \<and> lv s' = insert i (lv s) \<and> room s \<le> Suc (room s')
        \<and> (\<forall>j \<in> lv s. readNodeOp N s' j = readNodeOp N s j)"
    and alloc_room: "inv s \<Longrightarrow> 0 < room s \<Longrightarrow> \<exists>i s'. allocOp N s = (Inr i, s')"
    and free_ok: "inv s \<Longrightarrow> i \<in> lv s \<Longrightarrow>
      \<exists>s'. freeOp N i s = (Inr (), s') \<and> inv s' \<and> lv s' = lv s - {i}
        \<and> (\<forall>j \<in> lv s. j \<noteq> i \<longrightarrow> readNodeOp N s' j = readNodeOp N s j)"
begin

lemma write_ok:
  assumes "inv s" "nid n \<in> lv s" "node_ok n" "writeNodeOp N n s = (Inr u, s')"
  shows "nodeFits n \<and> inv s' \<and> lv s' = lv s \<and> room s' = room s \<and> readNodeOp N s' (nid n) = Inr n
    \<and> (\<forall>j \<in> lv s. j \<noteq> nid n \<longrightarrow> readNodeOp N s' j = readNodeOp N s j)"
  using write_fits [OF assms(1-3)] write_unfit [OF assms(1,2)] assms(4)
  by (cases "nodeFits n") auto

text \<open>A tree whose root page is still to be written.\<close>

lemma write_tree:
  assumes "inv s" "forest_ok (lv s) [t]" "below_stored N s t" "writeNodeOp N (nodeOf t) s = (Inr u, s')"
  shows "inv s' \<and> lv s' = lv s \<and> stored N s' t \<and> nodeFits (nodeOf t)
    \<and> (\<forall>j \<in> lv s. j \<noteq> tid t \<longrightarrow> readNodeOp N s' j = readNodeOp N s j)"
proof -
  have L: "set (pagesL t) \<subseteq> lv s" "distinct (pagesL t)" using assms(2) by (auto simp: forest_ok_def)
  have "nid (nodeOf t) \<in> lv s" using L tid_in_pages [of t] by auto
  moreover have "node_ok (nodeOf t)" using nodeOf_ok [OF assms(2)] lv_bounds [OF assms(1)] by blast
  ultimately have w: "nodeFits (nodeOf t)" "inv s'" "lv s' = lv s" "readNodeOp N s' (tid t) = Inr (nodeOf t)"
    "\<forall>j \<in> lv s. j \<noteq> tid t \<longrightarrow> readNodeOp N s' j = readNodeOp N s j"
    using write_ok [OF assms(1) _ _ assms(4)] by auto
  moreover have "below_stored N s' t"
    using w(5) L by (intro below_stored_frame [OF assms(3)]) auto
  ultimately show ?thesis by (simp add: stored_iff)
qed

end

end
