(* ===== verification/Btree_Put.thy ===== *)
theory Btree_Put
  imports Btree_Spec
begin

text \<open>
  Insertion within the node storage interface: whenever \<open>Put\<close> succeeds the tree afterwards is
  stored, ordered and linked, and its value is the updated value; and \<open>Put\<close> does succeed when
  the entries are at most 263 bytes and pages can be allocated.
\<close>

text \<open>
  What an insertion below the tree \<open>t\<close> leaves behind: the trees \<open>ts\<close>, one or two, in place of
  \<open>t\<close>, and the separator entry handed to the caller for the second.
\<close>

definition split_entry :: "btreeEntry option \<Rightarrow> ptree list \<Rightarrow> bool" where
  "split_entry res ts = (case res of None \<Rightarrow> length ts = 1
     | Some e \<Rightarrow> length ts = 2 \<and> e = branchEntry (fkey (ts ! 1)) (tid (ts ! 1)))"

definition replaces :: "ptree \<Rightarrow> ptree list \<Rightarrow> bool" where
  "replaces t ts \<longleftrightarrow> ts \<noteq> [] \<and> tid (hd ts) = tid t \<and> leavesL ts \<noteq> []
     \<and> fst (hd (leavesL ts)) = fst (hd (leaves t))
     \<and> (\<forall>nx. linked (leaves t) nx \<longrightarrow> linked (leavesL ts) nx)"

lemma linked_replace:
  assumes "replaces c ts" "leaves c \<noteq> []" "linked (xs @ leaves c @ ys) nx"
  shows "linked (xs @ leavesL ts @ ys) nx"
proof -
  have "\<And>zs. zs \<noteq> [] \<Longrightarrow> (case zs @ ys of [] \<Rightarrow> nx | y # _ \<Rightarrow> fst y) = fst (hd zs)"
    by (auto simp: neq_Nil_conv)
  thus ?thesis using assms by (auto simp: linked_append replaces_def)
qed

lemma hd_leaves_replace:
  assumes "replaces c ts" "leaves c \<noteq> []"
  shows "fst (hd (xs @ leavesL ts @ ys)) = fst (hd (xs @ leaves c @ ys))"
  using assms by (cases xs) (auto simp: replaces_def)

text \<open>A node that does not fit, cut in two at \<open>m\<close>.\<close>

primrec cut :: "nat \<Rightarrow> nat \<Rightarrow> ptree \<Rightarrow> ptree list" where
  "cut m r (PLeaf i n es) = [PLeaf i r (take m es), PLeaf r n (drop m es)]"
| "cut m r (PBranch i cs) = [PBranch i (take m cs), PBranch r (drop m cs)]"

primrec width :: "ptree \<Rightarrow> nat" where
  "width (PLeaf i n es) = length es"
| "width (PBranch i cs) = length cs"

lemma length_nodeOf [simp]: "length (nentries (nodeOf t)) = width t"
  by (cases t) (auto simp: leafEntries_def branchEntries_def)

lemma kvsL_cut [simp]: "kvsL (cut m r t) = kvs t"
  by (cases t) (auto simp: concat_append [symmetric] map_append [symmetric] simp del: concat_append map_append)

lemma leavesL_cut_branch: "leavesL (cut m r (PBranch i cs)) = leaves (PBranch i cs)"
  by (auto simp: concat_append [symmetric] map_append [symmetric] simp del: concat_append map_append)

lemma pagesLL_take_drop: "pagesLL (take m cs) @ pagesLL (drop m cs) = pagesLL cs"
  by (metis append_take_drop_id concat_append map_append)

lemma forest_ok_cut:
  assumes "forest_ok L [t]" "r \<notin> L" "r < 2 ^ 64" "0 < m" "m < width t"
  shows "forest_ok (insert r L) (cut m r t)"
proof (cases t)
  case (PLeaf i n es)
  thus ?thesis using assms kvsL_cut [of m r t] by (auto simp: forest_ok_def)
next
  case (PBranch i cs)
  have pg: "distinct (pagesLL (take m cs) @ pagesLL (drop m cs))"
    "set (pagesLL (take m cs) @ pagesLL (drop m cs)) \<subseteq> L" "i \<in> L"
    "i \<notin> set (pagesLL (take m cs) @ pagesLL (drop m cs))"
    using assms(1) PBranch unfolding pagesLL_take_drop by (auto simp: forest_ok_def)
  hence "distinct (pagesLL (cut m r t))" "set (pagesLL (cut m r t)) \<subseteq> insert r L"
    using PBranch assms(2) by auto
  moreover have "\<forall>t \<in> set (cut m r t). wf_tree t"
    using assms PBranch by (auto simp: forest_ok_def dest: in_set_takeD in_set_dropD)
  ultimately show ?thesis using assms(1) kvsL_cut [of m r t] by (simp add: forest_ok_def)
qed

lemma replaces_cut:
  assumes "forest_ok L [t]" "0 < m" "m < width t"
  shows "replaces t (cut m r t)"
proof (cases t)
  case (PLeaf i n es)
  thus ?thesis by (auto simp: replaces_def)
next
  case (PBranch i cs)
  hence "leaves t \<noteq> []" using assms(1) by (intro leaves_ne) (simp add: forest_ok_def)
  thus ?thesis using PBranch leavesL_cut_branch [of m r i cs] by (simp add: replaces_def)
qed

lemma width_pos: "forest_ok L [t] \<Longrightarrow> 0 < width t"
  by (cases t) (auto simp: forest_ok_def)

text \<open>The halves that \<open>splitNonRoot\<close> writes are the nodes of the two cuts.\<close>

definition midOf :: "nat \<Rightarrow> nat" where
  "midOf n = (if n div 2 = 0 then 1 else n div 2)"

lemma splitNonRoot_cut:
  "splitNonRoot N (nodeOf t) =
     bindE (allocOp N) (\<lambda>r.
     bindE (writeNodeOp N (nodeOf (cut (midOf (width t)) r t ! 0))) (\<lambda>_.
     bindE (writeNodeOp N (nodeOf (cut (midOf (width t)) r t ! 1))) (\<lambda>_.
     returnE (Some (branchEntry (firstKey (nodeOf (cut (midOf (width t)) r t ! 1))) r)))))"
  by (cases t) (simp_all add: splitNonRoot_def splitEntries_def Let_def midOf_def leafEntries_def
      branchEntries_def take_map drop_map)

text \<open>One entry alone that does not fit cannot be split: the left half is the node itself.\<close>

lemma cut_single: "width t \<le> 1 \<Longrightarrow> nentries (nodeOf (cut (midOf (width t)) r t ! 0)) = nentries (nodeOf t)"
  by (cases t) (auto simp: midOf_def)

lemma replaces_trans:
  assumes "replaces T ts" "tid T = tid t" "fst (hd (leaves T)) = fst (hd (leaves t))"
    "\<And>nx. linked (leaves t) nx \<Longrightarrow> linked (leaves T) nx"
  shows "replaces t ts"
  using assms by (auto simp: replaces_def)

lemma distinct_replace:
  "distinct (A @ C @ B) \<Longrightarrow> set (A @ C @ B) \<subseteq> L \<Longrightarrow> distinct T \<Longrightarrow> set T \<subseteq> set C \<union> (L' - L) \<Longrightarrow>
    distinct (A @ T @ B)"
  by auto

lemma forest_replace:
  assumes "forest_ok L (as @ c # bs)" "forest_ok L' ts" "L \<subseteq> L'"
    "set (pagesLL ts) \<subseteq> set (pagesL c) \<union> (L' - L)" "kvsL ts = kv_upd k v (kvs c)" "k \<noteq> []"
    "\<forall>p \<in> set (kvsL as). fst p < k" "\<forall>p \<in> set (kvsL bs). k < fst p"
  shows "kvsL (as @ ts @ bs) = kv_upd k v (kvsL (as @ c # bs))" "forest_ok L' (as @ ts @ bs)"
proof -
  note old = forest_ok_middle [OF assms(1)]
  show eq: "kvsL (as @ ts @ bs) = kv_upd k v (kvsL (as @ c # bs))"
    using kv_upd_context [of "kvsL as" k "kvsL bs" v "kvs c"] assms(5,7,8) by auto
  have so: "kv_sorted (kvsL (as @ c # bs))" "\<forall>p \<in> set (kvsL (as @ c # bs)). fst p \<noteq> []"
    using assms(1) unfolding forest_ok_def by blast+
  hence "kv_sorted (kvsL (as @ ts @ bs))" "\<forall>p \<in> set (kvsL (as @ ts @ bs)). fst p \<noteq> []"
    unfolding eq using kv_sorted_kv_upd set_kv_upd [OF so(1)] assms(6) by auto
  moreover have "distinct (pagesLL as @ pagesL c @ pagesLL bs)" "set (pagesLL as @ pagesL c @ pagesLL bs) \<subseteq> L"
    using assms(1) by (simp_all add: forest_ok_def)
  hence "distinct (pagesLL as @ pagesLL ts @ pagesLL bs)" "set (pagesLL (as @ ts @ bs)) \<subseteq> L'"
    using distinct_replace [of "pagesLL as" "pagesL c" "pagesLL bs" L "pagesLL ts" L'] assms(2-4)
    by (auto simp: forest_ok_def)
  ultimately show "forest_ok L' (as @ ts @ bs)"
    using assms(2) old by (auto simp: forest_ok_def)
qed

context node_store
begin

lemma write_two:
  assumes "inv s" "forest_ok (lv s) [a, b]" "below_stored N s a" "below_stored N s b"
    "writeNodeOp N (nodeOf a) s = (Inr u, s1)" "writeNodeOp N (nodeOf b) s1 = (Inr u', s')"
  shows "inv s' \<and> lv s' = lv s \<and> stored N s' a \<and> stored N s' b
    \<and> (\<forall>j \<in> lv s. j \<noteq> tid a \<longrightarrow> j \<noteq> tid b \<longrightarrow> readNodeOp N s' j = readNodeOp N s j)"
proof -
  have ok: "forest_ok (lv s) [a]" "forest_ok (lv s) [b]" and dis: "set (pagesL a) \<inter> set (pagesL b) = {}"
    using assms(2) forest_ok_Cons [of "lv s" a "[b]"] by auto
  have sep: "tid a \<notin> set (pagesL b)" "tid b \<notin> set (pagesL a)"
    using dis tid_in_pages [of a] tid_in_pages [of b] by blast+
  have wa: "inv s1" "lv s1 = lv s" "stored N s1 a"
    "\<forall>j \<in> lv s. j \<noteq> tid a \<longrightarrow> readNodeOp N s1 j = readNodeOp N s j"
    using write_tree [OF assms(1) ok(1) assms(3,5)] by blast+
  have "below_stored N s1 b"
    using wa sep ok(2) by (intro below_stored_frame [OF assms(4)]) (auto simp: forest_ok_def)
  hence wb: "inv s'" "lv s' = lv s1" "stored N s' b"
    "\<forall>j \<in> lv s1. j \<noteq> tid b \<longrightarrow> readNodeOp N s' j = readNodeOp N s1 j"
    using write_tree [of s1 b u' s'] ok(2) wa(1,2) assms(6) by auto
  have "stored N s' a"
  proof (rule stored_frame [OF wa(3)])
    fix j assume "j \<in> set (pagesL a)"
    thus "readNodeOp N s' j = readNodeOp N s1 j" using wb(4) wa(2) sep(2) ok(1) by (auto simp: forest_ok_def)
  qed
  thus ?thesis using wa wb by auto
qed

lemma finish_node:
  assumes "inv s" "forest_ok (lv s) [t]" "below_stored N s t"
    "(if nodeFits (nodeOf t) then bindE (writeNodeOp N (nodeOf t)) (\<lambda>_. returnE None)
      else splitNonRoot N (nodeOf t)) s = (Inr res, s')"
  obtains ts where "inv s'" "lv s \<subseteq> lv s'" "forest_ok (lv s') ts" "\<forall>c \<in> set ts. stored N s' c"
    "set (pagesLL ts) \<subseteq> set (pagesL t) \<union> (lv s' - lv s)"
    "\<forall>j \<in> lv s. j \<noteq> tid t \<longrightarrow> readNodeOp N s' j = readNodeOp N s j"
    "replaces t ts" "kvsL ts = kvs t" "split_entry res ts"
proof (cases "nodeFits (nodeOf t)")
  case True
  then obtain u where w: "writeNodeOp N (nodeOf t) s = (Inr u, s')" "res = None"
    using assms(4) by (auto elim: bindE_InrE)
  have "leaves t \<noteq> []" using assms(2) by (intro leaves_ne) (simp add: forest_ok_def)
  with write_tree [OF assms(1-3) w(1)] assms(2) w(2) show thesis
    by (intro that [of "[t]"]) (auto simp: replaces_def split_entry_def)
next
  case False
  define m where "m = midOf (width t)"
  from False assms(4) obtain r s1 s2 u u' where
    al: "allocOp N s = (Inr r, s1)"
    and w0: "writeNodeOp N (nodeOf (cut m r t ! 0)) s1 = (Inr u, s2)"
    and w1: "writeNodeOp N (nodeOf (cut m r t ! 1)) s2 = (Inr u', s')"
    and res: "res = Some (branchEntry (firstKey (nodeOf (cut m r t ! 1))) r)"
    unfolding splitNonRoot_cut m_def by (auto elim!: bindE_InrE)
  note s1 = alloc_fresh [OF assms(1) al]
  have "tid t \<in> lv s" using assms(2) tid_in_pages [of t] by (auto simp: forest_ok_def)
  show thesis
  proof (cases "width t \<le> 1")
    case True
    hence "\<not> nodeFits (nodeOf (cut m r t ! 0))"
      using False cut_single [OF True, of r] by (simp add: nodeFits_def m_def)
    moreover have "nid (nodeOf (cut m r t ! 0)) = tid t" by (cases t) auto
    ultimately show ?thesis
      using write_unfit [of s1 "nodeOf (cut m r t ! 0)"] s1 w0 \<open>tid t \<in> lv s\<close> by simp
  next
    case wide: False
    hence m: "0 < m" "m < width t" by (auto simp: m_def midOf_def)
    have r: "r \<notin> lv s" "r < 2 ^ 64" "lv s1 = insert r (lv s)" "inv s1" using s1 lv_bounds [of s1 r] by auto
    define a where "a = cut m r t ! 0"
    define b where "b = cut m r t ! 1"
    have ab: "cut m r t = [a, b]" "tid a = tid t" "tid b = r" by (cases t; simp add: a_def b_def)+
    have ok: "forest_ok (lv s1) [a, b]"
      using forest_ok_cut [OF assms(2) r(1,2) m] r(3) ab(1) by simp
    have pg: "set (pagesL a) \<union> set (pagesL b) \<subseteq> insert r (set (pagesL t))"
      by (cases t) (auto simp: a_def b_def dest: in_set_takeD in_set_dropD)
    have "set (pagesL t) \<subseteq> lv s" using assms(2) by (simp add: forest_ok_def)
    hence "below_stored N s1 t"
      using s1 assms(2) by (intro below_stored_frame [OF assms(3)]) (auto simp: forest_ok_def)
    hence bs: "below_stored N s1 a" "below_stored N s1 b"
      by (cases t; auto simp: a_def b_def below_stored_def dest: in_set_takeD in_set_dropD)+
    note w = write_two [OF r(4) ok bs w0 [folded a_def] w1 [folded b_def]]
    have st: "\<forall>c \<in> set [a, b]. stored N s' c" using w by simp
    have lvs: "lv s' = insert r (lv s)" using w r(3) by simp
    have "wf_tree b" using ok by (simp add: forest_ok_def)
    hence se: "split_entry res [a, b]"
      using res [folded b_def] ab(3) by (simp add: split_entry_def firstKey_nodeOf)
    have fr: "\<forall>j \<in> lv s. j \<noteq> tid t \<longrightarrow> readNodeOp N s' j = readNodeOp N s j"
    proof (intro ballI impI)
      fix j assume j: "j \<in> lv s" "j \<noteq> tid t"
      hence "j \<noteq> r" using r(1) by auto
      thus "readNodeOp N s' j = readNodeOp N s j" using j w s1 ab(2,3) r(3) by simp
    qed
    show thesis
    proof (rule that [OF conjunct1 [OF w] _ _ st _ fr _ _ se])
      show "lv s \<subseteq> lv s'" "forest_ok (lv s') [a, b]" using lvs ok r(3) by auto
      show "set (pagesLL [a, b]) \<subseteq> set (pagesL t) \<union> (lv s' - lv s)" using pg lvs r(1) by auto
      show "replaces t [a, b]" using replaces_cut [OF assms(2) m, of r] ab(1) by simp
      show "kvsL [a, b] = kvs t" using kvsL_cut [of m r t] ab(1) by simp
    qed
  qed
qed

text \<open>What an insertion below \<open>t\<close> achieves.\<close>

definition put_post :: "'s \<Rightarrow> 's \<Rightarrow> ptree \<Rightarrow> (bytes \<times> bytes) list \<Rightarrow> ptree list \<Rightarrow> bool" where
  "put_post s s' t new ts \<longleftrightarrow> inv s' \<and> lv s \<subseteq> lv s' \<and> forest_ok (lv s') ts
     \<and> (\<forall>c \<in> set ts. stored N s' c) \<and> set (pagesLL ts) \<subseteq> set (pagesL t) \<union> (lv s' - lv s)
     \<and> (\<forall>j \<in> lv s. j \<notin> set (pagesL t) \<longrightarrow> readNodeOp N s' j = readNodeOp N s j)
     \<and> replaces t ts \<and> kvsL ts = new"

text \<open>
  The middle of \<open>putNonRoot\<close> and \<open>putRootBranch\<close>: after the insertion below the chosen child,
  the refreshed entries are those of a branch \<open>T\<close> that is ready to be written.
\<close>

lemma put_descend:
  assumes "inv s" "forest_ok (lv s) [PBranch i cs]" "stored N s (PBranch i cs)" "k \<noteq> []"
    and run: "bindE (liftE (entryAt (branchEntries cs) (childIndexFor (branchEntries cs) k))) (\<lambda>ent.
       bindE (readE N (echild ent)) (\<lambda>child.
       bindE (putc child) (\<lambda>split.
       bindE (readE N (echild ent)) (\<lambda>child'.
         fin (refreshChild (branchEntries cs) (nat (childIndexFor (branchEntries cs) k)) (firstKey child') split))))) s
       = (Inr r, s'')"
    and putc: "\<And>c res s1. c \<in> set cs \<Longrightarrow> putc (nodeOf c) s = (Inr res, s1) \<Longrightarrow>
       \<exists>ts. put_post s s1 c (kv_upd k v (kvs c)) ts \<and> split_entry res ts"
  obtains s1 cs' where "fin (branchEntries cs') s1 = (Inr r, s'')" "inv s1" "lv s \<subseteq> lv s1"
    "forest_ok (lv s1) [PBranch i cs']" "below_stored N s1 (PBranch i cs')"
    "kvsL cs' = kv_upd k v (kvsL cs)" "set (pagesLL cs') \<subseteq> set (pagesLL cs) \<union> (lv s1 - lv s)"
    "\<forall>j \<in> lv s. j \<notin> set (pagesLL cs) \<longrightarrow> readNodeOp N s1 j = readNodeOp N s j"
    "fst (hd (leavesL cs')) = fst (hd (leavesL cs))"
    "\<forall>nx. linked (leavesL cs) nx \<longrightarrow> linked (leavesL cs') nx"
    "\<exists>as c bs ts. cs = as @ c # bs \<and> cs' = as @ ts @ bs \<and> ts \<noteq> [] \<and> length ts \<le> 2"
proof -
  have cs: "forest_ok (lv s) cs" "cs \<noteq> []" "i \<in> lv s" "i \<notin> set (pagesLL cs)"
    using assms(2) by (auto simp: forest_ok_children)
  obtain as c bs where *: "cs = as @ c # bs" "childIndexFor (branchEntries cs) k = int (length as)"
      "\<forall>p \<in> set (kvsL as). fst p < k" "\<forall>p \<in> set (kvsL bs). k < fst p"
    by (rule child_split [OF cs(1,2), where k = k])
  have okc: "forest_ok (lv s) (as @ c # bs)" using cs(1) *(1) by simp
  have ent: "entryAt (branchEntries cs) (int (length as)) = Inr (branchEntry (fkey c) (tid c))"
    using *(1) by (simp add: entryAt_def branchEntries_def nth_append)
  have rc: "readNodeOp N s (tid c) = Inr (nodeOf c)" using assms(3) *(1) by (auto intro: stored_read)
  from run obtain res s1 child' where
    p: "putc (nodeOf c) s = (Inr res, s1)" and
    c': "readNodeOp N s1 (tid c) = Inr child'" and
    f: "fin (refreshChild (branchEntries cs) (length as) (firstKey child') res) s1 = (Inr r, s'')"
    unfolding *(2) ent by (auto elim!: bindE_InrE simp: branchEntry_def rc)
  obtain ts where ts: "put_post s s1 c (kv_upd k v (kvs c)) ts" "split_entry res ts"
    using putc [OF _ p] *(1) by auto
  note post = ts(1) [unfolded put_post_def]
  have hd: "ts \<noteq> []" "tid (hd ts) = tid c" "hd ts \<in> set ts" using post by (auto simp: replaces_def)
  hence "child' = nodeOf (hd ts)" using post c' stored_read [of N s1 "hd ts"] by auto
  moreover have "wf_tree (hd ts)" using post hd(3) by (auto simp: forest_ok_def)
  ultimately have fk: "firstKey child' = fkey (hd ts)" by (simp add: firstKey_nodeOf)
  note new = forest_replace [OF okc _ _ _ _ assms(4) *(3,4), of "lv s1" ts v]
  have okn: "forest_ok (lv s1) (as @ ts @ bs)" and kn: "kvsL (as @ ts @ bs) = kv_upd k v (kvsL (as @ c # bs))"
    using new post by blast+
  have "refreshChild (branchEntries cs) (length as) (firstKey child') res = branchEntries (as @ ts @ bs)"
    using refreshChild_entries [OF okn okc hd(1,2), of res] ts(2) fk *(1) by (simp add: split_entry_def)
  with f have f': "fin (branchEntries (as @ ts @ bs)) s1 = (Inr r, s'')" by simp
  have dis: "set (pagesL c) \<inter> (set (pagesLL as) \<union> set (pagesLL bs)) = {}" "set (pagesLL cs) \<subseteq> lv s"
    using okc *(1) by (auto simp: forest_ok_def)
  have old: "stored N s1 d" if d: "d \<in> set as \<union> set bs" for d
  proof (rule stored_frame [of N s])
    show "stored N s d" using assms(3) d *(1) by auto
    fix j assume j: "j \<in> set (pagesL d)"
    hence "j \<in> set (pagesLL as) \<union> set (pagesLL bs)" using d by auto
    hence "j \<notin> set (pagesL c)" "j \<in> lv s" using dis *(1) by auto
    thus "readNodeOp N s1 j = readNodeOp N s j" using post by blast
  qed
  have lv: "leaves c \<noteq> []" using forest_ok_middle [OF okc] by (intro leaves_ne) (simp add: forest_ok_def)
  have rep: "replaces c ts" using post by blast
  show thesis
  proof (rule that [OF f'])
    show "inv s1" "lv s \<subseteq> lv s1" using post by blast+
    show "forest_ok (lv s1) [PBranch i (as @ ts @ bs)]"
    proof -
      have "i \<in> lv s1" using post cs(3) by blast
      moreover have "i \<notin> set (pagesLL (as @ ts @ bs))" using post cs(3,4) *(1) by auto
      ultimately show ?thesis using okn hd(1) by (simp add: forest_ok_children)
    qed
    show "below_stored N s1 (PBranch i (as @ ts @ bs))" using old post by (auto simp: below_stored_def)
    show "kvsL (as @ ts @ bs) = kv_upd k v (kvsL cs)" using kn *(1) by simp
    show "set (pagesLL (as @ ts @ bs)) \<subseteq> set (pagesLL cs) \<union> (lv s1 - lv s)" using post *(1) by auto
    show "\<forall>j \<in> lv s. j \<notin> set (pagesLL cs) \<longrightarrow> readNodeOp N s1 j = readNodeOp N s j" using post *(1) by auto
    show "fst (hd (leavesL (as @ ts @ bs))) = fst (hd (leavesL cs))"
      using hd_leaves_replace [OF rep lv] *(1) by simp
    show "\<forall>nx. linked (leavesL cs) nx \<longrightarrow> linked (leavesL (as @ ts @ bs)) nx"
      using linked_replace [OF rep lv] *(1) by simp
    have "length ts \<le> 2" using ts(2) by (auto simp: split_entry_def split: option.splits)
    thus "\<exists>as' c bs' ts'. cs = as' @ c # bs' \<and> as @ ts @ bs = as' @ ts' @ bs' \<and> ts' \<noteq> [] \<and> length ts' \<le> 2"
      using *(1) hd(1) by blast
  qed
qed

lemma put_leaf:
  assumes "inv s" "forest_ok (lv s) [PLeaf i n es]" "k \<noteq> []"
    "(let node' = (nodeOf (PLeaf i n es))\<lparr>nentries := insertEntry (leafEntries es) (leafEntry k v)\<rparr> in
      if nodeFits node' then bindE (writeNodeOp N node') (\<lambda>_. returnE None) else splitNonRoot N node') s = (Inr res, s')"
  shows "\<exists>ts. put_post s s' (PLeaf i n es) (kv_upd k v es) ts \<and> split_entry res ts"
proof -
  let ?T = "PLeaf i n (kv_upd k v es)"
  have es: "kv_sorted es" "\<forall>p \<in> set es. fst p \<noteq> []" using assms(2) by (simp_all add: forest_ok_def)
  have T: "(nodeOf (PLeaf i n es))\<lparr>nentries := insertEntry (leafEntries es) (leafEntry k v)\<rparr> = nodeOf ?T"
    by (simp add: insert_leafEntries [OF es(1)])
  have "forest_ok (lv s) [?T]"
    using assms(2,3) kv_sorted_kv_upd [OF es(1)] set_kv_upd [OF es(1)] by (auto simp: forest_ok_def)
  moreover have "below_stored N s ?T" by (simp add: below_stored_def)
  ultimately obtain ts where ts: "inv s'" "lv s \<subseteq> lv s'" "forest_ok (lv s') ts" "\<forall>c \<in> set ts. stored N s' c"
      "set (pagesLL ts) \<subseteq> set (pagesL ?T) \<union> (lv s' - lv s)"
      "\<forall>j \<in> lv s. j \<noteq> tid ?T \<longrightarrow> readNodeOp N s' j = readNodeOp N s j"
      "replaces ?T ts" "kvsL ts = kvs ?T" "split_entry res ts"
    by (rule finish_node [OF assms(1) _ _ assms(4) [unfolded T Let_def]])
  have "replaces (PLeaf i n es) ts" by (rule replaces_trans [OF ts(7)]) auto
  with ts show ?thesis by (intro exI [of _ ts]) (auto simp: put_post_def)
qed

lemma putNonRoot_post:
  "inv s \<Longrightarrow> forest_ok (lv s) [t] \<Longrightarrow> stored N s t \<Longrightarrow> depth_le t d \<Longrightarrow> k \<noteq> [] \<Longrightarrow>
    putNonRoot N (Suc d) (nodeOf t) k v s = (Inr res, s') \<Longrightarrow>
    \<exists>ts. put_post s s' t (kv_upd k v (kvs t)) ts \<and> split_entry res ts"
proof (induction d arbitrary: t res s')
  case 0
  then obtain i n es where t: "t = PLeaf i n es" by (cases t) auto
  have "\<exists>ts. put_post s s' (PLeaf i n es) (kv_upd k v es) ts \<and> split_entry res ts"
    by (rule put_leaf [OF "0.prems"(1) _ "0.prems"(5)]) (use "0.prems"(2,6) t in \<open>simp_all\<close>)
  with t show ?case by simp
next
  case (Suc d)
  show ?case
  proof (cases t)
    case (PLeaf i n es)
    have "\<exists>ts. put_post s s' (PLeaf i n es) (kv_upd k v es) ts \<and> split_entry res ts"
      by (rule put_leaf [OF Suc.prems(1) _ Suc.prems(5)]) (use Suc.prems(2,6) PLeaf in \<open>simp_all\<close>)
    with PLeaf show ?thesis by simp
  next
    case (PBranch i cs)
    let ?fin = "\<lambda>es. let node' = (nodeOf t)\<lparr>nentries := es\<rparr> in
      if nodeFits node' then bindE (writeNodeOp N node') (\<lambda>_. returnE None) else splitNonRoot N node'"
    have run: "bindE (liftE (entryAt (branchEntries cs) (childIndexFor (branchEntries cs) k))) (\<lambda>ent.
       bindE (readE N (echild ent)) (\<lambda>child.
       bindE (putNonRoot N (Suc d) child k v) (\<lambda>split.
       bindE (readE N (echild ent)) (\<lambda>child'.
         ?fin (refreshChild (branchEntries cs) (nat (childIndexFor (branchEntries cs) k)) (firstKey child') split))))) s
       = (Inr res, s')"
      using Suc.prems(6) PBranch by (simp only: putNonRoot.simps(2) [of N "Suc d"]) (simp add: Let_def del: putNonRoot.simps)
    have sub: "\<exists>ts. put_post s s1 c (kv_upd k v (kvs c)) ts \<and> split_entry res ts"
      if mem: "c \<in> set cs" and call: "putNonRoot N (Suc d) (nodeOf c) k v s = (Inr res, s1)" for c res s1
    proof (rule Suc.IH [OF Suc.prems(1) _ _ _ Suc.prems(5) call])
      have "forest_ok (lv s) cs" using Suc.prems(2) PBranch by (simp add: forest_ok_children)
      thus "forest_ok (lv s) [c]" using mem by (rule forest_ok_member)
      show "stored N s c" "depth_le c d" using mem Suc.prems(3,4) PBranch by auto
    qed
    have pre: "forest_ok (lv s) [PBranch i cs]" "stored N s (PBranch i cs)" using Suc.prems(2,3) PBranch by auto
    obtain s1 cs' where f: "?fin (branchEntries cs') s1 = (Inr res, s')"
      and s1: "inv s1" "lv s \<subseteq> lv s1" "forest_ok (lv s1) [PBranch i cs']" "below_stored N s1 (PBranch i cs')"
      and k: "kvsL cs' = kv_upd k v (kvsL cs)"
      and pg: "set (pagesLL cs') \<subseteq> set (pagesLL cs) \<union> (lv s1 - lv s)"
      and fr: "\<forall>j \<in> lv s. j \<notin> set (pagesLL cs) \<longrightarrow> readNodeOp N s1 j = readNodeOp N s j"
      and lf: "fst (hd (leavesL cs')) = fst (hd (leavesL cs))"
        "\<forall>nx. linked (leavesL cs) nx \<longrightarrow> linked (leavesL cs') nx"
      by (rule put_descend [OF Suc.prems(1) pre Suc.prems(5) run sub])
    let ?T = "PBranch i cs'"
    have nT: "(nodeOf t)\<lparr>nentries := branchEntries cs'\<rparr> = nodeOf ?T" using PBranch by simp
    obtain ts where ts: "inv s'" "lv s1 \<subseteq> lv s'" "forest_ok (lv s') ts" "\<forall>c \<in> set ts. stored N s' c"
      "set (pagesLL ts) \<subseteq> set (pagesL ?T) \<union> (lv s' - lv s1)"
      "\<forall>j \<in> lv s1. j \<noteq> tid ?T \<longrightarrow> readNodeOp N s' j = readNodeOp N s1 j"
      "replaces ?T ts" "kvsL ts = kvs ?T" "split_entry res ts"
      by (rule finish_node [OF s1(1,3,4) f [unfolded Let_def nT]])
    have "replaces t ts" by (rule replaces_trans [OF ts(7)]) (use lf PBranch in auto)
    moreover have "\<forall>j \<in> lv s. j \<notin> set (pagesL t) \<longrightarrow> readNodeOp N s' j = readNodeOp N s j"
      using ts(6) fr s1(2) PBranch by auto
    moreover have "set (pagesLL ts) \<subseteq> set (pagesL t) \<union> (lv s' - lv s)"
    proof -
      have "set (pagesL t) = insert i (set (pagesLL cs))" "set (pagesL ?T) = insert i (set (pagesLL cs'))"
        using PBranch by auto
      with ts(2,5) pg s1(2) show ?thesis by blast
    qed
    ultimately have "put_post s s' t (kv_upd k v (kvs t)) ts"
      using ts s1(2) k PBranch by (auto simp: put_post_def)
    with ts(9) show ?thesis by blast
  qed
qed

end

section \<open>The root\<close>

text \<open>The root may be an empty leaf.\<close>

definition root_ok :: "nat set \<Rightarrow> ptree \<Rightarrow> bool" where
  "root_ok L t = (case t of
     PLeaf i n es \<Rightarrow> i \<in> L \<and> n < 2 ^ 64 \<and> kv_sorted es \<and> (\<forall>p \<in> set es. fst p \<noteq> [])
   | PBranch i cs \<Rightarrow> forest_ok L [t])"

lemma root_ok_forest: "forest_ok L [t] \<Longrightarrow> root_ok L t"
  by (cases t) (auto simp: root_ok_def forest_ok_def)

lemma forest_root_ok: "root_ok L t \<Longrightarrow> kvs t \<noteq> [] \<Longrightarrow> forest_ok L [t]"
  by (cases t) (auto simp: root_ok_def forest_ok_def)

lemma root_ok_sorted: "root_ok L t \<Longrightarrow> kv_sorted (kvs t) \<and> (\<forall>p \<in> set (kvs t). fst p \<noteq> []) \<and> set (pagesL t) \<subseteq> L
    \<and> distinct (pagesL t)"
  by (cases t) (auto simp: root_ok_def forest_ok_def)

text \<open>The roots on which \<open>Delete\<close> is safe: a leaf, or a branch with two children.\<close>

definition root_wide :: "ptree \<Rightarrow> bool" where
  "root_wide t = (case t of PLeaf i n es \<Rightarrow> True | PBranch i cs \<Rightarrow> 2 \<le> length cs)"

text \<open>The contents of the root moved to the page \<open>l\<close>.\<close>

primrec moved :: "nat \<Rightarrow> ptree \<Rightarrow> ptree" where
  "moved l (PLeaf i n es) = PLeaf l 0 es"
| "moved l (PBranch i cs) = PBranch l cs"

lemma moved_simps [simp]: "kvs (moved l t) = kvs t" "width (moved l t) = width t" "tid (moved l t) = l"
  "below_stored N s (moved l t) = below_stored N s t"
  by (cases t; simp add: below_stored_def)+

lemma forest_ok_moved: "forest_ok L [t] \<Longrightarrow> l \<notin> L \<Longrightarrow> forest_ok (insert l L) [moved l t]"
  by (cases t) (auto simp: forest_ok_def)

lemma splitRoot_cut:
  "splitRoot N (ntyp (nodeOf t)) (nodeOf t) =
     bindE (allocOp N) (\<lambda>l.
     bindE (allocOp N) (\<lambda>r.
       let a = cut (midOf (width t)) r (moved l t) ! 0; b = cut (midOf (width t)) r (moved l t) ! 1 in
       bindE (writeNodeOp N (nodeOf a)) (\<lambda>_.
       bindE (writeNodeOp N (nodeOf b)) (\<lambda>_.
       writeNodeOp N \<lparr>nid = tid t, ntyp = nodeBranch, nnext = 0,
         nentries = [branchEntry (firstKey (nodeOf a)) l, branchEntry (firstKey (nodeOf b)) r]\<rparr>))))"
  by (cases t) (simp_all add: splitRoot_def splitEntries_def Let_def midOf_def leafEntries_def
      branchEntries_def take_map drop_map firstKey_def)

context node_store
begin

lemma finish_root:
  assumes "inv s" "forest_ok (lv s) [t]" "below_stored N s t"
    "(if nodeFits (nodeOf t) then writeNodeOp N (nodeOf t)
      else splitRoot N (ntyp (nodeOf t)) (nodeOf t)) s = (Inr u, s')"
  obtains t' where "inv s'" "lv s \<subseteq> lv s'" "forest_ok (lv s') [t']" "stored N s' t'" "tid t' = tid t"
    "set (pagesL t') \<subseteq> set (pagesL t) \<union> (lv s' - lv s)"
    "\<forall>j \<in> lv s. j \<noteq> tid t \<longrightarrow> readNodeOp N s' j = readNodeOp N s j"
    "kvs t' = kvs t" "linked (leaves t) 0 \<longrightarrow> linked (leaves t') 0"
    "if nodeFits (nodeOf t) then t' = t else (\<exists>l r. t' = PBranch (tid t) (cut (midOf (width t)) r (moved l t)))"
proof (cases "nodeFits (nodeOf t)")
  case True
  with write_tree [OF assms(1-3), of u s'] assms show thesis by (intro that [of t]) auto
next
  case False
  define m where "m = midOf (width t)"
  from False assms(4) obtain l r s1 s2 s3 s4 u1 u2 where
    al: "allocOp N s = (Inr l, s1)" "allocOp N s1 = (Inr r, s2)"
    and wa: "writeNodeOp N (nodeOf (cut m r (moved l t) ! 0)) s2 = (Inr u1, s3)"
    and wb: "writeNodeOp N (nodeOf (cut m r (moved l t) ! 1)) s3 = (Inr u2, s4)"
    and wr: "writeNodeOp N \<lparr>nid = tid t, ntyp = nodeBranch, nnext = 0, nentries =
        [branchEntry (firstKey (nodeOf (cut m r (moved l t) ! 0))) l,
         branchEntry (firstKey (nodeOf (cut m r (moved l t) ! 1))) r]\<rparr> s4 = (Inr u, s')"
    unfolding splitRoot_cut m_def Let_def by (auto elim!: bindE_InrE)
  have s1: "inv s1" "l \<notin> lv s" "lv s1 = insert l (lv s)" "\<forall>j \<in> lv s. readNodeOp N s1 j = readNodeOp N s j"
    using alloc_fresh [OF assms(1) al(1)] by blast+
  have s2: "inv s2" "r \<notin> lv s1" "lv s2 = insert r (lv s1)" "\<forall>j \<in> lv s1. readNodeOp N s2 j = readNodeOp N s1 j"
    using alloc_fresh [OF s1(1) al(2)] by blast+
  have tl: "set (pagesL t) \<subseteq> lv s" "distinct (pagesL t)" "tid t \<in> lv s"
    using assms(2) tid_in_pages [of t] by (auto simp: forest_ok_def)
  show thesis
  proof (cases "width t \<le> 1")
    case True
    hence "nentries (nodeOf (cut m r (moved l t) ! 0)) = nentries (nodeOf (moved l t))"
      using cut_single [of "moved l t" r] by (simp add: m_def)
    also have "\<dots> = nentries (nodeOf t)" by (cases t) auto
    finally have "\<not> nodeFits (nodeOf (cut m r (moved l t) ! 0))" using False by (simp add: nodeFits_def)
    moreover have "nid (nodeOf (cut m r (moved l t) ! 0)) = l" by (cases t) auto
    ultimately show ?thesis
      using write_unfit [of s2 "nodeOf (cut m r (moved l t) ! 0)"] s1 s2 wa by simp
  next
    case wide: False
    hence m: "0 < m" "m < width (moved l t)" by (auto simp: m_def midOf_def)
    define a where "a = cut m r (moved l t) ! 0"
    define b where "b = cut m r (moved l t) ! 1"
    have ab: "cut m r (moved l t) = [a, b]" "tid a = l" "tid b = r" by (cases t; simp add: a_def b_def)+
    have mv: "forest_ok (lv s1) [moved l t]" using forest_ok_moved [OF assms(2) s1(2)] s1(3) by simp
    have r64: "r < 2 ^ 64" using lv_bounds [OF s2(1)] s2(3) by blast
    have ok: "forest_ok (lv s2) [a, b]" using forest_ok_cut [OF mv s2(2) r64 m] s2(3) ab(1) by simp
    have "below_stored N s2 t"
      using s1 s2 tl by (intro below_stored_frame [OF assms(3)]) auto
    hence bs: "below_stored N s2 a" "below_stored N s2 b"
      by (cases t; auto simp: a_def b_def below_stored_def dest: in_set_takeD in_set_dropD)+
    note w = write_two [OF s2(1) ok bs wa [folded a_def] wb [folded b_def]]
    have pg: "set (pagesL a) \<union> set (pagesL b) \<subseteq> {l, r} \<union> (set (pagesL t) - {tid t})"
      using tl(2) by (cases t) (auto simp: a_def b_def dest: in_set_takeD in_set_dropD)
    let ?t = "PBranch (tid t) [a, b]"
    have wf: "wf_tree a" "wf_tree b" using ok by (auto simp: forest_ok_def)
    have okt: "forest_ok (lv s4) [?t]"
    proof -
      have "tid t \<in> lv s4" using w tl(3) s1(3) s2(3) by simp
      moreover have "tid t \<noteq> l" "tid t \<noteq> r" using tl(3) s1(2,3) s2(2) by auto
      with pg have "tid t \<notin> set (pagesL a) \<union> set (pagesL b)" by blast
      moreover have "forest_ok (lv s4) [a, b]" using ok w by simp
      ultimately show ?thesis by (simp add: forest_ok_children)
    qed
    have "below_stored N s4 ?t" using w by (simp add: below_stored_def)
    moreover have "writeNodeOp N (nodeOf ?t) s4 = (Inr u, s')"
      using wr [folded a_def b_def] wf ab by (simp add: firstKey_nodeOf branchEntries_def)
    ultimately have wt: "inv s'" "lv s' = lv s4" "stored N s' ?t"
      "\<forall>j \<in> lv s4. j \<noteq> tid t \<longrightarrow> readNodeOp N s' j = readNodeOp N s4 j"
      using write_tree [of s4 ?t u s'] w okt by simp_all
    have lvs: "lv s' = insert r (insert l (lv s))" using wt(2) w s2(3) s1(3) by simp
    show thesis
    proof (rule that [OF wt(1) _ _ wt(3)])
      show "lv s \<subseteq> lv s'" "forest_ok (lv s') [?t]" using lvs okt wt(2) by auto
      have "{l, r} \<subseteq> lv s' - lv s" using lvs s1(2,3) s2(2) by auto
      hence "set (pagesL a) \<union> set (pagesL b) \<subseteq> set (pagesL t) \<union> (lv s' - lv s)"
        using pg by (meson Diff_subset Un_mono order_trans sup.boundedI sup_ge1 sup_ge2)
      thus "set (pagesL ?t) \<subseteq> set (pagesL t) \<union> (lv s' - lv s)" by simp
      show "\<forall>j \<in> lv s. j \<noteq> tid t \<longrightarrow> readNodeOp N s' j = readNodeOp N s j"
      proof (intro ballI impI)
        fix j assume j: "j \<in> lv s" "j \<noteq> tid t"
        hence "j \<noteq> l" "j \<noteq> r" using s1(2,3) s2(2) by auto
        thus "readNodeOp N s' j = readNodeOp N s j" using j wt(4) w s1(3,4) s2(3,4) ab by simp
      qed
      show "kvs ?t = kvs t" using kvsL_cut [of m r "moved l t"] ab(1) by simp
      show "linked (leaves t) 0 \<longrightarrow> linked (leaves ?t) 0"
      proof (cases t)
        case (PLeaf i n es)
        thus ?thesis by (simp add: a_def b_def)
      next
        case (PBranch i cs)
        have "leaves a @ leaves b = leavesL (cut m r (moved l t))" by (simp add: ab(1))
        also have "\<dots> = leaves t" using PBranch leavesL_cut_branch [of m r l cs] by simp
        finally show ?thesis by simp
      qed
      show "if nodeFits (nodeOf t) then ?t = t
          else (\<exists>l r. ?t = PBranch (tid t) (cut (midOf (width t)) r (moved l t)))"
        using False ab(1) [symmetric] unfolding m_def by auto
    qed simp
  qed
qed

text \<open>What \<open>Put\<close> achieves on a whole tree.\<close>

definition put_root_post :: "'s \<Rightarrow> 's \<Rightarrow> ptree \<Rightarrow> (bytes \<times> bytes) list \<Rightarrow> ptree \<Rightarrow> bool" where
  "put_root_post s s' t new t' \<longleftrightarrow> inv s' \<and> lv s \<subseteq> lv s' \<and> root_ok (lv s') t' \<and> stored N s' t'
     \<and> tid t' = tid t \<and> kvs t' = new \<and> (linked (leaves t) 0 \<longrightarrow> linked (leaves t') 0)
     \<and> (root_wide t \<longrightarrow> root_wide t')
     \<and> set (pagesL t') \<subseteq> set (pagesL t) \<union> (lv s' - lv s)
     \<and> (\<forall>j \<in> lv s. j \<notin> set (pagesL t) \<longrightarrow> readNodeOp N s' j = readNodeOp N s j)"

lemma putRootBranch_post:
  assumes "inv s" "forest_ok (lv s) [PBranch i cs]" "stored N s (PBranch i cs)"
    "depth_le (PBranch i cs) d" "k \<noteq> []"
    "putRootBranch N d (nodeOf (PBranch i cs)) k v s = (Inr u, s')"
  shows "\<exists>t'. put_root_post s s' (PBranch i cs) (kv_upd k v (kvsL cs)) t'"
proof -
  obtain d' where d: "d = Suc d'" using assms(4) by (cases d) auto
  let ?fin = "\<lambda>es. let root' = (nodeOf (PBranch i cs))\<lparr>nentries := es\<rparr> in
      if nodeFits root' then writeNodeOp N root' else splitRootBranch N root'"
  have run: "bindE (liftE (entryAt (branchEntries cs) (childIndexFor (branchEntries cs) k))) (\<lambda>ent.
       bindE (readE N (echild ent)) (\<lambda>child.
       bindE (putNonRoot N (Suc d') child k v) (\<lambda>split.
       bindE (readE N (echild ent)) (\<lambda>child'.
         ?fin (refreshChild (branchEntries cs) (nat (childIndexFor (branchEntries cs) k)) (firstKey child') split))))) s
       = (Inr u, s')"
    using assms(6) d by (simp add: putRootBranch_def Let_def del: putNonRoot.simps)
  have sub: "\<exists>ts. put_post s s1 c (kv_upd k v (kvs c)) ts \<and> split_entry res ts"
    if mem: "c \<in> set cs" and call: "putNonRoot N (Suc d') (nodeOf c) k v s = (Inr res, s1)" for c res s1
  proof (rule putNonRoot_post [OF assms(1) _ _ _ assms(5) call])
    have "forest_ok (lv s) cs" using assms(2) by (simp add: forest_ok_children)
    thus "forest_ok (lv s) [c]" using mem by (rule forest_ok_member)
    show "stored N s c" "depth_le c d'" using mem assms(3,4) d by auto
  qed
  obtain s1 cs' where f: "?fin (branchEntries cs') s1 = (Inr u, s')"
    and s1: "inv s1" "lv s \<subseteq> lv s1" "forest_ok (lv s1) [PBranch i cs']" "below_stored N s1 (PBranch i cs')"
    and k: "kvsL cs' = kv_upd k v (kvsL cs)"
    and pg: "set (pagesLL cs') \<subseteq> set (pagesLL cs) \<union> (lv s1 - lv s)"
    and fr: "\<forall>j \<in> lv s. j \<notin> set (pagesLL cs) \<longrightarrow> readNodeOp N s1 j = readNodeOp N s j"
    and lf: "fst (hd (leavesL cs')) = fst (hd (leavesL cs))"
      "\<forall>nx. linked (leavesL cs) nx \<longrightarrow> linked (leavesL cs') nx"
    and shape: "\<exists>as c bs ts. cs = as @ c # bs \<and> cs' = as @ ts @ bs \<and> ts \<noteq> [] \<and> length ts \<le> 2"
    by (rule put_descend [OF assms(1-3,5) run sub])
  let ?T = "PBranch i cs'"
  have nT: "(nodeOf (PBranch i cs))\<lparr>nentries := branchEntries cs'\<rparr> = nodeOf ?T" by simp
  have sr: "splitRootBranch N (nodeOf ?T) = splitRoot N (ntyp (nodeOf ?T)) (nodeOf ?T)"
    by (simp add: splitRootBranch_def)
  obtain t' where t': "inv s'" "lv s1 \<subseteq> lv s'" "forest_ok (lv s') [t']" "stored N s' t'" "tid t' = tid ?T"
    "set (pagesL t') \<subseteq> set (pagesL ?T) \<union> (lv s' - lv s1)"
    "\<forall>j \<in> lv s1. j \<noteq> tid ?T \<longrightarrow> readNodeOp N s' j = readNodeOp N s1 j"
    "kvs t' = kvs ?T" "linked (leaves ?T) 0 \<longrightarrow> linked (leaves t') 0"
    "if nodeFits (nodeOf ?T) then t' = ?T else (\<exists>l r. t' = PBranch (tid ?T) (cut (midOf (width ?T)) r (moved l ?T)))"
    by (rule finish_root [OF s1(1,3,4) f [unfolded Let_def nT sr]])
  have "length cs \<le> length cs'" using shape by (force simp: Suc_le_eq)
  hence "root_wide (PBranch i cs) \<longrightarrow> root_wide t'" using t'(10) by (auto simp: root_wide_def split: if_splits)
  moreover
  have "set (pagesL t') \<subseteq> set (pagesL (PBranch i cs)) \<union> (lv s' - lv s)"
  proof -
    have "set (pagesL (PBranch i cs)) = insert i (set (pagesLL cs))" "set (pagesL ?T) = insert i (set (pagesLL cs'))"
      by auto
    with t'(2,6) pg s1(2) show ?thesis by blast
  qed
  moreover have "\<forall>j \<in> lv s. j \<notin> set (pagesL (PBranch i cs)) \<longrightarrow> readNodeOp N s' j = readNodeOp N s j"
    using t'(7) fr s1(2) by auto
  moreover have "linked (leaves (PBranch i cs)) 0 \<longrightarrow> linked (leaves t') 0"
    using t'(9) lf(2) by simp
  moreover have "root_ok (lv s') t'" using t'(3) by (rule root_ok_forest)
  moreover have "lv s \<subseteq> lv s'" using t'(2) s1(2) by blast
  ultimately show ?thesis using t'(1,4,5,8) k by (intro exI [of _ t']) (simp add: put_root_post_def)
qed

lemma Put_leaf_post:
  assumes "inv s" "root_ok (lv s) (PLeaf i n es)" "stored N s (PLeaf i n es)"
    "BTree_Put N d i k v s = (Inr u, s')"
  obtains t' where "put_root_post s s' (PLeaf i n es) (kv_upd k v es) t'"
    "if nodeFits (nodeOf (PLeaf i n (kv_upd k v es))) then t' = PLeaf i n (kv_upd k v es)
     else (\<exists>l r. t' = PBranch i (cut (midOf (length (kv_upd k v es))) r (PLeaf l 0 (kv_upd k v es))))"
proof -
  have k: "k \<noteq> []" using assms(4) by (auto simp: BTree_Put_def)
  let ?T = "PLeaf i n (kv_upd k v es)"
  have es: "kv_sorted es" "\<forall>p \<in> set es. fst p \<noteq> []" "i \<in> lv s" "n < 2 ^ 64"
    using assms(2) by (simp_all add: root_ok_def)
  have T: "forest_ok (lv s) [?T]"
    using k es(3,4) kv_sorted_kv_upd [OF es(1)] set_kv_upd [OF es(1)] es(2) by (auto simp: forest_ok_def)
  have bs: "below_stored N s ?T" by (simp add: below_stored_def)
  have nT: "\<lparr>nid = i, ntyp = nodeLeaf, nnext = n, nentries = insertEntry (leafEntries es) (leafEntry k v)\<rparr> = nodeOf ?T"
    by (simp add: insert_leafEntries [OF es(1)])
  have fin: "(if nodeFits (nodeOf ?T) then writeNodeOp N (nodeOf ?T)
      else splitRoot N (ntyp (nodeOf ?T)) (nodeOf ?T)) s = (Inr u, s')"
    using assms(3,4) k nT [symmetric]
    by (simp add: BTree_Put_def bindE_def splitRootLeaf_def Let_def split: if_splits)
  obtain t' where t': "inv s'" "lv s \<subseteq> lv s'" "forest_ok (lv s') [t']" "stored N s' t'" "tid t' = tid ?T"
    "set (pagesL t') \<subseteq> set (pagesL ?T) \<union> (lv s' - lv s)"
    "\<forall>j \<in> lv s. j \<noteq> tid ?T \<longrightarrow> readNodeOp N s' j = readNodeOp N s j"
    "kvs t' = kvs ?T" "linked (leaves ?T) 0 \<longrightarrow> linked (leaves t') 0"
    "if nodeFits (nodeOf ?T) then t' = ?T else (\<exists>l r. t' = PBranch (tid ?T) (cut (midOf (width ?T)) r (moved l ?T)))"
    by (rule finish_root [OF assms(1) T bs fin])
  have "root_wide t'" using t'(10) by (auto simp: root_wide_def split: if_splits)
  hence "put_root_post s s' (PLeaf i n es) (kv_upd k v es) t'"
    using t' root_ok_forest [OF t'(3)] by (auto simp: put_root_post_def)
  thus thesis using t'(10) by (intro that [of t']) (simp_all split: if_splits)
qed

theorem Put_post:
  assumes "inv s" "root_ok (lv s) t" "stored N s t" "depth_le t d"
    "BTree_Put N d (tid t) k v s = (Inr u, s')"
  shows "\<exists>t'. put_root_post s s' t (kv_upd k v (kvs t)) t'"
proof (cases t)
  case (PLeaf i n es)
  obtain t' where "put_root_post s s' (PLeaf i n es) (kv_upd k v es) t'"
    by (rule Put_leaf_post [of s i n es d k v u s']) (use assms PLeaf in auto)
  thus ?thesis using PLeaf by auto
next
  case (PBranch i cs)
  have k: "k \<noteq> []" using assms(5) by (auto simp: BTree_Put_def)
  have "putRootBranch N d (nodeOf (PBranch i cs)) k v s = (Inr u, s')"
    using assms(3,5) k PBranch by (simp add: BTree_Put_def bindE_def)
  with putRootBranch_post [OF assms(1) _ _ _ k, of i cs d v u s'] assms(2-4) PBranch
  show ?thesis by (simp add: root_ok_def)
qed

end

section \<open>Insertion succeeds\<close>

text \<open>
  The two halves of an overfull node are cut by the number of entries. They are certain to fit
  when every entry takes at most 187 bytes with its directory record, also when the separator
  of the child was replaced and a second one added at once.
\<close>

definition cost :: "btreeEntry \<Rightarrow> nat" where
  "cost e = 16 + length (ekey e) + length (evalue e)"

definition costs :: "btreeEntry list \<Rightarrow> nat" where
  "costs es = sum_list (map cost es)"

lemma nodeUsed_costs: "nodeUsed es = 16 + costs es"
  by (induction es) (auto simp: costs_def cost_def nodeUsed_def nodeHeaderSize_def nodeEntrySize_def)

lemma nodeFits_costs: "nodeFits n \<longleftrightarrow> costs (nentries n) \<le> 4080"
  by (simp add: nodeFits_def nodeUsed_costs PageSize_def)

lemma costs_append [simp]: "costs (xs @ ys) = costs xs + costs ys"
  by (simp add: costs_def)

lemma costs_simps [simp]: "costs [] = 0" "costs (e # es) = cost e + costs es"
  by (simp_all add: costs_def)

definition small_entry :: "btreeEntry \<Rightarrow> bool" where
  "small_entry e \<longleftrightarrow> 17 \<le> cost e \<and> cost e \<le> 187"

lemma costs_bounds: "\<forall>e \<in> set es. small_entry e \<Longrightarrow> 17 * length es \<le> costs es \<and> costs es \<le> 187 * length es"
  by (induction es) (auto simp: small_entry_def)

lemma halves_fit:
  assumes "\<forall>e \<in> set es. small_entry e" "costs es \<le> 4080 + 357" "2 \<le> length es"
  shows "costs (take (midOf (length es)) es) \<le> 4080 \<and> costs (drop (midOf (length es)) es) \<le> 4080"
proof -
  define m where "m = midOf (length es)"
  have m: "m = length es div 2" "m \<le> length es" using assms(3) by (auto simp: m_def midOf_def)
  define q where "q = length es - m"
  have q: "q = m \<or> q = m + 1" using m by (auto simp: q_def)
  have sum: "costs (take m es) + costs (drop m es) = costs es"
    by (metis append_take_drop_id costs_append)
  have l: "17 * m \<le> costs (take m es) \<and> costs (take m es) \<le> 187 * m"
    using costs_bounds [of "take m es"] assms(1) m(2) by (auto dest: in_set_takeD)
  have r: "17 * q \<le> costs (drop m es) \<and> costs (drop m es) \<le> 187 * q"
    using costs_bounds [of "drop m es"] assms(1) by (auto simp: q_def dest: in_set_dropD)
  have "costs (take m es) \<le> 4080"
  proof (cases "m \<le> 21")
    case False
    hence "22 \<le> q" using q by auto
    thus ?thesis using r sum assms(2) by linarith
  qed (use l in linarith)
  moreover have "costs (drop m es) \<le> 4080"
  proof (cases "q \<le> 21")
    case False
    hence "21 \<le> m" using q by auto
    thus ?thesis using l sum assms(2) by linarith
  qed (use r in linarith)
  ultimately show ?thesis by (simp add: m_def)
qed

definition small_kvs :: "(bytes \<times> bytes) list \<Rightarrow> bool" where
  "small_kvs xs \<longleftrightarrow> (\<forall>p \<in> set xs. length (fst p) + length (snd p) \<le> 171)"

lemma small_kvs_upd:
  "kv_sorted xs \<Longrightarrow> small_kvs xs \<Longrightarrow> length k + length v \<le> 171 \<Longrightarrow> small_kvs (kv_upd k v xs)"
  by (auto simp: small_kvs_def set_kv_upd)

lemma small_nodeOf:
  assumes "forest_ok L [t]" "small_kvs (kvs t)"
  shows "\<forall>e \<in> set (nentries (nodeOf t)). small_entry e"
proof (cases t)
  case (PLeaf i n es)
  have "1 \<le> length (fst p)" if "p \<in> set es" for p
    using that assms(1) PLeaf by (cases "fst p") (auto simp: forest_ok_def)
  thus ?thesis using assms PLeaf
    by (fastforce simp: leafEntries_def leafEntry_def small_entry_def cost_def small_kvs_def)
next
  case (PBranch i cs)
  have "small_entry (branchEntry (fkey c) (tid c))" if c: "c \<in> set cs" for c
  proof -
    have "wf_tree c" using assms(1) PBranch c by (auto simp: forest_ok_def)
    then obtain p where p: "p \<in> set (kvs c)" "fkey c = fst p" using fkey_in by blast
    hence "p \<in> set (kvs t)" using PBranch c by auto
    hence "fst p \<noteq> []" "length (fst p) \<le> 171" using assms by (auto simp: forest_ok_def small_kvs_def)
    thus ?thesis using p(2) by (cases "fst p") (auto simp: small_entry_def cost_def branchEntry_def)
  qed
  thus ?thesis using PBranch by (auto simp: branchEntries_def)
qed

lemma cut_fits:
  assumes "forest_ok L [t]" "small_kvs (kvs t)" "costs (nentries (nodeOf t)) \<le> 4080 + 357" "2 \<le> width t"
  shows "nodeFits (nodeOf (cut (midOf (width t)) r t ! 0)) \<and> nodeFits (nodeOf (cut (midOf (width t)) r t ! 1))"
  using halves_fit [OF small_nodeOf [OF assms(1,2)] assms(3)] assms(4)
  by (cases t) (simp_all add: nodeFits_costs leafEntries_def branchEntries_def take_map drop_map)

lemma overfull_wide:
  assumes "forest_ok L [t]" "small_kvs (kvs t)" "\<not> nodeFits (nodeOf t)"
  shows "2 \<le> width t"
  using costs_bounds [OF small_nodeOf [OF assms(1,2)]] assms(3) by (simp add: nodeFits_costs)

context node_store
begin

lemma write_total:
  assumes "inv s" "forest_ok (lv s) [t]" "nodeFits (nodeOf t)"
  shows "\<exists>s'. writeNodeOp N (nodeOf t) s = (Inr (), s') \<and> inv s' \<and> lv s' = lv s \<and> room s' = room s"
proof -
  have "nid (nodeOf t) \<in> lv s" using assms(2) tid_in_pages [of t] by (auto simp: forest_ok_def)
  moreover have "node_ok (nodeOf t)" using nodeOf_ok [OF assms(2)] lv_bounds [OF assms(1)] by blast
  ultimately show ?thesis using write_fits [OF assms(1) _ _ assms(3)] by blast
qed

lemma write_two_total:
  assumes "inv s" "forest_ok (lv s) [a, b]" "nodeFits (nodeOf a)" "nodeFits (nodeOf b)"
  shows "\<exists>s1 s'. writeNodeOp N (nodeOf a) s = (Inr (), s1) \<and> writeNodeOp N (nodeOf b) s1 = (Inr (), s')
    \<and> inv s' \<and> lv s' = lv s \<and> room s' = room s"
proof -
  have ok: "forest_ok (lv s) [a]" "forest_ok (lv s) [b]"
    using assms(2) forest_ok_Cons [of "lv s" a "[b]"] by auto
  obtain s1 where s1: "writeNodeOp N (nodeOf a) s = (Inr (), s1)" "inv s1" "lv s1 = lv s" "room s1 = room s"
    using write_total [OF assms(1) ok(1) assms(3)] by blast
  obtain s' where "writeNodeOp N (nodeOf b) s1 = (Inr (), s')" "inv s'" "lv s' = lv s1" "room s' = room s1"
    using write_total [OF s1(2) _ assms(4)] ok(2) s1(3) by auto
  with s1 show ?thesis by auto
qed

lemma finish_node_total:
  assumes "inv s" "forest_ok (lv s) [t]" "small_kvs (kvs t)" "costs (nentries (nodeOf t)) \<le> 4080 + 357" "0 < room s"
  shows "\<exists>res s'. (if nodeFits (nodeOf t) then bindE (writeNodeOp N (nodeOf t)) (\<lambda>_. returnE None)
      else splitNonRoot N (nodeOf t)) s = (Inr res, s') \<and> room s \<le> Suc (room s')"
proof (cases "nodeFits (nodeOf t)")
  case True
  obtain s' where "writeNodeOp N (nodeOf t) s = (Inr (), s')" "room s' = room s"
    using write_total [OF assms(1,2) True] by blast
  thus ?thesis using True by simp
next
  case False
  note wide = overfull_wide [OF assms(2,3) False]
  hence m: "0 < midOf (width t)" "midOf (width t) < width t" by (auto simp: midOf_def)
  obtain r s1 where al: "allocOp N s = (Inr r, s1)" using alloc_room [OF assms(1,5)] by blast
  have s1: "inv s1" "r \<notin> lv s" "lv s1 = insert r (lv s)" "room s \<le> Suc (room s1)"
    using alloc_fresh [OF assms(1) al] by blast+
  let ?a = "cut (midOf (width t)) r t ! 0" and ?b = "cut (midOf (width t)) r t ! 1"
  have "cut (midOf (width t)) r t = [?a, ?b]" by (cases t) auto
  moreover have "r < 2 ^ 64" using lv_bounds [OF s1(1)] s1(3) by blast
  ultimately have "forest_ok (lv s1) [?a, ?b]"
    using forest_ok_cut [OF assms(2) s1(2) _ m] s1(3) by simp
  then obtain s2 s' where "writeNodeOp N (nodeOf ?a) s1 = (Inr (), s2)"
      "writeNodeOp N (nodeOf ?b) s2 = (Inr (), s')" "room s' = room s1"
    using write_two_total [OF s1(1)] cut_fits [OF assms(2-4) wide, of r] by blast
  thus ?thesis using False al s1(4) by (simp add: splitNonRoot_cut)
qed

text \<open>The descent of an insertion, with whatever the caller does with the refreshed entries.\<close>

lemma put_chain:
  assumes "inv s" "forest_ok (lv s) [PBranch i cs]" "stored N s (PBranch i cs)"
    and total: "\<And>c. c \<in> set cs \<Longrightarrow> \<exists>res s1. putc (nodeOf c) s = (Inr res, s1) \<and> room s \<le> room s1 + n"
    and putc: "\<And>c res s1. c \<in> set cs \<Longrightarrow> putc (nodeOf c) s = (Inr res, s1) \<Longrightarrow>
       \<exists>ts. put_post s s1 c (kv_upd k v (kvs c)) ts \<and> split_entry res ts"
  shows "\<exists>es s1. room s \<le> room s1 + n \<and> (\<forall>fin :: btreeEntry list \<Rightarrow> ('s, kv_error, 'r) op.
      bindE (liftE (entryAt (branchEntries cs) (childIndexFor (branchEntries cs) k))) (\<lambda>ent.
       bindE (readE N (echild ent)) (\<lambda>child.
       bindE (putc child) (\<lambda>split.
       bindE (readE N (echild ent)) (\<lambda>child'.
         fin (refreshChild (branchEntries cs) (nat (childIndexFor (branchEntries cs) k)) (firstKey child') split))))) s
       = fin es s1)"
proof -
  have cs: "forest_ok (lv s) cs" "cs \<noteq> []" using assms(2) by (auto simp: forest_ok_children)
  obtain as c bs where *: "cs = as @ c # bs" "childIndexFor (branchEntries cs) k = int (length as)"
      "\<forall>p \<in> set (kvsL as). fst p < k" "\<forall>p \<in> set (kvsL bs). k < fst p"
    by (rule child_split [OF cs, where k = k])
  have c: "c \<in> set cs" using *(1) by simp
  obtain res s1 where p: "putc (nodeOf c) s = (Inr res, s1)" "room s \<le> room s1 + n" using total [OF c] by blast
  obtain ts where ts: "put_post s s1 c (kv_upd k v (kvs c)) ts" using putc [OF c p(1)] by blast
  have hd: "tid (hd ts) = tid c" "stored N s1 (hd ts)" using ts by (auto simp: put_post_def replaces_def)
  have ent: "entryAt (branchEntries cs) (int (length as)) = Inr (branchEntry (fkey c) (tid c))"
    using *(1) by (simp add: entryAt_def branchEntries_def nth_append)
  have "readNodeOp N s (tid c) = Inr (nodeOf c)" using assms(3) c by (auto intro: stored_read)
  moreover have "readNodeOp N s1 (tid c) = Inr (nodeOf (hd ts))" using stored_read [OF hd(2)] hd(1) by simp
  ultimately show ?thesis
    using ent p *(2) by (intro exI [of _ "refreshChild (branchEntries cs) (length as) (firstKey (nodeOf (hd ts))) res"]
        exI [of _ s1]) (simp add: branchEntry_def)
qed

lemma put_descend_total:
  assumes "inv s" "forest_ok (lv s) [PBranch i cs]" "stored N s (PBranch i cs)" "k \<noteq> []"
    and total: "\<And>c. c \<in> set cs \<Longrightarrow> \<exists>res s1. putc (nodeOf c) s = (Inr res, s1) \<and> room s \<le> room s1 + n"
    and putc: "\<And>c res s1. c \<in> set cs \<Longrightarrow> putc (nodeOf c) s = (Inr res, s1) \<Longrightarrow>
       \<exists>ts. put_post s s1 c (kv_upd k v (kvs c)) ts \<and> split_entry res ts"
    and small: "small_kvs (kvsL cs)" "length k + length v \<le> 171"
  obtains cs' s1 where "room s \<le> room s1 + n" "inv s1" "forest_ok (lv s1) [PBranch i cs']"
    "small_kvs (kvsL cs')" "costs (branchEntries cs') \<le> 4080 + 357"
    "\<forall>fin :: btreeEntry list \<Rightarrow> ('s, kv_error, 'r) op.
      bindE (liftE (entryAt (branchEntries cs) (childIndexFor (branchEntries cs) k))) (\<lambda>ent.
       bindE (readE N (echild ent)) (\<lambda>child.
       bindE (putc child) (\<lambda>split.
       bindE (readE N (echild ent)) (\<lambda>child'.
         fin (refreshChild (branchEntries cs) (nat (childIndexFor (branchEntries cs) k)) (firstKey child') split))))) s
       = fin (branchEntries cs') s1"
proof -
  obtain es s1 where rm: "room s \<le> room s1 + n" and ch: "\<forall>fin :: btreeEntry list \<Rightarrow> ('s, kv_error, 'r) op.
      bindE (liftE (entryAt (branchEntries cs) (childIndexFor (branchEntries cs) k))) (\<lambda>ent.
       bindE (readE N (echild ent)) (\<lambda>child.
       bindE (putc child) (\<lambda>split.
       bindE (readE N (echild ent)) (\<lambda>child'.
         fin (refreshChild (branchEntries cs) (nat (childIndexFor (branchEntries cs) k)) (firstKey child') split))))) s
       = fin es s1"
    using put_chain [where putc = putc and n = n and k = k and v = v, OF assms(1-3) total putc] by blast
  define probe :: "btreeEntry list \<Rightarrow> ('s, kv_error, 'r) op"
    where "probe = (\<lambda>es' s'. if es' = es then (Inr undefined, s') else (Inl OutOfFuel, s'))"
  have run: "bindE (liftE (entryAt (branchEntries cs) (childIndexFor (branchEntries cs) k))) (\<lambda>ent.
       bindE (readE N (echild ent)) (\<lambda>child.
       bindE (putc child) (\<lambda>split.
       bindE (readE N (echild ent)) (\<lambda>child'.
         probe (refreshChild (branchEntries cs) (nat (childIndexFor (branchEntries cs) k)) (firstKey child') split))))) s
       = (Inr undefined, s1)"
    using ch [rule_format, of probe] by (simp only: probe_def if_True simp_thms)
  obtain s2 cs' where f: "probe (branchEntries cs') s2 = (Inr undefined, s1)"
    and s2: "inv s2" "lv s \<subseteq> lv s2" "forest_ok (lv s2) [PBranch i cs']" "below_stored N s2 (PBranch i cs')"
    and kn: "kvsL cs' = kv_upd k v (kvsL cs)"
    and "set (pagesLL cs') \<subseteq> set (pagesLL cs) \<union> (lv s2 - lv s)"
      "\<forall>j \<in> lv s. j \<notin> set (pagesLL cs) \<longrightarrow> readNodeOp N s2 j = readNodeOp N s j"
      "fst (hd (leavesL cs')) = fst (hd (leavesL cs))"
      "\<forall>nx. linked (leavesL cs) nx \<longrightarrow> linked (leavesL cs') nx"
    and shape: "\<exists>as c bs ts. cs = as @ c # bs \<and> cs' = as @ ts @ bs \<and> ts \<noteq> [] \<and> length ts \<le> 2"
    by (rule put_descend [OF assms(1-4) run putc])
  from f have eq: "es = branchEntries cs'" "s2 = s1" by (auto simp: probe_def split: if_splits)
  have so: "kv_sorted (kvsL cs)" using assms(2) by (simp add: forest_ok_def)
  hence sm: "small_kvs (kvsL cs')" using small small_kvs_upd by (simp add: kn)
  have "costs (branchEntries cs') \<le> 4080 + 357"
  proof -
    obtain as c bs ts where sh: "cs = as @ c # bs" "cs' = as @ ts @ bs" "length ts \<le> 2" using shape by blast
    have old: "\<forall>e \<in> set (branchEntries cs). small_entry e"
      using small_nodeOf [OF assms(2)] small(1) by simp
    have new: "\<forall>e \<in> set (branchEntries cs'). small_entry e"
      using small_nodeOf [OF s2(3)] sm by simp
    have "costs (branchEntries cs) \<le> 4080" using stored_fits [OF assms(3)] by (simp add: nodeFits_costs)
    moreover have "17 \<le> cost (branchEntry (fkey c) (tid c))"
      using old sh(1) by (simp add: branchEntries_def small_entry_def)
    moreover have "costs (branchEntries ts) \<le> 187 * length ts"
      using costs_bounds [of "branchEntries ts"] new sh(2) by (simp add: branchEntries_def)
    ultimately show ?thesis using sh by (simp add: branchEntries_def)
  qed
  with rm s2 eq sm ch show thesis by (intro that [of s1 cs']) auto
qed

lemma put_leaf_total:
  assumes "inv s" "root_ok (lv s) (PLeaf i n es)" "nodeFits (nodeOf (PLeaf i n es))" "k \<noteq> []" "small_kvs es"
    "length k + length v \<le> 171"
  shows "forest_ok (lv s) [PLeaf i n (kv_upd k v es)]" "small_kvs (kv_upd k v es)"
    "costs (leafEntries (kv_upd k v es)) \<le> 4080 + 357"
    "insertEntry (leafEntries es) (leafEntry k v) = leafEntries (kv_upd k v es)"
proof -
  have es: "kv_sorted es" "\<forall>p \<in> set es. fst p \<noteq> []" "i \<in> lv s" "n < 2 ^ 64"
    using assms(2) by (simp_all add: root_ok_def)
  show "forest_ok (lv s) [PLeaf i n (kv_upd k v es)]"
    using assms(4) es(3,4) kv_sorted_kv_upd [OF es(1)] set_kv_upd [OF es(1)] es(2) by (auto simp: forest_ok_def)
  show "small_kvs (kv_upd k v es)" using es(1) assms(5,6) by (rule small_kvs_upd)
  show "insertEntry (leafEntries es) (leafEntry k v) = leafEntries (kv_upd k v es)"
    by (rule insert_leafEntries [OF es(1)])
  have "costs (leafEntries (kv_upd k v es)) \<le> costs (leafEntries es) + cost (leafEntry k v)"
    using es(1) by (induction es) (auto simp: kv_simps leafEntries_def)
  moreover have "cost (leafEntry k v) \<le> 187" using assms(6) by (simp add: cost_def leafEntry_def)
  moreover have "costs (leafEntries es) \<le> 4080" using assms(3) by (simp add: nodeFits_costs)
  ultimately show "costs (leafEntries (kv_upd k v es)) \<le> 4080 + 357" by simp
qed

lemma putNonRoot_leaf_total:
  assumes "inv s" "forest_ok (lv s) [PLeaf i n es]" "stored N s (PLeaf i n es)" "k \<noteq> []" "small_kvs es"
    "length k + length v \<le> 171" "0 < room s"
  shows "\<exists>res s'. putNonRoot N (Suc d) (nodeOf (PLeaf i n es)) k v s = (Inr res, s') \<and> room s \<le> Suc (room s')"
proof -
  note new = put_leaf_total [OF assms(1) root_ok_forest [OF assms(2)] stored_fits [OF assms(3)] assms(4-6)]
  have "\<exists>res s'. (if nodeFits (nodeOf (PLeaf i n (kv_upd k v es)))
      then bindE (writeNodeOp N (nodeOf (PLeaf i n (kv_upd k v es)))) (\<lambda>_. returnE None)
      else splitNonRoot N (nodeOf (PLeaf i n (kv_upd k v es)))) s = (Inr res, s') \<and> room s \<le> Suc (room s')"
    by (rule finish_node_total) (use assms(1,7) new in simp_all)
  moreover have "putNonRoot N (Suc d) (nodeOf (PLeaf i n es)) k v =
     (if nodeFits (nodeOf (PLeaf i n (kv_upd k v es)))
      then bindE (writeNodeOp N (nodeOf (PLeaf i n (kv_upd k v es)))) (\<lambda>_. returnE None)
      else splitNonRoot N (nodeOf (PLeaf i n (kv_upd k v es))))"
    by (simp add: Let_def new(4))
  ultimately show ?thesis by simp
qed

lemma putNonRoot_total:
  "inv s \<Longrightarrow> forest_ok (lv s) [t] \<Longrightarrow> stored N s t \<Longrightarrow> depth_le t d \<Longrightarrow> k \<noteq> [] \<Longrightarrow> small_kvs (kvs t) \<Longrightarrow>
    length k + length v \<le> 171 \<Longrightarrow> d < room s \<Longrightarrow>
    \<exists>res s'. putNonRoot N (Suc d) (nodeOf t) k v s = (Inr res, s') \<and> room s \<le> room s' + Suc d"
proof (induction d arbitrary: t)
  case 0
  then obtain i n es where t: "t = PLeaf i n es" by (cases t) auto
  have "\<exists>res s'. putNonRoot N (Suc 0) (nodeOf (PLeaf i n es)) k v s = (Inr res, s') \<and> room s \<le> Suc (room s')"
    by (rule putNonRoot_leaf_total) (use 0 t in simp_all)
  thus ?case using t by simp
next
  case (Suc d)
  show ?case
  proof (cases t)
    case (PLeaf i n es)
    have "\<exists>res s'. putNonRoot N (Suc (Suc d)) (nodeOf (PLeaf i n es)) k v s = (Inr res, s') \<and> room s \<le> Suc (room s')"
      by (rule putNonRoot_leaf_total) (use Suc.prems PLeaf in simp_all)
    thus ?thesis using PLeaf by auto
  next
    case (PBranch i cs)
    have member: "forest_ok (lv s) [c] \<and> stored N s c \<and> depth_le c d \<and> small_kvs (kvs c)" if "c \<in> set cs" for c
      using that Suc.prems(2,3,4,6) PBranch forest_ok_member [of "lv s" cs c]
      by (auto simp: forest_ok_children small_kvs_def)
    have total: "\<exists>res s1. putNonRoot N (Suc d) (nodeOf c) k v s = (Inr res, s1) \<and> room s \<le> room s1 + Suc d"
      if "c \<in> set cs" for c
      using member [OF that] Suc.prems by (intro Suc.IH) auto
    have post: "\<exists>ts. put_post s s1 c (kv_upd k v (kvs c)) ts \<and> split_entry res ts"
      if "c \<in> set cs" "putNonRoot N (Suc d) (nodeOf c) k v s = (Inr res, s1)" for c res s1
      using member [OF that(1)] putNonRoot_post [OF Suc.prems(1) _ _ _ Suc.prems(5) that(2)] by blast
    have pre: "forest_ok (lv s) [PBranch i cs]" "stored N s (PBranch i cs)" "small_kvs (kvsL cs)"
      using Suc.prems(2,3,6) PBranch by auto
    obtain cs' s1 where s1: "room s \<le> room s1 + Suc d" "inv s1" "forest_ok (lv s1) [PBranch i cs']"
      "small_kvs (kvsL cs')" "costs (branchEntries cs') \<le> 4080 + 357"
      and ch: "\<forall>fin :: btreeEntry list \<Rightarrow> ('s, kv_error, btreeEntry option) op.
      bindE (liftE (entryAt (branchEntries cs) (childIndexFor (branchEntries cs) k))) (\<lambda>ent.
       bindE (readE N (echild ent)) (\<lambda>child.
       bindE (putNonRoot N (Suc d) child k v) (\<lambda>split.
       bindE (readE N (echild ent)) (\<lambda>child'.
         fin (refreshChild (branchEntries cs) (nat (childIndexFor (branchEntries cs) k)) (firstKey child') split))))) s
       = fin (branchEntries cs') s1"
      by (rule put_descend_total [where putc = "\<lambda>child. putNonRoot N (Suc d) child k v" and n = "Suc d",
            OF Suc.prems(1) pre(1,2) Suc.prems(5) total post pre(3) Suc.prems(7)])
    let ?T = "PBranch i cs'"
    let ?fin = "\<lambda>es. let node' = (nodeOf t)\<lparr>nentries := es\<rparr> in
      if nodeFits node' then bindE (writeNodeOp N node') (\<lambda>_. returnE None) else splitNonRoot N node'"
    have "0 < room s1" using s1(1) Suc.prems(8) by simp
    then obtain res s' where fin: "(if nodeFits (nodeOf ?T) then bindE (writeNodeOp N (nodeOf ?T)) (\<lambda>_. returnE None)
      else splitNonRoot N (nodeOf ?T)) s1 = (Inr res, s')" "room s1 \<le> Suc (room s')"
      using finish_node_total [of s1 ?T] s1 by auto
    have "putNonRoot N (Suc (Suc d)) (nodeOf t) k v s =
      bindE (liftE (entryAt (branchEntries cs) (childIndexFor (branchEntries cs) k))) (\<lambda>ent.
       bindE (readE N (echild ent)) (\<lambda>child.
       bindE (putNonRoot N (Suc d) child k v) (\<lambda>split.
       bindE (readE N (echild ent)) (\<lambda>child'.
         ?fin (refreshChild (branchEntries cs) (nat (childIndexFor (branchEntries cs) k)) (firstKey child') split))))) s"
      using PBranch by (simp only: putNonRoot.simps(2) [of N "Suc d"]) (simp add: Let_def del: putNonRoot.simps)
    also have "\<dots> = ?fin (branchEntries cs') s1" by (rule ch [rule_format])
    also have "\<dots> = (Inr res, s')"
    proof -
      have nT: "(nodeOf t)\<lparr>nentries := branchEntries cs'\<rparr> = nodeOf ?T" using PBranch by simp
      show ?thesis using fin(1) unfolding Let_def nT .
    qed
    finally show ?thesis using fin(2) s1(1) by auto
  qed
qed

text \<open>What the split of a root needs: two entries at least, halves that fit, and room for their first keys.\<close>

definition splittable :: "ptree \<Rightarrow> bool" where
  "splittable t \<longleftrightarrow> 2 \<le> width t \<and> (\<forall>l r. let a = cut (midOf (width t)) r (moved l t) ! 0;
       b = cut (midOf (width t)) r (moved l t) ! 1
     in nodeFits (nodeOf a) \<and> nodeFits (nodeOf b) \<and> length (fkey a) + length (fkey b) \<le> 4048)"

lemma finish_root_succeeds:
  assumes "inv s" "forest_ok (lv s) [t]" "nodeFits (nodeOf t) \<or> splittable t" "1 < room s"
  shows "\<exists>s'. (if nodeFits (nodeOf t) then writeNodeOp N (nodeOf t)
      else splitRoot N (ntyp (nodeOf t)) (nodeOf t)) s = (Inr (), s')"
proof (cases "nodeFits (nodeOf t)")
  case True
  thus ?thesis using write_total [OF assms(1,2) True] by auto
next
  case False
  hence sp: "splittable t" using assms(3) by blast
  obtain l s1 where al: "allocOp N s = (Inr l, s1)" using alloc_room [OF assms(1)] assms(4) by fastforce
  have s1: "inv s1" "l \<notin> lv s" "lv s1 = insert l (lv s)" "0 < room s1"
    using alloc_fresh [OF assms(1) al] assms(4) by auto
  obtain r s2 where ar: "allocOp N s1 = (Inr r, s2)" using alloc_room [OF s1(1,4)] by blast
  have s2: "inv s2" "r \<notin> lv s1" "lv s2 = insert r (lv s1)"
    using alloc_fresh [OF s1(1) ar] by blast+
  define t1 where "t1 = moved l t"
  have t1: "forest_ok (lv s1) [t1]" "width t1 = width t"
    using forest_ok_moved [OF assms(2) s1(2)] s1(3) by (simp_all add: t1_def)
  have m: "0 < midOf (width t1)" "midOf (width t1) < width t1" using sp t1(2) by (auto simp: midOf_def splittable_def)
  define a where "a = cut (midOf (width t1)) r t1 ! 0"
  define b where "b = cut (midOf (width t1)) r t1 ! 1"
  have ab: "cut (midOf (width t1)) r t1 = [a, b]" "tid a = l" "tid b = r" by (cases t; simp add: t1_def a_def b_def)+
  have fit: "nodeFits (nodeOf a)" "nodeFits (nodeOf b)" "length (fkey a) + length (fkey b) \<le> 4048"
    using sp by (simp_all add: splittable_def Let_def a_def b_def t1_def)
  have r64: "r < 2 ^ 64" using lv_bounds [OF s2(1)] s2(3) by blast
  have okab: "forest_ok (lv s2) [a, b]"
    using forest_ok_cut [OF t1(1) s2(2) r64 m] s2(3) ab(1) by simp
  then obtain s3 s4 where w: "writeNodeOp N (nodeOf a) s2 = (Inr (), s3)"
      "writeNodeOp N (nodeOf b) s3 = (Inr (), s4)" "inv s4" "lv s4 = lv s2"
    using write_two_total [OF s2(1) _ fit(1,2)] by blast
  have "set (pagesL t) \<subseteq> lv s" using assms(2) by (simp add: forest_ok_def)
  hence "tid t \<in> lv s" using tid_in_pages [of t] by blast
  hence lr: "tid t \<in> lv s4" "forest_ok (lv s4) [a, b]" using s2(3) s1(3) w(4) okab by auto
  have wf: "wf_tree a" "wf_tree b" using okab by (auto simp: forest_ok_def)
  let ?n = "nodeOf (PBranch (tid t) [a, b])"
  have "node_ok ?n" using branch_node_ok [OF lr(2)] lv_bounds [OF w(3)] by blast
  moreover have "nodeFits ?n" using fit(3) by (simp add: nodeFits_costs cost_def branchEntries_def branchEntry_def)
  ultimately obtain s' where "writeNodeOp N ?n s4 = (Inr (), s')"
    using write_fits [OF w(3), of ?n] lr(1) by auto
  thus ?thesis using False al ar w(1,2) wf ab(2,3)
    by (simp add: splitRoot_cut Let_def a_def b_def t1_def firstKey_nodeOf branchEntries_def)
qed

lemma small_splittable:
  assumes "forest_ok L [t]" "small_kvs (kvs t)" "costs (nentries (nodeOf t)) \<le> 4080 + 357" "\<not> nodeFits (nodeOf t)"
  shows "splittable t"
proof -
  have wide: "2 \<le> width t" by (rule overfull_wide [OF assms(1,2,4)])
  have *: "nodeFits (nodeOf (cut (midOf (width t)) r (moved l t) ! 0))
      \<and> nodeFits (nodeOf (cut (midOf (width t)) r (moved l t) ! 1))" for l r
    using cut_fits [OF assms(1-3) wide, of r] by (cases t) (simp_all add: nodeFits_def)
  have key: "length (fkey c) \<le> 171" if "c \<in> set (cut (midOf (width t)) r (moved l t))" for c l r
  proof -
    have "set (kvs c) \<subseteq> set (kvsL (cut (midOf (width t)) r (moved l t)))" by (rule kvs_subset_kvsL [OF that])
    hence "set (kvs c) \<subseteq> set (kvs t)" by (simp only: kvsL_cut moved_simps)
    thus ?thesis using fkey_Nil_or_in [of c] assms(2) by (fastforce simp: small_kvs_def)
  qed
  have "cut (midOf (width t)) r (moved l t) ! 0 \<in> set (cut (midOf (width t)) r (moved l t))"
    "cut (midOf (width t)) r (moved l t) ! 1 \<in> set (cut (midOf (width t)) r (moved l t))" for l r
    by (cases t; simp)+
  note k = key [OF this(1)] key [OF this(2)]
  have "length (fkey (cut (midOf (width t)) r (moved l t) ! 0)) + length (fkey (cut (midOf (width t)) r (moved l t) ! 1)) \<le> 4048"
    for l r using k [of r l] by linarith
  thus ?thesis using * wide unfolding splittable_def Let_def by blast
qed

lemma finish_root_total:
  assumes "inv s" "forest_ok (lv s) [t]" "small_kvs (kvs t)" "costs (nentries (nodeOf t)) \<le> 4080 + 357" "1 < room s"
  shows "\<exists>s'. (if nodeFits (nodeOf t) then writeNodeOp N (nodeOf t)
      else splitRoot N (ntyp (nodeOf t)) (nodeOf t)) s = (Inr (), s')"
  by (rule finish_root_succeeds [OF assms(1,2) _ assms(5)]) (use small_splittable [OF assms(2-4)] in blast)

theorem Put_total:
  assumes "inv s" "root_ok (lv s) t" "stored N s t" "depth_le t d" "k \<noteq> []"
    "small_kvs (kvs t)" "length k + length v \<le> 171" "d + 2 < room s"
  shows "\<exists>s'. BTree_Put N d (tid t) k v s = (Inr (), s')"
proof (cases t)
  case (PLeaf i n es)
  let ?T = "PLeaf i n (kv_upd k v es)"
  have "stored N s (PLeaf i n es)" "root_ok (lv s) (PLeaf i n es)" "small_kvs es"
    using assms(2,3,6) PLeaf by simp_all
  note new = put_leaf_total [OF assms(1) this(2) stored_fits [OF this(1)] assms(5) this(3) assms(7)]
  have "\<exists>s'. (if nodeFits (nodeOf ?T) then writeNodeOp N (nodeOf ?T)
      else splitRoot N (ntyp (nodeOf ?T)) (nodeOf ?T)) s = (Inr (), s')"
    by (rule finish_root_total) (use assms(1,8) new in simp_all)
  moreover have "BTree_Put N d (tid t) k v s = (if nodeFits (nodeOf ?T) then writeNodeOp N (nodeOf ?T)
      else splitRoot N (ntyp (nodeOf ?T)) (nodeOf ?T)) s"
    using assms(3,5) PLeaf new(4) by (simp add: BTree_Put_def bindE_def splitRootLeaf_def Let_def)
  ultimately show ?thesis by simp
next
  case (PBranch i cs)
  obtain d' where d: "d = Suc d'" using assms(4) PBranch by (cases d) auto
  have pre: "forest_ok (lv s) [PBranch i cs]" "stored N s (PBranch i cs)" "small_kvs (kvsL cs)"
    using assms(2,3,6) PBranch by (auto simp: root_ok_def)
  have member: "forest_ok (lv s) [c] \<and> stored N s c \<and> depth_le c d' \<and> small_kvs (kvs c)" if "c \<in> set cs" for c
    using that pre assms(4) d PBranch forest_ok_member [of "lv s" cs c]
    by (auto simp: forest_ok_children small_kvs_def)
  have total: "\<exists>res s1. putNonRoot N (Suc d') (nodeOf c) k v s = (Inr res, s1) \<and> room s \<le> room s1 + Suc d'"
    if "c \<in> set cs" for c
    using member [OF that] assms d by (intro putNonRoot_total) auto
  have post: "\<exists>ts. put_post s s1 c (kv_upd k v (kvs c)) ts \<and> split_entry res ts"
    if "c \<in> set cs" "putNonRoot N (Suc d') (nodeOf c) k v s = (Inr res, s1)" for c res s1
    using member [OF that(1)] putNonRoot_post [OF assms(1) _ _ _ assms(5) that(2)] by blast
  obtain cs' s1 where s1: "room s \<le> room s1 + Suc d'" "inv s1" "forest_ok (lv s1) [PBranch i cs']"
      "small_kvs (kvsL cs')" "costs (branchEntries cs') \<le> 4080 + 357"
    and ch: "\<forall>fin :: btreeEntry list \<Rightarrow> ('s, kv_error, unit) op.
      bindE (liftE (entryAt (branchEntries cs) (childIndexFor (branchEntries cs) k))) (\<lambda>ent.
       bindE (readE N (echild ent)) (\<lambda>child.
       bindE (putNonRoot N (Suc d') child k v) (\<lambda>split.
       bindE (readE N (echild ent)) (\<lambda>child'.
         fin (refreshChild (branchEntries cs) (nat (childIndexFor (branchEntries cs) k)) (firstKey child') split))))) s
       = fin (branchEntries cs') s1"
    by (rule put_descend_total [where putc = "\<lambda>child. putNonRoot N (Suc d') child k v" and n = "Suc d'",
          OF assms(1) pre(1,2) assms(5) total post pre(3) assms(7)])
  let ?T = "PBranch i cs'"
  let ?fin = "\<lambda>es. let root' = (nodeOf t)\<lparr>nentries := es\<rparr> in
      if nodeFits root' then writeNodeOp N root' else splitRootBranch N root'"
  have "1 < room s1" using s1(1) assms(8) d by simp
  then obtain s' where fin: "(if nodeFits (nodeOf ?T) then writeNodeOp N (nodeOf ?T)
      else splitRoot N (ntyp (nodeOf ?T)) (nodeOf ?T)) s1 = (Inr (), s')"
    using finish_root_total [of s1 ?T] s1 by auto
  have nT: "(nodeOf t)\<lparr>nentries := branchEntries cs'\<rparr> = nodeOf ?T" using PBranch by simp
  have sr: "splitRootBranch N (nodeOf ?T) = splitRoot N (ntyp (nodeOf ?T)) (nodeOf ?T)"
    by (simp add: splitRootBranch_def)
  have "BTree_Put N d (tid t) k v s = putRootBranch N (Suc d') (nodeOf t) k v s"
    using assms(3,5) PBranch d by (simp add: BTree_Put_def bindE_def del: putNonRoot.simps)
  also have "\<dots> =
      bindE (liftE (entryAt (branchEntries cs) (childIndexFor (branchEntries cs) k))) (\<lambda>ent.
       bindE (readE N (echild ent)) (\<lambda>child.
       bindE (putNonRoot N (Suc d') child k v) (\<lambda>split.
       bindE (readE N (echild ent)) (\<lambda>child'.
         ?fin (refreshChild (branchEntries cs) (nat (childIndexFor (branchEntries cs) k)) (firstKey child') split))))) s"
    using PBranch by (simp add: putRootBranch_def Let_def del: putNonRoot.simps)
  also have "\<dots> = ?fin (branchEntries cs') s1" by (rule ch [rule_format])
  also have "\<dots> = (Inr (), s')" using fin unfolding Let_def nT sr .
  finally show ?thesis by blast
qed

text \<open>An insertion into a root leaf, with the shape of the tree afterwards.\<close>

lemma Put_leaf_succeeds:
  assumes "inv s" "root_ok (lv s) (PLeaf i n es)" "stored N s (PLeaf i n es)" "k \<noteq> []" "1 < room s"
    "nodeFits (nodeOf (PLeaf i n (kv_upd k v es))) \<or> splittable (PLeaf i n (kv_upd k v es))"
  shows "\<exists>s'. BTree_Put N d i k v s = (Inr (), s')"
proof -
  let ?T = "PLeaf i n (kv_upd k v es)"
  have es: "kv_sorted es" "\<forall>p \<in> set es. fst p \<noteq> []" "i \<in> lv s" "n < 2 ^ 64"
    using assms(2) by (simp_all add: root_ok_def)
  have T: "forest_ok (lv s) [?T]"
    using assms(4) es(3,4) kv_sorted_kv_upd [OF es(1)] set_kv_upd [OF es(1)] es(2) by (auto simp: forest_ok_def)
  have "BTree_Put N d i k v s = (if nodeFits (nodeOf ?T) then writeNodeOp N (nodeOf ?T)
      else splitRoot N (ntyp (nodeOf ?T)) (nodeOf ?T)) s"
    using assms(3,4) by (simp add: BTree_Put_def bindE_def splitRootLeaf_def Let_def insert_leafEntries [OF es(1)])
  thus ?thesis using finish_root_succeeds [OF assms(1) T assms(6,5)] by simp
qed

text \<open>Lookup and creation.\<close>

lemma Get_stored:
  assumes "root_ok (lv s) t" "stored N s t" "depth_le t d" "k \<noteq> []"
  shows "BTree_Get N (Suc d) (tid t) s k = Inr (map_of (kvs t) k)"
proof (cases "kvs t = []")
  case True
  then obtain i n where t: "t = PLeaf i n []"
    using assms(1) kvs_ne by (cases t) (fastforce simp: root_ok_def forest_ok_def)+
  with assms(2,4) search_leafEntries [of "[]" k] show ?thesis
    by (auto simp: BTree_Get_def kv_simps split: option.splits)
next
  case False
  thus ?thesis using assms(4) getAt_stored [OF forest_root_ok [OF assms(1) False] assms(2,3)]
    by (simp add: BTree_Get_def)
qed

lemma Create_post:
  assumes "inv s" "CreateBTree N s = (Inr i, s')"
  shows "inv s' \<and> lv s' = insert i (lv s) \<and> i \<notin> lv s \<and> stored N s' (PLeaf i 0 []) \<and> root_ok (lv s') (PLeaf i 0 [])
    \<and> (\<forall>j \<in> lv s. readNodeOp N s' j = readNodeOp N s j)"
proof -
  let ?n = "nodeOf (PLeaf i 0 [])"
  obtain s1 u where al: "allocOp N s = (Inr i, s1)" and w: "writeNodeOp N ?n s1 = (Inr u, s')"
    using assms(2) by (auto simp: CreateBTree_def leafEntries_def elim!: bindE_InrE)
  have s1: "inv s1" "i \<notin> lv s" "lv s1 = insert i (lv s)" "\<forall>j \<in> lv s. readNodeOp N s1 j = readNodeOp N s j"
    using alloc_fresh [OF assms(1) al] by blast+
  have "node_ok ?n" by (simp add: node_ok_def leafEntries_def sorted_entries_def)
  hence "nodeFits ?n \<and> inv s' \<and> lv s' = lv s1 \<and> room s' = room s1 \<and> readNodeOp N s' (nid ?n) = Inr ?n
    \<and> (\<forall>j \<in> lv s1. j \<noteq> nid ?n \<longrightarrow> readNodeOp N s' j = readNodeOp N s1 j)"
    using s1(3) by (intro write_ok [OF s1(1) _ _ w]) simp_all
  thus ?thesis using s1 by (auto simp: root_ok_def kv_simps)
qed

lemma Create_total:
  assumes "inv s" "0 < room s"
  shows "\<exists>i s'. CreateBTree N s = (Inr i, s')"
proof -
  obtain i s1 where al: "allocOp N s = (Inr i, s1)" using alloc_room [OF assms] by blast
  have s1: "inv s1" "i \<in> lv s1" using alloc_fresh [OF assms(1) al] by auto
  have "node_ok (nodeOf (PLeaf i 0 []))" "nodeFits (nodeOf (PLeaf i 0 []))"
    by (simp_all add: node_ok_def leafEntries_def sorted_entries_def nodeFits_costs)
  then obtain s' where "writeNodeOp N (nodeOf (PLeaf i 0 [])) s1 = (Inr (), s')"
    using write_fits [OF s1(1), of "nodeOf (PLeaf i 0 [])"] s1(2) by auto
  thus ?thesis using al by (simp add: CreateBTree_def leafEntries_def)
qed

end

end
