(* ===== verification/Btree_Delete.thy ===== *)
theory Btree_Delete
  imports Btree_Put
begin

text \<open>
  Removal within the node storage interface: whenever \<open>Delete\<close> succeeds on a tree whose root is
  a leaf or has two children, the tree afterwards is stored and ordered and its value has lost
  the key; \<open>Delete\<close> does succeed when the keys have one length. The links of the leaves are
  not kept, and a root with a single child can lose it: both are stated as well.
\<close>

lemma delete_leafEntries:
  assumes "kv_sorted es"
  shows "deleteEntry (leafEntries es) k = (leafEntries (kv_del k es), k \<in> fst ` set es)"
  using deleteEntry_eq [OF leafEntries_sorted [OF assms], of k]
  by (simp add: leafEntries_def leafEntry_def filter_map comp_def kv_del_def image_image)

text \<open>The child \<open>c\<close> of a branch after the removal, \<open>c'\<close>, or nothing when it became empty.\<close>

definition kept :: "ptree \<Rightarrow> ptree list" where
  "kept c' = (if width c' = 0 then [] else [c'])"

lemma width_entries: "width c' = 0 \<longleftrightarrow> nentries (nodeOf c') = []"
  by (metis length_0_conv length_nodeOf)

lemma frame_avoid: "S \<subseteq> L \<Longrightarrow> x \<notin> S \<Longrightarrow> \<forall>j \<in> L. j \<noteq> x \<longrightarrow> f j = g j \<Longrightarrow> j \<in> S \<Longrightarrow> f j = g j"
  by auto

lemma forest_ok_shrink:
  assumes "forest_ok L ts" "L' \<subseteq> L" "set (pagesLL ts) \<subseteq> L'"
  shows "forest_ok L' ts"
  using assms by (auto simp: forest_ok_def)

text \<open>The single child of the root, copied to the root page.\<close>

primrec relabel :: "nat \<Rightarrow> ptree \<Rightarrow> ptree" where
  "relabel l (PLeaf i n es) = PLeaf l n es"
| "relabel l (PBranch i cs) = PBranch l cs"

lemma relabel_simps [simp]: "kvs (relabel l t) = kvs t" "tid (relabel l t) = l"
  "below_stored N s (relabel l t) = below_stored N s t" "nodeOf (relabel l t) = (nodeOf t)\<lparr>nid := l\<rparr>"
  by (cases t; simp add: below_stored_def)+

lemma forest_ok_relabel:
  "forest_ok L [t] \<Longrightarrow> l \<in> L \<Longrightarrow> l \<notin> set (pagesL t) \<Longrightarrow> forest_ok L [relabel l t]"
  by (cases t) (auto simp: forest_ok_def)

text \<open>Keys of one length: a replaced separator takes no more room than the one before.\<close>

definition key_len :: "nat \<Rightarrow> (bytes \<times> bytes) list \<Rightarrow> bool" where
  "key_len n xs \<longleftrightarrow> (\<forall>p \<in> set xs. length (fst p) = n)"

lemma costs_key_len:
  assumes "forest_ok L cs" "key_len n (kvsL cs)"
  shows "costs (branchEntries cs) = (16 + n) * length cs"
proof -
  have "cost (branchEntry (fkey c) (tid c)) = 16 + n" if "c \<in> set cs" for c
  proof -
    have "wf_tree c" using assms(1) that by (simp add: forest_ok_def)
    then obtain p where "p \<in> set (kvs c)" "fkey c = fst p" using fkey_in by blast
    thus ?thesis using assms(2) that by (auto simp: key_len_def cost_def branchEntry_def)
  qed
  thus ?thesis by (induction cs) (auto simp: branchEntries_def)
qed

lemma costs_kv_del: "costs (leafEntries (kv_del k es)) \<le> costs (leafEntries es)"
  by (induction es) (auto simp: leafEntries_def kv_del_def)

lemma key_len_del: "key_len n xs \<Longrightarrow> key_len n (kv_del k xs)"
  by (simp add: key_len_def set_kv_del)

context node_store
begin

definition all_stored :: "'s \<Rightarrow> ptree list \<Rightarrow> bool" where
  "all_stored s ts \<longleftrightarrow> (\<forall>t \<in> set ts. stored N s t)"

lemma all_stored_frame:
  assumes "all_stored s ts" "\<And>j. j \<in> set (pagesLL ts) \<Longrightarrow> readNodeOp N s' j = readNodeOp N s j"
  shows "all_stored s' ts"
  unfolding all_stored_def
proof
  fix t assume t: "t \<in> set ts"
  show "stored N s' t"
  proof (rule stored_frame [of N s])
    show "stored N s t" using assms(1) t by (simp add: all_stored_def)
    fix j assume "j \<in> set (pagesL t)"
    thus "readNodeOp N s' j = readNodeOp N s j" using assms(2) t by auto
  qed
qed

lemma settleChild_post:
  assumes "inv s" "i \<in> lv s" "tid c' \<in> lv s" "tid c' = tid c" "i \<noteq> tid c'"
    and ok: "forest_ok (lv s) (as @ kept c' @ bs)" "all_stored s (as @ bs)" "below_stored N s c'"
      "i \<notin> set (pagesLL (as @ kept c' @ bs))" "tid c' \<notin> set (pagesLL (as @ bs))"
    and run: "settleChild N (nodeOf (PBranch i (as @ c # bs))) (length as) (nodeOf c') isRoot s = (Inr r, s')"
  shows "r = True" "inv s'" "lv s' = (if width c' = 0 \<and> \<not> isRoot then lv s - {tid c'} else lv s)"
    "readNodeOp N s' i = Inr (nodeOf (PBranch i (as @ kept c' @ bs)))"
    "nodeFits (nodeOf (PBranch i (as @ kept c' @ bs)))" "all_stored s' (as @ kept c' @ bs)"
    "\<forall>j \<in> lv s. j \<noteq> i \<longrightarrow> j \<noteq> tid c' \<longrightarrow> readNodeOp N s' j = readNodeOp N s j"
proof -
  let ?cs = "as @ kept c' @ bs"
  let ?T = "PBranch i ?cs"
  obtain s1 where s1: "inv s1" "lv s1 = (if width c' = 0 \<and> \<not> isRoot then lv s - {tid c'} else lv s)"
    "\<forall>j \<in> lv s. j \<noteq> tid c' \<longrightarrow> readNodeOp N s1 j = readNodeOp N s j" "all_stored s1 ?cs"
    and w: "bindE (writeNodeOp N (nodeOf ?T)) (\<lambda>_. returnE True) s1 = (Inr r, s')"
  proof (cases "width c' = 0")
    case True
    have es: "take (length as) (branchEntries (as @ c # bs)) @ drop (length as + 1) (branchEntries (as @ c # bs))
        = branchEntries ?cs"
      using True by (simp add: kept_def branchEntries_def)
    have fl: "all_stored s1 ?cs" if "\<forall>j \<in> lv s. j \<noteq> tid c' \<longrightarrow> readNodeOp N s1 j = readNodeOp N s j" for s1
    proof -
      have "set (pagesLL (as @ bs)) \<subseteq> lv s" using ok(1) True by (simp add: kept_def forest_ok_def)
      hence "all_stored s1 (as @ bs)"
        by (rule all_stored_frame [OF ok(2) frame_avoid [OF _ ok(5) that]])
      thus ?thesis using True by (simp add: kept_def)
    qed
    show thesis
    proof (cases isRoot)
      case isRoot: True
      hence "bindE (writeNodeOp N (nodeOf ?T)) (\<lambda>_. returnE True) s = (Inr r, s')"
        using run True es width_entries [of c'] by (simp add: settleChild_def)
      thus thesis using True isRoot assms(1) fl by (intro that [of s]) auto
    next
      case notRoot: False
      obtain s1 where f: "freeOp N (tid c') s = (Inr (), s1)" "inv s1" "lv s1 = lv s - {tid c'}"
        "\<forall>j \<in> lv s. j \<noteq> tid c' \<longrightarrow> readNodeOp N s1 j = readNodeOp N s j"
        using free_ok [OF assms(1,3)] by blast
      hence "bindE (writeNodeOp N (nodeOf ?T)) (\<lambda>_. returnE True) s1 = (Inr r, s')"
        using run True es notRoot width_entries [of c'] by (simp add: settleChild_def)
      thus thesis using True notRoot f fl by (intro that [of s1]) auto
    qed
  next
    case False
    have k: "kept c' = [c']" using False by (simp add: kept_def)
    have okc: "forest_ok (lv s) [c']" using forest_ok_member [OF ok(1)] k by simp
    hence wf: "wf_tree c'" by (simp add: forest_ok_def)
    obtain s1 u where w1: "writeNodeOp N (nodeOf c') s = (Inr u, s1)"
      and w2: "bindE (writeNodeOp N ((nodeOf (PBranch i (as @ c # bs)))\<lparr>nentries := (branchEntries (as @ c # bs))
           [length as := (branchEntries (as @ c # bs) ! length as)\<lparr>ekey := firstKey (nodeOf c')\<rparr>]\<rparr>))
           (\<lambda>_. returnE True) s1 = (Inr r, s')"
      using run False width_entries [of c'] by (auto simp: settleChild_def elim!: bindE_InrE)
    have es: "(branchEntries (as @ c # bs))[length as := (branchEntries (as @ c # bs) ! length as)\<lparr>ekey := firstKey (nodeOf c')\<rparr>]
        = branchEntries ?cs"
      using assms(4) by (simp add: k firstKey_nodeOf [OF wf] branchEntries_def branchEntry_def nth_append list_update_append)
    note wt = write_tree [OF assms(1) okc ok(3) w1]
    have sub: "set (pagesLL (as @ bs)) \<subseteq> lv s" using ok(1) k by (auto simp: forest_ok_def)
    have fr: "\<forall>j \<in> lv s. j \<noteq> tid c' \<longrightarrow> readNodeOp N s1 j = readNodeOp N s j" using wt by blast
    have "all_stored s1 (as @ bs)" by (rule all_stored_frame [OF ok(2) frame_avoid [OF sub ok(5) fr]])
    hence "all_stored s1 ?cs" using wt k by (auto simp: all_stored_def)
    moreover have "bindE (writeNodeOp N (nodeOf ?T)) (\<lambda>_. returnE True) s1 = (Inr r, s')"
      using w2 es by simp
    ultimately show thesis using wt False by (intro that [of s1]) auto
  qed
  have L1: "set (pagesLL ?cs) \<subseteq> lv s1" "forest_ok (lv s1) ?cs"
  proof -
    have "set (pagesLL ?cs) \<subseteq> lv s" using ok(1) by (simp add: forest_ok_def)
    moreover have "tid c' \<notin> set (pagesLL ?cs)" if "width c' = 0" using ok(5) that by (simp add: kept_def)
    ultimately show *: "set (pagesLL ?cs) \<subseteq> lv s1" using s1(2) by auto
    show "forest_ok (lv s1) ?cs" by (rule forest_ok_shrink [OF ok(1) _ *]) (use s1(2) in auto)
  qed
  have i1: "i \<in> lv s1" using assms(2,5) s1(2) by auto
  obtain u where wr: "writeNodeOp N (nodeOf ?T) s1 = (Inr u, s')" and "r = True"
    using w by (auto elim!: bindE_InrE)
  thus "r = True" by simp
  have "node_ok (nodeOf ?T)" using branch_node_ok [OF L1(2)] lv_bounds [OF s1(1)] by blast
  hence wrt: "nodeFits (nodeOf ?T)" "inv s'" "lv s' = lv s1" "readNodeOp N s' i = Inr (nodeOf ?T)"
    "\<forall>j \<in> lv s1. j \<noteq> i \<longrightarrow> readNodeOp N s' j = readNodeOp N s1 j"
    using write_ok [OF s1(1) _ _ wr] i1 by auto
  show "inv s'" "readNodeOp N s' i = Inr (nodeOf ?T)" "nodeFits (nodeOf ?T)" using wrt by blast+
  show "lv s' = (if width c' = 0 \<and> \<not> isRoot then lv s - {tid c'} else lv s)" using wrt(3) s1(2) by simp
  show "all_stored s' ?cs"
    by (rule all_stored_frame [OF s1(4) frame_avoid [OF L1(1) ok(4) wrt(5)]])
  show "\<forall>j \<in> lv s. j \<noteq> i \<longrightarrow> j \<noteq> tid c' \<longrightarrow> readNodeOp N s' j = readNodeOp N s j"
    using wrt(5) s1(2,3) by auto
qed

text \<open>What \<open>deleteFromBranch\<close> leaves behind when it has removed the key.\<close>

definition delete_post :: "'s \<Rightarrow> 's \<Rightarrow> nat \<Rightarrow> ptree list \<Rightarrow> bytes \<Rightarrow> ptree list \<Rightarrow> bool" where
  "delete_post s s' i cs k cs' \<longleftrightarrow> inv s' \<and> lv s' \<subseteq> lv s \<and> lv s - lv s' \<subseteq> set (pagesLL cs)
     \<and> readNodeOp N s' i = Inr (nodeOf (PBranch i cs')) \<and> nodeFits (nodeOf (PBranch i cs'))
     \<and> all_stored s' cs' \<and> forest_ok (lv s') cs' \<and> set (pagesLL cs') \<subseteq> set (pagesLL cs)
     \<and> kvsL cs' = kv_del k (kvsL cs) \<and> length cs \<le> Suc (length cs')
     \<and> (\<forall>j \<in> lv s. j \<notin> insert i (set (pagesLL cs)) \<longrightarrow> readNodeOp N s' j = readNodeOp N s j)"

text \<open>
  One level: the key is below the child \<open>c\<close>, whose removal led from \<open>s\<close> to \<open>s1\<close> and left the
  tree \<open>c'\<close>, its root page perhaps still to be written.
\<close>

lemma delete_level_pre:
  assumes ok: "inv s" "forest_ok (lv s) [PBranch i (as @ c # bs)]" "stored N s (PBranch i (as @ c # bs))"
    and key: "\<forall>p \<in> set (kvsL as). fst p < k" "\<forall>p \<in> set (kvsL bs). k < fst p"
    and s1: "inv s1" "lv s1 \<subseteq> lv s" "lv s - lv s1 \<subseteq> set (pagesL c)" "tid c \<in> lv s1"
      "\<forall>j \<in> lv s. j \<notin> set (pagesL c) \<longrightarrow> readNodeOp N s1 j = readNodeOp N s j"
    and c': "tid c' = tid c" "width c' \<noteq> 0 \<longrightarrow> forest_ok (lv s1) [c']" "below_stored N s1 c'"
      "set (pagesL c') \<subseteq> set (pagesL c)" "kvs c' = kv_del k (kvs c)"
  shows "forest_ok (lv s1) (as @ kept c' @ bs)" "all_stored s1 (as @ bs)" "i \<in> lv s1" "i \<noteq> tid c'"
    "i \<notin> set (pagesLL (as @ kept c' @ bs))" "tid c' \<notin> set (pagesLL (as @ bs))"
    "kvsL (as @ kept c' @ bs) = kv_del k (kvsL (as @ c # bs))"
proof -
  have cs: "forest_ok (lv s) (as @ c # bs)" "i \<in> lv s" "i \<notin> set (pagesLL (as @ c # bs))"
    using ok(2) by (auto simp: forest_ok_children)
  have dis: "set (pagesL c) \<inter> set (pagesLL (as @ bs)) = {}" "i \<notin> set (pagesL c)" "tid c \<in> set (pagesL c)"
    "set (pagesLL (as @ bs)) \<subseteq> lv s"
    using cs by (auto simp: forest_ok_def)
  have kv: "kvsL (as @ kept c' @ bs) = kv_del k (kvsL (as @ c # bs))"
  proof -
    have "kvsL (kept c') = kv_del k (kvs c)" using c'(5) by (cases c') (auto simp: kept_def)
    moreover have "kv_del k (kvsL as) = kvsL as" using key(1) by (intro kv_del_absent) force
    moreover have "kv_del k (kvsL bs) = kvsL bs" using key(2) by (intro kv_del_absent) force
    ultimately show ?thesis by (simp add: kv_simps)
  qed
  have pk: "set (pagesLL (kept c')) \<subseteq> set (pagesL c)" using c'(4) by (simp add: kept_def)
  have sub1: "set (pagesLL (as @ bs)) \<subseteq> lv s1" using dis(1,4) s1(3) by blast
  have okn: "forest_ok (lv s1) (as @ kept c' @ bs)"
  proof -
    have "kv_sorted (kvsL (as @ kept c' @ bs))" "\<forall>p \<in> set (kvsL (as @ kept c' @ bs)). fst p \<noteq> []"
      unfolding kv using cs(1) kv_sorted_kv_del by (auto simp: forest_ok_def set_kv_del)
    moreover have "\<forall>t \<in> set (as @ kept c' @ bs). wf_tree t"
      using cs(1) c'(2) by (auto simp: forest_ok_def kept_def)
    moreover have dk: "distinct (pagesLL (kept c'))" "set (pagesLL (kept c')) \<subseteq> lv s1"
      using c'(2) by (auto simp: forest_ok_def kept_def)
    moreover have "distinct (pagesLL as @ pagesL c @ pagesLL bs)" using cs(1) by (simp add: forest_ok_def)
    hence "distinct (pagesLL as @ pagesLL (kept c') @ pagesLL bs)"
      by (rule distinct_replace [where L = UNIV and L' = UNIV]) (use dk(1) pk in simp_all)
    ultimately show ?thesis using sub1 by (simp add: forest_ok_def)
  qed
  have "all_stored s (as @ bs)" using ok(3) by (auto simp: all_stored_def)
  moreover have "readNodeOp N s1 j = readNodeOp N s j" if "j \<in> set (pagesLL (as @ bs))" for j
  proof -
    have "j \<in> lv s" "j \<notin> set (pagesL c)" using that dis(1,4) by blast+
    thus ?thesis using s1(5) by blast
  qed
  ultimately have st: "all_stored s1 (as @ bs)" by (rule all_stored_frame)
  have i: "i \<in> lv s1" "i \<noteq> tid c'" using cs(2) dis(2,3) s1(3) c'(1) by auto
  have ni: "i \<notin> set (pagesLL (as @ kept c' @ bs))" using cs(3) pk by auto
  have nc: "tid c' \<notin> set (pagesLL (as @ bs))" using dis(1,3) c'(1) by (metis IntI emptyE)
  show "forest_ok (lv s1) (as @ kept c' @ bs)" "all_stored s1 (as @ bs)" "i \<in> lv s1" "i \<noteq> tid c'"
    "i \<notin> set (pagesLL (as @ kept c' @ bs))" "tid c' \<notin> set (pagesLL (as @ bs))"
    "kvsL (as @ kept c' @ bs) = kv_del k (kvsL (as @ c # bs))"
    using okn st i ni nc kv by blast+
qed

lemma delete_level:
  assumes ok: "inv s" "forest_ok (lv s) [PBranch i (as @ c # bs)]" "stored N s (PBranch i (as @ c # bs))"
    and key: "\<forall>p \<in> set (kvsL as). fst p < k" "\<forall>p \<in> set (kvsL bs). k < fst p"
    and s1: "inv s1" "lv s1 \<subseteq> lv s" "lv s - lv s1 \<subseteq> set (pagesL c)" "tid c \<in> lv s1"
      "\<forall>j \<in> lv s. j \<notin> set (pagesL c) \<longrightarrow> readNodeOp N s1 j = readNodeOp N s j"
    and c': "tid c' = tid c" "width c' \<noteq> 0 \<longrightarrow> forest_ok (lv s1) [c']" "below_stored N s1 c'"
      "set (pagesL c') \<subseteq> set (pagesL c)" "kvs c' = kv_del k (kvs c)"
    and run: "settleChild N (nodeOf (PBranch i (as @ c # bs))) (length as) (nodeOf c') isRoot s1 = (Inr r, s')"
  shows "r = True \<and> delete_post s s' i (as @ c # bs) k (as @ kept c' @ bs)"
proof -
  note pre = delete_level_pre [OF ok key s1 c']
  note okn = pre(1) and nc = pre(6)
  have dis: "set (pagesL c) \<inter> set (pagesLL (as @ bs)) = {}" "tid c \<in> set (pagesL c)"
    using ok(2) by (auto simp: forest_ok_def)
  have pk: "set (pagesLL (kept c')) \<subseteq> set (pagesL c)" using c'(4) by (simp add: kept_def)
  have tl: "tid c' \<in> lv s1" using s1(4) c'(1) by simp
  note sp = settleChild_post [OF s1(1) pre(3) tl c'(1) pre(4) okn pre(2) c'(3) pre(5) nc run]
  have pgs: "set (pagesLL (as @ kept c' @ bs)) = set (pagesLL (as @ bs)) \<union> set (pagesLL (kept c'))"
    "set (pagesLL (as @ c # bs)) = set (pagesLL (as @ bs)) \<union> set (pagesL c)" by auto
  have sub: "set (pagesLL (as @ kept c' @ bs)) \<subseteq> set (pagesLL (as @ c # bs))" unfolding pgs using pk by blast
  have fr: "\<forall>j \<in> lv s. j \<notin> insert i (set (pagesLL (as @ c # bs))) \<longrightarrow> readNodeOp N s' j = readNodeOp N s j"
  proof (intro ballI impI)
    fix j assume j: "j \<in> lv s" "j \<notin> insert i (set (pagesLL (as @ c # bs)))"
    hence "j \<notin> set (pagesL c)" "j \<noteq> i" unfolding pgs by blast+
    moreover from this have "j \<noteq> tid c'" using dis(2) c'(1) by auto
    moreover from this(1) j(1) have "j \<in> lv s1" using s1(3) \<open>j \<notin> set (pagesL c)\<close> by blast
    ultimately show "readNodeOp N s' j = readNodeOp N s j" using sp(7) s1(5) j(1) by simp
  qed
  have lvs: "lv s' \<subseteq> lv s1" "lv s1 - lv s' \<subseteq> {tid c'}" using sp(3) by auto
  have okf: "forest_ok (lv s') (as @ kept c' @ bs)"
  proof (rule forest_ok_shrink [OF okn lvs(1)])
    have "set (pagesLL (as @ kept c' @ bs)) \<subseteq> lv s1" using okn by (simp add: forest_ok_def)
    moreover have "tid c' \<notin> set (pagesLL (as @ kept c' @ bs))" if "width c' = 0" using nc that by (simp add: kept_def)
    ultimately show "set (pagesLL (as @ kept c' @ bs)) \<subseteq> lv s'" using sp(3) by auto
  qed
  have "lv s - lv s' \<subseteq> set (pagesLL (as @ c # bs))" unfolding pgs using lvs(2) s1(3) c'(1) dis(2) by auto
  moreover have "length (as @ c # bs) \<le> Suc (length (as @ kept c' @ bs))" by (simp add: kept_def)
  ultimately show ?thesis
    using sp(1,2,4,5,6) order_trans [OF lvs(1) s1(2)] okf sub pre(7) fr unfolding delete_post_def by blast
qed

lemma deleteFromBranch_post:
  "inv s \<Longrightarrow> forest_ok (lv s) [PBranch i cs] \<Longrightarrow> stored N s (PBranch i cs) \<Longrightarrow> depth_le (PBranch i cs) d \<Longrightarrow>
    deleteFromBranch N d (nodeOf (PBranch i cs)) k isRoot s = (Inr r, s') \<Longrightarrow>
    (if k \<in> fst ` set (kvsL cs) then r = True \<and> (\<exists>cs'. delete_post s s' i cs k cs') else r = False \<and> s' = s)"
proof (induction d arbitrary: i cs isRoot r s')
  case (Suc d)
  have cs: "forest_ok (lv s) cs" "cs \<noteq> []" using Suc.prems(2) by (auto simp: forest_ok_children)
  obtain as c bs where *: "cs = as @ c # bs" "childIndexFor (branchEntries cs) k = int (length as)"
      "\<forall>p \<in> set (kvsL as). fst p < k" "\<forall>p \<in> set (kvsL bs). k < fst p"
    by (rule child_split [OF cs, where k = k])
  have okc: "forest_ok (lv s) [c]" "stored N s c" "depth_le c d"
    using forest_ok_member [OF cs(1), of c] Suc.prems(3,4) *(1) by auto
  have mem: "k \<in> fst ` set (kvsL cs) \<longleftrightarrow> k \<in> fst ` set (kvs c)"
  proof -
    have "k \<notin> fst ` set (kvsL as)" "k \<notin> fst ` set (kvsL bs)" using *(3,4) by blast+
    moreover have "set (kvsL cs) = set (kvsL as) \<union> set (kvs c) \<union> set (kvsL bs)" using *(1) by auto
    ultimately show ?thesis by (simp only: image_Un Un_iff simp_thms)
  qed
  have ent: "entryAt (branchEntries cs) (int (length as)) = Inr (branchEntry (fkey c) (tid c))"
    using *(1) by (simp add: entryAt_def branchEntries_def nth_append)
  have ne: "branchEntries cs \<noteq> []" using cs(2) by (simp add: branchEntries_def)
  note rc = stored_read [OF okc(2)]
  note ok1 = Suc.prems(1) Suc.prems(2) [unfolded *(1)] Suc.prems(3) [unfolded *(1)]
  have tc: "tid c \<in> lv s" using okc(1) tid_in_pages [of c] by (auto simp: forest_ok_def)
  show ?case
  proof (cases c)
    case (PLeaf j n es)
    let ?c' = "PLeaf j n (kv_del k es)"
    have es: "kv_sorted es" using okc(1) PLeaf by (simp add: forest_ok_def)
    have run: "(if k \<notin> fst ` set es then returnE False
        else settleChild N (nodeOf (PBranch i cs)) (length as) (nodeOf ?c') isRoot) s = (Inr r, s')"
      using Suc.prems(5) PLeaf ne *(2) ent rc by (simp add: Let_def branchEntry_def delete_leafEntries [OF es] split: if_splits)
    show ?thesis
    proof (cases "k \<in> fst ` set es")
      case True
      have "r = True \<and> delete_post s s' i (as @ c # bs) k (as @ kept ?c' @ bs)"
      proof (rule delete_level [OF ok1 *(3,4)])
        show "width ?c' \<noteq> 0 \<longrightarrow> forest_ok (lv s) [?c']"
          using okc(1) PLeaf kv_sorted_kv_del [OF es] by (auto simp: forest_ok_def set_kv_del)
        show "settleChild N (nodeOf (PBranch i (as @ c # bs))) (length as) (nodeOf ?c') isRoot s = (Inr r, s')"
          using run True *(1) by simp
      qed (use PLeaf tc Suc.prems(1) in \<open>auto simp: below_stored_def\<close>)
      thus ?thesis using True mem PLeaf *(1) by auto
    next
      case False
      thus ?thesis using run mem PLeaf by simp
    qed
  next
    case (PBranch j ds)
    have run: "bindE (deleteFromBranch N d (nodeOf (PBranch j ds)) k False) (\<lambda>deleted. if \<not> deleted then returnE False
         else bindE (readE N j) (\<lambda>child'. settleChild N (nodeOf (PBranch i cs)) (length as) child' isRoot)) s = (Inr r, s')"
      using Suc.prems(5) PBranch ne *(2) ent rc by (simp add: Let_def branchEntry_def cong: if_cong)
    obtain r1 s1 where r1: "deleteFromBranch N d (nodeOf (PBranch j ds)) k False s = (Inr r1, s1)"
      and rest: "(if \<not> r1 then returnE False
         else bindE (readE N j) (\<lambda>child'. settleChild N (nodeOf (PBranch i cs)) (length as) child' isRoot)) s1 = (Inr r, s')"
      using run by (rule bindE_InrE)
    have ih: "if k \<in> fst ` set (kvsL ds) then r1 = True \<and> (\<exists>cs'. delete_post s s1 j ds k cs') else r1 = False \<and> s1 = s"
      by (rule Suc.IH [OF Suc.prems(1) _ _ _ r1]) (use okc PBranch in auto)
    show ?thesis
    proof (cases "k \<in> fst ` set (kvsL ds)")
      case True
      then obtain ds' where r: "r1 = True" and dp: "delete_post s s1 j ds k ds'" using ih by auto
      note dp = dp [unfolded delete_post_def]
      let ?c' = "PBranch j ds'"
      have jd: "j \<in> lv s" "j \<notin> set (pagesLL ds)" using okc(1) PBranch by (auto simp: forest_ok_children)
      hence j1: "j \<in> lv s1" "j \<notin> set (pagesLL ds')" using dp by blast+
      have pg: "set (pagesL c) = insert j (set (pagesLL ds))" "set (pagesL ?c') = insert j (set (pagesLL ds'))"
        using PBranch by auto
      have "r = True \<and> delete_post s s' i (as @ c # bs) k (as @ kept ?c' @ bs)"
      proof (rule delete_level [OF ok1 *(3,4)])
        show "inv s1" "lv s1 \<subseteq> lv s" using dp by blast+
        show "lv s - lv s1 \<subseteq> set (pagesL c)" "set (pagesL ?c') \<subseteq> set (pagesL c)" unfolding pg using dp by blast+
        show "tid c \<in> lv s1" "tid ?c' = tid c" using j1 PBranch by simp_all
        show "\<forall>j \<in> lv s. j \<notin> set (pagesL c) \<longrightarrow> readNodeOp N s1 j = readNodeOp N s j" unfolding pg using dp by blast
        show "width ?c' \<noteq> 0 \<longrightarrow> forest_ok (lv s1) [?c']" using dp j1 by (simp add: forest_ok_children)
        show "below_stored N s1 ?c'" using dp by (simp add: below_stored_def all_stored_def)
        show "kvs ?c' = kv_del k (kvs c)" using dp PBranch by simp
        show "settleChild N (nodeOf (PBranch i (as @ c # bs))) (length as) (nodeOf ?c') isRoot s1 = (Inr r, s')"
          using rest r dp *(1) by (auto elim: bindE_queryE_InrE)
      qed
      thus ?thesis using True mem PBranch *(1) by auto
    next
      case False
      thus ?thesis using rest ih mem PBranch by simp
    qed
  qed
qed simp

definition delete_root_post :: "'s \<Rightarrow> 's \<Rightarrow> ptree \<Rightarrow> bytes \<Rightarrow> ptree \<Rightarrow> bool" where
  "delete_root_post s s' t k t' \<longleftrightarrow> inv s' \<and> lv s' \<subseteq> lv s \<and> root_ok (lv s') t' \<and> stored N s' t'
     \<and> tid t' = tid t \<and> kvs t' = kv_del k (kvs t)
     \<and> (\<forall>j \<in> lv s. j \<notin> set (pagesL t) \<longrightarrow> j \<in> lv s' \<and> readNodeOp N s' j = readNodeOp N s j)"

text \<open>The end of \<open>Delete\<close>: the root is rewritten, or replaced by its single child.\<close>

lemma finish_delete:
  assumes "delete_post s s1 i cs k cs'" "i \<in> lv s" "i \<notin> set (pagesLL cs)" "cs' \<noteq> []"
    "bindE (readE N i) (\<lambda>root'. if length (nentries root') = 1
        then bindE (readE N (echild (nentries root' ! 0))) (\<lambda>only. writeNodeOp N (only\<lparr>nid := i\<rparr>))
        else writeNodeOp N root') s1 = (Inr u, s')"
  shows "\<exists>t'. delete_root_post s s' (PBranch i cs) k t'"
proof -
  note dp = assms(1) [unfolded delete_post_def]
  have i1: "i \<in> lv s1" "i \<notin> set (pagesLL cs')" using dp assms(2,3) by blast+
  obtain T where T: "forest_ok (lv s1) [T]" "below_stored N s1 T" "tid T = i" "kvs T = kvsL cs'"
    "writeNodeOp N (nodeOf T) s1 = (Inr u, s')"
  proof (cases "length cs' = 1")
    case True
    then obtain c where c: "cs' = [c]" by (auto simp: length_Suc_conv)
    have sc: "stored N s1 c" using dp c by (simp add: all_stored_def)
    have "writeNodeOp N (nodeOf (relabel i c)) s1 = (Inr u, s')"
      using assms(5) dp c stored_read [OF sc] by (simp add: branchEntries_def branchEntry_def)
    moreover have "forest_ok (lv s1) [relabel i c]"
      using dp c i1 by (intro forest_ok_relabel) auto
    moreover have "below_stored N s1 c" using sc by (simp add: stored_iff)
    ultimately show thesis using c by (intro that [of "relabel i c"]) simp_all
  next
    case False
    have "writeNodeOp N (nodeOf (PBranch i cs')) s1 = (Inr u, s')"
      using assms(5) dp False by (simp add: branchEntries_def)
    moreover have "forest_ok (lv s1) [PBranch i cs']" using dp i1 assms(4) by (simp add: forest_ok_children)
    moreover have "below_stored N s1 (PBranch i cs')" using dp by (simp add: below_stored_def all_stored_def)
    ultimately show thesis by (intro that [of "PBranch i cs'"]) simp_all
  qed
  have w: "inv s'" "lv s' = lv s1" "stored N s' T"
    "\<forall>j \<in> lv s1. j \<noteq> i \<longrightarrow> readNodeOp N s' j = readNodeOp N s1 j"
    using write_tree [OF _ T(1,2,5)] dp T(3) by blast+
  have "root_ok (lv s') T" using T(1) w(2) by (simp add: root_ok_forest)
  moreover have "j \<in> lv s' \<and> readNodeOp N s' j = readNodeOp N s j"
    if j: "j \<in> lv s" "j \<notin> set (pagesL (PBranch i cs))" for j
  proof -
    have n: "j \<notin> insert i (set (pagesLL cs))" using j(2) by simp
    hence "j \<in> lv s1" using dp j(1) by blast
    moreover have "readNodeOp N s1 j = readNodeOp N s j" using dp j(1) n by blast
    ultimately show ?thesis using w(2,4) n by auto
  qed
  ultimately have "delete_root_post s s' (PBranch i cs) k T"
    using w dp T(3,4) by (simp add: delete_root_post_def)
  thus ?thesis ..
qed

theorem Delete_post:
  assumes "inv s" "root_ok (lv s) t" "stored N s t" "depth_le t d" "root_wide t"
    "BTree_Delete N d (tid t) k s = (Inr u, s')"
  shows "\<exists>t'. delete_root_post s s' t k t'"
proof (cases t)
  case (PLeaf i n es)
  have k: "k \<noteq> []" using assms(6) by (auto simp: BTree_Delete_def)
  let ?T = "PLeaf i n (kv_del k es)"
  have es: "kv_sorted es" "\<forall>p \<in> set es. fst p \<noteq> []" "i \<in> lv s" "n < 2 ^ 64"
    using assms(2) PLeaf by (simp_all add: root_ok_def)
  have run: "(if k \<notin> fst ` set es then returnE () else writeNodeOp N (nodeOf ?T)) s = (Inr u, s')"
    using assms(3,6) k PLeaf by (simp add: BTree_Delete_def delete_leafEntries [OF es(1)] split: if_splits)
  show ?thesis
  proof (cases "k \<in> fst ` set es")
    case True
    have rk: "root_ok (lv s) ?T" using es kv_sorted_kv_del [OF es(1)] by (auto simp: root_ok_def set_kv_del)
    have "node_ok (nodeOf ?T)"
      using rk leafEntries_sorted [of "kv_del k es"]
      by (auto simp: root_ok_def node_ok_def entry_ok_def leafEntries_def leafEntry_def)
    hence "nodeFits (nodeOf ?T) \<and> inv s' \<and> lv s' = lv s \<and> room s' = room s \<and> readNodeOp N s' (nid (nodeOf ?T)) = Inr (nodeOf ?T)
        \<and> (\<forall>j \<in> lv s. j \<noteq> nid (nodeOf ?T) \<longrightarrow> readNodeOp N s' j = readNodeOp N s j)"
      using run True es(3) by (intro write_ok [OF assms(1)]) auto
    hence "delete_root_post s s' t k ?T" using rk PLeaf by (auto simp: delete_root_post_def)
    thus ?thesis ..
  next
    case False
    hence "s' = s" "kv_del k es = es" using run by (auto intro: kv_del_absent)
    hence "delete_root_post s s' t k t" using assms PLeaf by (simp add: delete_root_post_def)
    thus ?thesis ..
  qed
next
  case (PBranch i cs)
  have k: "k \<noteq> []" using assms(6) by (auto simp: BTree_Delete_def)
  have pre: "forest_ok (lv s) [PBranch i cs]" "stored N s (PBranch i cs)" "depth_le (PBranch i cs) d"
    using assms(2-4) PBranch by (auto simp: root_ok_def)
  have cs: "2 \<le> length cs" "i \<in> lv s" "i \<notin> set (pagesLL cs)"
    using assms(5) pre(1) PBranch by (auto simp: root_wide_def forest_ok_children)
  have run: "bindE (deleteFromBranch N d (nodeOf (PBranch i cs)) k True) (\<lambda>deleted. if \<not> deleted then returnE ()
      else bindE (readE N i) (\<lambda>root'. if length (nentries root') = 1
        then bindE (readE N (echild (nentries root' ! 0))) (\<lambda>only. writeNodeOp N (only\<lparr>nid := i\<rparr>))
        else writeNodeOp N root')) s = (Inr u, s')"
    using assms(6) k PBranch pre(2) by (simp add: BTree_Delete_def cong: if_cong)
  obtain r s1 where r: "deleteFromBranch N d (nodeOf (PBranch i cs)) k True s = (Inr r, s1)"
    and rest: "(if \<not> r then returnE () else bindE (readE N i) (\<lambda>root'. if length (nentries root') = 1
        then bindE (readE N (echild (nentries root' ! 0))) (\<lambda>only. writeNodeOp N (only\<lparr>nid := i\<rparr>))
        else writeNodeOp N root')) s1 = (Inr u, s')"
    using run by (rule bindE_InrE)
  note post = deleteFromBranch_post [OF assms(1) pre r]
  show ?thesis
  proof (cases "k \<in> fst ` set (kvsL cs)")
    case True
    then obtain cs' where dp: "delete_post s s1 i cs k cs'" and "r = True" using post by auto
    moreover have "cs' \<noteq> []" using dp cs(1) by (auto simp: delete_post_def)
    ultimately show ?thesis
      using finish_delete [OF dp cs(2,3)] rest PBranch by simp
  next
    case False
    have "kv_del k (kvsL cs) = kvsL cs" using False by (intro kv_del_absent) blast
    moreover have "s' = s" using rest post False by simp
    ultimately have "delete_root_post s s' t k t" using assms PBranch by (simp add: delete_root_post_def)
    thus ?thesis ..
  qed
qed

lemma settleChild_total:
  assumes "inv s" "i \<in> lv s" "tid c' \<in> lv s" "tid c' = tid c" "i \<noteq> tid c'"
    and ok: "forest_ok (lv s) (as @ kept c' @ bs)"
    and fits: "nodeFits (nodeOf c')" "nodeFits (nodeOf (PBranch i (as @ kept c' @ bs)))"
  shows "\<exists>s'. settleChild N (nodeOf (PBranch i (as @ c # bs))) (length as) (nodeOf c') isRoot s = (Inr True, s')"
proof -
  let ?cs = "as @ kept c' @ bs"
  have node: "node_ok (nodeOf (PBranch i ?cs))" using branch_node_ok [OF ok] lv_bounds [OF assms(1)] by blast
  have last: "\<exists>s'. bindE (writeNodeOp N (nodeOf (PBranch i ?cs))) (\<lambda>_. returnE True) s1 = (Inr True, s')"
    if "inv s1" "i \<in> lv s1" for s1
    using write_fits [OF that(1) _ node fits(2)] that(2) by auto
  show ?thesis
  proof (cases "width c' = 0")
    case True
    have es: "take (length as) (branchEntries (as @ c # bs)) @ drop (length as + 1) (branchEntries (as @ c # bs))
        = branchEntries ?cs"
      using True by (simp add: kept_def branchEntries_def)
    show ?thesis
    proof (cases isRoot)
      case isRoot: True
      thus ?thesis using last [OF assms(1,2)] True es width_entries [of c'] by (simp add: settleChild_def)
    next
      case notRoot: False
      obtain s1 where f: "freeOp N (tid c') s = (Inr (), s1)" "inv s1" "lv s1 = lv s - {tid c'}"
        using free_ok [OF assms(1,3)] by blast
      hence "i \<in> lv s1" using assms(2,5) by simp
      from last [OF f(2) this] show ?thesis
        using True es notRoot width_entries [of c'] f(1) by (simp add: settleChild_def)
    qed
  next
    case False
    have k: "kept c' = [c']" using False by (simp add: kept_def)
    have okc: "forest_ok (lv s) [c']" using forest_ok_member [OF ok] k by simp
    hence wf: "wf_tree c'" by (simp add: forest_ok_def)
    have es: "(branchEntries (as @ c # bs))[length as := (branchEntries (as @ c # bs) ! length as)\<lparr>ekey := firstKey (nodeOf c')\<rparr>]
        = branchEntries ?cs"
      using assms(4) by (simp add: k firstKey_nodeOf [OF wf] branchEntries_def branchEntry_def nth_append list_update_append)
    obtain s1 where w: "writeNodeOp N (nodeOf c') s = (Inr (), s1)" "inv s1" "lv s1 = lv s"
      using write_total [OF assms(1) okc fits(1)] by blast
    have "i \<in> lv s1" using assms(2) w(3) by simp
    from last [OF w(2) this] show ?thesis
      using False es width_entries [of c'] w(1) by (simp add: settleChild_def)
  qed
qed

lemma deleteFromBranch_total:
  "inv s \<Longrightarrow> forest_ok (lv s) [PBranch i cs] \<Longrightarrow> stored N s (PBranch i cs) \<Longrightarrow> depth_le (PBranch i cs) d \<Longrightarrow>
    key_len n (kvsL cs) \<Longrightarrow>
    \<exists>r s'. deleteFromBranch N d (nodeOf (PBranch i cs)) k isRoot s = (Inr r, s')"
proof (induction d arbitrary: i cs isRoot)
  case (Suc d)
  have cs: "forest_ok (lv s) cs" "cs \<noteq> []" using Suc.prems(2) by (auto simp: forest_ok_children)
  obtain as c bs where *: "cs = as @ c # bs" "childIndexFor (branchEntries cs) k = int (length as)"
      "\<forall>p \<in> set (kvsL as). fst p < k" "\<forall>p \<in> set (kvsL bs). k < fst p"
    by (rule child_split [OF cs, where k = k])
  have okc: "forest_ok (lv s) [c]" "stored N s c" "depth_le c d" "key_len n (kvs c)"
    using forest_ok_member [OF cs(1), of c] Suc.prems(3,4,5) *(1) by (auto simp: key_len_def)
  have ent: "entryAt (branchEntries cs) (int (length as)) = Inr (branchEntry (fkey c) (tid c))"
    using *(1) by (simp add: entryAt_def branchEntries_def nth_append)
  have ne: "branchEntries cs \<noteq> []" using cs(2) by (simp add: branchEntries_def)
  note rc = stored_read [OF okc(2)]
  note ok1 = Suc.prems(1) Suc.prems(2) [unfolded *(1)] Suc.prems(3) [unfolded *(1)]
  have tc: "tid c \<in> lv s" using okc(1) tid_in_pages [of c] by (auto simp: forest_ok_def)
  have fit: "nodeFits (nodeOf (PBranch i (as @ kept c' @ bs)))"
    if "forest_ok L (as @ kept c' @ bs)" "kvsL (as @ kept c' @ bs) = kv_del k (kvsL (as @ c # bs))" for L c'
  proof -
    have "key_len n (kvsL (as @ kept c' @ bs))" unfolding that(2) using Suc.prems(5) *(1) by (intro key_len_del) simp
    hence "costs (branchEntries (as @ kept c' @ bs)) = (16 + n) * length (as @ kept c' @ bs)"
      using that(1) by (intro costs_key_len)
    also have "\<dots> \<le> (16 + n) * length cs" using *(1) by (intro mult_le_mono2) (simp add: kept_def)
    also have "\<dots> = costs (branchEntries cs)" using cs(1) Suc.prems(5) by (simp add: costs_key_len)
    also have "\<dots> \<le> 4080" using stored_fits [OF Suc.prems(3)] by (simp add: nodeFits_costs)
    finally show ?thesis by (simp add: nodeFits_costs)
  qed
  show ?case
  proof (cases c)
    case (PLeaf j m es)
    let ?c' = "PLeaf j m (kv_del k es)"
    have es: "kv_sorted es" using okc(1) PLeaf by (simp add: forest_ok_def)
    have "width ?c' \<noteq> 0 \<longrightarrow> forest_ok (lv s) [?c']"
      using okc(1) PLeaf kv_sorted_kv_del [OF es] by (auto simp: forest_ok_def set_kv_del)
    note pre = delete_level_pre [OF ok1 *(3,4) Suc.prems(1), of ?c', OF _ _ tc _ _ this]
    have pre: "forest_ok (lv s) (as @ kept ?c' @ bs)" "i \<in> lv s" "i \<noteq> tid ?c'"
      "kvsL (as @ kept ?c' @ bs) = kv_del k (kvsL (as @ c # bs))"
      using pre PLeaf by (auto simp: below_stored_def)
    have "nodeFits (nodeOf ?c')"
      using stored_fits [OF okc(2)] PLeaf costs_kv_del [of k es] by (simp add: nodeFits_costs)
    then obtain s' where "settleChild N (nodeOf (PBranch i cs)) (length as) (nodeOf ?c') isRoot s = (Inr True, s')"
      using settleChild_total [OF Suc.prems(1) pre(2) _ _ pre(3,1) _ fit [OF pre(1,4)], of c isRoot] tc PLeaf *(1) by auto
    thus ?thesis using PLeaf ne *(2) ent rc by (cases "k \<in> fst ` set es")
        (auto simp: Let_def branchEntry_def delete_leafEntries [OF es])
  next
    case (PBranch j ds)
    obtain r1 s1 where r1: "deleteFromBranch N d (nodeOf (PBranch j ds)) k False s = (Inr r1, s1)"
      using Suc.IH [OF Suc.prems(1), of j ds False] okc PBranch by auto
    have ih: "if k \<in> fst ` set (kvsL ds) then r1 = True \<and> (\<exists>cs'. delete_post s s1 j ds k cs') else r1 = False \<and> s1 = s"
      by (rule deleteFromBranch_post [OF Suc.prems(1) _ _ _ r1]) (use okc PBranch in auto)
    have step: "deleteFromBranch N (Suc d) (nodeOf (PBranch i cs)) k isRoot s = (if \<not> r1 then returnE False
         else bindE (readE N j) (\<lambda>child'. settleChild N (nodeOf (PBranch i cs)) (length as) child' isRoot)) s1"
      using PBranch ne *(2) ent rc r1 by (simp add: Let_def branchEntry_def cong: if_cong)
    show ?thesis
    proof (cases "k \<in> fst ` set (kvsL ds)")
      case True
      then obtain ds' where r: "r1 = True" and dp: "delete_post s s1 j ds k ds'" using ih by auto
      note dp = dp [unfolded delete_post_def]
      let ?c' = "PBranch j ds'"
      have jd: "j \<in> lv s" "j \<notin> set (pagesLL ds)" using okc(1) PBranch by (auto simp: forest_ok_children)
      hence j1: "j \<in> lv s1" "j \<notin> set (pagesLL ds')" using dp by blast+
      have pg: "set (pagesL c) = insert j (set (pagesLL ds))" "set (pagesL ?c') = insert j (set (pagesLL ds'))"
        using PBranch by auto
      have s1: "inv s1" "lv s1 \<subseteq> lv s" "lv s - lv s1 \<subseteq> set (pagesL c)" "tid c \<in> lv s1"
        "\<forall>j \<in> lv s. j \<notin> set (pagesL c) \<longrightarrow> readNodeOp N s1 j = readNodeOp N s j"
        unfolding pg using dp j1 PBranch by auto
      have c': "tid ?c' = tid c" "width ?c' \<noteq> 0 \<longrightarrow> forest_ok (lv s1) [?c']" "below_stored N s1 ?c'"
        "set (pagesL ?c') \<subseteq> set (pagesL c)" "kvs ?c' = kv_del k (kvs c)"
        unfolding pg using dp j1 PBranch by (auto simp: forest_ok_children below_stored_def all_stored_def)
      note pre = delete_level_pre [OF ok1 *(3,4) s1 c']
      have "\<exists>s'. settleChild N (nodeOf (PBranch i (as @ c # bs))) (length as) (nodeOf ?c') isRoot s1 = (Inr True, s')"
        by (rule settleChild_total [OF s1(1) pre(3) _ c'(1) pre(4,1) _ fit [OF pre(1,7)]])
          (use dp j1 in simp_all)
      then obtain s' where "settleChild N (nodeOf (PBranch i (as @ c # bs))) (length as) (nodeOf ?c') isRoot s1
          = (Inr True, s')" ..
      hence "deleteFromBranch N (Suc d) (nodeOf (PBranch i cs)) k isRoot s = (Inr True, s')"
        unfolding step using r dp *(1) by simp
      thus ?thesis by blast
    next
      case False
      hence "deleteFromBranch N (Suc d) (nodeOf (PBranch i cs)) k isRoot s = (Inr False, s1)"
        unfolding step using ih by simp
      thus ?thesis by blast
    qed
  qed
qed simp

theorem Delete_total:
  assumes "inv s" "root_ok (lv s) t" "stored N s t" "depth_le t d" "root_wide t" "k \<noteq> []" "key_len n (kvs t)"
  shows "\<exists>s'. BTree_Delete N d (tid t) k s = (Inr (), s')"
proof (cases t)
  case (PLeaf i m es)
  let ?T = "PLeaf i m (kv_del k es)"
  have es: "kv_sorted es" "\<forall>p \<in> set es. fst p \<noteq> []" "i \<in> lv s" "m < 2 ^ 64"
    using assms(2) PLeaf by (simp_all add: root_ok_def)
  have "node_ok (nodeOf ?T)"
    using es leafEntries_sorted [OF kv_sorted_kv_del [OF es(1)], of k]
    by (auto simp: node_ok_def entry_ok_def leafEntries_def leafEntry_def set_kv_del)
  moreover have "nodeFits (nodeOf ?T)"
    using stored_fits [OF assms(3)] PLeaf costs_kv_del [of k es] by (simp add: nodeFits_costs)
  ultimately obtain s' where "writeNodeOp N (nodeOf ?T) s = (Inr (), s')"
    using write_fits [OF assms(1), of "nodeOf ?T"] es(3) by auto
  thus ?thesis using assms(3,6) PLeaf by (simp add: BTree_Delete_def delete_leafEntries [OF es(1)])
next
  case (PBranch i cs)
  have pre: "forest_ok (lv s) [PBranch i cs]" "stored N s (PBranch i cs)" "depth_le (PBranch i cs) d" "key_len n (kvsL cs)"
    using assms(2-4,7) PBranch by (auto simp: root_ok_def)
  have cs: "2 \<le> length cs" "i \<in> lv s" "i \<notin> set (pagesLL cs)"
    using assms(5) pre(1) PBranch by (auto simp: root_wide_def forest_ok_children)
  obtain r s1 where r: "deleteFromBranch N d (nodeOf (PBranch i cs)) k True s = (Inr r, s1)"
    using deleteFromBranch_total [OF assms(1) pre] by blast
  note post = deleteFromBranch_post [OF assms(1) pre(1-3) r]
  have step: "BTree_Delete N d (tid t) k s = (if \<not> r then returnE ()
      else bindE (readE N i) (\<lambda>root'. if length (nentries root') = 1
        then bindE (readE N (echild (nentries root' ! 0))) (\<lambda>only. writeNodeOp N (only\<lparr>nid := i\<rparr>))
        else writeNodeOp N root')) s1"
    using assms(6) PBranch pre(2) r by (simp add: BTree_Delete_def cong: if_cong)
  show ?thesis
  proof (cases "k \<in> fst ` set (kvsL cs)")
    case False
    thus ?thesis unfolding step using post by simp
  next
    case True
    then obtain cs' where dp: "delete_post s s1 i cs k cs'" and rt: "r = True" using post by auto
    note dp = dp [unfolded delete_post_def]
    have i1: "i \<in> lv s1" "i \<notin> set (pagesLL cs')" "cs' \<noteq> []" using dp cs by (blast, blast, auto)
    show ?thesis
    proof (cases "length cs' = 1")
      case True
      then obtain c where c: "cs' = [c]" by (auto simp: length_Suc_conv)
      have sc: "stored N s1 c" using dp c by (simp add: all_stored_def)
      have "forest_ok (lv s1) [relabel i c]" using dp c i1 by (intro forest_ok_relabel) auto
      moreover have "nodeFits (nodeOf (relabel i c))" using stored_fits [OF sc] by (simp add: nodeFits_def)
      ultimately obtain s' where "writeNodeOp N (nodeOf (relabel i c)) s1 = (Inr (), s')"
        using write_total dp by blast
      thus ?thesis unfolding step using rt dp c stored_read [OF sc] by (simp add: branchEntries_def branchEntry_def)
    next
      case False
      have "forest_ok (lv s1) [PBranch i cs']" using dp i1 by (simp add: forest_ok_children)
      then obtain s' where "writeNodeOp N (nodeOf (PBranch i cs')) s1 = (Inr (), s')"
        using write_total dp by blast
      thus ?thesis unfolding step using rt dp False by (simp add: branchEntries_def)
    qed
  qed
qed

text \<open>
  A root whose single child is a leaf with a single pair: removing the pair succeeds, and leaves
  a branch without entries, on which no operation succeeds again.
\<close>

lemma Delete_single:
  assumes "inv s" "root_ok (lv s) (PBranch i [PLeaf j n [(k, v)]])" "stored N s (PBranch i [PLeaf j n [(k, v)]])"
  shows "\<exists>s'. BTree_Delete N (Suc d) i k s = (Inr (), s') \<and> inv s'
    \<and> readNodeOp N s' i = Inr (nodeOf (PBranch i []))"
proof -
  let ?t = "PBranch i [PLeaf j n [(k, v)]]"
  have ok: "forest_ok (lv s) [?t]" using assms(2) by (simp add: root_ok_def)
  hence k: "k \<noteq> []" "i \<in> lv s" by (auto simp: forest_ok_def)
  have node: "node_ok (nodeOf (PBranch i []))" "nodeFits (nodeOf (PBranch i []))"
    by (simp_all add: node_ok_def branchEntries_def sorted_entries_def nodeFits_costs)
  obtain s1 where w1: "writeNodeOp N (nodeOf (PBranch i [])) s = (Inr (), s1)" "inv s1" "lv s1 = lv s"
      "readNodeOp N s1 i = Inr (nodeOf (PBranch i []))"
    using write_fits [OF assms(1) _ node] k(2) by auto
  obtain s2 where w2: "writeNodeOp N (nodeOf (PBranch i [])) s1 = (Inr (), s2)" "inv s2"
      "readNodeOp N s2 i = Inr (nodeOf (PBranch i []))"
    using write_fits [OF w1(2) _ node] k(2) w1(3) by auto
  have ci: "childIndexFor (branchEntries [PLeaf j n [(k, v)]]) k = 0"
    by (simp add: branchEntries_def branchEntry_def childIndexFor_def lowerBound_def lowerBoundLoop.simps Let_def)
  have de: "deleteEntry [leafEntry k v] k = ([], True)"
    using delete_leafEntries [of "[(k, v)]" k] by (simp add: leafEntries_def kv_simps kv_del_def)
  have "deleteFromBranch N (Suc d) (nodeOf ?t) k True s = (Inr True, s1)"
    using assms(3) w1(1) ci de
    by (simp add: Let_def entryAt_def branchEntries_def branchEntry_def settleChild_def leafEntries_def)
  hence "BTree_Delete N (Suc d) i k s = (Inr (), s2)"
    using k(1) assms(3) w1(4) w2(1)
    by (simp add: BTree_Delete_def branchEntries_def del: deleteFromBranch.simps)
  thus ?thesis using w2 by blast
qed

lemma empty_branch_stuck:
  assumes "readNodeOp N s i = Inr (nodeOf (PBranch i []))" "k \<noteq> []"
  shows "BTree_Get N (Suc d) i s k = Inl (BranchEmpty i)" "BTree_Put N (Suc d) i k v s = (Inl IndexPanic, s)"
    "BTree_Delete N (Suc d) i k s = (Inl (BranchEmpty i), s)"
  using assms
  by (simp_all add: BTree_Get_def BTree_Put_def BTree_Delete_def putRootBranch_def childFor_def branchEntries_def
      Let_def entryAt_def childIndexFor_def lowerBound_def lowerBoundLoop.simps)

end

end
