(* ===== verification/Btree_Store.thy ===== *)
theory Btree_Store
  imports Btree_Delete
begin

text \<open>
  The page file as node storage: \<open>pagerStore\<close> is what a \<open>BTree\<close> value calls, and the laws of
  \<open>node_store\<close> hold of it. The theorems about the tree hold of trees in a page file, with
  \<open>PageCount\<close> as fuel: the pages of a tree are distinct, so no path is longer.
\<close>

definition pagerStore :: "pager nodeStore" where
  "pagerStore = \<lparr>readNodeOp = readNode, writeNodeOp = writeNode, allocOp = AllocPage, freeOp = FreePage\<rparr>"

lemma pagerStore_simps [simp]:
  "readNodeOp pagerStore = readNode" "writeNodeOp pagerStore = writeNode"
  "allocOp pagerStore = AllocPage" "freeOp pagerStore = FreePage"
  by (simp_all add: pagerStore_def)

text \<open>The allocations that succeed: the free pages, and the pages the disk has room for.\<close>

definition pager_room :: "pager \<Rightarrow> nat" where
  "pager_room p = card (freeSet p) + (disk_limit p div PageSize - PageCount p)"

lemma freeSet_bounds:
  assumes "pager_inv p"
  shows "finite (freeSet p)" "freeSet p \<subseteq> {i. 0 < i \<and> i < PageCount p}"
proof -
  from pager_invD(3) [OF assms] obtain xs where xs: "free_chain p (FreeHead p) xs" "set xs = freeSet p"
      "\<forall>x \<in> set xs. x < PageCount p"
    by (auto simp: free_list_ok_def)
  show "finite (freeSet p)" using xs(2) by (metis finite_set)
  have "0 \<notin> freeSet p" using free_chain_no_zero [OF xs(1)] xs(2) by simp
  thus "freeSet p \<subseteq> {i. 0 < i \<and> i < PageCount p}" using xs(2,3) by (auto intro: gr0I)
qed

lemma freeSet_empty: "pager_inv p \<Longrightarrow> FreeHead p = 0 \<Longrightarrow> freeSet p = {}"
proof -
  assume p: "pager_inv p" "FreeHead p = 0"
  from pager_invD(3) [OF p(1)] obtain xs where "free_chain p 0 xs" "set xs = freeSet p"
    using p(2) by (auto simp: free_list_ok_def)
  thus ?thesis by (cases xs) auto
qed

lemma readNode_frame:
  assumes "pager_inv p" "pager_inv q" "j \<in> live p" "j \<in> live q" "page_at q j = page_at p j"
  shows "readNode q j = readNode p j"
  using assms by (auto simp: live_def readNode_eq)

lemma AllocPage_cases:
  assumes "pager_inv p"
  obtains (reuse) q where "FreeHead p \<noteq> 0" "AllocPage p = (Inr (FreeHead p), q)" "FreeHead p \<in> freeSet p"
      "freeSet q = freeSet p - {FreeHead p}" "PageCount q = PageCount p" "disk_limit q = disk_limit p"
  | (grow) q where "FreeHead p = 0" "AllocPage p = (Inr (PageCount p), q)" "freeSet q = freeSet p"
      "PageCount q = PageCount p + 1" "disk_limit q = disk_limit p" "PageCount p < disk_limit p div PageSize"
  | (full) "FreeHead p = 0" "AllocPage p = (Inl DiskFull, unmap p)" "disk_limit p div PageSize \<le> PageCount p"
proof -
  have *: "(PageCount p + 1) * PageSize \<le> disk_limit p \<longleftrightarrow> PageCount p < disk_limit p div PageSize"
    by (metis PageSize_pos(1) Suc_eq_plus1 Suc_le_eq less_eq_div_iff_mult_less_eq)
  consider "FreeHead p \<noteq> 0"
    | "FreeHead p = 0" "(PageCount p + 1) * PageSize \<le> disk_limit p"
    | "FreeHead p = 0" "(PageCount p + 1) * PageSize > disk_limit p"
    by linarith
  thus thesis
  proof cases
    case 1
    thus ?thesis using AllocPage_reuse [OF assms 1] reuse by metis
  next
    case 2
    thus ?thesis using AllocPage_grow [OF assms 2] grow * by metis
  next
    case 3
    thus ?thesis using AllocPage_full [OF assms 3] full * by (metis not_less)
  qed
qed

interpretation ps: node_store pagerStore pager_inv live pager_room
proof
  fix p i assume p: "pager_inv p" "i \<in> live p"
  hence "i < PageCount p" "0 < i" by (auto simp: live_def)
  moreover have "PageCount p < 2 ^ 51" by (rule PageCount_small [OF pager_invD(2) [OF p(1)]])
  ultimately show "0 < i \<and> i < 2 ^ 64" by simp
next
  fix p n assume *: "pager_inv p" "nid n \<in> live p" "node_ok n" "nodeFits n"
  obtain q where q: "writeNode n p = (Inr (), q)" "pager_inv q" "live q = live p"
    "freeSet q = freeSet p" "PageCount q = PageCount p" "disk_limit q = disk_limit p"
    "RootPage q = RootPage p" "readNode q (nid n) = Inr n"
    "\<And>j. j \<in> live p \<Longrightarrow> j \<noteq> nid n \<Longrightarrow> readNode q j = readNode p j"
    using writeNode_ok [OF *] by blast
  thus "\<exists>s'. writeNodeOp pagerStore n p = (Inr (), s') \<and> pager_inv s' \<and> live s' = live p \<and> pager_room s' = pager_room p
        \<and> readNodeOp pagerStore s' (nid n) = Inr n
        \<and> (\<forall>j \<in> live p. j \<noteq> nid n \<longrightarrow> readNodeOp pagerStore s' j = readNodeOp pagerStore p j)"
    by (intro exI [of _ q]) (simp add: pager_room_def)
next
  fix p n assume "pager_inv p" "nid n \<in> live p" "\<not> nodeFits n"
  thus "writeNodeOp pagerStore n p = (Inl (NodeDoesNotFit (nid n)), p)"
    by (simp add: writeNode_refused live_def)
next
  fix p i q assume *: "pager_inv p" "allocOp pagerStore p = (Inr i, q)"
  hence al: "AllocPage p = (Inr i, q)" by simp
  note q = AllocPage_Inr [OF *(1) al]
  have "pager_room p \<le> Suc (pager_room q)"
    using *(1)
  proof (cases rule: AllocPage_cases)
    case (reuse q')
    have q': "q' = q" using reuse(2) al by simp
    have "Suc (card (freeSet p - {FreeHead p})) = card (freeSet p)"
      by (rule card_Suc_Diff1 [OF freeSet_bounds(1) [OF *(1)] reuse(3)])
    thus ?thesis using reuse(4-6) q' by (simp add: pager_room_def)
  next
    case (grow q')
    have "q' = q" using grow(2) al by simp
    thus ?thesis using grow(3-5) by (simp add: pager_room_def)
  next
    case full
    thus ?thesis using al by simp
  qed
  thus "pager_inv q \<and> i \<notin> live p \<and> live q = insert i (live p) \<and> pager_room p \<le> Suc (pager_room q)
        \<and> (\<forall>j \<in> live p. readNodeOp pagerStore q j = readNodeOp pagerStore p j)"
    using q *(1) readNode_frame [OF *(1) q(1)] by simp
next
  fix p assume *: "pager_inv p" "0 < pager_room p"
  from *(1) show "\<exists>i s'. allocOp pagerStore p = (Inr i, s')"
  proof (cases rule: AllocPage_cases)
    case full
    thus ?thesis using * freeSet_empty [OF *(1)] by (simp add: pager_room_def)
  qed simp_all
next
  fix p i assume *: "pager_inv p" "i \<in> live p"
  obtain q where q: "FreePage i p = (Inr (), q)" "pager_inv q" "live q = live p - {i}"
    "\<And>j. j \<in> live p \<Longrightarrow> j \<noteq> i \<Longrightarrow> page_at q j = page_at p j"
    using FreePage_ok [OF *] by metis
  have "\<forall>j \<in> live p. j \<noteq> i \<longrightarrow> readNode q j = readNode p j"
    using readNode_frame [OF *(1) q(2)] q(3,4) by simp
  with q(1-3) show "\<exists>s'. freeOp pagerStore i p = (Inr (), s') \<and> pager_inv s' \<and> live s' = live p - {i}
        \<and> (\<forall>j \<in> live p. j \<noteq> i \<longrightarrow> readNodeOp pagerStore s' j = readNodeOp pagerStore p j)"
    by simp
qed

section \<open>Parts of the state that the tree leaves alone\<close>

lemma keeps_splitNonRoot:
  assumes "\<And>n. keeps f (writeNodeOp N n)" "keeps f (allocOp N)"
  shows "keeps f (splitNonRoot N node)"
  by (auto simp: splitNonRoot_def Let_def splitEntries_def intro!: keeps_intros assms)

lemma keeps_splitRoot:
  assumes "\<And>n. keeps f (writeNodeOp N n)" "keeps f (allocOp N)"
  shows "keeps f (splitRoot N ty node)"
  by (auto simp: splitRoot_def Let_def splitEntries_def intro!: keeps_intros assms)

lemma keeps_putNonRoot:
  assumes "\<And>n. keeps f (writeNodeOp N n)" "keeps f (allocOp N)"
  shows "keeps f (putNonRoot N d node k v)"
proof (induction d arbitrary: node)
  case (Suc d)
  show ?case by (auto simp: Let_def intro!: keeps_intros assms keeps_splitNonRoot Suc)
qed (auto intro!: keeps_intros)

lemma keeps_Put:
  assumes "\<And>n. keeps f (writeNodeOp N n)" "keeps f (allocOp N)"
  shows "keeps f (BTree_Put N d i k v)"
  by (auto simp: BTree_Put_def putRootBranch_def splitRootLeaf_def splitRootBranch_def Let_def
      intro!: keeps_intros assms keeps_splitRoot keeps_putNonRoot)

lemma keeps_deleteFromBranch:
  assumes "\<And>n. keeps f (writeNodeOp N n)" "\<And>i. keeps f (freeOp N i)"
  shows "keeps f (deleteFromBranch N d node k isRoot)"
proof (induction d arbitrary: node isRoot)
  case (Suc d)
  show ?case by (auto simp: Let_def settleChild_def intro!: keeps_intros assms Suc split: prod.splits)
qed (auto intro!: keeps_intros)

lemma keeps_Delete:
  assumes "\<And>n. keeps f (writeNodeOp N n)" "\<And>i. keeps f (freeOp N i)"
  shows "keeps f (BTree_Delete N d i k)"
  by (auto simp: BTree_Delete_def intro!: keeps_intros assms keeps_deleteFromBranch split: prod.splits)

lemma keeps_writeMeta:
  assumes "\<And>i b p. f (setPage i b p) = f p"
  shows "keeps f writeMeta"
  by (auto simp: keeps_def writeMeta_def assms)

lemma writeNode_keeps:
  "keeps RootPage (writeNode n)" "keeps disk_limit (writeNode n)"
  by (auto simp: keeps_def writeNode_def split: sum.splits prod.splits)

lemma FreePage_keeps:
  "keeps RootPage (FreePage i)" "keeps disk_limit (FreePage i)"
  by (auto simp: keeps_def FreePage_def writeMeta_def split: sum.splits)

lemma AllocPage_keeps:
  "keeps RootPage AllocPage" "keeps disk_limit AllocPage"
  by (auto simp: keeps_def AllocPage_def writeMeta_def bindE_def resize_def truncateFile_def mapFile_def unmap_def
      Let_def split: sum.splits prod.splits if_splits)

lemmas pagerStore_keeps =
  keeps_Put [of RootPage pagerStore, simplified, OF writeNode_keeps(1) AllocPage_keeps(1)]
  keeps_Put [of disk_limit pagerStore, simplified, OF writeNode_keeps(2) AllocPage_keeps(2)]
  keeps_Delete [of RootPage pagerStore, simplified, OF writeNode_keeps(1) FreePage_keeps(1)]
  keeps_Delete [of disk_limit pagerStore, simplified, OF writeNode_keeps(2) FreePage_keeps(2)]

end
