(* ===== verification/Btree_Scan.thy ===== *)
theory Btree_Scan
  imports Btree_Store
begin

text \<open>
  Range scans: on a stored tree whose leaves are linked in order, the loop over an iterator
  from \<open>Scan\<close> sees exactly the pairs of the range, in order, and ends.
\<close>

definition in_range :: "bytes \<Rightarrow> bytes option \<Rightarrow> bytes \<Rightarrow> bool" where
  "in_range start stop k \<longleftrightarrow> start \<le> k \<and> (case stop of None \<Rightarrow> True | Some e \<Rightarrow> k < e)"

definition before_end :: "bytes option \<Rightarrow> bytes \<times> bytes \<Rightarrow> bool" where
  "before_end stop p = (case stop of None \<Rightarrow> True | Some e \<Rightarrow> fst p < e)"

definition iterAt :: "nat \<times> nat \<times> (bytes \<times> bytes) list \<Rightarrow> nat \<Rightarrow> bytes option \<Rightarrow> iter" where
  "iterAt l j stop =
     \<lparr>itNode = nodeOf (PLeaf (fst l) (fst (snd l)) (snd (snd l))), itIndex = j, itEnd = stop, itErr = None\<rparr>"

abbreviation leafKvs :: "nat \<times> nat \<times> (bytes \<times> bytes) list \<Rightarrow> (bytes \<times> bytes) list" where
  "leafKvs l \<equiv> snd (snd l)"

definition leaf_stored :: "'s nodeStore \<Rightarrow> 's \<Rightarrow> nat \<times> nat \<times> (bytes \<times> bytes) list \<Rightarrow> bool" where
  "leaf_stored N s l \<longleftrightarrow> readNodeOp N s (fst l) = Inr (nodeOf (PLeaf (fst l) (fst (snd l)) (leafKvs l)))"

lemma stored_leaves: "stored N s t \<Longrightarrow> l \<in> set (leaves t) \<Longrightarrow> leaf_stored N s l"
  by (induction t rule: leaves.induct) (auto simp: leaf_stored_def)

lemma leaves_pages: "l \<in> set (leaves t) \<Longrightarrow> fst l \<in> set (pagesL t)"
  by (induction t rule: leaves.induct) auto

lemma leaves_nonempty: "wf_tree t \<Longrightarrow> l \<in> set (leaves t) \<Longrightarrow> leafKvs l \<noteq> []"
  by (induction t rule: leaves.induct) auto

lemma iterAt_valid:
  "Iterator_Valid (iterAt l j stop) \<longleftrightarrow> j < length (leafKvs l) \<and> before_end stop (leafKvs l ! j)"
  by (auto simp: Iterator_Valid_def iterAt_def leafEntries_def leafEntry_def pastEnd_def before_end_def not_le
      split: option.splits)

lemma iterAt_pair:
  assumes "Iterator_Valid (iterAt l j stop)"
  shows "(Iterator_Key (iterAt l j stop), Iterator_Value (iterAt l j stop)) = leafKvs l ! j"
proof -
  have "j < length (leafKvs l)" using assms by (simp add: iterAt_valid)
  thus ?thesis using assms by (simp add: Iterator_Key_def Iterator_Value_def)
      (simp add: iterAt_def leafEntries_def leafEntry_def)
qed

lemma skipEmpty_inside: "j < length (leafKvs l) \<Longrightarrow> skipEmpty N (Suc f) s (iterAt l j stop) = iterAt l j stop"
  by (simp add: iterAt_def leafEntries_def)

lemma skipEmpty_last: "fst (snd l) = 0 \<Longrightarrow> skipEmpty N (Suc f) s (iterAt l j stop) = iterAt l j stop"
  by (simp add: iterAt_def)

lemma skipEmpty_step:
  assumes "length (leafKvs l) \<le> j" "fst (snd l) = fst l'" "fst l' \<noteq> 0" "leaf_stored N s l'" "leafKvs l' \<noteq> []"
  shows "skipEmpty N (Suc (Suc f)) s (iterAt l j stop) = iterAt l' 0 stop"
  using assms by (simp add: iterAt_def leafEntries_def leaf_stored_def)

lemma Next_iterAt:
  "Iterator_Valid (iterAt l j stop) \<Longrightarrow>
    Iterator_Next N f s (iterAt l j stop) = skipEmpty N f s (iterAt l (Suc j) stop)"
  by (simp add: Iterator_Next_def) (simp add: iterAt_def)

lemma collect_iterAt:
  assumes "\<forall>x \<in> set ls. leaf_stored N s x \<and> leafKvs x \<noteq> [] \<and> fst x \<noteq> 0" "linked (l # ls) 0"
    "j \<le> length (leafKvs l)" "rest = drop j (leafKvs l) @ concat (map leafKvs ls)" "length rest \<le> rounds"
  shows "collect N rounds (Suc (Suc f)) s (skipEmpty N (Suc (Suc f)) s (iterAt l j stop))
    = Inr (takeWhile (before_end stop) rest)"
  using assms
proof (induction rest arbitrary: l ls j rounds)
  case Nil
  hence "ls = []" by (cases ls) auto
  moreover from this Nil.prems(2) have "fst (snd l) = 0" by (cases l) auto
  ultimately show ?case using Nil
    by (simp add: skipEmpty_last collect.simps iterAt_valid) (simp add: iterAt_def)
next
  case (Cons p rest)
  have inside: "collect N rounds (Suc (Suc f)) s (iterAt l j stop) = Inr (takeWhile (before_end stop) (p # rest))"
    if hyp: "\<forall>x \<in> set ls. leaf_stored N s x \<and> leafKvs x \<noteq> [] \<and> fst x \<noteq> 0" "linked (l # ls) 0" "j < length (leafKvs l)"
      "p # rest = drop j (leafKvs l) @ concat (map leafKvs ls)" for l ls j
  proof -
    have "drop j (leafKvs l) = leafKvs l ! j # drop (Suc j) (leafKvs l)"
      using hyp(3) by (simp add: Cons_nth_drop_Suc)
    hence p: "p = leafKvs l ! j" "rest = drop (Suc j) (leafKvs l) @ concat (map leafKvs ls)"
      using hyp(4) by simp_all
    obtain r where r: "rounds = Suc r" using Cons.prems(5) by (cases rounds) auto
    show ?thesis
    proof (cases "before_end stop p")
      case True
      hence v: "Iterator_Valid (iterAt l j stop)" using p(1) hyp(3) by (simp add: iterAt_valid)
      have "collect N r (Suc (Suc f)) s (skipEmpty N (Suc (Suc f)) s (iterAt l (Suc j) stop))
          = Inr (takeWhile (before_end stop) rest)"
        by (rule Cons.IH [OF hyp(1,2) _ p(2)]) (use hyp(3) Cons.prems(5) r in auto)
      hence "collect N r (Suc (Suc f)) s (Iterator_Next N (Suc (Suc f)) s (iterAt l j stop))
          = Inr (takeWhile (before_end stop) rest)" by (simp only: Next_iterAt [OF v])
      thus ?thesis using v r True p(1) iterAt_pair [OF v]
        by (simp add: collect.simps [of N "Suc r"] del: skipEmpty.simps)
    next
      case False
      hence "\<not> Iterator_Valid (iterAt l j stop)" using p(1) by (simp add: iterAt_valid)
      thus ?thesis using False by (simp add: collect.simps [of N rounds]) (simp add: iterAt_def)
    qed
  qed
  show ?case
  proof (cases "j < length (leafKvs l)")
    case True
    from inside [OF Cons.prems(1,2) True Cons.prems(4)] show ?thesis
      by (simp only: skipEmpty_inside [OF True])
  next
    case False
    with Cons.prems(3,4) obtain l' ls' where ls: "ls = l' # ls'" by (cases ls) auto
    have l': "leaf_stored N s l'" "leafKvs l' \<noteq> []" "fst l' \<noteq> 0" using Cons.prems(1) ls by auto
    have lk: "fst (snd l) = fst l'" "linked (l' # ls') 0" using Cons.prems(2) ls by (cases l; auto)+
    have "skipEmpty N (Suc (Suc f)) s (iterAt l j stop) = iterAt l' 0 stop"
      by (rule skipEmpty_step) (use False lk(1) l' in auto)
    moreover have "p # rest = drop 0 (leafKvs l') @ concat (map leafKvs ls')"
      using Cons.prems(4) False ls by simp
    ultimately show ?thesis
      using inside [of ls' l' 0] Cons.prems(1) ls lk(2) l'(2) by simp
  qed
qed

text \<open>The leaf a scan starts from.\<close>

lemma firstLeafAt_stored:
  "forest_ok L [t] \<Longrightarrow> stored N s t \<Longrightarrow> depth_le t d \<Longrightarrow>
    \<exists>l ls1 ls2. leaves t = ls1 @ l # ls2
      \<and> firstLeafAt N (Suc d) s (tid t) k = Inr (nodeOf (PLeaf (fst l) (fst (snd l)) (leafKvs l)))
      \<and> (\<forall>p \<in> set (concat (map leafKvs ls1)). fst p < k) \<and> (\<forall>p \<in> set (concat (map leafKvs ls2)). k < fst p)"
proof (induction d arbitrary: t)
  case 0
  then obtain i n es where t: "t = PLeaf i n es" by (cases t) auto
  show ?case by (rule exI [of _ "(i, n, es)"], rule exI [of _ "[]"], rule exI [of _ "[]"]) (use 0 t in simp)
next
  case (Suc d)
  show ?case
  proof (cases t)
    case (PLeaf i n es)
    show ?thesis by (rule exI [of _ "(i, n, es)"], rule exI [of _ "[]"], rule exI [of _ "[]"]) (use Suc.prems PLeaf in simp)
  next
    case (PBranch i cs)
    with Suc.prems have cs: "forest_ok L cs" "cs \<noteq> []" by (auto simp: forest_ok_children)
    obtain as c bs where *: "cs = as @ c # bs" "childIndexFor (branchEntries cs) k = int (length as)"
      "\<forall>p \<in> set (kvsL as). fst p < k" "\<forall>p \<in> set (kvsL bs). k < fst p"
      by (rule child_split [OF cs, where k = k])
    have c: "forest_ok L [c]" "stored N s c" "depth_le c d"
      using forest_ok_member [OF cs(1), of c] Suc.prems(2,3) PBranch *(1) by auto
    obtain l ls1 ls2 where l: "leaves c = ls1 @ l # ls2"
      "firstLeafAt N (Suc d) s (tid c) k = Inr (nodeOf (PLeaf (fst l) (fst (snd l)) (leafKvs l)))"
      "\<forall>p \<in> set (concat (map leafKvs ls1)). fst p < k" "\<forall>p \<in> set (concat (map leafKvs ls2)). k < fst p"
      using Suc.IH [OF c] by blast
    have "childFor (nodeOf t) k = Inr (tid c)"
      unfolding PBranch by (rule childFor_branch [of L as c bs]) (use cs(1) * in simp_all)
    hence "firstLeafAt N (Suc (Suc d)) s (tid t) k = firstLeafAt N (Suc d) s (tid c) k"
      using Suc.prems(2) PBranch by (simp del: firstLeafAt.simps add: firstLeafAt.simps(2) [of N "Suc d"])
    moreover have kl: "kvsL ts = concat (map leafKvs (leavesL ts))" for ts
      by (induction ts) (auto simp: kvs_leaves)
    moreover have "leaves t = (leavesL as @ ls1) @ l # ls2 @ leavesL bs" using l(1) *(1) PBranch by simp
    moreover have "\<forall>p \<in> set (concat (map leafKvs (leavesL as @ ls1))). fst p < k"
      "\<forall>p \<in> set (concat (map leafKvs (ls2 @ leavesL bs))). k < fst p"
      using l(3,4) *(3,4) unfolding kl map_append concat_append set_append by blast+
    ultimately show ?thesis using l(2) by metis
  qed
qed

lemma dropWhile_lowerBound:
  assumes "kv_sorted es"
  shows "drop (lowerBound (leafEntries es) k) es = filter (\<lambda>p. k \<le> fst p) es"
proof -
  have "lowerBound (leafEntries es) k = length (takeWhile (\<lambda>p. fst p < k) es)"
    using lowerBound_takeWhile [OF leafEntries_sorted [OF assms], of k]
    by (simp add: leafEntries_def leafEntry_def takeWhile_map comp_def)
  hence "drop (lowerBound (leafEntries es) k) es = dropWhile (\<lambda>p. fst p < k) es"
    by (simp add: dropWhile_eq_drop)
  also have "\<dots> = filter (\<lambda>p. k \<le> fst p) es"
    using assms
  proof (induction es)
    case (Cons p es)
    have "filter (\<lambda>p. k \<le> fst p) es = es" if "k \<le> fst p"
      using that Cons.prems by (auto simp: kv_simps intro!: filter_True)
    with Cons show ?case by (auto simp: kv_simps not_less)
  qed simp
  finally show ?thesis .
qed

lemma takeWhile_before_end: "kv_sorted xs \<Longrightarrow> takeWhile (before_end stop) xs = filter (before_end stop) xs"
proof (induction xs)
  case (Cons p xs)
  have "filter (before_end stop) xs = []" if "\<not> before_end stop p"
    using that Cons.prems by (fastforce simp: kv_simps before_end_def filter_empty_conv split: option.splits)
  with Cons show ?case by (auto simp: kv_simps)
qed simp

lemma scanAll_stored:
  assumes "root_ok L t" "stored N s t" "linked (leaves t) 0" "depth_le t (Suc f)" "\<And>i. i \<in> L \<Longrightarrow> 0 < i"
    "length (kvs t) \<le> rounds"
  shows "scanAll N rounds (Suc (Suc f)) (tid t) s start stop
    = Inr (filter (\<lambda>p. in_range start stop (fst p)) (kvs t))"
proof (cases "case stop of None \<Rightarrow> False | Some e \<Rightarrow> e \<le> start")
  case True
  hence "filter (\<lambda>p. in_range start stop (fst p)) (kvs t) = []"
    by (auto simp: in_range_def filter_empty_conv split: option.splits)
  moreover have "collect N rounds (Suc (Suc f)) s emptyIter = Inr []"
    by (simp add: collect.simps [of N rounds] Iterator_Valid_def emptyIter_def nodeLeaf_def)
  ultimately show ?thesis using True by (simp add: scanAll_def BTree_Scan_def del: skipEmpty.simps firstLeafAt.simps)
next
  case False
  have so: "kv_sorted (kvs t)" "set (pagesL t) \<subseteq> L" using root_ok_sorted [OF assms(1)] by auto
  obtain l ls1 ls2 where l: "leaves t = ls1 @ l # ls2"
    "firstLeafAt N (Suc (Suc f)) s (tid t) start = Inr (nodeOf (PLeaf (fst l) (fst (snd l)) (leafKvs l)))"
    "\<forall>p \<in> set (concat (map leafKvs ls1)). fst p < start" "\<forall>p \<in> set (concat (map leafKvs ls2)). start < fst p"
    and ne: "\<forall>x \<in> set ls2. leafKvs x \<noteq> []"
  proof (cases t)
    case (PLeaf i n es)
    show thesis by (rule that [of "[]" "(i, n, es)" "[]"]) (use PLeaf assms(2) in simp_all)
  next
    case (PBranch i cs)
    hence ok: "forest_ok L [t]" using assms(1) by (simp add: root_ok_def)
    hence "wf_tree t" by (simp add: forest_ok_def)
    with firstLeafAt_stored [OF ok assms(2,4), of start] leaves_nonempty [of t] that show thesis
      by (metis Un_iff list.set_intros(2) set_append)
  qed
  have kv: "kvs t = concat (map leafKvs ls1) @ leafKvs l @ concat (map leafKvs ls2)"
    using l(1) by (simp add: kvs_leaves)
  hence sl: "kv_sorted (leafKvs l)" using so(1) by (simp add: kv_simps)
  let ?j = "lowerBound (leafEntries (leafKvs l)) start"
  let ?rest = "drop ?j (leafKvs l) @ concat (map leafKvs ls2)"
  have rest: "?rest = filter (\<lambda>p. start \<le> fst p) (kvs t)"
  proof -
    have "filter (\<lambda>p. start \<le> fst p) (concat (map leafKvs ls1)) = []" using l(3) by (fastforce simp: filter_empty_conv)
    moreover have "filter (\<lambda>p. start \<le> fst p) (concat (map leafKvs ls2)) = concat (map leafKvs ls2)"
      using l(4) by (intro filter_True) (auto simp: order_less_imp_le)
    ultimately show ?thesis by (simp add: kv dropWhile_lowerBound [OF sl])
  qed
  have "?j \<le> length (leafKvs l)"
    using lowerBound_props(1) [OF leafEntries_sorted [OF sl], of start] by (simp add: leafEntries_def)
  moreover have "linked (l # ls2) 0" using assms(3) l(1) by (simp add: linked_append)
  moreover have "\<forall>x \<in> set ls2. leaf_stored N s x \<and> leafKvs x \<noteq> [] \<and> fst x \<noteq> 0"
  proof (intro ballI conjI)
    fix x assume x: "x \<in> set ls2"
    hence m: "x \<in> set (leaves t)" using l(1) by simp
    show "leaf_stored N s x" by (rule stored_leaves [OF assms(2) m])
    show "leafKvs x \<noteq> []" using ne x by blast
    show "fst x \<noteq> 0" using leaves_pages [OF m] so(2) assms(5) by fastforce
  qed
  moreover have "length ?rest \<le> rounds" unfolding rest using assms(6) by (meson le_trans length_filter_le)
  ultimately have "collect N rounds (Suc (Suc f)) s (skipEmpty N (Suc (Suc f)) s (iterAt l ?j stop))
      = Inr (takeWhile (before_end stop) ?rest)"
    by (intro collect_iterAt) auto
  also have "takeWhile (before_end stop) ?rest = filter (\<lambda>p. in_range start stop (fst p)) (kvs t)"
    unfolding rest takeWhile_before_end [OF kv_sorted_filter [OF so(1)]] filter_filter
    by (rule filter_cong) (auto simp: in_range_def before_end_def)
  finally show ?thesis using False l(2)
    by (simp add: scanAll_def BTree_Scan_def iterAt_def del: skipEmpty.simps firstLeafAt.simps)
qed

end
