(* ===== verification/KV_DB.thy ===== *)
theory KV_DB
  imports Btree_Scan
begin

text \<open>
  The database over the page file (\<open>internal/kvstore/db.go\<close> and \<open>wal.go\<close>): transactions run on
  the pager, guarded by a copy of the whole file, the rollback log \<open>path.wal\<close>, which is written
  before the transaction and removed after the flush. The state of an open database is its
  pager, whose \<open>contents\<close> are the file, the root of its tree and the rollback log, if any. The
  log itself is assumed to be written: only the growth of the database file can fail.

  Shown here: opening a file that a database left behind gives the same database; a failed
  transaction restores the file; whatever the file holds when the process dies during a
  transaction, opening it gives the database before the transaction; \<open>Put\<close>, \<open>Delete\<close>,
  \<open>Get\<close> and \<open>Scan\<close> act on the value of the database as on an ordered map.
\<close>

section \<open>Rollback log\<close>

definition rollbackWALMagic :: bytes where
  "rollbackWALMagic = bytes_of ''KRWAL001''"

definition writeRollbackWAL :: "bytes \<Rightarrow> bytes" where
  "writeRollbackWAL db = rollbackWALMagic @ db"

text \<open>From the log and the database file to the log and the file afterwards.\<close>

definition recoverRollbackWAL :: "bytes option \<Rightarrow> bytes \<Rightarrow> kv_error + bytes option \<times> bytes" where
  "recoverRollbackWAL wal db =
     (case wal of None \<Rightarrow> Inr (None, db)
      | Some w \<Rightarrow>
          if length w < length rollbackWALMagic then Inl WalTooShort
          else if take (length rollbackWALMagic) w \<noteq> rollbackWALMagic then Inl InvalidWalMagic
          else Inr (None, drop (length rollbackWALMagic) w))"

section \<open>Database and transactions\<close>

record kvdb =
  dbPager :: pager
  dbRoot :: nat
  dbWal :: "bytes option"
  dbClosed :: bool

record tx =
  txRoot :: nat
  txWritable :: bool

definition Open :: "nat \<Rightarrow> bytes option \<Rightarrow> bytes \<Rightarrow> kv_error + kvdb" where
  "Open limit wal file_bytes =
     (case recoverRollbackWAL wal file_bytes of Inl e \<Rightarrow> Inl e | Inr (wal', bs) \<Rightarrow>
      (case OpenPager limit bs of Inl e \<Rightarrow> Inl e | Inr p \<Rightarrow>
       if RootPage p = 0 then
         (case bindE (CreateBTree pagerStore) (\<lambda>root.
               bindE (SetRootPage root) (\<lambda>_.
               bindE Flush (\<lambda>_. returnE root))) p of
            (Inl e, _) \<Rightarrow> Inl e
          | (Inr root, q) \<Rightarrow> Inr \<lparr>dbPager = q, dbRoot = root, dbWal = wal', dbClosed = False\<rparr>)
       else Inr \<lparr>dbPager = p, dbRoot = RootPage p, dbWal = wal', dbClosed = False\<rparr>))"

definition DB_Close :: "(kvdb, kv_error, unit) op" where
  "DB_Close db =
     (if dbClosed db then (Inr (), db)
      else (case Close (dbPager db) of (r, p) \<Rightarrow> (r, db\<lparr>dbPager := p, dbClosed := True\<rparr>)))"

definition rollbackLocked :: "(kvdb, kv_error, unit) op" where
  "rollbackLocked db =
     (case Close (dbPager db) of
        (Inl e, p) \<Rightarrow> (Inl e, db\<lparr>dbPager := p\<rparr>)
      | (Inr _, p) \<Rightarrow>
          (case recoverRollbackWAL (dbWal db) (contents p) of
             Inl e \<Rightarrow> (Inl e, db\<lparr>dbPager := p\<rparr>)
           | Inr (wal', bs) \<Rightarrow>
               (case OpenPager (disk_limit p) bs of
                  Inl e \<Rightarrow> (Inl e, db\<lparr>dbPager := p\<lparr>contents := bs\<rparr>, dbWal := wal'\<rparr>)
                | Inr q \<Rightarrow>
                    if RootPage q = 0 then
                      (Inl RootMissing, db\<lparr>dbPager := p\<lparr>contents := contents (snd (Close q))\<rparr>, dbWal := wal'\<rparr>)
                    else (Inr (), \<lparr>dbPager = q, dbRoot = RootPage q, dbWal = wal', dbClosed = False\<rparr>))))"

text \<open>A transaction function works on the pager, with the root and the mode in its \<open>tx\<close>.\<close>

definition View :: "(tx \<Rightarrow> pager \<Rightarrow> kv_error + 'a) \<Rightarrow> kvdb \<Rightarrow> kv_error + 'a" where
  "View fn db =
     (if dbClosed db then Inl DatabaseClosed
      else fn \<lparr>txRoot = dbRoot db, txWritable = False\<rparr> (dbPager db))"

definition Update :: "(tx \<Rightarrow> (pager, kv_error, 'a) op) \<Rightarrow> (kvdb, kv_error, 'a) op" where
  "Update fn db =
     (if dbClosed db then (Inl DatabaseClosed, db)
      else
        let db1 = db\<lparr>dbWal := Some (writeRollbackWAL (contents (dbPager db)))\<rparr> in
        case fn \<lparr>txRoot = dbRoot db, txWritable = True\<rparr> (dbPager db1) of
          (Inl e, p) \<Rightarrow>
            (case rollbackLocked (db1\<lparr>dbPager := p\<rparr>) of
               (Inl e', db2) \<Rightarrow> (Inl (RollbackFailed e e'), db2)
             | (Inr _, db2) \<Rightarrow> (Inl e, db2))
        | (Inr x, p) \<Rightarrow>
            (case Flush p of
               (Inl e, q) \<Rightarrow> (Inl e, db1\<lparr>dbPager := q\<rparr>)
             | (Inr _, q) \<Rightarrow> (Inr x, db1\<lparr>dbPager := q, dbWal := None\<rparr>)))"

definition Tx_Get :: "tx \<Rightarrow> bytes \<Rightarrow> pager \<Rightarrow> kv_error + bytes option" where
  "Tx_Get t k p = BTree_Get pagerStore (PageCount p) (txRoot t) p k"

definition Tx_Put :: "tx \<Rightarrow> bytes \<Rightarrow> bytes \<Rightarrow> (pager, kv_error, unit) op" where
  "Tx_Put t k v p =
     (if \<not> txWritable t then (Inl TxReadOnly, p)
      else BTree_Put pagerStore (PageCount p) (txRoot t) k v p)"

definition Tx_Delete :: "tx \<Rightarrow> bytes \<Rightarrow> (pager, kv_error, unit) op" where
  "Tx_Delete t k p =
     (if \<not> txWritable t then (Inl TxReadOnly, p)
      else BTree_Delete pagerStore (PageCount p) (txRoot t) k p)"

text \<open>\<open>Scan\<close> and the loop over its iterator; no tree has more pairs than the pages have bytes.\<close>

definition Tx_Scan :: "tx \<Rightarrow> bytes \<Rightarrow> bytes option \<Rightarrow> pager \<Rightarrow> kv_error + (bytes \<times> bytes) list" where
  "Tx_Scan t start stop p =
     scanAll pagerStore (PageCount p * PageSize) (PageCount p) (txRoot t) p start stop"

definition DB_Get :: "bytes \<Rightarrow> kvdb \<Rightarrow> kv_error + bytes option" where
  "DB_Get k = View (\<lambda>t. Tx_Get t k)"

definition DB_Put :: "bytes \<Rightarrow> bytes \<Rightarrow> (kvdb, kv_error, unit) op" where
  "DB_Put k v = Update (\<lambda>t. Tx_Put t k v)"

definition DB_Delete :: "bytes \<Rightarrow> (kvdb, kv_error, unit) op" where
  "DB_Delete k = Update (\<lambda>t. Tx_Delete t k)"

section \<open>Trees in a page file\<close>

definition tree_in :: "pager \<Rightarrow> ptree \<Rightarrow> bool" where
  "tree_in p t \<longleftrightarrow> pager_inv p \<and> root_ok (live p) t \<and> stored pagerStore p t"

lemma live_finite: "finite (live p)"
  by (rule finite_subset [of _ "{..<PageCount p}"]) (auto simp: live_def)

lemma tree_pages_bound:
  assumes "tree_in p t"
  shows "length (pagesL t) < PageCount p" "tid t < PageCount p" "0 < tid t"
proof -
  have t: "set (pagesL t) \<subseteq> live p" "distinct (pagesL t)"
    using root_ok_sorted assms by (auto simp: tree_in_def)
  have "live p \<subseteq> {1..<PageCount p}" by (auto simp: live_def)
  hence "card (set (pagesL t)) \<le> card {1..<PageCount p}" using t(1) by (intro card_mono) auto
  moreover have "1 \<le> PageCount p" using pager_invD(5) assms by (auto simp: tree_in_def Suc_le_eq)
  ultimately show "length (pagesL t) < PageCount p" using t(2) by (simp add: distinct_card)
  have "tid t \<in> live p" using t(1) tid_in_pages [of t] by blast
  thus "tid t < PageCount p" "0 < tid t" by (auto simp: live_def)
qed

lemma tree_fuel:
  assumes "tree_in p t"
  obtains f where "PageCount p = Suc (Suc f)" "depth_le t (Suc f)" "depth_le t (PageCount p)"
proof -
  note b = tree_pages_bound [OF assms]
  have "0 < length (pagesL t)" by (cases t) auto
  then obtain f where f: "PageCount p = Suc (Suc f)" using b(1) by (cases "PageCount p"; cases "PageCount p - 1") auto
  have "depth_le t (Suc f)" by (rule depth_le_mono [OF depth_le_pages]) (use b(1) f in simp)
  moreover have "depth_le t (PageCount p)" by (rule depth_le_mono [OF depth_le_pages]) (use b(1) in simp)
  ultimately show thesis using f by (rule that [rotated])
qed

lemma Get_in:
  assumes "tree_in p t" "k \<noteq> []"
  shows "BTree_Get pagerStore (PageCount p) (tid t) p k = Inr (map_of (kvs t) k)"
proof -
  obtain f where f: "PageCount p = Suc (Suc f)" "depth_le t (Suc f)" "depth_le t (PageCount p)"
    by (rule tree_fuel [OF assms(1)])
  show ?thesis unfolding f(1) by (rule ps.Get_stored [OF _ _ f(2) assms(2)]) (use assms(1) in \<open>auto simp: tree_in_def\<close>)
qed

lemma Put_in:
  assumes "tree_in p t" "BTree_Put pagerStore (PageCount p) (tid t) k v p = (Inr u, q)"
  obtains t' where "tree_in q t'" "tid t' = tid t" "kvs t' = kv_upd k v (kvs t)"
    "linked (leaves t) 0 \<longrightarrow> linked (leaves t') 0" "root_wide t \<longrightarrow> root_wide t'"
proof -
  obtain f where f: "PageCount p = Suc (Suc f)" "depth_le t (Suc f)" "depth_le t (PageCount p)"
    by (rule tree_fuel [OF assms(1)])
  have "\<exists>t'. ps.put_root_post p q t (kv_upd k v (kvs t)) t'"
    by (rule ps.Put_post [OF _ _ _ f(3) assms(2)]) (use assms(1) in \<open>auto simp: tree_in_def\<close>)
  thus thesis using that by (auto simp: ps.put_root_post_def tree_in_def)
qed

lemma Put_in_total:
  assumes "tree_in p t" "k \<noteq> []" "small_kvs (kvs t)" "length k + length v \<le> 171"
    "PageCount p + 2 < pager_room p"
  shows "\<exists>q. BTree_Put pagerStore (PageCount p) (tid t) k v p = (Inr (), q)"
proof -
  obtain f where f: "PageCount p = Suc (Suc f)" "depth_le t (Suc f)" "depth_le t (PageCount p)"
    by (rule tree_fuel [OF assms(1)])
  show ?thesis
    by (rule ps.Put_total [OF _ _ _ f(3) assms(2-5)]) (use assms(1) in \<open>auto simp: tree_in_def\<close>)
qed

lemma Delete_in:
  assumes "tree_in p t" "root_wide t" "BTree_Delete pagerStore (PageCount p) (tid t) k p = (Inr u, q)"
  obtains t' where "tree_in q t'" "tid t' = tid t" "kvs t' = kv_del k (kvs t)"
proof -
  obtain f where f: "PageCount p = Suc (Suc f)" "depth_le t (Suc f)" "depth_le t (PageCount p)"
    by (rule tree_fuel [OF assms(1)])
  have "\<exists>t'. ps.delete_root_post p q t k t'"
    by (rule ps.Delete_post [OF _ _ _ f(3) assms(2,3)]) (use assms(1) in \<open>auto simp: tree_in_def\<close>)
  thus thesis using that by (auto simp: ps.delete_root_post_def tree_in_def)
qed

lemma Delete_in_total:
  assumes "tree_in p t" "root_wide t" "k \<noteq> []" "key_len n (kvs t)"
  shows "\<exists>q. BTree_Delete pagerStore (PageCount p) (tid t) k p = (Inr (), q)"
proof -
  obtain f where f: "PageCount p = Suc (Suc f)" "depth_le t (Suc f)" "depth_le t (PageCount p)"
    by (rule tree_fuel [OF assms(1)])
  show ?thesis
    by (rule ps.Delete_total [OF _ _ _ f(3) assms(2-4)]) (use assms(1) in \<open>auto simp: tree_in_def\<close>)
qed

lemma kvs_bound: "stored N s t \<Longrightarrow> length (kvs t) \<le> length (pagesL t) * PageSize"
proof (induction t rule: pagesL.induct)
  case (1 i n es)
  have "length es \<le> costs (leafEntries es)"
    by (induction es) (auto simp: leafEntries_def cost_def)
  moreover have "costs (leafEntries es) \<le> 4080" using stored_fits [OF 1] by (simp add: nodeFits_costs)
  ultimately show ?case by (simp add: PageSize_def)
next
  case (2 i cs)
  have "length (kvsL cs) \<le> length (pagesLL cs) * PageSize"
  proof -
    have "\<forall>c \<in> set cs. length (kvs c) \<le> length (pagesL c) * PageSize" using 2 by simp
    thus ?thesis by (induction cs) (auto simp: add_mult_distrib)
  qed
  thus ?case by simp
qed

lemma Scan_in:
  assumes "tree_in p t" "linked (leaves t) 0"
  shows "scanAll pagerStore (PageCount p * PageSize) (PageCount p) (tid t) p start stop
    = Inr (filter (\<lambda>q. in_range start stop (fst q)) (kvs t))"
proof -
  obtain f where f: "PageCount p = Suc (Suc f)" "depth_le t (Suc f)" "depth_le t (PageCount p)"
    by (rule tree_fuel [OF assms(1)])
  have "length (kvs t) \<le> length (pagesL t) * PageSize"
    using assms(1) by (intro kvs_bound [of pagerStore p]) (simp add: tree_in_def)
  also have "\<dots> \<le> PageCount p * PageSize"
    using tree_pages_bound(1) [OF assms(1)] by (intro mult_le_mono1) simp
  finally have "scanAll pagerStore (PageCount p * PageSize) (Suc (Suc f)) (tid t) p start stop
    = Inr (filter (\<lambda>q. in_range start stop (fst q)) (kvs t))"
    using assms f(2) by (intro scanAll_stored [of "live p"]) (auto simp: tree_in_def live_def)
  thus ?thesis using f(1) by simp
qed

section \<open>An open database and its value\<close>

definition db_ok :: "kvdb \<Rightarrow> ptree \<Rightarrow> bool" where
  "db_ok db t \<longleftrightarrow> tree_in (dbPager db) t \<and> tid t = dbRoot db \<and> RootPage (dbPager db) = dbRoot db
     \<and> dbWal db = None \<and> \<not> dbClosed db"

lemma db_okD:
  assumes "db_ok db t"
  shows "tree_in (dbPager db) t" "pager_inv (dbPager db)" "tid t = dbRoot db" "RootPage (dbPager db) = dbRoot db"
    "dbWal db = None" "\<not> dbClosed db" "0 < dbRoot db"
  using assms tree_pages_bound(3) [of "dbPager db" t] by (auto simp: db_ok_def tree_in_def)

lemma recover_written [simp]: "recoverRollbackWAL (Some (writeRollbackWAL bs)) c = Inr (None, bs)"
  by (simp add: recoverRollbackWAL_def writeRollbackWAL_def)

lemma recover_none [simp]: "recoverRollbackWAL None c = Inr (None, c)"
  by (simp add: recoverRollbackWAL_def)

text \<open>Opening what a database left, without and with a rollback log.\<close>

lemma Open_again:
  assumes "db_ok db t"
  shows "Open (disk_limit (dbPager db)) None (contents (dbPager db)) = Inr db"
    "Open (disk_limit (dbPager db)) (Some (writeRollbackWAL (contents (dbPager db)))) c = Inr db"
  using db_okD [OF assms] OpenPager_reopen [OF db_okD(2) [OF assms]]
  by (cases db; simp add: Open_def)+

text \<open>Closing the pager of a failed transaction keeps the file size and makes room for the recovery.\<close>

lemma rollback_restores:
  assumes "db_ok db t" "Close p = (Inr u, p')" "disk_limit p = disk_limit (dbPager db)"
  shows "rollbackLocked (db\<lparr>dbWal := Some (writeRollbackWAL (contents (dbPager db))), dbPager := p\<rparr>) = (Inr (), db)"
proof -
  note d = db_okD [OF assms(1)]
  have "disk_limit p' = disk_limit p"
    using assms(2) by (auto simp: Close_def writeMeta_def unmap_def split: if_splits prod.splits)
  thus ?thesis using assms(2,3) d OpenPager_reopen [OF d(2)]
    by (cases db) (simp add: rollbackLocked_def)
qed

lemma writeMeta_id:
  assumes "pager_inv p"
  shows "writeMeta p = (Inr (), p)"
proof -
  note inv = pager_invD [OF assms]
  have "setPage 0 (metaPage p) p = p"
    using inv(2,5,6) page_bound [OF inv(2,5)]
    by (simp add: setPage_def inv(6) [symmetric] page_at_def splice_slice_id)
  thus ?thesis using writeMeta_eq [OF inv(2)] by simp
qed

lemma Flush_id: "pager_inv p \<Longrightarrow> Flush p = (Inr (), p)"
  by (simp add: Flush_def ensureOpen_sized pager_invD writeMeta_id)

lemma Update_commit:
  assumes "\<not> dbClosed db" "fn \<lparr>txRoot = dbRoot db, txWritable = True\<rparr> (dbPager db) = (Inr x, q)" "pager_inv q"
  shows "Update fn db = (Inr x, db\<lparr>dbPager := q, dbWal := None\<rparr>)"
  using assms Flush_id [OF assms(3)] by (simp add: Update_def Let_def)

section \<open>A new database\<close>

lemma stored_frame_pages:
  assumes "pager_inv p" "pager_inv q" "live q = live p" "\<And>j. j \<in> live p \<Longrightarrow> page_at q j = page_at p j"
    "set (pagesL t) \<subseteq> live p" "stored pagerStore p t"
  shows "stored pagerStore q t"
proof (rule stored_frame [OF assms(6)])
  fix j assume "j \<in> set (pagesL t)"
  thus "readNodeOp pagerStore q j = readNodeOp pagerStore p j"
    using readNode_frame [OF assms(1,2)] assms(3-5) by auto
qed

lemma Open_fresh:
  assumes "2 * PageSize \<le> limit" "limit < 2 ^ 63"
  obtains db where "Open limit None [] = Inr db" "db_ok db (PLeaf (dbRoot db) 0 [])"
    "disk_limit (dbPager db) = limit" "dbRoot db = 1" "live (dbPager db) = {1}" "freeSet (dbPager db) = {}"
    "PageCount (dbPager db) = 2"
proof -
  obtain p where p: "OpenPager limit [] = Inr p" "pager_inv p" "live p = {}" "RootPage p = 0" "FreeHead p = 0"
    "PageCount p = 1" "freeSet p = {}" "disk_limit p = limit"
    by (rule OpenPager_fresh [OF _ assms(2)]) (use assms(1) in simp)
  have "(PageCount p + 1) * PageSize \<le> disk_limit p" using assms(1) p(6,8) by simp
  then obtain p1 where p1: "AllocPage p = (Inr (PageCount p), p1)" "pager_inv p1" "PageCount p1 = PageCount p + 1"
    "freeSet p1 = freeSet p"
    using AllocPage_grow [OF p(2,5)] by metis
  have "0 < pager_room p"
    using p(6,7,8) assms(1) div_le_mono [OF assms(1), of PageSize] by (simp add: pager_room_def)
  then obtain i q where c: "CreateBTree pagerStore p = (Inr i, q)" using ps.Create_total [OF p(2)] by blast
  note cp = ps.Create_post [OF p(2) c]
  have i: "i = 1" using c p1(1) p(6) by (auto simp: CreateBTree_def elim!: bindE_InrE)
  have q: "pager_inv q" "live q = {1}" "stored pagerStore q (PLeaf 1 0 [])" using cp p(3) i by auto
  have qc: "PageCount q = 2 \<and> freeSet q = {}"
    using c p1 p(6,7) by (auto simp: CreateBTree_def writeNode_def elim!: bindE_InrE split: sum.splits prod.splits if_splits)
  obtain q1 where q1: "SetRootPage i q = (Inr (), q1)" "pager_inv q1" "RootPage q1 = i" "live q1 = live q"
    "disk_limit q1 = disk_limit q" "\<And>j. j \<in> live q \<Longrightarrow> page_at q1 j = page_at q j"
    using SetRootPage_ok [OF q(1), of i] i qc by (metis one_less_numeral_iff semiring_norm(76))
  have q1c: "PageCount q1 = 2" "freeSet q1 = {}"
    using q1(1) qc by (auto simp: SetRootPage_def writeMeta_def split: sum.splits if_splits)
  have dl: "disk_limit q = limit"
  proof -
    have "keeps disk_limit (CreateBTree pagerStore)"
      by (simp add: CreateBTree_def) (intro keeps_intros AllocPage_keeps writeNode_keeps)
    thus ?thesis using keepsD c p(8) by metis
  qed
  have st: "stored pagerStore q1 (PLeaf 1 0 [])"
    by (rule stored_frame_pages [OF q(1) q1(2,4)]) (use q q1(6) in auto)
  have "root_ok (live q1) (PLeaf 1 0 [])" using q1(4) q(2) by (simp add: root_ok_def kv_simps)
  hence "tree_in q1 (PLeaf 1 0 [])" using q1(2) st by (simp add: tree_in_def)
  moreover have "Open limit None [] = Inr \<lparr>dbPager = q1, dbRoot = 1, dbWal = None, dbClosed = False\<rparr>"
    using p(1,4) c q1(1) Flush_id [OF q1(2)] i by (simp add: Open_def)
  ultimately show thesis
    using q1 q(2) dl q1c i by (intro that [of "\<lparr>dbPager = q1, dbRoot = 1, dbWal = None, dbClosed = False\<rparr>"])
      (auto simp: db_ok_def)
qed

section \<open>The operations of the database\<close>

lemma DB_Put_post:
  assumes "db_ok db t" "DB_Put k v db = (Inr u, db')"
  obtains t' where "db_ok db' t'" "kvs t' = kv_upd k v (kvs t)" "linked (leaves t) 0 \<longrightarrow> linked (leaves t') 0"
    "disk_limit (dbPager db') = disk_limit (dbPager db)" "root_wide t \<longrightarrow> root_wide t'"
proof -
  note d = db_okD [OF assms(1)]
  let ?fn = "\<lambda>t. Tx_Put t k v"
  obtain x q where run: "BTree_Put pagerStore (PageCount (dbPager db)) (tid t) k v (dbPager db) = (x, q)" by fastforce
  have fn: "Tx_Put \<lparr>txRoot = dbRoot db, txWritable = True\<rparr> k v (dbPager db) = (x, q)"
    using run d(3) by (simp add: Tx_Put_def)
  have x: "x = Inr ()"
  proof (cases x)
    case (Inl e)
    hence "\<nexists>w db2. Update ?fn db = (Inr w, db2)"
      using fn d(6) by (auto simp: Update_def Let_def split: prod.splits sum.splits)
    thus ?thesis using assms(2) by (auto simp: DB_Put_def)
  qed simp
  obtain t' where t': "tree_in q t'" "tid t' = tid t" "kvs t' = kv_upd k v (kvs t)"
    "linked (leaves t) 0 \<longrightarrow> linked (leaves t') 0" "root_wide t \<longrightarrow> root_wide t'"
    by (rule Put_in [OF d(1) run [unfolded x]])
  have "pager_inv q" using t'(1) by (simp add: tree_in_def)
  hence "DB_Put k v db = (Inr (), db\<lparr>dbPager := q, dbWal := None\<rparr>)"
    using fn x d(6) by (simp add: DB_Put_def Update_commit)
  hence db': "db' = db\<lparr>dbPager := q, dbWal := None\<rparr>" using assms(2) by simp
  have "RootPage q = RootPage (dbPager db)" "disk_limit q = disk_limit (dbPager db)"
    using keepsD [OF pagerStore_keeps(1) run] keepsD [OF pagerStore_keeps(2) run] by auto
  thus thesis using t' d db' by (intro that [of t']) (auto simp: db_ok_def)
qed

lemma DB_Get_ok: "db_ok db t \<Longrightarrow> k \<noteq> [] \<Longrightarrow> DB_Get k db = Inr (map_of (kvs t) k)"
  using Get_in [of "dbPager db" t k] db_okD [of db t] by (simp add: DB_Get_def View_def Tx_Get_def)

lemma DB_Delete_post:
  assumes "db_ok db t" "root_wide t" "DB_Delete k db = (Inr u, db')"
  obtains t' where "db_ok db' t'" "kvs t' = kv_del k (kvs t)" "disk_limit (dbPager db') = disk_limit (dbPager db)"
proof -
  note d = db_okD [OF assms(1)]
  let ?fn = "\<lambda>t. Tx_Delete t k"
  obtain x q where run: "BTree_Delete pagerStore (PageCount (dbPager db)) (tid t) k (dbPager db) = (x, q)" by fastforce
  have fn: "Tx_Delete \<lparr>txRoot = dbRoot db, txWritable = True\<rparr> k (dbPager db) = (x, q)"
    using run d(3) by (simp add: Tx_Delete_def)
  have x: "x = Inr ()"
  proof (cases x)
    case (Inl e)
    hence "\<nexists>w db2. Update ?fn db = (Inr w, db2)"
      using fn d(6) by (auto simp: Update_def Let_def split: prod.splits sum.splits)
    thus ?thesis using assms(3) by (auto simp: DB_Delete_def)
  qed simp
  obtain t' where t': "tree_in q t'" "tid t' = tid t" "kvs t' = kv_del k (kvs t)"
    by (rule Delete_in [OF d(1) assms(2) run [unfolded x]])
  have "pager_inv q" using t'(1) by (simp add: tree_in_def)
  hence "DB_Delete k db = (Inr (), db\<lparr>dbPager := q, dbWal := None\<rparr>)"
    using fn x d(6) by (simp add: DB_Delete_def Update_commit)
  hence db': "db' = db\<lparr>dbPager := q, dbWal := None\<rparr>" using assms(3) by simp
  have "RootPage q = RootPage (dbPager db)" "disk_limit q = disk_limit (dbPager db)"
    using keepsD [OF pagerStore_keeps(3) run] keepsD [OF pagerStore_keeps(4) run] by auto
  thus thesis using t' d db' by (intro that [of t']) (auto simp: db_ok_def)
qed

end
