(* ===== verification/KV_Limits.thy ===== *)
theory KV_Limits
  imports KV_DB
begin

text \<open>
  Where the store does not keep its contract: a key that was deleted is seen by scans, a failed
  transaction on a full disk is committed by the next one, and a tree that loses its last key
  under a branch root is not usable again.
\<close>

context node_store
begin

text \<open>
  Two leaves under the root. Deleting the pair of the second one drops its entry from the root
  and moves the first leaf to the root page, whose link still leads to the second leaf.
\<close>

lemma Delete_second_leaf:
  assumes "inv s" "root_ok (lv s) (PBranch i [PLeaf a b [(k1, v1)], PLeaf b 0 [(k2, v2)]])"
    "stored N s (PBranch i [PLeaf a b [(k1, v1)], PLeaf b 0 [(k2, v2)]])"
  shows "\<exists>s'. BTree_Delete N (Suc d) i k2 s = (Inr (), s') \<and> inv s' \<and> lv s' = lv s
    \<and> stored N s' (PLeaf i b [(k1, v1)]) \<and> stored N s' (PLeaf b 0 [(k2, v2)])"
proof -
  let ?A = "PLeaf a b [(k1, v1)]" and ?B = "PLeaf b 0 [(k2, v2)]"
  have ok: "forest_ok (lv s) [PBranch i [?A, ?B]]" using assms(2) by (simp add: root_ok_def)
  hence facts: "k1 < k2" "k1 \<noteq> []" "k2 \<noteq> []" "i \<in> lv s" "a \<in> lv s" "b \<in> lv s" "i \<noteq> a" "i \<noteq> b" "a \<noteq> b" "b < 2 ^ 64"
    by (auto simp: forest_ok_def kv_simps)
  have rd: "readNodeOp N s i = Inr (nodeOf (PBranch i [?A, ?B]))" "readNodeOp N s a = Inr (nodeOf ?A)"
    "readNodeOp N s b = Inr (nodeOf ?B)" "nodeFits (nodeOf ?A)" "nodeFits (nodeOf ?B)"
    using assms(3) by simp_all
  have okA: "forest_ok (lv s) [?A]" "forest_ok (lv s) [PLeaf i b [(k1, v1)]]" using ok by (auto simp: forest_ok_def kv_simps)
  have n1: "node_ok (nodeOf (PBranch i [?A]))" using branch_node_ok [OF okA(1)] lv_bounds [OF assms(1)] by blast
  have f1: "nodeFits (nodeOf (PBranch i [?A]))"
    using rd(4) by (simp add: nodeFits_costs cost_def branchEntries_def branchEntry_def leafEntries_def leafEntry_def)
  obtain s1 where w1: "writeNodeOp N (nodeOf (PBranch i [?A])) s = (Inr (), s1)" "inv s1" "lv s1 = lv s"
      "readNodeOp N s1 i = Inr (nodeOf (PBranch i [?A]))"
      "\<forall>j \<in> lv s. j \<noteq> i \<longrightarrow> readNodeOp N s1 j = readNodeOp N s j"
    using write_fits [OF assms(1) _ n1 f1] facts(4) by auto
  have n2: "node_ok (nodeOf (PLeaf i b [(k1, v1)]))" "nodeFits (nodeOf (PLeaf i b [(k1, v1)]))"
    using nodeOf_ok [OF okA(2)] lv_bounds [OF assms(1)] rd(4) by (auto simp: nodeFits_def)
  obtain s2 where w2: "writeNodeOp N (nodeOf (PLeaf i b [(k1, v1)])) s1 = (Inr (), s2)" "inv s2" "lv s2 = lv s"
      "readNodeOp N s2 i = Inr (nodeOf (PLeaf i b [(k1, v1)]))"
      "\<forall>j \<in> lv s. j \<noteq> i \<longrightarrow> readNodeOp N s2 j = readNodeOp N s1 j"
    using write_fits [OF w1(2) _ n2] facts(4) w1(3) by auto
  have ci: "childIndexFor (branchEntries [?A, ?B]) k2 = 1"
    using facts(1) by (simp add: branchEntries_def branchEntry_def childIndexFor_def lowerBound_def
        lowerBoundLoop.simps Let_def)
  have de: "deleteEntry (leafEntries [(k2, v2)]) k2 = ([], True)"
    using delete_leafEntries [of "[(k2, v2)]" k2] by (simp add: leafEntries_def kv_simps kv_del_def)
  have "deleteFromBranch N (Suc d) (nodeOf (PBranch i [?A, ?B])) k2 True s = (Inr True, s1)"
    using rd w1(1) ci de
    by (simp add: Let_def entryAt_def branchEntries_def branchEntry_def settleChild_def)
  moreover have "readNodeOp N s1 a = Inr (nodeOf ?A)" using w1(5) facts rd(2) by simp
  ultimately have "BTree_Delete N (Suc d) i k2 s = (Inr (), s2)"
    using facts(3) rd(1) w1(4) w2(1)
    by (simp add: BTree_Delete_def branchEntries_def branchEntry_def del: deleteFromBranch.simps)
  moreover have "readNodeOp N s2 b = Inr (nodeOf ?B)" using w1(5) w2(5) facts rd(3) by simp
  ultimately show ?thesis using w2 n2 rd(5) by auto
qed

end


section \<open>Two large pairs\<close>

text \<open>A value of 3000 bytes: a page holds one such pair, not two.\<close>

definition bigValue :: bytes where
  "bigValue = replicate 3000 0"

lemma length_bigValue [simp]: "length bigValue = 3000"
  by (simp add: bigValue_def)



lemma upd_big [simp]:
  "kv_upd [1 :: byte] bigValue [] = [([1], bigValue)]"
  "kv_upd [2 :: byte] bigValue [([1], bigValue)] = [([1], bigValue), ([2], bigValue)]"
  by (simp_all add: kv_upd_def)




section \<open>A deleted key in a scan\<close>



section \<open>A failed transaction on a full disk\<close>



end
