(* ===== verification/KV_Crash.thy ===== *)
theory KV_Crash
  imports KV_DB
begin

text \<open>
  What a transaction and the recovery after it do to the disk, one file-system step at a time
  (\<open>DB.Update\<close> of \<open>db.go\<close>, \<open>writeRollbackWAL\<close>, \<open>recoverRollbackWAL\<close> and
  \<open>removeRollbackWAL\<close> of \<open>wal.go\<close>), with the process dying between any two steps. A
  rename replaces a file as a whole; the mapped pages reach the file in any order and at any
  time, so between logging and flushing the file may hold anything.
\<close>

datatype phase = Logging | Running | Flushed | Down | Recovered | Done

record disk =
  phase :: phase
  walTmp :: "bytes option"
  wal :: "bytes option"
  recovering :: "bytes option"
  dbFile :: bytes

text \<open>The transaction takes the file \<open>old\<close> to the file \<open>new\<close>.\<close>

inductive disk_step :: "bytes \<Rightarrow> bytes \<Rightarrow> disk \<Rightarrow> disk \<Rightarrow> bool" for old new :: bytes where
  write_log: "phase d = Logging \<Longrightarrow> disk_step old new d (d\<lparr>walTmp := Some x\<rparr>)"
| rename_log: "phase d = Logging \<Longrightarrow> walTmp d = Some (writeRollbackWAL old) \<Longrightarrow>
    disk_step old new d (d\<lparr>phase := Running, wal := walTmp d, walTmp := None\<rparr>)"
| write_pages: "phase d = Running \<Longrightarrow> disk_step old new d (d\<lparr>dbFile := x\<rparr>)"
| flush: "phase d = Running \<Longrightarrow> disk_step old new d (d\<lparr>phase := Flushed, dbFile := new\<rparr>)"
| remove_log: "phase d = Flushed \<Longrightarrow> disk_step old new d (d\<lparr>phase := Done, wal := None\<rparr>)"
| crash: "disk_step old new d (d\<lparr>phase := Down\<rparr>)"
| rollback: "phase d = Running \<Longrightarrow> disk_step old new d (d\<lparr>phase := Down\<rparr>)"
| write_recovered: "phase d = Down \<Longrightarrow> disk_step old new d (d\<lparr>recovering := Some x\<rparr>)"
| rename_recovered: "phase d = Down \<Longrightarrow> wal d = Some w \<Longrightarrow> take (length rollbackWALMagic) w = rollbackWALMagic \<Longrightarrow>
    recovering d = Some (drop (length rollbackWALMagic) w) \<Longrightarrow>
    disk_step old new d (d\<lparr>phase := Recovered, dbFile := drop (length rollbackWALMagic) w, recovering := None\<rparr>)"
| remove_recovered: "phase d = Recovered \<Longrightarrow> disk_step old new d (d\<lparr>phase := Done, wal := None\<rparr>)"

inductive disk_reach :: "bytes \<Rightarrow> bytes \<Rightarrow> disk \<Rightarrow> bool" for old new :: bytes where
  start: "disk_reach old new \<lparr>phase = Logging, walTmp = tmp, wal = None, recovering = rec, dbFile = old\<rparr>"
| step: "disk_reach old new d \<Longrightarrow> disk_step old new d d' \<Longrightarrow> disk_reach old new d'"

definition disk_inv :: "bytes \<Rightarrow> bytes \<Rightarrow> disk \<Rightarrow> bool" where
  "disk_inv old new d \<longleftrightarrow>
     (wal d = Some (writeRollbackWAL old) \<or> wal d = None \<and> (dbFile d = old \<or> dbFile d = new))
     \<and> (phase d = Logging \<longrightarrow> wal d = None)
     \<and> (phase d \<in> {Running, Flushed, Recovered} \<longrightarrow> wal d = Some (writeRollbackWAL old))
     \<and> (phase d = Flushed \<longrightarrow> dbFile d = new) \<and> (phase d = Recovered \<longrightarrow> dbFile d = old)"

lemma disk_step_inv:
  assumes "disk_step old new d d'" "disk_inv old new d"
  shows "disk_inv old new d'"
  using assms
proof (induction rule: disk_step.induct)
  case (rename_recovered d w)
  have "w = writeRollbackWAL old" using rename_recovered by (auto simp: disk_inv_def)
  thus ?case using rename_recovered by (simp add: disk_inv_def writeRollbackWAL_def)
qed (auto simp: disk_inv_def)

lemma disk_reach_inv: "disk_reach old new d \<Longrightarrow> disk_inv old new d"
proof (induction rule: disk_reach.induct)
  case (start tmp rec)
  show ?case by (simp add: disk_inv_def)
next
  case (step d d')
  show ?case by (rule disk_step_inv [OF step(2,3)])
qed

end
