(* ===== verification/Bucket.thy ===== *)
theory Bucket
  imports KV_DB
begin

text \<open>
  Buckets (\<open>internal/kvstore/bucket.go\<close>): a bucket is a transaction and a key prefix, the names
  on the path to it, each followed by a zero byte. Names and keys hold no zero byte.

  Shown here: the path and the key are read off the full key, so two buckets never share a key;
  \<open>prefixEnd\<close> bounds exactly the keys with the prefix; a scan of a bucket gives the pairs below
  its prefix, those of nested buckets included.
\<close>

section \<open>Operations\<close>

definition bucketSeparator :: bytes where
  "bucketSeparator = [0]"

record bucket =
  bTx :: tx
  bPrefix :: bytes

definition bucketPrefix :: "bytes \<Rightarrow> bytes \<Rightarrow> bytes" where
  "bucketPrefix parent nm = parent @ nm @ bucketSeparator"

definition Tx_Bucket :: "tx \<Rightarrow> bytes \<Rightarrow> kv_error + bucket" where
  "Tx_Bucket t nm =
     (if nm = [] \<or> 0 \<in> set nm then Inl InvalidBucketName
      else Inr \<lparr>bTx = t, bPrefix = bucketPrefix [] nm\<rparr>)"

definition Bucket_Bucket :: "bucket \<Rightarrow> bytes \<Rightarrow> kv_error + bucket" where
  "Bucket_Bucket b nm =
     (if nm = [] \<or> 0 \<in> set nm then Inl InvalidBucketName
      else Inr \<lparr>bTx = bTx b, bPrefix = bucketPrefix (bPrefix b) nm\<rparr>)"

definition Bucket_key :: "bucket \<Rightarrow> bytes \<Rightarrow> kv_error + bytes" where
  "Bucket_key b k = (if k = [] \<or> 0 \<in> set k then Inl InvalidBucketKey else Inr (bPrefix b @ k))"

definition Bucket_Get :: "bucket \<Rightarrow> bytes \<Rightarrow> pager \<Rightarrow> kv_error + bytes option" where
  "Bucket_Get b k p = (case Bucket_key b k of Inl e \<Rightarrow> Inl e | Inr full \<Rightarrow> Tx_Get (bTx b) full p)"

definition Bucket_Put :: "bucket \<Rightarrow> bytes \<Rightarrow> bytes \<Rightarrow> (pager, kv_error, unit) op" where
  "Bucket_Put b k v p = (case Bucket_key b k of Inl e \<Rightarrow> (Inl e, p) | Inr full \<Rightarrow> Tx_Put (bTx b) full v p)"

definition Bucket_Delete :: "bucket \<Rightarrow> bytes \<Rightarrow> (pager, kv_error, unit) op" where
  "Bucket_Delete b k p = (case Bucket_key b k of Inl e \<Rightarrow> (Inl e, p) | Inr full \<Rightarrow> Tx_Delete (bTx b) full p)"

text \<open>The loop of \<open>prefixEnd\<close> runs down from the last byte; \<open>None\<close> is the nil bound.\<close>

fun prefixEndLoop :: "bytes \<Rightarrow> nat \<Rightarrow> bytes option" where
  "prefixEndLoop end_bytes 0 = None"
| "prefixEndLoop end_bytes (Suc i) =
     (if end_bytes ! i \<noteq> 255 then Some (take (Suc i) (end_bytes[i := end_bytes ! i + 1]))
      else prefixEndLoop end_bytes i)"

definition prefixEnd :: "bytes \<Rightarrow> bytes option" where
  "prefixEnd p = prefixEndLoop p (length p)"

text \<open>A bucket iterator is the iterator of the tree and the bucket.\<close>

definition Bucket_Scan :: "bucket \<Rightarrow> bytes \<Rightarrow> bytes option \<Rightarrow> pager \<Rightarrow> kv_error + iter" where
  "Bucket_Scan b start stop p =
     (case Bucket_key b start of Inl e \<Rightarrow> Inl e | Inr startKey \<Rightarrow>
      (case (case stop of None \<Rightarrow> Inr (prefixEnd (bPrefix b))
             | Some s \<Rightarrow> (case Bucket_key b s of Inl e \<Rightarrow> Inl e | Inr k \<Rightarrow> Inr (Some k))) of
         Inl e \<Rightarrow> Inl e
       | Inr endKey \<Rightarrow> BTree_Scan pagerStore (PageCount p) (txRoot (bTx b)) p startKey endKey))"

definition BucketIterator_Valid :: "bucket \<Rightarrow> iter \<Rightarrow> bool" where
  "BucketIterator_Valid b it \<longleftrightarrow>
     Iterator_Valid it \<and> take (length (bPrefix b)) (Iterator_Key it) = bPrefix b"

definition BucketIterator_Key :: "bucket \<Rightarrow> iter \<Rightarrow> bytes" where
  "BucketIterator_Key b it =
     (if BucketIterator_Valid b it then drop (length (bPrefix b)) (Iterator_Key it) else [])"

definition BucketIterator_Value :: "bucket \<Rightarrow> iter \<Rightarrow> bytes" where
  "BucketIterator_Value b it = (if BucketIterator_Valid b it then Iterator_Value it else [])"

definition BucketIterator_Next :: "pager \<Rightarrow> iter \<Rightarrow> iter" where
  "BucketIterator_Next p it = Iterator_Next pagerStore (PageCount p) p it"

text \<open>The loop \<open>for it.Valid() { ...; it.Next() }\<close> of the callers, then \<open>it.Err()\<close>.\<close>

fun bucketCollect :: "bucket \<Rightarrow> nat \<Rightarrow> pager \<Rightarrow> iter \<Rightarrow> kv_error + (bytes \<times> bytes) list" where
  "bucketCollect b rounds p it =
     (if BucketIterator_Valid b it then
        (case rounds of 0 \<Rightarrow> Inl OutOfFuel | Suc r \<Rightarrow>
           (case bucketCollect b r p (BucketIterator_Next p it) of
              Inl e \<Rightarrow> Inl e
            | Inr rest \<Rightarrow> Inr ((BucketIterator_Key b it, BucketIterator_Value b it) # rest)))
      else (case itErr it of Some e \<Rightarrow> Inl e | None \<Rightarrow> Inr []))"

declare bucketCollect.simps [simp del]

definition Bucket_scanAll :: "bucket \<Rightarrow> bytes \<Rightarrow> bytes option \<Rightarrow> pager \<Rightarrow> kv_error + (bytes \<times> bytes) list" where
  "Bucket_scanAll b start stop p =
     (case Bucket_Scan b start stop p of Inl e \<Rightarrow> Inl e
      | Inr it \<Rightarrow> bucketCollect b (PageCount p * PageSize) p it)"

text \<open>Opening a path of nested buckets.\<close>

fun nestBuckets :: "bucket \<Rightarrow> bytes list \<Rightarrow> kv_error + bucket" where
  "nestBuckets b [] = Inr b"
| "nestBuckets b (n # ns) = (case Bucket_Bucket b n of Inl e \<Rightarrow> Inl e | Inr c \<Rightarrow> nestBuckets c ns)"

fun openPath :: "tx \<Rightarrow> bytes list \<Rightarrow> kv_error + bucket" where
  "openPath t [] = Inl InvalidBucketName"
| "openPath t (n # ns) = (case Tx_Bucket t n of Inl e \<Rightarrow> Inl e | Inr b \<Rightarrow> nestBuckets b ns)"

section \<open>Full keys\<close>

definition label :: "bytes \<Rightarrow> bool" where
  "label x \<longleftrightarrow> x \<noteq> [] \<and> 0 \<notin> set x"

definition pathPrefix :: "bytes list \<Rightarrow> bytes" where
  "pathPrefix path = concat (map (\<lambda>n. n @ [0]) path)"

lemma pathPrefix_simps [simp]:
  "pathPrefix [] = []" "pathPrefix (n # ns) = n @ 0 # pathPrefix ns"
  by (simp_all add: pathPrefix_def)

lemma nestBuckets_prefix:
  "nestBuckets b ns = Inr c \<Longrightarrow> bTx c = bTx b \<and> bPrefix c = bPrefix b @ pathPrefix ns \<and> (\<forall>n \<in> set ns. label n)"
proof (induction ns arbitrary: b)
  case (Cons n ns)
  then obtain d where d: "Bucket_Bucket b n = Inr d" "nestBuckets d ns = Inr c" by (auto split: sum.splits)
  hence "bTx d = bTx b" "bPrefix d = bPrefix b @ n @ [0]" "label n"
    by (auto simp: Bucket_Bucket_def bucketPrefix_def bucketSeparator_def label_def split: if_splits)
  thus ?case using Cons.IH [OF d(2)] by simp
qed simp

lemma openPath_prefix:
  assumes "openPath t path = Inr b"
  shows "bTx b = t" "bPrefix b = pathPrefix path" "path \<noteq> []" "\<forall>n \<in> set path. label n"
proof -
  obtain n ns c where *: "path = n # ns" "Tx_Bucket t n = Inr c" "nestBuckets c ns = Inr b"
    using assms by (cases path) (auto split: sum.splits)
  have "bTx c = t" "bPrefix c = n @ [0]" "label n"
    using *(2) by (auto simp: Tx_Bucket_def bucketPrefix_def bucketSeparator_def label_def split: if_splits)
  with nestBuckets_prefix [OF *(3)] *(1)
  show "bTx b = t" "bPrefix b = pathPrefix path" "path \<noteq> []" "\<forall>n \<in> set path. label n" by simp_all
qed

lemma label_split:
  assumes "label x" "label y" "x @ 0 # xs = y @ 0 # ys"
  shows "x = y \<and> xs = ys"
proof -
  have "takeWhile (\<lambda>c. c \<noteq> 0) (x @ 0 # xs) = x" "takeWhile (\<lambda>c. c \<noteq> 0) (y @ 0 # ys) = y"
    using assms(1,2) by (auto simp: label_def takeWhile_append)
  thus ?thesis using assms(3) by (metis append_same_eq list.inject same_append_eq)
qed

lemma pathPrefix_zero: "q \<noteq> [] \<Longrightarrow> 0 \<in> set (pathPrefix q)"
  by (cases q) simp_all

lemma pathPrefix_inj:
  assumes "\<forall>n \<in> set p. label n" "\<forall>n \<in> set q. label n" "label k" "label l"
    "pathPrefix p @ k = pathPrefix q @ l"
  shows "p = q \<and> k = l"
  using assms(1,2,5)
proof (induction p arbitrary: q)
  case Nil
  have "0 \<notin> set (pathPrefix q)" using Nil.prems(3) assms(3) by (metis Un_iff append_Nil label_def pathPrefix_simps(1) set_append)
  hence "q = []" using pathPrefix_zero by blast
  thus ?case using Nil.prems(3) by simp
next
  case (Cons n ns)
  have "0 \<in> set (pathPrefix q @ l)" using Cons.prems(3) by (metis Un_iff list.discI pathPrefix_zero set_append)
  hence "q \<noteq> []" using assms(4) by (auto simp: label_def)
  then obtain m ms where q: "q = m # ms" by (cases q) simp_all
  have e: "n @ 0 # (pathPrefix ns @ k) = m @ 0 # (pathPrefix ms @ l)" using Cons.prems(3) q by simp
  have "label n" "label m" using Cons.prems(1,2) q by simp_all
  from label_split [OF this e] have "n = m" "pathPrefix ns @ k = pathPrefix ms @ l" by simp_all
  thus ?case using Cons.IH [of ms] Cons.prems(1,2) q by simp
qed

lemma Bucket_key_Inr: "Bucket_key b k = Inr full \<longleftrightarrow> label k \<and> full = bPrefix b @ k"
  by (auto simp: Bucket_key_def label_def)

section \<open>The end of a prefix\<close>

lemma prefixEndLoop_append: "i \<le> length xs \<Longrightarrow> prefixEndLoop (xs @ ys) i = prefixEndLoop xs i"
  by (induction i) (auto simp: nth_append list_update_append)

lemma prefixEnd_snoc: "prefixEnd (xs @ [x]) = (if x = 255 then prefixEnd xs else Some (xs @ [x + 1]))"
  by (simp add: prefixEnd_def prefixEndLoop_append nth_append list_update_append)

lemma prefixEnd_Nil: "prefixEnd [] = None"
  by (simp add: prefixEnd_def)

lemma byte_max: "(255 :: byte) = - 1"
  by simp

lemma byte_le_max: "(b :: byte) \<le> 255"
  using unat_byte_less [of b] by (simp add: word_le_nat_alt)

lemma byte_less_inc: "(x :: byte) \<noteq> 255 \<Longrightarrow> c < x + 1 \<longleftrightarrow> c \<le> x"
proof -
  assume "x \<noteq> 255"
  hence "1 + x \<noteq> 0" by (metis add.commute eq_neg_iff_add_eq_0 byte_max)
  thus "c < x + 1 \<longleftrightarrow> c \<le> x" using unatSuc [of x] by (simp add: word_less_nat_alt word_le_nat_alt add.commute less_Suc_eq_le)
qed

lemma between_snoc:
  assumes "x \<noteq> 255"
  shows "xs @ [x] \<le> k \<and> k < xs @ [x + 1 :: byte] \<longleftrightarrow> take (length xs + 1) k = xs @ [x]"
proof (induction xs arbitrary: k)
  case Nil
  show ?case
  proof (cases k)
    case (Cons c cs)
    have "c < x + 1 \<longleftrightarrow> c \<le> x" by (rule byte_less_inc [OF assms])
    thus ?thesis unfolding Cons by auto
  qed simp
next
  case (Cons y xs)
  show ?case
  proof (cases k)
    case k: (Cons c cs)
    show ?thesis using Cons [of cs] unfolding k by (cases "y = c") auto
  qed simp
qed

lemma above_snoc: "take (length xs) k = xs \<Longrightarrow> xs @ [255 :: byte] \<le> k \<longleftrightarrow> take (length xs + 1) k = xs @ [255]"
proof (induction xs arbitrary: k)
  case Nil
  show ?case
  proof (cases k)
    case (Cons c cs)
    have "\<not> 255 < c" using byte_le_max [of c] by simp
    thus ?thesis unfolding Cons by auto
  qed simp
next
  case (Cons y xs)
  then obtain cs where k: "k = y # cs" "take (length xs) cs = xs" by (cases k) auto
  show ?case using Cons.IH [OF k(2)] unfolding k(1) by simp
qed

lemma prefix_le: "(xs :: bytes) \<le> xs @ ys"
  by (induction xs) auto

text \<open>The keys from the prefix up to its end are the keys with the prefix.\<close>

lemma prefixEnd_range: "in_range p (prefixEnd p) k \<longleftrightarrow> take (length p) k = p"
proof (induction p rule: rev_induct)
  case Nil
  show ?case by (simp add: in_range_def prefixEnd_Nil)
next
  case (snoc x xs)
  show ?case
  proof (cases "x = 255")
    case True
    have "xs @ [255] \<le> k \<Longrightarrow> xs \<le> k" using prefix_le order.trans by blast
    moreover have "take (length xs + 1) k = xs @ [255] \<Longrightarrow> take (length xs) k = xs"
      by (metis append_eq_conv_conj diff_add_inverse2 le_add1 min.absorb1 take_take)
    ultimately show ?thesis using snoc above_snoc [of xs k] True
      by (auto simp: in_range_def prefixEnd_snoc)
  qed (use between_snoc in \<open>auto simp: in_range_def prefixEnd_snoc\<close>)
qed

section \<open>Operations on the value of the store\<close>

lemma Bucket_Get_in:
  assumes "tree_in p t" "txRoot (bTx b) = tid t"
  shows "Bucket_Get b k p = (if label k then Inr (map_of (kvs t) (bPrefix b @ k)) else Inl InvalidBucketKey)"
  using assms Get_in [OF assms(1), of "bPrefix b @ k"]
  by (auto simp: Bucket_Get_def Bucket_key_def Tx_Get_def label_def)

lemma Bucket_Put_in:
  assumes "tree_in p t" "txRoot (bTx b) = tid t" "Bucket_Put b k v p = (Inr u, q)"
  obtains t' where "tree_in q t'" "tid t' = tid t" "kvs t' = kv_upd (bPrefix b @ k) v (kvs t)" "label k"
    "linked (leaves t) 0 \<longrightarrow> linked (leaves t') 0"
proof -
  have k: "label k" and run: "Tx_Put (bTx b) (bPrefix b @ k) v p = (Inr u, q)"
    using assms(3) by (auto simp: Bucket_Put_def Bucket_key_def label_def split: if_splits)
  show thesis
    by (rule Put_in [OF assms(1), of "bPrefix b @ k" v u q])
      (use run assms(2) k that in \<open>auto simp: Tx_Put_def split: if_splits\<close>)
qed

lemma Bucket_Delete_in:
  assumes "tree_in p t" "txRoot (bTx b) = tid t" "root_wide t" "Bucket_Delete b k p = (Inr u, q)"
  obtains t' where "tree_in q t'" "tid t' = tid t" "kvs t' = kv_del (bPrefix b @ k) (kvs t)" "label k"
proof -
  have k: "label k" and run: "Tx_Delete (bTx b) (bPrefix b @ k) p = (Inr u, q)"
    using assms(4) by (auto simp: Bucket_Delete_def Bucket_key_def label_def split: if_splits)
  show thesis
    by (rule Delete_in [OF assms(1,3), of "bPrefix b @ k" u q])
      (use run assms(2) k that in \<open>auto simp: Tx_Delete_def split: if_splits\<close>)
qed

text \<open>The loop over a bucket iterator stops where the prefix ends.\<close>

abbreviation in_bucket :: "bucket \<Rightarrow> bytes \<times> bytes \<Rightarrow> bool" where
  "in_bucket b kv \<equiv> take (length (bPrefix b)) (fst kv) = bPrefix b"

abbreviation local_pair :: "bucket \<Rightarrow> bytes \<times> bytes \<Rightarrow> bytes \<times> bytes" where
  "local_pair b kv \<equiv> (drop (length (bPrefix b)) (fst kv), snd kv)"

lemma bucketCollect_collect:
  assumes "collect pagerStore rounds (PageCount p) p it = Inr xs" "\<forall>kv \<in> set xs. in_bucket b kv"
  shows "bucketCollect b rounds p it = Inr (map (local_pair b) xs)"
  using assms
proof (induction xs arbitrary: rounds it)
  case Nil
  hence "\<not> Iterator_Valid it" "itErr it = None"
    by (auto simp: collect.simps [of _ rounds] split: if_splits nat.splits sum.splits option.splits)
  thus ?case by (simp add: bucketCollect.simps BucketIterator_Valid_def)
next
  case (Cons x xs)
  then obtain r where r: "Iterator_Valid it" "rounds = Suc r" "x = (Iterator_Key it, Iterator_Value it)"
      "collect pagerStore r (PageCount p) p (Iterator_Next pagerStore (PageCount p) p it) = Inr xs"
    by (auto simp: collect.simps [of _ rounds] split: if_splits nat.splits sum.splits option.splits)
  have v: "BucketIterator_Valid b it" using r Cons.prems(2) by (simp add: BucketIterator_Valid_def)
  have "bucketCollect b r p (BucketIterator_Next p it) = Inr (map (local_pair b) xs)"
    using Cons.IH [OF r(4)] Cons.prems(2) by (simp add: BucketIterator_Next_def)
  thus ?case using v r(2,3)
    by (subst bucketCollect.simps) (simp add: BucketIterator_Key_def BucketIterator_Value_def)
qed

lemma above_prefix_in_range:
  "in_range (p @ k) (prefixEnd p) x \<longleftrightarrow> p @ k \<le> x \<and> take (length p) x = p"
proof -
  have "p @ k \<le> x \<Longrightarrow> p \<le> x" by (rule order.trans [OF prefix_le])
  thus ?thesis using prefixEnd_range [of p x] by (auto simp: in_range_def)
qed

lemma Bucket_scanAll_in:
  assumes "tree_in p t" "linked (leaves t) 0" "txRoot (bTx b) = tid t" "label start"
  shows "Bucket_scanAll b start None p
    = Inr (map (local_pair b) (filter (\<lambda>kv. bPrefix b @ start \<le> fst kv \<and> in_bucket b kv) (kvs t)))"
proof -
  let ?xs = "filter (\<lambda>kv. bPrefix b @ start \<le> fst kv \<and> in_bucket b kv) (kvs t)"
  have scan: "scanAll pagerStore (PageCount p * PageSize) (PageCount p) (tid t) p (bPrefix b @ start) (prefixEnd (bPrefix b))
      = Inr ?xs"
    using Scan_in [OF assms(1,2)] by (simp add: above_prefix_in_range)
  then obtain it where it: "BTree_Scan pagerStore (PageCount p) (tid t) p (bPrefix b @ start) (prefixEnd (bPrefix b)) = Inr it"
      "collect pagerStore (PageCount p * PageSize) (PageCount p) p it = Inr ?xs"
    by (auto simp: scanAll_def split: sum.splits)
  have "bucketCollect b (PageCount p * PageSize) p it = Inr (map (local_pair b) ?xs)"
    by (rule bucketCollect_collect [OF it(2)]) auto
  thus ?thesis using it(1) assms(3,4)
    by (simp add: Bucket_scanAll_def Bucket_Scan_def Bucket_key_def label_def)
qed

end
