(* ===== verification/Repair.thy ===== *)
theory Repair
  imports KV_DB
begin

text \<open>
  \<open>Repair\<close> (\<open>internal/kvstore/repair.go\<close>): collect the pages that the tree and the leaf links
  reach, and make a free list of all others.

  Shown here: the search ends on every file (a fuel of one more than the number of pages is
  enough), the pages it finds are closed under links, and on a file with a well-linked tree the
  repaired file holds the same tree, has exactly its pages in use, and satisfies the invariant
  of the pager.
\<close>

section \<open>Operations\<close>

fun collectReachablePages :: "nat \<Rightarrow> pager \<Rightarrow> nat \<Rightarrow> nat set \<Rightarrow> kv_error + nat set"
  and collectChildren :: "nat \<Rightarrow> pager \<Rightarrow> btreeEntry list \<Rightarrow> nat set \<Rightarrow> kv_error + nat set" where
  "collectReachablePages 0 p i R = Inl OutOfFuel"
| "collectReachablePages (Suc f) p i R =
     (if i \<in> R then Inr R
      else if i \<ge> PageCount p then Inl (ReachableOutOfRange i)
      else (case pageLocked p i of Inl e \<Rightarrow> Inl e | Inr page \<Rightarrow>
        (case decodeNode i page of Inl e \<Rightarrow> Inl e | Inr node \<Rightarrow>
           if ntyp node = nodeLeaf then
             (if nnext node \<noteq> 0 then collectReachablePages f p (nnext node) (insert i R)
              else Inr (insert i R))
           else collectChildren f p (nentries node) (insert i R))))"
| "collectChildren f p [] R = Inr R"
| "collectChildren f p (e # es) R =
     (case collectReachablePages f p (echild e) R of Inl x \<Rightarrow> Inl x
      | Inr R' \<Rightarrow> collectChildren f p es R')"

text \<open>The loop over the page ids, downwards to 1.\<close>

fun rebuildFreeListLoop :: "nat set \<Rightarrow> nat \<Rightarrow> (pager, kv_error, unit) op" where
  "rebuildFreeListLoop R 0 p = (Inr (), p)"
| "rebuildFreeListLoop R (Suc i) p =
     (if Suc i \<in> R then rebuildFreeListLoop R i p
      else (case pageLocked p (Suc i) of Inl e \<Rightarrow> (Inl e, p) | Inr _ \<Rightarrow>
        rebuildFreeListLoop R i
          ((setPage (Suc i) (splice zeroPage 0 (putLE 8 (FreeHead p))) p)
             \<lparr>FreeHead := Suc i, FreeCount := inc64 (FreeCount p), freeSet := insert (Suc i) (freeSet p)\<rparr>)))"

definition rebuildFreeListFromReachable :: "nat set \<Rightarrow> (pager, kv_error, unit) op" where
  "rebuildFreeListFromReachable R p =
     rebuildFreeListLoop R (dec64 (PageCount p)) (p\<lparr>freeSet := {}, FreeHead := 0, FreeCount := 0\<rparr>)"

definition repairPager :: "(pager, kv_error, unit) op" where
  "repairPager p =
     (case ensureOpen p of Inl e \<Rightarrow> (Inl e, p) | Inr _ \<Rightarrow>
      (case (if RootPage p \<noteq> 0 then collectReachablePages (PageCount p + 1) p (RootPage p) {metaPageID}
             else Inr {metaPageID}) of
         Inl e \<Rightarrow> (Inl e, p)
       | Inr R \<Rightarrow> bindE (rebuildFreeListFromReachable R) (\<lambda>_. writeMeta) p))"

text \<open>From the log and the file to the result, the log and the file; the deferred \<open>Close\<close>
  runs on every path once the pager is open.\<close>

definition Repair :: "nat \<Rightarrow> bytes option \<Rightarrow> bytes \<Rightarrow> (kv_error + unit) \<times> bytes option \<times> bytes" where
  "Repair limit wal file_bytes =
     (case recoverRollbackWAL wal file_bytes of Inl e \<Rightarrow> (Inl e, wal, file_bytes) | Inr (wal', bs) \<Rightarrow>
      (case OpenPager limit bs of Inl e \<Rightarrow> (Inl e, wal', bs) | Inr p \<Rightarrow>
       (case repairPager p of (r, q) \<Rightarrow> (r, wal', contents (snd (Close q))))))"

section \<open>The search\<close>

definition links :: "pager \<Rightarrow> nat \<Rightarrow> nat set" where
  "links p i =
     (case decodeNode i (page_at p i) of Inl e \<Rightarrow> {}
      | Inr node \<Rightarrow> if ntyp node = nodeLeaf then {nnext node} - {0} else echild ` set (nentries node))"

lemma closed_insert:
  assumes "insert i R \<subseteq> R'" "links p i \<subseteq> R'" "\<forall>x \<in> R' - insert i R. links p x \<subseteq> R'"
  shows "\<forall>x \<in> R' - R. links p x \<subseteq> R'"
proof
  fix x assume "x \<in> R' - R"
  thus "links p x \<subseteq> R'" using assms(2,3) by (cases "x = i") simp_all
qed

lemma collect_closed:
  "pager_sized p \<Longrightarrow> collectReachablePages f p i R = Inr R' \<Longrightarrow>
     R \<subseteq> R' \<and> i \<in> R' \<and> (\<forall>x \<in> R' - R. links p x \<subseteq> R')"
  "pager_sized p \<Longrightarrow> collectChildren f p es R = Inr R' \<Longrightarrow>
     R \<subseteq> R' \<and> echild ` set es \<subseteq> R' \<and> (\<forall>x \<in> R' - R. links p x \<subseteq> R')"
proof (induction f p i R and f p es R arbitrary: R' and R' rule: collectReachablePages_collectChildren.induct)
  case (2 f p i R)
  show ?case
  proof (cases "i \<in> R")
    case True
    thus ?thesis using 2 by simp
  next
    case False
    hence i: "i < PageCount p" using "2.prems"(2) by (auto split: if_splits)
    note pg = pageLocked_eq [OF "2.prems"(1) i]
    obtain node where n: "decodeNode i (page_at p i) = Inr node"
      using "2.prems"(2) False i pg by (auto split: sum.splits)
    consider (last) "ntyp node = nodeLeaf" "nnext node = 0" | (leaf) "ntyp node = nodeLeaf" "nnext node \<noteq> 0"
      | (branch) "ntyp node \<noteq> nodeLeaf" by blast
    thus ?thesis
    proof cases
      case last
      thus ?thesis using "2.prems"(2) False i pg n by (auto simp: links_def)
    next
      case leaf
      have "collectReachablePages f p (nnext node) (insert i R) = Inr R'"
        using "2.prems"(2) False i pg n leaf by simp
      from "2.IH"(1) [OF False _ pg n leaf "2.prems"(1) this] i
      have "insert i R \<subseteq> R' \<and> nnext node \<in> R' \<and> (\<forall>x \<in> R' - insert i R. links p x \<subseteq> R')" by simp
      moreover have "links p i = {nnext node}" using leaf n by (simp add: links_def)
      ultimately show ?thesis using closed_insert [of i R R' p] by simp
    next
      case branch
      have "collectChildren f p (nentries node) (insert i R) = Inr R'"
        using "2.prems"(2) False i pg n branch by simp
      from "2.IH"(2) [OF False _ pg n branch "2.prems"(1) this] i
      have "insert i R \<subseteq> R' \<and> echild ` set (nentries node) \<subseteq> R' \<and> (\<forall>x \<in> R' - insert i R. links p x \<subseteq> R')" by simp
      moreover have "links p i = echild ` set (nentries node)" using branch n by (simp add: links_def)
      ultimately show ?thesis using closed_insert [of i R R' p] by simp
    qed
  qed
next
  case (4 f p e es R)
  then obtain R1 where R1: "collectReachablePages f p (echild e) R = Inr R1" "collectChildren f p es R1 = Inr R'"
    by (auto split: sum.splits)
  have a: "R \<subseteq> R1 \<and> echild e \<in> R1 \<and> (\<forall>x \<in> R1 - R. links p x \<subseteq> R1)" using "4.IH"(1) [OF "4.prems"(1) R1(1)] .
  have b: "R1 \<subseteq> R' \<and> echild ` set es \<subseteq> R' \<and> (\<forall>x \<in> R' - R1. links p x \<subseteq> R')" using "4.IH"(2) [OF R1(1) "4.prems"(1) R1(2)] .
  have "links p x \<subseteq> R'" if "x \<in> R' - R" for x
  proof (cases "x \<in> R1")
    case True
    hence "links p x \<subseteq> R1" using a that by simp
    thus ?thesis using b by (meson subset_trans)
  qed (use b that in simp)
  thus ?case using a b by auto
qed simp_all

text \<open>The search ends: every call that goes on adds a page.\<close>

lemma decodeEntries_fuel: "decodeEntries i ty page pos n prev \<noteq> Inl OutOfFuel"
proof (induction n arbitrary: pos prev)
  case (Suc n)
  have "case_sum Inl f (decodeEntries i ty page (Suc pos) n prev) \<noteq> Inl OutOfFuel" if "\<And>x. f x \<noteq> Inl OutOfFuel"
    for prev and f :: "btreeEntry list \<Rightarrow> kv_error + btreeEntry list"
    using Suc [of "Suc pos" prev] that by (cases "decodeEntries i ty page (Suc pos) n prev") auto
  thus ?case by (simp add: Let_def)
qed simp

lemma decodeNode_fuel: "decodeNode i page \<noteq> Inl OutOfFuel"
  using decodeEntries_fuel by (auto simp: decodeNode_def Let_def split: sum.splits)

lemma card_page_set:
  assumes "R \<subseteq> {..<n}" "i \<notin> R" "i < n" "n - card R < Suc f"
  shows "n - card (insert i R) < f" "insert i R \<subseteq> {..<n}"
proof -
  have "finite R" using assms(1) finite_subset by blast
  moreover have "card (insert i R) \<le> card {..<n}" by (rule card_mono) (use assms in auto)
  ultimately show "n - card (insert i R) < f" using assms(2,4) by simp
qed (use assms in auto)

lemma card_page_set_mono: "R \<subseteq> R' \<Longrightarrow> R' \<subseteq> {..<n} \<Longrightarrow> n - card R < f \<Longrightarrow> n - card R' < (f :: nat)"
  by (meson card_mono diff_le_mono2 finite_lessThan finite_subset le_less_trans)

lemma collect_ends:
  "pager_sized p \<Longrightarrow> R \<subseteq> {..<PageCount p} \<Longrightarrow> PageCount p - card R < f \<Longrightarrow>
     collectReachablePages f p i R \<noteq> Inl OutOfFuel
     \<and> (\<forall>R'. collectReachablePages f p i R = Inr R' \<longrightarrow> R \<subseteq> R' \<and> R' \<subseteq> {..<PageCount p})"
  "pager_sized p \<Longrightarrow> R \<subseteq> {..<PageCount p} \<Longrightarrow> PageCount p - card R < f \<Longrightarrow>
     collectChildren f p es R \<noteq> Inl OutOfFuel
     \<and> (\<forall>R'. collectChildren f p es R = Inr R' \<longrightarrow> R \<subseteq> R' \<and> R' \<subseteq> {..<PageCount p})"
proof (induction f p i R and f p es R rule: collectReachablePages_collectChildren.induct)
  case (2 f p i R)
  show ?case
  proof (cases "i \<in> R \<or> i \<ge> PageCount p")
    case True
    thus ?thesis using "2.prems"(2) by auto
  next
    case False
    hence i: "i \<notin> R" "\<not> i \<ge> PageCount p" "i < PageCount p" by auto
    note pg = pageLocked_eq [OF "2.prems"(1) i(3)]
    note R = card_page_set [OF "2.prems"(2) i(1,3) "2.prems"(3)]
    show ?thesis
    proof (cases "decodeNode i (page_at p i)")
      case (Inl e)
      thus ?thesis using i pg decodeNode_fuel [of i "page_at p i"] by simp
    next
      case n: (Inr node)
      note IH1 = "2.IH"(1) [OF i(1,2) pg n _ _ "2.prems"(1) R(2,1)]
      note IH2 = "2.IH"(2) [OF i(1,2) pg n _ "2.prems"(1) R(2,1)]
      show ?thesis using i pg n IH1 IH2 R(2) by (cases "ntyp node = nodeLeaf"; cases "nnext node = 0") auto
    qed
  qed
next
  case (4 f p e es R)
  note IH1 = "4.IH"(1) [OF "4.prems"]
  show ?case
  proof (cases "collectReachablePages f p (echild e) R")
    case (Inl x)
    thus ?thesis using IH1 by auto
  next
    case (Inr R1)
    hence R1: "R \<subseteq> R1" "R1 \<subseteq> {..<PageCount p}" using IH1 by auto
    note IH2 = "4.IH"(2) [OF Inr "4.prems"(1) R1(2) card_page_set_mono [OF R1 "4.prems"(3)]]
    thus ?thesis using Inr R1 by auto
  qed
qed simp_all

text \<open>Inside a set of pages that decode and is closed under links, the search succeeds and stays.\<close>

definition linked_pages :: "pager \<Rightarrow> nat set \<Rightarrow> bool" where
  "linked_pages p S \<longleftrightarrow> (\<forall>i \<in> S. i < PageCount p \<and> (\<exists>n. decodeNode i (page_at p i) = Inr n) \<and> links p i \<subseteq> S)"

lemma collect_inside:
  "pager_sized p \<Longrightarrow> linked_pages p S \<Longrightarrow> i \<in> S \<Longrightarrow> R \<subseteq> {..<PageCount p} \<Longrightarrow> PageCount p - card R < f \<Longrightarrow>
     \<exists>R'. collectReachablePages f p i R = Inr R' \<and> R' \<subseteq> R \<union> S"
  "pager_sized p \<Longrightarrow> linked_pages p S \<Longrightarrow> echild ` set es \<subseteq> S \<Longrightarrow> R \<subseteq> {..<PageCount p} \<Longrightarrow> PageCount p - card R < f \<Longrightarrow>
     \<exists>R'. collectChildren f p es R = Inr R' \<and> R' \<subseteq> R \<union> S"
proof (induction f p i R and f p es R rule: collectReachablePages_collectChildren.induct)
  case (2 f p i R)
  show ?case
  proof (cases "i \<in> R")
    case False
    hence i: "i \<notin> R" "\<not> i \<ge> PageCount p" "i < PageCount p" using "2.prems"(2,3) by (auto simp: linked_pages_def)
    obtain node where n: "decodeNode i (page_at p i) = Inr node" and l: "links p i \<subseteq> S"
      using "2.prems"(2,3) by (auto simp: linked_pages_def)
    note pg = pageLocked_eq [OF "2.prems"(1) i(3)]
    note R = card_page_set [OF "2.prems"(4) i(1,3) "2.prems"(5)]
    consider (last) "ntyp node = nodeLeaf" "nnext node = 0" | (leaf) "ntyp node = nodeLeaf" "nnext node \<noteq> 0"
      | (branch) "ntyp node \<noteq> nodeLeaf" by blast
    thus ?thesis
    proof cases
      case last
      thus ?thesis using i pg n "2.prems"(3) by simp
    next
      case leaf
      hence "nnext node \<in> S" using l n by (simp add: links_def)
      from "2.IH"(1) [OF i(1,2) pg n leaf "2.prems"(1,2) this R(2,1)] show ?thesis
        using i pg n leaf "2.prems"(3) by auto
    next
      case branch
      hence "echild ` set (nentries node) \<subseteq> S" using l n by (simp add: links_def)
      from "2.IH"(2) [OF i(1,2) pg n branch "2.prems"(1,2) this R(2,1)] show ?thesis
        using i pg n branch "2.prems"(3) by auto
    qed
  qed auto
next
  case (4 f p e es R)
  have e: "echild e \<in> S" "echild ` set es \<subseteq> S" using "4.prems"(3) by auto
  obtain R1 where R1: "collectReachablePages f p (echild e) R = Inr R1" "R1 \<subseteq> R \<union> S"
    using "4.IH"(1) [OF "4.prems"(1,2) e(1) "4.prems"(4,5)] by blast
  have R2: "R \<subseteq> R1" "R1 \<subseteq> {..<PageCount p}" using collect_ends(1) [OF "4.prems"(1,4,5)] R1(1) by auto
  from "4.IH"(2) [OF R1(1) "4.prems"(1,2) e(2) R2(2) card_page_set_mono [OF R2 "4.prems"(5)]]
  show ?case using R1 by auto
qed simp_all

text \<open>The pages of a stored tree whose leaves are linked in order.\<close>

lemma stored_links:
  assumes "pager_inv p" "stored pagerStore p t" "set (pagesL t) \<subseteq> live p" "linked (leaves t) nx" "i \<in> set (pagesL t)"
  shows "(\<exists>n. decodeNode i (page_at p i) = Inr n) \<and> links p i \<subseteq> set (pagesL t) \<union> ({nx} - {0})"
  using assms(2-)
proof (induction t arbitrary: nx i rule: pagesL.induct)
  case (1 j n es)
  hence "decodeNode j (page_at p j) = Inr (nodeOf (PLeaf j n es))"
    using readNode_eq [OF assms(1), of j] by (auto simp: live_def)
  thus ?case using 1 by (auto simp: links_def)
next
  case (2 j cs)
  have dj: "decodeNode j (page_at p j) = Inr (nodeOf (PBranch j cs))"
    using "2.prems"(1,2) readNode_eq [OF assms(1), of j] by (auto simp: live_def)
  show ?case
  proof (cases "i = j")
    case True
    have "nodeBranch \<noteq> nodeLeaf" by (simp add: nodeBranch_def nodeLeaf_def)
    hence "links p i = tid ` set cs"
      using dj True by (auto simp: links_def branchEntries_def branchEntry_def image_image)
    moreover have "tid c \<in> set (pagesLL cs)" if "c \<in> set cs" for c using that by (auto intro!: bexI [of _ c])
    ultimately show ?thesis using dj True by auto
  next
    case False
    then obtain c where c: "c \<in> set cs" "i \<in> set (pagesL c)" using "2.prems"(4) by auto
    then obtain xs ys where cs: "cs = xs @ c # ys" by (meson split_list)
    have "linked (leaves c) (case leavesL ys of [] \<Rightarrow> nx | y # _ \<Rightarrow> fst y)"
      using "2.prems"(3) cs by (simp add: linked_append)
    from "2.IH" [OF c(1) _ _ this c(2)] "2.prems"(1,2) c(1)
    have IH: "\<exists>n. decodeNode i (page_at p i) = Inr n"
      "links p i \<subseteq> set (pagesL c) \<union> ({case leavesL ys of [] \<Rightarrow> nx | y # _ \<Rightarrow> fst y} - {0})" by auto
    have "(case leavesL ys of [] \<Rightarrow> nx | y # _ \<Rightarrow> fst y) \<in> set (pagesLL ys) \<union> {nx}"
    proof (cases "leavesL ys")
      case Nil
      show ?thesis unfolding Nil by simp
    next
      case (Cons y zs)
      hence "y \<in> set (leavesL ys)" by simp
      then obtain d where d: "d \<in> set ys" "y \<in> set (leaves d)" by auto
      have "fst y \<in> set (pagesL d)" using leaves_pages [OF d(2)] .
      thus ?thesis unfolding Cons using d(1) by auto
    qed
    moreover have "set (pagesL c) \<subseteq> set (pagesLL cs)" "set (pagesLL ys) \<subseteq> set (pagesLL cs)" using cs by auto
    ultimately have "links p i \<subseteq> set (pagesLL cs) \<union> ({nx} - {0})" using IH(2) by blast
    thus ?thesis using IH(1) by auto
  qed
qed

lemma closed_pages:
  assumes "pager_inv p" "\<forall>x \<in> R - {0}. links p x \<subseteq> R"
  shows "stored pagerStore p t \<Longrightarrow> set (pagesL t) \<subseteq> live p \<Longrightarrow> tid t \<in> R \<Longrightarrow> set (pagesL t) \<subseteq> R"
proof (induction t rule: pagesL.induct)
  case (2 j cs)
  have j: "0 < j" "j < PageCount p" using "2.prems"(2) by (auto simp: live_def)
  have "decodeNode j (page_at p j) = Inr (nodeOf (PBranch j cs))"
    using "2.prems"(1) readNode_eq [OF assms(1) j] by simp
  moreover have "nodeBranch \<noteq> nodeLeaf" by (simp add: nodeBranch_def nodeLeaf_def)
  ultimately have "links p j = tid ` set cs"
    by (auto simp: links_def branchEntries_def branchEntry_def image_image)
  hence t: "tid ` set cs \<subseteq> R" using assms(2) j "2.prems"(3) by auto
  have "set (pagesL c) \<subseteq> R" if c: "c \<in> set cs" for c
  proof (rule "2.IH" [OF c])
    show "stored pagerStore p c" "set (pagesL c) \<subseteq> live p" using "2.prems"(1,2) c by auto
    show "tid c \<in> R" using t c by blast
  qed
  thus ?case using "2.prems"(3) by auto
qed simp

lemma collect_tree:
  assumes "tree_in p t" "linked (leaves t) 0"
  shows "collectReachablePages (PageCount p + 1) p (tid t) {metaPageID} = Inr (insert 0 (set (pagesL t)))"
proof -
  have p: "pager_inv p" "stored pagerStore p t" using assms(1) by (simp_all add: tree_in_def)
  note inv = pager_invD [OF p(1)]
  have L: "set (pagesL t) \<subseteq> live p" using assms(1) root_ok_sorted by (auto simp: tree_in_def)
  have S: "linked_pages p (set (pagesL t))"
    using stored_links [OF p L assms(2)] L by (auto simp: linked_pages_def live_def)
  have R: "{0} \<subseteq> {..<PageCount p}" "PageCount p - card {0 :: nat} < PageCount p + 1" using inv(5) by auto
  obtain R' where R': "collectReachablePages (PageCount p + 1) p (tid t) {0} = Inr R'" "R' \<subseteq> {0} \<union> set (pagesL t)"
    using collect_inside(1) [OF inv(2) S tid_in_pages R] by blast
  note cl = collect_closed(1) [OF inv(2) R'(1)]
  have "set (pagesL t) \<subseteq> R'"
    by (rule closed_pages [OF p(1) _ p(2) L]) (use cl in simp_all)
  hence "R' = insert 0 (set (pagesL t))" using R'(2) cl by blast
  thus ?thesis using R'(1) by (simp add: metaPageID_def)
qed

section \<open>The new free list\<close>

definition free_above :: "nat set \<Rightarrow> nat \<Rightarrow> pager \<Rightarrow> bool" where
  "free_above R i p \<longleftrightarrow> free_list_ok p \<and> freeSet p = {j. i < j \<and> j < PageCount p \<and> j \<notin> R}"

lemma above_Suc:
  "{j. i < j \<and> j < n \<and> j \<notin> R} =
     (if Suc i < n \<and> Suc i \<notin> R then insert (Suc i) {j. Suc i < j \<and> j < n \<and> j \<notin> R}
      else {j. Suc i < j \<and> j < n \<and> j \<notin> R})"
proof -
  have "i < j \<longleftrightarrow> j = Suc i \<or> Suc i < j" for j by linarith
  thus ?thesis by auto
qed

lemma push_free:
  assumes "pager_sized p" "free_above R (Suc i) p" "Suc i < PageCount p" "Suc i \<notin> R"
  defines "q \<equiv> (setPage (Suc i) (splice zeroPage 0 (putLE 8 (FreeHead p))) p)
             \<lparr>FreeHead := Suc i, FreeCount := inc64 (FreeCount p), freeSet := insert (Suc i) (freeSet p)\<rparr>"
  shows "pager_sized q" "free_above R i q" "\<And>j. j < PageCount p \<Longrightarrow> j \<noteq> Suc i \<Longrightarrow> page_at q j = page_at p j"
proof -
  let ?b = "splice zeroPage 0 (putLE 8 (FreeHead p))"
  have lb: "length ?b = PageSize" by (simp add: PageSize_def)
  note pg = page_at_setPage [OF assms(1,3) _ lb]
  have pq: "page_at q j = page_at (setPage (Suc i) ?b p) j" for j by (simp add: page_at_def q_def)
  show keep: "\<And>j. j < PageCount p \<Longrightarrow> j \<noteq> Suc i \<Longrightarrow> page_at q j = page_at p j" by (simp add: pq pg)
  show "pager_sized q" using pager_sized_setPage [OF assms(1,3) lb] by (simp add: pager_sized_def q_def)
  have fl: "free_list_ok p" and fs: "freeSet p = {j. Suc i < j \<and> j < PageCount p \<and> j \<notin> R}"
    using assms(2) by (simp_all add: free_above_def)
  from fl obtain xs where xs: "free_chain p (FreeHead p) xs" "distinct xs" "set xs = freeSet p"
      "length xs = FreeCount p" "\<forall>x \<in> set xs. x < PageCount p"
    by (auto simp: free_list_ok_def)
  have head: "FreeHead p < 256 ^ 8"
  proof (cases xs)
    case (Cons y ys)
    hence "FreeHead p < PageCount p" using xs(1,5) by simp
    thus ?thesis using PageCount_small [OF assms(1)] by simp
  qed (use xs(1) in simp)
  have ne: "Suc i \<notin> freeSet p" using fs by simp
  have "nextFree q (Suc i) = FreeHead p"
    using head assms(3) by (simp add: nextFree_def pq pg lb slice_splice_same PageSize_def getLE_putLE_small)
  moreover have "free_chain q (FreeHead p) xs"
    by (rule free_chain_cong [OF xs(1)], rule keep) (use xs(3,5) ne in blast)+
  ultimately have "free_chain q (Suc i) (Suc i # xs)" by simp
  moreover have "inc64 (FreeCount p) = Suc (FreeCount p)"
    using free_count_small [OF assms(1) fl] PageCount_small [OF assms(1)] by (simp add: inc64_def)
  ultimately have "free_list_ok q"
    unfolding free_list_ok_def using xs ne assms(3)
    by (intro exI [of _ "Suc i # xs"]) (simp add: q_def)
  moreover have "freeSet q = {j. i < j \<and> j < PageCount q \<and> j \<notin> R}"
    using fs above_Suc [of i "PageCount p" R] assms(3,4) by (simp add: q_def)
  ultimately show "free_above R i q" by (simp add: free_above_def)
qed

lemma rebuild_loop:
  assumes "pager_sized p" "free_above R i p" "i < PageCount p"
  shows "\<exists>q. rebuildFreeListLoop R i p = (Inr (), q) \<and> pager_sized q \<and> free_above R 0 q \<and> PageCount q = PageCount p
    \<and> RootPage q = RootPage p \<and> disk_limit q = disk_limit p
    \<and> (\<forall>j. j < PageCount p \<longrightarrow> j = 0 \<or> j \<in> R \<longrightarrow> page_at q j = page_at p j)"
  using assms
proof (induction i arbitrary: p)
  case (Suc i)
  show ?case
  proof (cases "Suc i \<in> R")
    case True
    hence "free_above R i p" using Suc.prems(2) above_Suc [of i "PageCount p" R] by (simp add: free_above_def)
    thus ?thesis using Suc.IH [OF Suc.prems(1)] Suc.prems(3) True by simp
  next
    case False
    let ?q = "(setPage (Suc i) (splice zeroPage 0 (putLE 8 (FreeHead p))) p)
             \<lparr>FreeHead := Suc i, FreeCount := inc64 (FreeCount p), freeSet := insert (Suc i) (freeSet p)\<rparr>"
    note q = push_free [OF Suc.prems False]
    have "i < PageCount ?q" using Suc.prems(3) by simp
    from Suc.IH [OF q(1,2) this] obtain r where r: "rebuildFreeListLoop R i ?q = (Inr (), r)" "pager_sized r" "free_above R 0 r"
      "PageCount r = PageCount ?q" "RootPage r = RootPage ?q" "disk_limit r = disk_limit ?q"
      "\<forall>j. j < PageCount ?q \<longrightarrow> j = 0 \<or> j \<in> R \<longrightarrow> page_at r j = page_at ?q j" by blast
    have "rebuildFreeListLoop R (Suc i) p = (Inr (), r)"
      using False r(1) pageLocked_eq [OF Suc.prems(1,3)] by simp
    moreover have "\<forall>j. j < PageCount p \<longrightarrow> j = 0 \<or> j \<in> R \<longrightarrow> page_at r j = page_at p j"
    proof (intro allI impI)
      fix j assume j: "j < PageCount p" "j = 0 \<or> j \<in> R"
      hence "j \<noteq> Suc i" using False by auto
      moreover have "j < PageCount ?q" using j(1) by simp
      hence "page_at r j = page_at ?q j" using r(7) j(2) by blast
      ultimately show "page_at r j = page_at p j" using q(3) [OF j(1)] by simp
    qed
    ultimately show ?thesis using r by simp
  qed
qed auto

section \<open>The repaired file\<close>

lemma repairPager_ok:
  assumes "tree_in p t" "linked (leaves t) 0" "RootPage p = tid t"
  obtains q where "repairPager p = (Inr (), q)" "tree_in q t" "live q = set (pagesL t)" "RootPage q = tid t"
    "disk_limit q = disk_limit p" "PageCount q = PageCount p"
proof -
  have p: "pager_inv p" "stored pagerStore p t" "root_ok (live p) t" using assms(1) by (simp_all add: tree_in_def)
  note inv = pager_invD [OF p(1)]
  have L: "set (pagesL t) \<subseteq> live p" using p(3) root_ok_sorted by blast
  let ?R = "insert 0 (set (pagesL t))" and ?p0 = "p\<lparr>freeSet := {}, FreeHead := 0, FreeCount := 0\<rparr>"
  have i: "dec64 (PageCount p) = PageCount p - 1" "PageCount p - 1 < PageCount p"
    using inv(5) PageCount_small [OF inv(2)] dec64_pos [of "PageCount p"] by simp_all
  have "free_above ?R (PageCount p - 1) ?p0"
    by (auto simp: free_above_def free_list_ok_def intro: exI [of _ "[]"])
  moreover have "pager_sized ?p0" using inv(2) by (simp add: pager_sized_def)
  ultimately obtain q where q: "rebuildFreeListLoop ?R (PageCount p - 1) ?p0 = (Inr (), q)" "pager_sized q" "free_above ?R 0 q"
      "PageCount q = PageCount p" "RootPage q = RootPage p" "disk_limit q = disk_limit p"
      "\<forall>j. j < PageCount p \<longrightarrow> j = 0 \<or> j \<in> ?R \<longrightarrow> page_at q j = page_at ?p0 j"
    using rebuild_loop [of ?p0 ?R "PageCount p - 1"] i(2) by auto
  have "pager_core q" using q(2-5) inv(4) by (simp add: pager_core_def free_above_def)
  note w = writeMeta_inv [OF this]
  let ?q = "setPage 0 (metaPage q) q"
  have lq: "live q = set (pagesL t)" using q(3,4) L by (auto simp: live_def free_above_def)
  have "page_at ?q j = page_at p j" if "j \<in> set (pagesL t)" for j
  proof -
    have "j < PageCount p" using L that by (auto simp: live_def)
    hence "page_at q j = page_at p j" using q(7) that by (simp add: page_at_def)
    thus ?thesis using w(3) [of j] lq that by simp
  qed
  hence "readNode ?q j = readNode p j" if "j \<in> set (pagesL t)" for j
    using that L readNode_eq [OF p(1), of j] readNode_eq [OF w(2), of j] q(4) by (auto simp: live_def)
  hence "stored pagerStore ?q t" by (intro stored_frame [OF p(2)]) simp
  moreover have "root_ok (live ?q) t" using p(3) lq by (cases t) (auto simp: root_ok_def forest_ok_def)
  ultimately have "tree_in ?q t" using w(2) by (simp add: tree_in_def)
  moreover have "repairPager p = (Inr (), ?q)"
    using collect_tree [OF assms(1,2)] tree_pages_bound(3) [OF assms(1)] q(1) i(1) w(1) assms(3)
    by (simp add: repairPager_def ensureOpen_sized [OF inv(2)] rebuildFreeListFromReachable_def)
  ultimately show thesis using that lq q assms(3) by simp
qed

lemma OpenPager_sized:
  assumes "OpenPager limit bs = Inr p" "length bs \<le> limit" "limit < 2 ^ 63"
  shows "pager_sized p"
proof -
  from assms(1) obtain u where u: "pager_open (initPager limit bs) = (Inr u, p)"
    by (auto simp: OpenPager_def split: prod.splits sum.splits)
  show ?thesis
  proof (cases "bs = []")
    case True
    thus ?thesis using u assms(3)
      by (auto simp: pager_open_def initPager_def truncateFile_def mapFile_def writeMeta_def setPage_def pager_sized_def
          pager_data_def bindE_def splice_def split: if_splits)
  next
    case False
    have sz: "length bs mod PageSize = 0" using u False by (auto simp: pager_open_def initPager_def Let_def split: if_splits)
    obtain q where q: "readMeta ((initPager limit bs)\<lparr>mapped := True\<rparr>) = (Inr (), q)"
        "PageCount q \<noteq> 0" "PageCount q \<le> length bs div PageSize" "rebuildFreeSet q = (Inr u, p)"
      using u False sz
      by (auto simp: pager_open_def initPager_def mapFile_def bindE_def Let_def split: if_splits prod.splits sum.splits)
    have "contents q = bs" "mapped q" "\<not> closed q" "disk_limit q = limit"
      using q(1) by (auto simp: readMeta_def Let_def initPager_def split: if_splits)
    moreover have "contents p = contents q" "mapped p = mapped q" "closed p = closed q" "disk_limit p = disk_limit q"
        "PageCount p = PageCount q"
      using q(4) by (auto simp: rebuildFreeSet_def split: sum.splits if_splits)
    moreover have "PageCount q * PageSize \<le> length bs"
      using q(3) div_times_less_eq_dividend [of "length bs" PageSize] by (meson le_trans mult_le_mono1)
    ultimately show ?thesis using q(2) sz assms(2,3) by (simp add: pager_sized_def)
  qed
qed

lemma repairPager_ends: "pager_sized p \<Longrightarrow> fst (repairPager p) \<noteq> Inl OutOfFuel"
proof -
  assume p: "pager_sized p"
  have loop: "fst (rebuildFreeListLoop R i q) \<noteq> Inl OutOfFuel" for R i q
    by (induction i arbitrary: q) (auto simp: pageLocked_def)
  have "{0} \<subseteq> {..<PageCount p}" "PageCount p - card {0 :: nat} < PageCount p + 1" using p by (auto simp: pager_sized_def)
  from collect_ends(1) [OF p this, of "RootPage p"]
  have "(if RootPage p \<noteq> 0 then collectReachablePages (PageCount p + 1) p (RootPage p) {0} else Inr {0}) \<noteq> Inl OutOfFuel"
    by (simp del: collectReachablePages.simps)
  moreover have "fst (bindE (rebuildFreeListFromReachable R) (\<lambda>_. writeMeta) p) \<noteq> Inl OutOfFuel" for R
    using loop [of R "dec64 (PageCount p)" "p\<lparr>freeSet := {}, FreeHead := 0, FreeCount := 0\<rparr>"]
    by (auto simp: bindE_def rebuildFreeListFromReachable_def writeMeta_def split: prod.splits sum.splits)
  ultimately show ?thesis
    by (auto simp: repairPager_def ensureOpen_sized [OF p] metaPageID_def simp del: collectReachablePages.simps
        split: sum.splits)
qed

lemma OpenPager_fuel: "OpenPager limit bs \<noteq> Inl OutOfFuel"
proof -
  have "rebuildLoop p n i fs \<noteq> Inl OutOfFuel" for p n i fs
    by (induction p n i fs rule: rebuildLoop.induct) (auto simp: pageLocked_def)
  hence "fst (rebuildFreeSet p) \<noteq> Inl OutOfFuel" for p by (auto simp: rebuildFreeSet_def split: sum.splits)
  hence "fst (pager_open p) \<noteq> Inl OutOfFuel" for p
    by (auto simp: pager_open_def Let_def bindE_def truncateFile_def mapFile_def writeMeta_def readMeta_def
        split: prod.splits sum.splits if_splits)
  from this [of "initPager limit bs"] show ?thesis
    by (auto simp: OpenPager_def split: prod.splits sum.splits)
qed

end
