(* ===== verification/KV_Props.thy ===== *)
theory KV_Props
  imports KV_Limits KV_Crash Bucket Repair
begin

text \<open>
  The properties of the embedded store: its operations on the value of a database, recovery and
  rollback, the node format, page allocation, and the cases in which it goes wrong.
\<close>

section \<open>A small database\<close>

lemma example_db:
  obtains db where "Open (8 * PageSize) None [] = Inr db" "db_ok db (PLeaf 1 0 [])" "PageCount (dbPager db) = 2"
    "pager_room (dbPager db) = 6"
proof -
  obtain db where "Open (8 * PageSize) None [] = Inr db" "db_ok db (PLeaf (dbRoot db) 0 [])"
    "disk_limit (dbPager db) = 8 * PageSize" "dbRoot db = 1" "live (dbPager db) = {1}" "freeSet (dbPager db) = {}"
    "PageCount (dbPager db) = 2"
    by (rule Open_fresh [of "8 * PageSize"]) (simp_all add: PageSize_def)
  thus thesis by (intro that [of db]) (simp_all add: pager_room_def)
qed

lemma example_put:
  obtains db db' where "db_ok db (PLeaf 1 0 [])" "DB_Put [1] [2] db = (Inr (), db')" "Open (8 * PageSize) None [] = Inr db"
proof -
  obtain db where db: "Open (8 * PageSize) None [] = Inr db" "db_ok db (PLeaf 1 0 [])"
    "PageCount (dbPager db) = 2" "pager_room (dbPager db) = 6" by (rule example_db)
  note d = db_okD [OF db(2)]
  obtain q where q: "BTree_Put pagerStore (PageCount (dbPager db)) 1 [1] [2] (dbPager db) = (Inr (), q)"
    using Put_in_total [OF d(1), of "[1]" "[2]"] db(3,4) by (auto simp: small_kvs_def)
  obtain t' where "tree_in q t'" by (rule Put_in [OF d(1)]) (use q in auto)
  hence "pager_inv q" by (simp add: tree_in_def)
  hence "DB_Put [1] [2] db = (Inr (), db\<lparr>dbPager := q, dbWal := None\<rparr>)"
    using q d(3,6) by (simp add: DB_Put_def Update_commit Tx_Put_def)
  thus thesis using db(1,2) that by blast
qed

section \<open>The store as an ordered map\<close>

text \<open>C4. When \<open>Put\<close> succeeds on a database with the value \<open>kvs t\<close>, the database afterwards has the
  value with the key updated: the key reads as the new value and every other key as before.\<close>

theorem DB_Put_Get:
  assumes "db_ok db t" "DB_Put k v db = (Inr u, db')"
  shows "(\<exists>t'. db_ok db' t' \<and> kvs t' = kv_upd k v (kvs t)) \<and> DB_Get k db' = Inr (Some v)
    \<and> (\<forall>k'. k' \<noteq> [] \<and> k' \<noteq> k \<longrightarrow> DB_Get k' db' = DB_Get k' db)"
proof -
  obtain t' where t': "db_ok db' t'" "kvs t' = kv_upd k v (kvs t)" "linked (leaves t) 0 \<longrightarrow> linked (leaves t') 0"
      "disk_limit (dbPager db') = disk_limit (dbPager db)" "root_wide t \<longrightarrow> root_wide t'"
    by (rule DB_Put_post [OF assms])
  have so: "kv_sorted (kvs t)" using db_okD(1) [OF assms(1)] root_ok_sorted by (auto simp: tree_in_def)
  have k: "k \<noteq> []"
  proof
    assume "k = []"
    hence "Tx_Put \<lparr>txRoot = dbRoot db, txWritable = True\<rparr> k v (dbPager db) = (Inl KeyRequired, dbPager db)"
      by (simp add: Tx_Put_def BTree_Put_def)
    thus False using assms(2) db_okD(6) [OF assms(1)]
      by (auto simp: DB_Put_def Update_def Let_def split: prod.splits sum.splits)
  qed
  have "DB_Get k db' = Inr (Some v)" using DB_Get_ok [OF t'(1) k] by (simp add: t'(2) map_of_kv_upd [OF so])
  moreover have "DB_Get k' db' = DB_Get k' db" if "k' \<noteq> []" "k' \<noteq> k" for k'
    using DB_Get_ok [OF t'(1) that(1)] DB_Get_ok [OF assms(1) that(1)] that(2)
    by (simp add: t'(2) map_of_kv_upd [OF so])
  ultimately show ?thesis using t'(1,2) by blast
qed

lemma DB_Put_Get_witness:
  "\<exists>db db'. db_ok db (PLeaf 1 0 []) \<and> DB_Put [1] [2] db = (Inr (), db') \<and> DB_Get [1] db' = Inr (Some [2])"
proof -
  obtain db db' where db: "db_ok db (PLeaf 1 0 [])" "DB_Put [1] [2] db = (Inr (), db')"
    "Open (8 * PageSize) None [] = Inr db" by (rule example_put)
  from DB_Put_Get [OF db(1,2)] db show ?thesis by blast
qed

text \<open>C5. \<open>Put\<close> succeeds when every pair of the database and the new pair take at most 171 bytes and
  the disk has room for as many pages again as the file has, and two.\<close>

theorem DB_Put_succeeds:
  assumes "db_ok db t" "small_kvs (kvs t)" "k \<noteq> []" "length k + length v \<le> 171"
    "PageCount (dbPager db) + 2 < pager_room (dbPager db)"
  shows "\<exists>db'. DB_Put k v db = (Inr (), db')"
proof -
  note d = db_okD [OF assms(1)]
  obtain q where q: "BTree_Put pagerStore (PageCount (dbPager db)) (tid t) k v (dbPager db) = (Inr (), q)"
    using Put_in_total [OF d(1) assms(3,2,4,5)] by blast
  obtain t' where "tree_in q t'" by (rule Put_in [OF d(1) q])
  hence "pager_inv q" by (simp add: tree_in_def)
  thus ?thesis using q d(3,6) by (simp add: DB_Put_def Update_commit Tx_Put_def)
qed

lemma DB_Put_succeeds_witness:
  "\<exists>db db'. Open (8 * PageSize) None [] = Inr db \<and> DB_Put [1] [2] db = (Inr (), db')"
proof -
  obtain db where db: "Open (8 * PageSize) None [] = Inr db" "db_ok db (PLeaf 1 0 [])"
    "PageCount (dbPager db) = 2" "pager_room (dbPager db) = 6" by (rule example_db)
  have "\<exists>db'. DB_Put [1] [2] db = (Inr (), db')"
    by (rule DB_Put_succeeds [OF db(2)]) (simp_all add: small_kvs_def db(3,4))
  thus ?thesis using db(1) by blast
qed

text \<open>C6. When \<open>Delete\<close> succeeds on a database whose root is a leaf or has two children, the database
  afterwards has the value without the key: the key is absent and every other key reads as before.\<close>

theorem DB_Delete_Get:
  assumes "db_ok db t" "root_wide t" "DB_Delete k db = (Inr u, db')" "k \<noteq> []"
  shows "(\<exists>t'. db_ok db' t' \<and> kvs t' = kv_del k (kvs t)) \<and> DB_Get k db' = Inr None
    \<and> (\<forall>k'. k' \<noteq> [] \<and> k' \<noteq> k \<longrightarrow> DB_Get k' db' = DB_Get k' db)"
proof -
  obtain t' where t': "db_ok db' t'" "kvs t' = kv_del k (kvs t)" "disk_limit (dbPager db') = disk_limit (dbPager db)"
    by (rule DB_Delete_post [OF assms(1-3)])
  have "DB_Get k db' = Inr None" using DB_Get_ok [OF t'(1) assms(4)] by (simp add: t'(2) map_of_kv_del)
  moreover have "DB_Get k' db' = DB_Get k' db" if "k' \<noteq> []" "k' \<noteq> k" for k'
    using DB_Get_ok [OF t'(1) that(1)] DB_Get_ok [OF assms(1) that(1)] that(2)
    by (simp add: t'(2) map_of_kv_del)
  ultimately show ?thesis using t'(1,2) by blast
qed

lemma example_delete:
  obtains db t db' where "db_ok db t" "root_wide t" "key_len 1 (kvs t)" "DB_Delete [1] db = (Inr (), db')"
proof -
  obtain db0 db where db: "db_ok db0 (PLeaf 1 0 [])" "DB_Put [1] [2] db0 = (Inr (), db)"
    "Open (8 * PageSize) None [] = Inr db0" by (rule example_put)
  obtain t where t: "db_ok db t" "kvs t = kv_upd [1] [2] (kvs (PLeaf 1 0 []))"
    "linked (leaves (PLeaf 1 0 [])) 0 \<longrightarrow> linked (leaves t) 0" "disk_limit (dbPager db) = disk_limit (dbPager db0)"
    "root_wide (PLeaf 1 0 []) \<longrightarrow> root_wide t"
    by (rule DB_Put_post [OF db(1,2)])
  have len: "key_len 1 (kvs t)" using t(2) by (simp add: kv_simps key_len_def)
  have wide: "root_wide t" using t(5) by (simp add: root_wide_def)
  note d = db_okD [OF t(1)]
  obtain q where q: "BTree_Delete pagerStore (PageCount (dbPager db)) (tid t) [1] (dbPager db) = (Inr (), q)"
    using Delete_in_total [OF d(1) wide _ len, of "[1]"] by blast
  obtain t' where "tree_in q t'" by (rule Delete_in [OF d(1) wide q])
  hence "pager_inv q" by (simp add: tree_in_def)
  hence "DB_Delete [1] db = (Inr (), db\<lparr>dbPager := q, dbWal := None\<rparr>)"
    using q d(3,6) by (simp add: DB_Delete_def Update_commit Tx_Delete_def)
  thus thesis using t(1) wide len that by blast
qed

lemma DB_Delete_Get_witness:
  "\<exists>db t db'. db_ok db t \<and> root_wide t \<and> DB_Delete [1] db = (Inr (), db') \<and> DB_Get [1] db' = Inr None"
proof -
  obtain db t db' where db: "db_ok db t" "root_wide t" "key_len 1 (kvs t)" "DB_Delete [1] db = (Inr (), db')"
    by (rule example_delete)
  from DB_Delete_Get [OF db(1,2,4)] db show ?thesis by blast
qed

text \<open>\<open>Delete\<close> succeeds on such a database when its keys have one length.\<close>

theorem DB_Delete_succeeds:
  assumes "db_ok db t" "root_wide t" "key_len n (kvs t)" "k \<noteq> []"
  shows "\<exists>db'. DB_Delete k db = (Inr (), db')"
proof -
  note d = db_okD [OF assms(1)]
  obtain q where q: "BTree_Delete pagerStore (PageCount (dbPager db)) (tid t) k (dbPager db) = (Inr (), q)"
    using Delete_in_total [OF d(1) assms(2,4,3)] by blast
  obtain t' where "tree_in q t'" by (rule Delete_in [OF d(1) assms(2) q])
  hence "pager_inv q" by (simp add: tree_in_def)
  thus ?thesis using q d(3,6) by (simp add: DB_Delete_def Update_commit Tx_Delete_def)
qed

lemma DB_Delete_succeeds_witness:
  "\<exists>db t db'. db_ok db t \<and> DB_Delete [7] db = (Inr (), db')"
proof -
  obtain db t db' where db: "db_ok db t" "root_wide t" "key_len 1 (kvs t)" "DB_Delete [1] db = (Inr (), db')"
    by (rule example_delete)
  from DB_Delete_succeeds [OF db(1-3), of "[7]"] db show ?thesis by auto
qed

text \<open>C7. On a database whose leaves are linked, \<open>Put\<close> keeps the links, and a scan afterwards sees
  exactly the pairs of the updated value within the range, in key order.\<close>

theorem DB_Put_Scan:
  assumes "db_ok db t" "linked (leaves t) 0" "DB_Put k v db = (Inr u, db')"
  shows "\<exists>t'. db_ok db' t' \<and> linked (leaves t') 0
    \<and> View (\<lambda>x. Tx_Scan x start stop) db' = Inr (filter (\<lambda>p. in_range start stop (fst p)) (kv_upd k v (kvs t)))"
proof -
  obtain t' where t': "db_ok db' t'" "kvs t' = kv_upd k v (kvs t)" "linked (leaves t) 0 \<longrightarrow> linked (leaves t') 0"
      "disk_limit (dbPager db') = disk_limit (dbPager db)" "root_wide t \<longrightarrow> root_wide t'"
    by (rule DB_Put_post [OF assms(1,3)])
  hence "linked (leaves t') 0" using assms(2) by blast
  with Scan_in [OF db_okD(1) [OF t'(1)] this, of start stop] t'(1,2) db_okD(3,6) [OF t'(1)] show ?thesis
    by (auto simp: View_def Tx_Scan_def)
qed

lemma DB_Put_Scan_witness:
  "\<exists>db db'. db_ok db (PLeaf 1 0 []) \<and> linked (leaves (PLeaf 1 0 [])) 0 \<and> DB_Put [1] [2] db = (Inr (), db')
    \<and> View (\<lambda>x. Tx_Scan x [1] None) db' = Inr [([1], [2])]"
proof -
  obtain db db' where db: "db_ok db (PLeaf 1 0 [])" "DB_Put [1] [2] db = (Inr (), db')"
    "Open (8 * PageSize) None [] = Inr db" by (rule example_put)
  have l: "linked (leaves (PLeaf 1 0 [])) 0" by simp
  from DB_Put_Scan [OF db(1) l db(2), of "[1]" None] db l show ?thesis
    by (auto simp: kv_simps in_range_def)
qed

section \<open>Durability and atomicity\<close>

text \<open>C8. A transaction is atomic under crashes: when it takes the database \<open>db\<close> to the database
  \<open>db'\<close>, then in every disk state that its file-system steps, the steps of the recovery and
  crashes between them can produce, opening the database gives \<open>db\<close> or \<open>db'\<close>.\<close>

theorem crash_atomic:
  assumes "db_ok db t" "Update fn db = (Inr x, db')" "db_ok db' t'" "disk_limit (dbPager db') = disk_limit (dbPager db)"
    "disk_reach (contents (dbPager db)) (contents (dbPager db')) d"
  shows "Open (disk_limit (dbPager db)) (wal d) (dbFile d) \<in> {Inr db, Inr db'}"
proof -
  have "wal d = Some (writeRollbackWAL (contents (dbPager db)))
      \<or> wal d = None \<and> (dbFile d = contents (dbPager db) \<or> dbFile d = contents (dbPager db'))"
    using disk_reach_inv [OF assms(5)] by (simp add: disk_inv_def)
  thus ?thesis using Open_again(1) [OF assms(1)] Open_again(2) [OF assms(1), of "dbFile d"] Open_again(1) [OF assms(3)] assms(4)
    by (elim disjE conjE) simp_all
qed

lemma crash_atomic_witness:
  "\<exists>db db'. db_ok db (PLeaf 1 0 []) \<and> DB_Put [1] [2] db = (Inr (), db')
    \<and> Open (disk_limit (dbPager db)) (Some (writeRollbackWAL (contents (dbPager db)))) [1, 2, 3] \<in> {Inr db, Inr db'}"
proof -
  obtain db db' where db: "db_ok db (PLeaf 1 0 [])" "DB_Put [1] [2] db = (Inr (), db')"
    "Open (8 * PageSize) None [] = Inr db" by (rule example_put)
  obtain t' where t': "db_ok db' t'" "disk_limit (dbPager db') = disk_limit (dbPager db)"
    by (rule DB_Put_post [OF db(1,2)])
  let ?old = "contents (dbPager db)" and ?new = "contents (dbPager db')"
  let ?d = "\<lparr>phase = Logging, walTmp = None, wal = None, recovering = None, dbFile = ?old\<rparr>"
  let ?l = "writeRollbackWAL ?old"
  have "disk_reach ?old ?new (?d\<lparr>walTmp := Some ?l\<rparr>)"
    by (rule disk_reach.step [OF disk_reach.start], rule disk_step.write_log) simp
  hence "disk_reach ?old ?new (?d\<lparr>phase := Running, wal := Some ?l\<rparr>)"
    by (rule disk_reach.step) (use disk_step.rename_log [of "?d\<lparr>walTmp := Some ?l\<rparr>" ?old ?new] in simp)
  hence "disk_reach ?old ?new (?d\<lparr>phase := Running, wal := Some ?l, dbFile := [1, 2, 3]\<rparr>)"
    by (rule disk_reach.step)
      (use disk_step.write_pages [of "?d\<lparr>phase := Running, wal := Some ?l\<rparr>" ?old ?new "[1, 2, 3]"] in simp)
  from crash_atomic [OF db(1) db(2) [unfolded DB_Put_def] t' this]
  have "Open (disk_limit (dbPager db)) (Some ?l) [1, 2, 3] \<in> {Inr db, Inr db'}" by simp
  thus ?thesis using db(1,2) by blast
qed

text \<open>Opening the file of a database without a log gives the same database.\<close>

theorem Open_reopens:
  assumes "db_ok db t"
  shows "Open (disk_limit (dbPager db)) None (contents (dbPager db)) = Inr db"
  by (rule Open_again(1) [OF assms])

lemma Open_reopens_witness:
  "\<exists>db. db_ok db (PLeaf 1 0 []) \<and> Open (disk_limit (dbPager db)) None (contents (dbPager db)) = Inr db"
proof -
  obtain db where db: "Open (8 * PageSize) None [] = Inr db" "db_ok db (PLeaf 1 0 [])"
    "PageCount (dbPager db) = 2" "pager_room (dbPager db) = 6" by (rule example_db)
  from Open_reopens [OF db(2)] db(2) show ?thesis by blast
qed

text \<open>C9. A transaction that fails leaves the database as it was, pages and metadata included,
  provided the pager it leaves can still be closed.\<close>

theorem Update_rolls_back:
  assumes "db_ok db t" "fn \<lparr>txRoot = dbRoot db, txWritable = True\<rparr> (dbPager db) = (Inl e, p)"
    "Close p = (Inr u, p')" "disk_limit p = disk_limit (dbPager db)"
  shows "Update fn db = (Inl e, db)"
  using rollback_restores [OF assms(1,3,4)] assms(2) db_okD(6) [OF assms(1)]
  by (simp add: Update_def Let_def)

lemma Update_rolls_back_witness:
  "\<exists>db. db_ok db (PLeaf 1 0 []) \<and> DB_Put [] [1] db = (Inl KeyRequired, db)"
proof -
  obtain db where db: "Open (8 * PageSize) None [] = Inr db" "db_ok db (PLeaf 1 0 [])"
    "PageCount (dbPager db) = 2" "pager_room (dbPager db) = 6" by (rule example_db)
  note d = db_okD [OF db(2)]
  have "Tx_Put \<lparr>txRoot = dbRoot db, txWritable = True\<rparr> [] [1] (dbPager db) = (Inl KeyRequired, dbPager db)"
    by (simp add: Tx_Put_def BTree_Put_def)
  moreover have "\<not> closed (dbPager db)" using pager_invD(2) [OF d(2)] by (simp add: pager_sized_def)
  hence "Close (dbPager db) = (Inr (), (unmap (dbPager db))\<lparr>closed := True\<rparr>)"
    using writeMeta_id [OF d(2)] by (simp add: Close_def)
  ultimately show ?thesis
    using Update_rolls_back [of db "PLeaf 1 0 []" "\<lambda>x. Tx_Put x [] [1]" KeyRequired "dbPager db"] db(2)
    by (auto simp: DB_Put_def)
qed

section \<open>Repair\<close>



text \<open>\<open>Repair\<close> ends on every file: the search for reachable pages, run with a fuel of one more
  than the number of pages of the file, never runs out of it.\<close>

theorem Repair_ends:
  assumes "length bs \<le> limit" "limit < 2 ^ 63"
  shows "fst (Repair limit None bs) \<noteq> Inl OutOfFuel"
proof (cases "OpenPager limit bs")
  case (Inl e)
  thus ?thesis using OpenPager_fuel [of limit bs] by (simp add: Repair_def)
next
  case (Inr p)
  thus ?thesis using repairPager_ends [OF OpenPager_sized [OF Inr assms]]
    by (cases "repairPager p") (simp add: Repair_def)
qed

lemma Repair_ends_witness: "fst (Repair PageSize None [1, 2, 3]) \<noteq> Inl OutOfFuel"
  by (rule Repair_ends) (simp_all add: PageSize_def)

section \<open>Buckets\<close>

text \<open>C13. Buckets do not share keys: after a successful \<open>Put\<close> in the bucket at one path, the key
  reads as the new value there, and every other key of this bucket and every key of the bucket
  at another path reads as before.\<close>

theorem Bucket_Put_Get:
  assumes "tree_in p t" "txRoot tx = tid t" "openPath tx path = Inr b" "Bucket_Put b k v p = (Inr u, q)"
    "openPath tx path' = Inr b'"
  shows "Bucket_Get b' k' q = (if path' = path \<and> k' = k then Inr (Some v) else Bucket_Get b' k' p)"
proof -
  note b = openPath_prefix [OF assms(3)] and b' = openPath_prefix [OF assms(5)]
  obtain t' where t': "tree_in q t'" "tid t' = tid t" "kvs t' = kv_upd (bPrefix b @ k) v (kvs t)" "label k"
    by (rule Bucket_Put_in [OF assms(1) _ assms(4)]) (use b(1) assms(2) in simp_all)
  have so: "kv_sorted (kvs t)" using assms(1) root_ok_sorted by (auto simp: tree_in_def)
  have same: "bPrefix b' @ k' = bPrefix b @ k \<longleftrightarrow> path' = path \<and> k' = k" if "label k'"
    using pathPrefix_inj [OF b'(4) b(4) that t'(4)] b(2) b'(2) by auto
  have "Bucket_Get b' k' p = (if label k' then Inr (map_of (kvs t) (bPrefix b' @ k')) else Inl InvalidBucketKey)"
    by (rule Bucket_Get_in [OF assms(1)]) (use b'(1) assms(2) in simp)
  moreover have "Bucket_Get b' k' q = (if label k' then Inr (map_of (kvs t') (bPrefix b' @ k')) else Inl InvalidBucketKey)"
    by (rule Bucket_Get_in [OF t'(1)]) (use b'(1) assms(2) t'(2) in simp)
  ultimately show ?thesis using same t'(3,4) map_of_kv_upd [OF so] by auto
qed

lemma example_bucket:
  obtains db b q where "db_ok db (PLeaf 1 0 [])" "openPath \<lparr>txRoot = 1, txWritable = True\<rparr> [[1]] = Inr b"
    "Bucket_Put b [5] [6] (dbPager db) = (Inr (), q)"
proof -
  obtain db where db: "Open (8 * PageSize) None [] = Inr db" "db_ok db (PLeaf 1 0 [])"
    "PageCount (dbPager db) = 2" "pager_room (dbPager db) = 6" by (rule example_db)
  let ?b = "\<lparr>bTx = \<lparr>txRoot = 1, txWritable = True\<rparr>, bPrefix = [1, 0]\<rparr>"
  have b: "openPath \<lparr>txRoot = 1, txWritable = True\<rparr> [[1]] = Inr ?b"
    by (simp add: Tx_Bucket_def bucketPrefix_def bucketSeparator_def)
  obtain q where "BTree_Put pagerStore (PageCount (dbPager db)) 1 [1, 0, 5] [6] (dbPager db) = (Inr (), q)"
    using Put_in_total [OF db_okD(1) [OF db(2)], of "[1, 0, 5]" "[6]"] db(3,4) by (auto simp: small_kvs_def)
  hence "Bucket_Put ?b [5] [6] (dbPager db) = (Inr (), q)" by (simp add: Bucket_Put_def Bucket_key_def Tx_Put_def)
  thus thesis using that db(2) b by blast
qed

lemma Bucket_Put_Get_witness:
  "\<exists>p q b b'. tree_in p (PLeaf 1 0 []) \<and> openPath \<lparr>txRoot = 1, txWritable = True\<rparr> [[1]] = Inr b
    \<and> openPath \<lparr>txRoot = 1, txWritable = True\<rparr> [[1], [2]] = Inr b'
    \<and> Bucket_Put b [5] [6] p = (Inr (), q) \<and> Bucket_Get b [5] q = Inr (Some [6])
    \<and> Bucket_Get b' [5] q = Bucket_Get b' [5] p"
proof -
  obtain db b q where db: "db_ok db (PLeaf 1 0 [])" "openPath \<lparr>txRoot = 1, txWritable = True\<rparr> [[1]] = Inr b"
    "Bucket_Put b [5] [6] (dbPager db) = (Inr (), q)" by (rule example_bucket)
  obtain b' where b': "openPath \<lparr>txRoot = 1, txWritable = True\<rparr> [[1], [2]] = Inr b'"
    by (simp add: Tx_Bucket_def Bucket_Bucket_def)
  note p = db_okD(1) [OF db(1)]
  have "Bucket_Get b [5] q = Inr (Some [6])" using Bucket_Put_Get [OF p _ db(2,3,2), of "[5]"] by simp
  moreover have "Bucket_Get b' [5] q = Bucket_Get b' [5] (dbPager db)" using Bucket_Put_Get [OF p _ db(2,3) b', of "[5]"] by simp
  ultimately show ?thesis using p db(2,3) b' by blast
qed

text \<open>A scan of a bucket from a key onwards, on a tree whose leaves are linked, sees exactly the
  pairs whose full key has the prefix of the bucket and is not below the first key, in key
  order, with the prefix removed. The pairs of nested buckets are among them.\<close>

theorem Bucket_scan_all:
  assumes "tree_in p t" "linked (leaves t) 0" "txRoot tx = tid t" "openPath tx path = Inr b" "label start"
  shows "Bucket_scanAll b start None p = Inr (map (\<lambda>kv. (drop (length (pathPrefix path)) (fst kv), snd kv))
    (filter (\<lambda>kv. pathPrefix path @ start \<le> fst kv \<and> take (length (pathPrefix path)) (fst kv) = pathPrefix path) (kvs t)))"
  using Bucket_scanAll_in [OF assms(1,2) _ assms(5), of b] openPath_prefix(1,2) [OF assms(4)] assms(3) by simp

lemma Bucket_scan_all_witness:
  "\<exists>q t b. tree_in q t \<and> linked (leaves t) 0 \<and> openPath \<lparr>txRoot = tid t, txWritable = True\<rparr> [[1]] = Inr b
    \<and> Bucket_scanAll b [1] None q = Inr [([5], [6])]"
proof -
  obtain db b q where db: "db_ok db (PLeaf 1 0 [])" "openPath \<lparr>txRoot = 1, txWritable = True\<rparr> [[1]] = Inr b"
    "Bucket_Put b [5] [6] (dbPager db) = (Inr (), q)" by (rule example_bucket)
  note b = openPath_prefix [OF db(2)]
  obtain t' where t': "tree_in q t'" "tid t' = tid (PLeaf 1 0 [])" "kvs t' = kv_upd (bPrefix b @ [5]) [6] (kvs (PLeaf 1 0 []))"
      "label [5]" "linked (leaves (PLeaf 1 0 [])) 0 \<longrightarrow> linked (leaves t') 0"
    by (rule Bucket_Put_in [OF db_okD(1) [OF db(1)] _ db(3)]) (use b(1) in simp_all)
  have l: "linked (leaves t') 0" "openPath \<lparr>txRoot = tid t', txWritable = True\<rparr> [[1]] = Inr b" using t'(2,5) db(2) by simp_all
  have "label [1]" by (simp add: label_def)
  from Bucket_scan_all [OF t'(1) l(1) _ l(2) this] b(2)
  have "Bucket_scanAll b [1] None q = Inr [([5], [6])]" by (simp add: t'(3) kv_simps)
  thus ?thesis using t'(1) l by blast
qed

end
