(* ===== verification/FastCDC.thy ===== *)
theory FastCDC
  imports Prelude
begin

text \<open>
  Content-defined chunking (\<open>internal/chunk/fastcdc.go\<close> and \<open>gear.go\<close>): the stream is read
  into a buffer of at most \<open>maxSize\<close> bytes, a rolling hash over the buffer finds the next
  boundary, and the bytes up to it go to the callback as one chunk.

  The reader is a parameter: a function from the limit of a \<open>Read\<close> to the bytes read, the
  error value and the reader afterwards. What a reader promises is the locale \<open>io_reader\<close>,
  which the readers over a byte slice satisfy.

  Shown here: the chunks of a stream are the chunks \<open>cuts\<close> of its content, whatever the sizes
  of the reads; they concatenate to the content, their sizes are within the bounds, and appending
  to a stream changes no chunk that lies more than \<open>maxSize\<close> bytes before its old end.
\<close>

section \<open>The gear table\<close>

text \<open>The literal of the array lists 180 values; the other 76 elements are zero.\<close>

definition gearLiteral :: "64 word list" where
  "gearLiteral = [
    0x3da2d746e143c8b7, 0xb4d12f1a6c96a55f, 0x7f6ad3c8d9e73a19, 0x1c9f125e42b1d897,
    0x9028c33b0a95d4dd, 0x6ce0890f2f61f4ab, 0xdd0e3f63b2a56c4d, 0x48e7c0a37fbb2f11,
    0x07a4b7d92763f5e3, 0xe7f2d15c34981a0f, 0x5f9172e0c9d8b2a7, 0xa8ce31f719406d5b,
    0x2c014b879a64d3ef, 0xca37e8f5b0129d43, 0x81f49a6c2d7e05b1, 0x19e5d3a8f607bc4f,
    0xf1a6540c98b2e73d, 0x6a30d2bf4c8915e7, 0x4379e1a5bdc0682f, 0xc0927f6b4d3a81e5,
    0x2fa18c7e934bd560, 0xb7d40359e81a6c2f, 0x74be2d19c60f8a35, 0x0de6f8492c5173ab,
    0x9a58b3e1d7420fc6, 0x51c73f0e8a29d4b5, 0xe36d9b1257a0c84f, 0x3b0f5a6c91d2e748,
    0xac852e1f6b49d307, 0x65d7c3a84f109b2e, 0x0f2b8d94e751c6a3, 0xd94017b6c85e2f3a,
    0x8c1f63a0d2b7e945, 0x14d9e27b6f50a3c8, 0xf605c9a12e3b47d8, 0x6b7a30d4c981f25e,
    0x20e8b5f73c16d49a, 0xb3160a8e4d7c95f2, 0x7dc5e92a0f48b631, 0x04a6f3d91b7e2c85,
    0x9f73c0d48b251ae6, 0x56a1e8b03d9c742f, 0xe0c49f715a2d8b36, 0x3d7b2e0c96f1a548,
    0xa713d58e402f9c6b, 0x6ef02b947c1a35d8, 0x078d4c3bfa6192e5, 0xd2b96e1f508a4c73,
    0x8a40f7c2d31e9b56, 0x12e5a8b7c06d3f94, 0xf84c317e9a25d60b, 0x617e0db593c8a24f,
    0x2b95c6f01e7d438a, 0xb0e3a74d8f215c96, 0x79c12f6a30d4e8b5, 0x0176d9c48b3e5a2f,
    0x9c2a4f81d7e063b5, 0x54f8b1c62d0e9a37, 0xeb0d639f27a4c185, 0x35a7e2d90f6b4c81,
    0xa0c516f8b43d7e92, 0x68f3d0a5c91e2b47, 0x0b4e97c2f51a6d38, 0xd7c0a35e8b249f61,
    0x83f6b14d0e7a29c5, 0x1e2d8c7b504fa693, 0xf3a90e6c2b7d4518, 0x6d481f95c0e3a7b2,
    0x25f0c7a91d4e83b6, 0xbd6a12e50f9c7348, 0x7043d8f6a1b92c5e, 0x0a9b5e37c2f0d614,
    0x9517c4e0b86a3d2f, 0x5dca2f7194e06b38, 0xe945b0c68f3d1a27, 0x30f7a1d5c29e846b,
    0xab2e6c03f8d49175, 0x6390d7b41e5a2fc8, 0x09c81f6e35a7d204, 0xd40f73a9c25e81b6,
    0x8e73d1b604f9a25c, 0x16b5a8e2d70c3f91, 0xfb2c0d69a84f1735, 0x6381e4b7c0d29f5a,
    0x2d5a9c10e7b63f84, 0xb62f71d8a3c04e95, 0x7e91c43f0a6d25b8, 0x06d3b8a59f4c710e,
    0x91e0c62a7d3b58f4, 0x59a4f1d8c70e2b63, 0xe27d06b3f9a14c58, 0x3ac9e5f0176b2d84,
    0xa5f14b7e302c9d68, 0x6f3c90a5d8e2174b, 0x0875e2c1b69f4a30, 0xd1a46f8b03c9e572,
    0x8b29f0d74e1a63c5, 0x13c6a95e20f7d4b8, 0xfc0e3b71a6d24985, 0x64b7d8a30f1e95c2,
    0x2f0c85d6b31a7e49, 0xb8174a93e0d6c25f, 0x73d9e2b0f64c1a85, 0x0c5e71a8d3f902b6,
    0x97a3d0e54c8b216f, 0x5e1f8c72b0a6d493, 0xe6c40b9f351a7d28, 0x31b7f2d08e6c954a,
    0xa9d05c7e138b6f24, 0x629e3a0fb5d7c841, 0x0e4b81c6d2f07a95, 0xd6f39a14c82e70b5,
    0x80a7e5d13f4c9b62, 0x18f2b6c90d7a43e5, 0xf5c81e3a62b7d094, 0x6c4d90f7b1e32a85,
    0x24e7b3c01d9f586a, 0xbe1a6d94c3f02758, 0x76c5f018a9d3e42b, 0x00f48b6d27c9a531,
    0x9b6e20d5f8a1437c, 0x53a1d7c40e9f6b82, 0xec7b3901a5d84f26, 0x34d0e6b7c19a258f,
    0xaf08c3d5e7419b62, 0x67b52f0a9e3d8c41, 0x0d1f84c6b72a935e, 0xd8e3a7094c1f6b25,
    0x826f1d95e0b4c73a, 0x1a94c8b30f6d2e57, 0xf02b7e51d8a3c694, 0x6a5d0f83c1e7b249,
    0x22c9a6f07d3b5e81, 0xba704d1e95c2f638, 0x75e2b90c4f18a6d3, 0x0f8a37d6b1c5e204,
    0x90d4f16b8a35c7e2, 0x58b0a7e3d29f4c61, 0xe1f6930d5c87a24b, 0x3c85d2f0a64e1b79,
    0xa6137e9c20d5f84b, 0x6ed8a40f7b1c9352, 0x074c1f96d3e8b25a, 0xd3a50e7b29c6f814,
    0x8d7e2b04f1a693c5, 0x1543c9f6a0d72e8b, 0xf9d6a107c4e82b35, 0x613b8e5d20f7a4c9,
    0x2a8f13c7e5d0b694, 0xb42d7a90c6f1385e, 0x7c61e4b309a5d2f8, 0x05b7c2e8f0149a6d,
    0x9e0a6f35d8b2c741, 0x55c3d9187e0f4a6b, 0xe873a5c02d9f1b46, 0x32f1b70e6c4d95a8,
    0xad4c890f2e7b1365, 0x6540f7d3a9c18e2b, 0x0a2e6b91d4f8c573, 0xd5b7c40e8a2f1963,
    0x8f1a53d7c0e6b924, 0x17e6c92b4f0a3d85, 0xfa3d0b6e91c7f258, 0x62c814f7a30d9e5b,
    0x2c75e0a6d9b31f84, 0xb5f03c8a1e7d2496, 0x7f2a6d91c4e0b538, 0x08d5b3f70a6c1e49,
    0x93c0e51a7f4d86b2, 0x5b6d28f0c3a91e74, 0xe4a1c7d53f0b6892, 0x3f0e92b6d8a45c17,
    0xa8b5d31f6c0e9472, 0x60f79a42d5c81e3b, 0x0c3a81e6b7d40f95, 0xd7e0b51c9a3f6824,
    0x81c49f7a20e6d35b, 0x19a7e3d0f58b4c26, 0xf4e2196b83c0d75a, 0x6e0b5c37a1f8d294]"

definition gearTable :: "64 word list" where
  "gearTable = gearLiteral @ replicate 76 0"

section \<open>The chunker\<close>

datatype chunk_error =
    MinSizeNotPositive
  | AverageBelowMin
  | MaxBelowAverage
  | ReadFailed nat
  | CallbackFailed nat
  | OutOfRounds

record fastcdc =
  minSize :: nat
  avgSize :: nat
  maxSize :: nat
  mask :: "64 word"

record chunk =
  Offset :: nat
  Size :: nat
  Data :: bytes

definition DefaultMinSize :: nat where "DefaultMinSize = 512 * 1024"

definition DefaultAverageSize :: nat where "DefaultAverageSize = 2 * 1024 * 1024"

definition DefaultMaxSize :: nat where "DefaultMaxSize = 8 * 1024 * 1024"

text \<open>The loop \<open>for size := 1; size < avg; size <<= 1\<close>; sizes stay below \<open>2 ^ 62\<close>.\<close>

function maskBits :: "nat \<Rightarrow> nat \<Rightarrow> nat" where
  "maskBits sz avg = (if 0 < sz \<and> sz < avg then Suc (maskBits (2 * sz) avg) else 0)"
  by auto

termination by (relation "measure (\<lambda>(sz, avg). avg - sz)") auto

declare maskBits.simps [simp del]

definition maskForAverage :: "nat \<Rightarrow> 64 word" where
  "maskForAverage avg = (let bits = maskBits 1 avg in if bits = 0 then 0 else 2 ^ bits - 1)"

definition NewFastCDC :: "int \<Rightarrow> int \<Rightarrow> int \<Rightarrow> chunk_error + fastcdc" where
  "NewFastCDC mn avg mx =
     (if mn \<le> 0 then Inl MinSizeNotPositive
      else if avg < mn then Inl AverageBelowMin
      else if mx < avg then Inl MaxBelowAverage
      else Inr \<lparr>minSize = nat mn, avgSize = nat avg, maxSize = nat mx, mask = maskForAverage (nat avg)\<rparr>)"

definition NewDefaultFastCDC :: fastcdc where
  "NewDefaultFastCDC =
     \<lparr>minSize = DefaultMinSize, avgSize = DefaultAverageSize, maxSize = DefaultMaxSize,
      mask = maskForAverage DefaultAverageSize\<rparr>"

function boundaryLoop :: "fastcdc \<Rightarrow> bytes \<Rightarrow> nat \<Rightarrow> nat \<Rightarrow> 64 word \<Rightarrow> nat" where
  "boundaryLoop c bs limit i fp =
     (if i < limit then
        (let fp' = push_bit 1 fp + gearTable ! unat (bs ! i) in
         if avgSize c div 2 \<le> i \<and> and fp' (mask c) = 0 then i + 1
         else boundaryLoop c bs limit (i + 1) fp')
      else limit)"
  by auto

termination by (relation "measure (\<lambda>(c, bs, limit, i, fp). limit - i)") auto

declare boundaryLoop.simps [simp del]

definition boundary :: "fastcdc \<Rightarrow> bytes \<Rightarrow> nat" where
  "boundary c bs =
     (if length bs \<le> minSize c then length bs
      else
        let limit = (if length bs > maxSize c then maxSize c else length bs)
        in boundaryLoop c bs limit (minSize c) 0)"

section \<open>Reading and splitting\<close>

text \<open>The error value of a \<open>Read\<close>: nil, \<open>io.EOF\<close> or another error.\<close>

datatype read_err = NoErr | EOF | ReadErr nat

type_synonym 'r read_fn = "nat \<Rightarrow> 'r \<Rightarrow> (bytes \<times> read_err) \<times> 'r"

definition scratchSize :: nat where
  "scratchSize = 64 * 1024"

text \<open>The inner loop: fill the buffer. The result says whether the end was seen.\<close>

function fillBuf :: "'r read_fn \<Rightarrow> fastcdc \<Rightarrow> bytes \<Rightarrow> bool \<Rightarrow> 'r \<Rightarrow> (chunk_error + bytes \<times> bool) \<times> 'r" where
  "fillBuf rd c buf eof r =
     (if \<not> eof \<and> length buf < maxSize c then
        (let remaining = maxSize c - length buf;
             limit = (if remaining < scratchSize then remaining else scratchSize)
         in case rd limit r of ((bs, e), r') \<Rightarrow>
              (case e of
                 EOF \<Rightarrow> (Inr (buf @ bs, True), r')
               | ReadErr n \<Rightarrow> (Inl (ReadFailed n), r')
               | NoErr \<Rightarrow> if bs = [] then (Inr (buf, False), r') else fillBuf rd c (buf @ bs) False r'))
      else (Inr (buf, eof), r))"
  by pat_completeness auto

termination
  by (relation "measure (\<lambda>(rd, c, buf, eof, r). maxSize c - length buf)") (auto simp: neq_Nil_conv)

declare fillBuf.simps [simp del]

text \<open>The outer loop. The callback works on a state of its own; a reader may be endless, so the
  rounds are bounded.\<close>

fun forEachLoop :: "'r read_fn \<Rightarrow> fastcdc \<Rightarrow> (chunk \<Rightarrow> ('s, chunk_error, unit) op) \<Rightarrow> nat \<Rightarrow> bytes \<Rightarrow> bool \<Rightarrow> nat \<Rightarrow>
    ('r \<times> 's, chunk_error, unit) op" where
  "forEachLoop rd c fn 0 buf eof off rs = (Inl OutOfRounds, rs)"
| "forEachLoop rd c fn (Suc n) buf eof off rs =
     (case fillBuf rd c buf eof (fst rs) of
        (Inl e, r') \<Rightarrow> (Inl e, (r', snd rs))
      | (Inr (buf', eof'), r') \<Rightarrow>
          if buf' = [] then (Inr (), (r', snd rs))
          else
            (let sz = boundary c buf' in
             case fn \<lparr>Offset = off, Size = sz, Data = take sz buf'\<rparr> (snd rs) of
               (Inl e, s') \<Rightarrow> (Inl e, (r', s'))
             | (Inr _, s') \<Rightarrow> forEachLoop rd c fn n (drop sz buf') eof' (off + sz) (r', s')))"

definition ForEach :: "'r read_fn \<Rightarrow> nat \<Rightarrow> fastcdc \<Rightarrow> (chunk \<Rightarrow> ('s, chunk_error, unit) op) \<Rightarrow>
    ('r \<times> 's, chunk_error, unit) op" where
  "ForEach rd rounds c fn rs = forEachLoop rd c fn rounds [] False 0 rs"

definition appendChunk :: "chunk \<Rightarrow> (chunk list, chunk_error, unit) op" where
  "appendChunk ch s = (Inr (), s @ [ch])"

definition Split :: "'r read_fn \<Rightarrow> nat \<Rightarrow> fastcdc \<Rightarrow> 'r \<Rightarrow> (chunk_error + unit) \<times> chunk list" where
  "Split rd rounds c r =
     (case ForEach rd rounds c appendChunk (r, []) of (res, (_, chunks)) \<Rightarrow> (res, chunks))"

text \<open>\<open>bytes.Reader\<close>: the rest of the slice.\<close>

definition bytesRead :: "bytes read_fn" where
  "bytesRead n r = (if r = [] then (([], EOF), []) else ((take n r, NoErr), drop n r))"

section \<open>Boundaries\<close>

definition cdc_ok :: "fastcdc \<Rightarrow> bool" where
  "cdc_ok c \<longleftrightarrow> 0 < minSize c \<and> minSize c \<le> avgSize c \<and> avgSize c \<le> maxSize c"

lemma NewFastCDC_ok: "NewFastCDC mn avg mx = Inr c \<Longrightarrow> cdc_ok c"
  by (auto simp: NewFastCDC_def cdc_ok_def split: if_splits)

lemma NewDefaultFastCDC_ok: "cdc_ok NewDefaultFastCDC"
  by (simp add: NewDefaultFastCDC_def cdc_ok_def DefaultMinSize_def DefaultAverageSize_def DefaultMaxSize_def)

lemma boundaryLoop_bounds: "i < limit \<Longrightarrow> i < boundaryLoop c bs limit i fp \<and> boundaryLoop c bs limit i fp \<le> limit"
proof (induction "limit - i" arbitrary: i fp)
  case (Suc n)
  let ?fp = "push_bit 1 fp + gearTable ! unat (bs ! i)"
  have e: "boundaryLoop c bs limit i fp =
      (if avgSize c div 2 \<le> i \<and> and ?fp (mask c) = 0 then i + 1 else boundaryLoop c bs limit (i + 1) ?fp)"
    using Suc.prems by (simp add: boundaryLoop.simps [of c bs limit i] Let_def)
  show ?case
  proof (cases "i + 1 < limit")
    case True
    have "n = limit - (i + 1)" using Suc(2) by simp
    from Suc(1) [OF this True, of ?fp] show ?thesis using e True by simp
  next
    case False
    hence "boundaryLoop c bs limit (i + 1) ?fp = limit" by (simp add: boundaryLoop.simps)
    thus ?thesis using e Suc.prems by simp
  qed
qed simp

lemma boundary_bounds:
  assumes "cdc_ok c" "bs \<noteq> []"
  shows "0 < boundary c bs" "boundary c bs \<le> length bs" "boundary c bs \<le> maxSize c"
    "minSize c < length bs \<Longrightarrow> minSize c \<le> boundary c bs"
proof -
  have m: "0 < minSize c" "minSize c \<le> maxSize c" using assms(1) by (auto simp: cdc_ok_def)
  let ?lim = "if length bs > maxSize c then maxSize c else length bs"
  have b: "minSize c \<le> boundary c bs \<and> boundary c bs \<le> ?lim" if "minSize c < length bs"
  proof (cases "minSize c < ?lim")
    case True
    thus ?thesis using boundaryLoop_bounds [OF True, of c bs 0] that by (simp add: boundary_def Let_def)
  next
    case False
    hence "minSize c = ?lim" using m(2) that by (auto split: if_splits)
    moreover have "boundaryLoop c bs ?lim (minSize c) 0 = ?lim" using False by (subst boundaryLoop.simps) simp
    ultimately show ?thesis using that by (simp add: boundary_def Let_def)
  qed
  show "0 < boundary c bs" "boundary c bs \<le> length bs" "boundary c bs \<le> maxSize c"
    using b m assms(2) by (cases "minSize c < length bs"; force simp: boundary_def split: if_splits)+
  show "minSize c < length bs \<Longrightarrow> minSize c \<le> boundary c bs" using b by simp
qed

section \<open>The chunks of a byte string\<close>

lemma cut_bounds:
  assumes "cdc_ok c" "bs \<noteq> []"
  defines "n \<equiv> boundary c (take (maxSize c) bs)"
  shows "0 < n" "n \<le> length bs" "n \<le> maxSize c" "n < length bs \<Longrightarrow> minSize c \<le> n"
proof -
  have m: "0 < maxSize c" "minSize c \<le> maxSize c" using assms(1) by (auto simp: cdc_ok_def)
  hence "take (maxSize c) bs \<noteq> []" using assms(2) by simp
  note b = boundary_bounds [OF assms(1) this]
  show "0 < n" "n \<le> length bs" "n \<le> maxSize c" using b(1-3) by (simp_all add: n_def)
  assume "n < length bs"
  thus "minSize c \<le> n" using b(4) m(2)
    by (cases "minSize c < length (take (maxSize c) bs)") (auto simp: n_def boundary_def min_def split: if_splits)
qed

text \<open>The reference: cut at the boundary of the next \<open>maxSize\<close> bytes.\<close>

function cuts :: "fastcdc \<Rightarrow> bytes \<Rightarrow> bytes list" where
  "cuts c bs =
     (if bs = [] \<or> \<not> cdc_ok c then []
      else let n = boundary c (take (maxSize c) bs) in take n bs # cuts c (drop n bs))"
  by auto

termination
proof (relation "measure (\<lambda>(c, bs). length bs)", goal_cases)
  case (2 c bs n)
  thus ?case using cut_bounds(1,2) [of c bs] by auto
qed simp

declare cuts.simps [simp del]

lemma cuts_Nil [simp]: "cuts c [] = []"
  by (simp add: cuts.simps)

lemma cuts_step:
  assumes "cdc_ok c" "bs \<noteq> []"
  defines "n \<equiv> boundary c (take (maxSize c) bs)"
  shows "cuts c bs = take n bs # cuts c (drop n bs)" "length (drop n bs) < length bs"
  using assms cut_bounds(1,2) [OF assms(1,2)] by (simp_all add: cuts.simps [of c bs] Let_def)

lemma cuts_induct [consumes 1, case_names Nil step]:
  assumes "cdc_ok c" "P []"
    "\<And>bs n. bs \<noteq> [] \<Longrightarrow> n = boundary c (take (maxSize c) bs) \<Longrightarrow> 0 < n \<Longrightarrow> n \<le> length bs \<Longrightarrow> n \<le> maxSize c \<Longrightarrow>
       cuts c bs = take n bs # cuts c (drop n bs) \<Longrightarrow> P (drop n bs) \<Longrightarrow> P bs"
  shows "P bs"
proof (induction "length bs" arbitrary: bs rule: less_induct)
  case less
  show ?case
  proof (cases "bs = []")
    case False
    note n = cut_bounds(1-3) [OF assms(1) False] and st = cuts_step [OF assms(1) False]
    show ?thesis by (rule assms(3) [OF False refl n st(1) less [OF st(2)]])
  qed (use assms(2) in simp)
qed

lemma concat_cuts: "cdc_ok c \<Longrightarrow> concat (cuts c bs) = bs"
  by (induction bs rule: cuts_induct) auto

lemma cuts_size: "cdc_ok c \<Longrightarrow> x \<in> set (cuts c bs) \<Longrightarrow> 0 < length x \<and> length x \<le> maxSize c"
  by (induction bs rule: cuts_induct) auto

lemma cuts_min:
  assumes ok: "cdc_ok c"
  shows "x \<in> set (butlast (cuts c bs)) \<Longrightarrow> minSize c \<le> length x"
  using ok
proof (induction bs rule: cuts_induct)
  case (step bs n)
  show ?case
  proof (cases "cuts c (drop n bs) = []")
    case False
    hence "n < length bs" by (cases "n < length bs") auto
    hence "minSize c \<le> n" using cut_bounds(4) [OF ok step(1)] step(2) by simp
    moreover have "x = take n bs \<or> x \<in> set (butlast (cuts c (drop n bs)))" using step(6,8) False by simp
    ultimately show ?thesis using step(4,7) by auto
  qed (use step in simp)
qed simp

text \<open>Appending to the input keeps every chunk that does not reach into the last \<open>maxSize\<close> bytes.\<close>

lemma cuts_append:
  assumes "cdc_ok c"
  shows "\<exists>pre a b. cuts c xs = pre @ a \<and> cuts c (xs @ ys) = pre @ b \<and> length (concat a) < maxSize c"
proof (induction "length xs" arbitrary: xs rule: less_induct)
  case less
  show ?case
  proof (cases "length xs < maxSize c")
    case True
    thus ?thesis
      by (intro exI [of _ "[]"] exI [of _ "cuts c xs"] exI [of _ "cuts c (xs @ ys)"]) (simp add: concat_cuts [OF assms])
  next
    case False
    moreover have "0 < maxSize c" using assms by (auto simp: cdc_ok_def)
    ultimately have ne: "xs \<noteq> []" "xs @ ys \<noteq> []" by auto
    let ?n = "boundary c (take (maxSize c) xs)"
    have t: "take (maxSize c) (xs @ ys) = take (maxSize c) xs" using False by simp
    have n: "?n \<le> length xs" using cut_bounds(2) [OF assms ne(1)] .
    obtain pre a b where IH: "cuts c (drop ?n xs) = pre @ a" "cuts c (drop ?n xs @ ys) = pre @ b" "length (concat a) < maxSize c"
      using less [OF cuts_step(2) [OF assms ne(1)]] by blast
    have "cuts c (xs @ ys) = take ?n xs # cuts c (drop ?n xs @ ys)"
      using cuts_step(1) [OF assms ne(2), unfolded t] n by simp
    thus ?thesis using cuts_step(1) [OF assms ne(1)] IH
      by (intro exI [of _ "take ?n xs # pre"] exI [of _ a] exI [of _ b]) simp
  qed
qed

section \<open>Splitting a stream\<close>

text \<open>What \<open>io.Reader\<close> promises, for a reader that neither fails nor returns no bytes and no error.\<close>

locale io_reader =
  fixes rd :: "'r read_fn" and content :: "'r \<Rightarrow> bytes" and good :: "'r \<Rightarrow> bool"
  assumes read_law: "good r \<Longrightarrow> 0 < n \<Longrightarrow> rd n r = ((bs, e), r') \<Longrightarrow>
      good r' \<and> length bs \<le> n \<and> content r = bs @ content r' \<and> (e = EOF \<and> content r' = [] \<or> e = NoErr \<and> bs \<noteq> [])"
begin

lemma fillBuf_content:
  assumes "good r" "length buf \<le> maxSize c" "eof \<longrightarrow> content r = []"
  shows "\<exists>eof' r'. fillBuf rd c buf eof r = (Inr (take (maxSize c) (buf @ content r), eof'), r') \<and> good r'
    \<and> content r' = drop (maxSize c) (buf @ content r) \<and> (eof' \<longrightarrow> content r' = [])"
  using assms
proof (induction "maxSize c - length buf" arbitrary: buf eof r rule: less_induct)
  case less
  show ?case
  proof (cases "\<not> eof \<and> length buf < maxSize c")
    case False
    hence "content r = [] \<or> length buf = maxSize c" using less.prems by auto
    hence "take (maxSize c) (buf @ content r) = buf" "drop (maxSize c) (buf @ content r) = content r"
      using less.prems(2) by auto
    moreover have "fillBuf rd c buf eof r = (Inr (buf, eof), r)" by (subst fillBuf.simps, subst if_not_P [OF False], rule refl)
    ultimately show ?thesis using less.prems by simp
  next
    case True
    let ?n = "min (maxSize c - length buf) scratchSize"
    have n: "0 < ?n" "(if maxSize c - length buf < scratchSize then maxSize c - length buf else scratchSize) = ?n"
      using True by (auto simp: scratchSize_def)
    obtain bs e r1 where rd: "rd ?n r = ((bs, e), r1)" by (metis surj_pair)
    note law = read_law [OF less.prems(1) n(1) rd]
    have st: "fillBuf rd c buf eof r = (case e of EOF \<Rightarrow> (Inr (buf @ bs, True), r1) | ReadErr n \<Rightarrow> (Inl (ReadFailed n), r1)
        | NoErr \<Rightarrow> if bs = [] then (Inr (buf, False), r1) else fillBuf rd c (buf @ bs) False r1)"
      using True n(2) rd by (subst fillBuf.simps) (simp add: Let_def)
    have "length bs \<le> maxSize c - length buf" using law by simp
    hence len: "length (buf @ bs) \<le> maxSize c" using True by auto
    have all: "buf @ content r = (buf @ bs) @ content r1" using law by simp
    show ?thesis
    proof (cases "e = EOF")
      case True
      hence "content r1 = []" using law by simp
      thus ?thesis using st law len True unfolding all by (intro exI [of _ True] exI [of _ r1]) (simp del: append_assoc)
    next
      case False
      hence e: "e = NoErr" "bs \<noteq> []" using law by auto
      hence "maxSize c - length (buf @ bs) < maxSize c - length buf" using len by (cases bs) auto
      from less.hyps [OF this _ len, of r1 False] law show ?thesis using st e unfolding all by simp
    qed
  qed
qed

end

text \<open>The chunk records of a list of pieces, and running the callback on them.\<close>

fun mkChunks :: "nat \<Rightarrow> bytes list \<Rightarrow> chunk list" where
  "mkChunks off [] = []"
| "mkChunks off (x # xs) = \<lparr>Offset = off, Size = length x, Data = x\<rparr> # mkChunks (off + length x) xs"

fun runChunks :: "(chunk \<Rightarrow> ('s, chunk_error, unit) op) \<Rightarrow> chunk list \<Rightarrow> ('s, chunk_error, unit) op" where
  "runChunks fn [] s = (Inr (), s)"
| "runChunks fn (ch # chs) s = (case fn ch s of (Inl e, s') \<Rightarrow> (Inl e, s') | (Inr _, s') \<Rightarrow> runChunks fn chs s')"

context io_reader
begin

lemma forEachLoop_cuts:
  assumes "cdc_ok c" "good r" "length buf \<le> maxSize c" "eof \<longrightarrow> content r = []" "length (cuts c (buf @ content r)) < n"
  shows "\<exists>r'. forEachLoop rd c fn n buf eof off (r, s)
    = (let (res, s') = runChunks fn (mkChunks off (cuts c (buf @ content r))) s in (res, (r', s')))"
  using assms(2-)
proof (induction n arbitrary: buf eof off r s)
  case (Suc n)
  define all where "all = buf @ content r"
  obtain eof' r' where f: "fillBuf rd c buf eof r = (Inr (take (maxSize c) all, eof'), r')" "good r'"
      "content r' = drop (maxSize c) all" "eof' \<longrightarrow> content r' = []"
    using fillBuf_content [OF Suc.prems(1-3)] unfolding all_def by blast
  have m: "0 < maxSize c" using assms(1) by (auto simp: cdc_ok_def)
  show ?case unfolding all_def [symmetric]
  proof (cases "all = []")
    case True
    thus "\<exists>r'. forEachLoop rd c fn (Suc n) buf eof off (r, s) =
        (let (res, s') = runChunks fn (mkChunks off (cuts c all)) s in (res, (r', s')))" using f(1) by simp
  next
    case False
    let ?k = "boundary c (take (maxSize c) all)"
    note k = cut_bounds [OF assms(1) False] and st = cuts_step [OF assms(1) False]
    have tk: "take ?k (take (maxSize c) all) = take ?k all" "length (take ?k all) = ?k"
      using k(2,3) by simp_all
    have dr: "drop ?k (take (maxSize c) all) @ content r' = drop ?k all"
    proof -
      have "drop ?k (take (maxSize c) all @ drop (maxSize c) all) = drop ?k all" by simp
      moreover have "?k \<le> length (take (maxSize c) all)" using k(2,3) by simp
      ultimately show ?thesis using f(3) by (simp only: drop_append) simp
    qed
    have "length (drop ?k (take (maxSize c) all)) \<le> maxSize c" by simp
    note IH = Suc.IH [OF f(2) this f(4), of "off + ?k", unfolded dr]
    have "length (cuts c (drop ?k all)) < n" using Suc.prems(4) st(1) unfolding all_def [symmetric] by simp
    note IH' = IH [OF this]
    obtain x s' where fn: "fn \<lparr>Offset = off, Size = ?k, Data = take ?k all\<rparr> s = (x, s')" by fastforce
    have ne: "take (maxSize c) all \<noteq> []" using False m by simp
    show "\<exists>r'. forEachLoop rd c fn (Suc n) buf eof off (r, s) =
        (let (res, s') = runChunks fn (mkChunks off (cuts c all)) s in (res, (r', s')))"
    proof (cases x)
      case (Inl e)
      thus ?thesis using f(1) ne tk fn st(1) by (simp add: Let_def)
    next
      case (Inr u)
      thus ?thesis using f(1) ne tk fn st(1) IH' by (simp add: Let_def)
    qed
  qed
qed simp

lemma ForEach_cuts:
  assumes "cdc_ok c" "good r" "length (content r) < n"
  shows "\<exists>r'. ForEach rd n c fn (r, s)
    = (let (res, s') = runChunks fn (mkChunks 0 (cuts c (content r))) s in (res, (r', s')))"
proof -
  have "length (cuts c bs) \<le> length bs" for bs
    using assms(1) by (induction bs rule: cuts_induct) auto
  hence "length (cuts c ([] @ content r)) < n" using assms(3) by (metis append_Nil le_less_trans)
  from forEachLoop_cuts [OF assms(1,2) _ _ this, of False fn 0 s] show ?thesis by (simp add: ForEach_def)
qed

lemma Split_cuts:
  assumes "cdc_ok c" "good r" "length (content r) < n"
  shows "Split rd n c r = (Inr (), mkChunks 0 (cuts c (content r)))"
proof -
  have "runChunks appendChunk chs s = (Inr (), s @ chs)" for chs s
    by (induction chs arbitrary: s) (simp_all add: appendChunk_def)
  thus ?thesis using ForEach_cuts [OF assms, of appendChunk "[]"] by (auto simp: Split_def)
qed

end

interpretation br: io_reader bytesRead "\<lambda>bs. bs" "\<lambda>_. True"
  by unfold_locales (auto simp: bytesRead_def split: if_splits)

section \<open>Bytes without a gear value\<close>

lemma length_gearLiteral: "length gearLiteral = 180"
  by (simp add: gearLiteral_def)

lemma gear_zero:
  assumes "180 \<le> unat (b :: byte)"
  shows "gearTable ! unat b = 0"
proof -
  have "unat b - 180 < 76" using assms unat_byte_less [of b] by simp
  thus ?thesis using assms by (simp add: gearTable_def nth_append length_gearLiteral)
qed

lemma boundaryLoop_zero:
  assumes "\<forall>b \<in> set bs. 180 \<le> unat b" "avgSize c div 2 \<le> k" "k < limit" "limit \<le> length bs"
    "i \<le> k" "\<forall>j. i \<le> j \<and> j < k \<longrightarrow> j < avgSize c div 2"
  shows "boundaryLoop c bs limit i 0 = k + 1"
  using assms(5,6)
proof (induction "k - i" arbitrary: i)
  case 0
  hence i: "i = k" by simp
  have "bs ! k \<in> set bs" using assms(3,4) by simp
  hence "gearTable ! unat (bs ! k) = 0" using assms(1) by (intro gear_zero) blast
  thus ?case using assms(2,3) i by (subst boundaryLoop.simps) simp
next
  case (Suc n)
  have i: "i < k" "i < limit" "n = k - (i + 1)" "i + 1 \<le> k" using Suc(2) assms(3) by simp_all
  have a: "\<not> avgSize c div 2 \<le> i" using Suc.prems(2) i(1) by (simp add: not_le)
  have "bs ! i \<in> set bs" using i(2) assms(4) by simp
  hence z: "gearTable ! unat (bs ! i) = 0" using assms(1) by (intro gear_zero) blast
  have "boundaryLoop c bs limit (i + 1) 0 = k + 1" by (rule Suc(1) [OF i(3,4)]) (use Suc.prems(2) in auto)
  thus ?case using i(2) a z by (subst boundaryLoop.simps) (simp add: Let_def)
qed

lemma boundary_zero:
  assumes "cdc_ok c" "\<forall>b \<in> set bs. 180 \<le> unat b" "max (minSize c) (avgSize c div 2) < min (length bs) (maxSize c)"
  shows "boundary c bs = max (minSize c) (avgSize c div 2) + 1"
proof -
  let ?k = "max (minSize c) (avgSize c div 2)" and ?lim = "if length bs > maxSize c then maxSize c else length bs"
  have "boundaryLoop c bs ?lim (minSize c) 0 = ?k + 1"
    by (rule boundaryLoop_zero [OF assms(2)]) (use assms(3) in auto)
  moreover have "\<not> length bs \<le> minSize c" using assms(3) by simp
  ultimately show ?thesis by (simp add: boundary_def Let_def)
qed

section \<open>A reader that pauses\<close>

text \<open>A \<open>Read\<close> of no bytes and no error on an empty buffer ends the loop.\<close>

lemma Split_stalled:
  assumes "cdc_ok c" "rd (min (maxSize c) scratchSize) r = (([], NoErr), r')"
  shows "Split rd (Suc n) c r = (Inr (), [])"
proof -
  have "(if maxSize c < scratchSize then maxSize c else scratchSize) = min (maxSize c) scratchSize" by simp
  moreover have "0 < maxSize c" using assms(1) by (auto simp: cdc_ok_def)
  ultimately have "fillBuf rd c [] False r = (Inr ([], False), r')"
    using assms(2) by (subst fillBuf.simps) (simp add: Let_def)
  thus ?thesis by (simp add: Split_def ForEach_def)
qed

end
