(* ===== verification/Chunk_Index.thy ===== *)
theory Chunk_Index
  imports Prelude
begin

text \<open>
  The deduplication index (\<open>internal/chunk/index.go\<close>): the exact set of known chunk hashes with a
  Bloom filter in front of it. The two probe hashes are the FNV hashes of Go's \<open>hash/fnv\<close>.

  Shown here: the filter has no false negatives, so the index answers exactly as the set of the
  hashes added to it. Deduplication relies on the interface \<open>dedup\<close> alone, which the index and
  the set that the pipeline keeps without an index both implement.
\<close>

section \<open>FNV hashes\<close>

definition fnvOffset :: "64 word" where "fnvOffset = 14695981039346656037"

definition fnvPrime :: "64 word" where "fnvPrime = 1099511628211"

definition fnv64 :: "bytes \<Rightarrow> 64 word" where
  "fnv64 bs = foldl (\<lambda>h b. xor (h * fnvPrime) (ucast b)) fnvOffset bs"

definition fnv64a :: "bytes \<Rightarrow> 64 word" where
  "fnv64a bs = foldl (\<lambda>h b. xor h (ucast b) * fnvPrime) fnvOffset bs"

section \<open>Bloom filter\<close>

definition defaultBloomBitsPerEntry :: nat where "defaultBloomBitsPerEntry = 10"

definition defaultBloomHashes :: nat where "defaultBloomHashes = 7"

datatype index_error = BloomBitsNotPositive | BloomHashesNotPositive

record bloomFilter =
  bits :: "64 word list"
  nbits :: nat
  hashes :: nat

definition NewBloomFilter :: "int \<Rightarrow> int \<Rightarrow> index_error + bloomFilter" where
  "NewBloomFilter bitCount hashCount =
     (if bitCount \<le> 0 then Inl BloomBitsNotPositive
      else if hashCount \<le> 0 then Inl BloomHashesNotPositive
      else Inr \<lparr>bits = replicate (nat ((bitCount + 63) div 64)) 0, nbits = nat bitCount, hashes = nat hashCount\<rparr>)"

definition bloomHashes :: "bytes \<Rightarrow> 64 word \<times> 64 word" where
  "bloomHashes data =
     (let h1 = fnv64a data; h2 = fnv64 (putLE 8 (length data) @ data)
      in (h1, if h2 = 0 then 0x9e3779b97f4a7c15 else h2))"

text \<open>The position of probe \<open>i\<close>; the sum and the product wrap at 64 bits.\<close>

definition bloomIdx :: "bloomFilter \<Rightarrow> bytes \<Rightarrow> nat \<Rightarrow> nat" where
  "bloomIdx b data i = (case bloomHashes data of (h1, h2) \<Rightarrow> unat (h1 + of_nat i * h2) mod nbits b)"

definition BloomFilter_Add :: "bytes \<Rightarrow> bloomFilter \<Rightarrow> bloomFilter" where
  "BloomFilter_Add data b =
     b\<lparr>bits := foldl (\<lambda>bs i. let idx = bloomIdx b data i in
                 bs[idx div 64 := or (bs ! (idx div 64)) (push_bit (idx mod 64) 1)])
               (bits b) [0..<hashes b]\<rparr>"

definition BloomFilter_MaybeContains :: "bloomFilter \<Rightarrow> bytes \<Rightarrow> bool" where
  "BloomFilter_MaybeContains b data \<longleftrightarrow>
     (\<forall>i \<in> set [0..<hashes b]. let idx = bloomIdx b data i in
        and (bits b ! (idx div 64)) (push_bit (idx mod 64) 1) \<noteq> 0)"

definition BitCount :: "bloomFilter \<Rightarrow> nat" where "BitCount b = nbits b"

definition Hashes :: "bloomFilter \<Rightarrow> nat" where "Hashes b = hashes b"

section \<open>Index\<close>

record chunkIndex =
  entries :: "bytes set"
  bloom :: bloomFilter

definition NewIndex :: "int \<Rightarrow> index_error + chunkIndex" where
  "NewIndex expectedEntries =
     (let n = (if expectedEntries \<le> 0 then 1 else expectedEntries) in
      case NewBloomFilter (n * int defaultBloomBitsPerEntry) (int defaultBloomHashes) of
        Inl e \<Rightarrow> Inl e
      | Inr b \<Rightarrow> Inr \<lparr>entries = {}, bloom = b\<rparr>)"

definition Index_Add :: "bytes \<Rightarrow> chunkIndex \<Rightarrow> bool \<times> chunkIndex" where
  "Index_Add h i =
     (if h \<in> entries i then (False, i)
      else (True, i\<lparr>entries := insert h (entries i), bloom := BloomFilter_Add h (bloom i)\<rparr>))"

definition Index_Contains :: "chunkIndex \<Rightarrow> bytes \<Rightarrow> bool" where
  "Index_Contains i h = (if \<not> BloomFilter_MaybeContains (bloom i) h then False else h \<in> entries i)"

definition Index_MaybeContains :: "chunkIndex \<Rightarrow> bytes \<Rightarrow> bool" where
  "Index_MaybeContains i h = BloomFilter_MaybeContains (bloom i) h"

definition Index_Len :: "chunkIndex \<Rightarrow> nat" where
  "Index_Len i = card (entries i)"

text \<open>The set that \<open>hashFunc\<close> keeps when the pipeline has no index.\<close>

definition seenAdd :: "bytes \<Rightarrow> bytes set \<Rightarrow> bool \<times> bytes set" where
  "seenAdd h seen = (h \<notin> seen, if h \<in> seen then seen else insert h seen)"

section \<open>The filter has no false negatives\<close>

definition bloom_ok :: "bloomFilter \<Rightarrow> bool" where
  "bloom_ok b \<longleftrightarrow> 0 < nbits b \<and> length (bits b) = (nbits b + 63) div 64"

lemma NewBloomFilter_ok: "NewBloomFilter n k = Inr b \<Longrightarrow> bloom_ok b"
  by (auto simp: NewBloomFilter_def bloom_ok_def nat_div_distrib nat_add_distrib split: if_splits)

lemma bloomIdx_bits [simp]: "bloomIdx (b\<lparr>bits := bs\<rparr>) data i = bloomIdx b data i"
  by (simp add: bloomIdx_def)

lemma bloomIdx_range:
  assumes "bloom_ok b"
  shows "bloomIdx b data i div 64 < length (bits b)"
proof -
  have "bloomIdx b data i < nbits b" using assms by (auto simp: bloomIdx_def bloom_ok_def split: prod.splits)
  thus ?thesis using assms by (simp add: bloom_ok_def)
qed

lemma bit_single: "k < 64 \<Longrightarrow> bit (2 ^ k :: 64 word) n \<longleftrightarrow> n = k"
  by (auto simp: bit_exp_iff)

lemma test_bit: "k < 64 \<Longrightarrow> and (w :: 64 word) (2 ^ k) = 0 \<longleftrightarrow> \<not> bit w k"
  by (auto simp: bit_eq_iff [of "and w (2 ^ k)" 0] bit_and_iff bit_single)

definition probe :: "64 word list \<Rightarrow> nat \<Rightarrow> bool" where
  "probe bs idx \<longleftrightarrow> bit (bs ! (idx div 64)) (idx mod 64)"

definition setProbe :: "64 word list \<Rightarrow> nat \<Rightarrow> 64 word list" where
  "setProbe bs idx = bs[idx div 64 := or (bs ! (idx div 64)) (push_bit (idx mod 64) 1)]"

lemma length_setProbe [simp]: "length (setProbe bs idx) = length bs"
  by (simp add: setProbe_def)

lemma probe_setProbe:
  assumes "idx div 64 < length bs"
  shows "probe (setProbe bs idx) idx"
  using assms by (simp add: probe_def setProbe_def bit_or_iff bit_single)

lemma probe_mono: "probe bs j \<Longrightarrow> probe (setProbe bs idx) j"
  by (cases "idx div 64 < length bs")
    (auto simp: probe_def setProbe_def bit_or_iff nth_list_update list_update_beyond not_less)

lemma probe_foldl_mono: "probe bs j \<Longrightarrow> probe (foldl setProbe bs idxs) j"
  by (induction idxs arbitrary: bs) (simp_all add: probe_mono)

lemma probe_foldl:
  assumes "\<forall>j \<in> set idxs. j div 64 < length bs" "j \<in> set idxs"
  shows "probe (foldl setProbe bs idxs) j"
  using assms
proof (induction idxs arbitrary: bs)
  case (Cons a idxs)
  show ?case
  proof (cases "j = a")
    case True
    thus ?thesis using Cons.prems(1) probe_setProbe probe_foldl_mono by simp
  next
    case False
    thus ?thesis using Cons.IH [of "setProbe bs a"] Cons.prems by simp
  qed
qed simp

lemma Add_eq: "BloomFilter_Add data b = b\<lparr>bits := foldl setProbe (bits b) (map (bloomIdx b data) [0..<hashes b])\<rparr>"
  by (simp add: BloomFilter_Add_def setProbe_def foldl_map Let_def)

lemma MaybeContains_eq: "BloomFilter_MaybeContains b data \<longleftrightarrow> (\<forall>i < hashes b. probe (bits b) (bloomIdx b data i))"
  by (auto simp: BloomFilter_MaybeContains_def probe_def test_bit Let_def)

lemma length_foldl_setProbe: "length (foldl setProbe bs idxs) = length bs"
  by (induction idxs arbitrary: bs) simp_all

lemma Add_ok: "bloom_ok b \<Longrightarrow> bloom_ok (BloomFilter_Add data b)"
  by (simp add: Add_eq bloom_ok_def length_foldl_setProbe)

lemma Add_contains:
  assumes "bloom_ok b"
  shows "BloomFilter_MaybeContains (BloomFilter_Add data b) data"
  using bloomIdx_range [OF assms] by (auto simp: MaybeContains_eq Add_eq intro!: probe_foldl)

lemma Add_keeps:
  "BloomFilter_MaybeContains b x \<Longrightarrow> BloomFilter_MaybeContains (BloomFilter_Add data b) x"
  by (simp add: MaybeContains_eq Add_eq probe_foldl_mono)

section \<open>Deduplication\<close>

definition index_inv :: "chunkIndex \<Rightarrow> bool" where
  "index_inv i \<longleftrightarrow> bloom_ok (bloom i) \<and> (\<forall>h \<in> entries i. BloomFilter_MaybeContains (bloom i) h)"

lemma NewIndex_ok: "NewIndex n = Inr i \<Longrightarrow> index_inv i \<and> entries i = {}"
  using NewBloomFilter_ok by (auto simp: NewIndex_def index_inv_def Let_def split: sum.splits)

lemma NewIndex_total: "\<exists>i. NewIndex n = Inr i"
  by (auto simp: NewIndex_def NewBloomFilter_def defaultBloomBitsPerEntry_def defaultBloomHashes_def Let_def)

lemma Index_Add_inv: "index_inv i \<Longrightarrow> index_inv (snd (Index_Add h i))"
  by (auto simp: Index_Add_def index_inv_def Add_ok Add_contains Add_keeps)

lemma Index_Contains_exact: "index_inv i \<Longrightarrow> Index_Contains i h \<longleftrightarrow> h \<in> entries i"
  by (auto simp: Index_Contains_def index_inv_def)

text \<open>The contract the pipeline relies on: an addition says whether the hash is new, and the hash
  is known afterwards.\<close>

locale dedup =
  fixes add :: "bytes \<Rightarrow> 'd \<Rightarrow> bool \<times> 'd" and known :: "'d \<Rightarrow> bytes set" and dinv :: "'d \<Rightarrow> bool"
  assumes add_law: "dinv d \<Longrightarrow> add h d = (new, d') \<Longrightarrow> new \<longleftrightarrow> h \<notin> known d"
    and add_known: "dinv d \<Longrightarrow> add h d = (new, d') \<Longrightarrow> known d' = insert h (known d)"
    and add_inv: "dinv d \<Longrightarrow> add h d = (new, d') \<Longrightarrow> dinv d'"
begin

text \<open>Adding a list of hashes: the answers that say new are one for each new hash.\<close>

fun addAll :: "bytes list \<Rightarrow> 'd \<Rightarrow> bool list \<times> 'd" where
  "addAll [] d = ([], d)"
| "addAll (h # hs) d = (case add h d of (new, d') \<Rightarrow> case addAll hs d' of (ns, d'') \<Rightarrow> (new # ns, d''))"

lemma addAll_known: "dinv d \<Longrightarrow> addAll hs d = (ns, d') \<Longrightarrow> known d' = set hs \<union> known d \<and> dinv d' \<and> length ns = length hs"
proof (induction hs arbitrary: d ns)
  case (Cons h hs)
  obtain new d1 where a: "add h d = (new, d1)" by fastforce
  obtain ms where b: "addAll hs d1 = (ms, d')" "ns = new # ms" using Cons.prems(2) a by (auto split: prod.splits)
  show ?case using Cons.IH [OF add_inv [OF Cons.prems(1) a] b(1)] add_known [OF Cons.prems(1) a] b(2) by auto
qed simp

lemma addAll_new:
  assumes "dinv d" "addAll hs d = (ns, d')" "i < length hs"
  shows "ns ! i \<longleftrightarrow> hs ! i \<notin> known d \<and> hs ! i \<notin> set (take i hs)"
  using assms
proof (induction hs arbitrary: d ns i)
  case (Cons h hs)
  obtain new d1 where a: "add h d = (new, d1)" by fastforce
  obtain ms where b: "addAll hs d1 = (ms, d')" "ns = new # ms" using Cons.prems(2) a by (auto split: prod.splits)
  show ?case
  proof (cases i)
    case 0
    thus ?thesis using add_law [OF Cons.prems(1) a] b(2) by simp
  next
    case (Suc j)
    hence "ms ! j \<longleftrightarrow> hs ! j \<notin> known d1 \<and> hs ! j \<notin> set (take j hs)"
      using Cons.IH [OF add_inv [OF Cons.prems(1) a] b(1)] Cons.prems(3) by simp
    thus ?thesis using add_known [OF Cons.prems(1) a] b(2) Suc by auto
  qed
qed simp

end

interpretation ix: dedup Index_Add entries index_inv
proof
  fix d h new d'
  assume d: "index_inv d" "Index_Add h d = (new, d')"
  show "new \<longleftrightarrow> h \<notin> entries d" "entries d' = insert h (entries d)"
    using d(2) by (auto simp: Index_Add_def split: if_splits)
  show "index_inv d'" using Index_Add_inv [OF d(1), of h] d(2) by simp
qed

interpretation sn: dedup seenAdd "\<lambda>s. s" "\<lambda>_. True"
  by unfold_locales (auto simp: seenAdd_def)

end
