(* ===== verification/Go_Strings.thy ===== *)
theory Go_Strings
  imports Prelude
begin

text \<open>
  The string functions of Go's standard library that the program uses: conversion between
  strings and byte slices, \<open>encoding/hex\<close>, \<open>strings.Split\<close>, \<open>strings.Join\<close>,
  \<open>strings.HasPrefix\<close>, \<open>strings.TrimSpace\<close> on ASCII, and \<open>path.Clean\<close>.
\<close>

section \<open>Strings and bytes\<close>

definition str_of :: "bytes \<Rightarrow> string" where
  "str_of bs = map (\<lambda>b. char_of (unat b)) bs"

lemma length_str_of [simp]: "length (str_of bs) = length bs"
  by (simp add: str_of_def)

lemma str_of_bytes_of [simp]: "str_of (bytes_of s) = s"
proof -
  have "char_of (unat (of_nat (of_char c) :: byte)) = c" for c :: char
    by (simp add: unat_of_nat)
  hence "map ((\<lambda>b. char_of (unat b)) \<circ> (\<lambda>c. of_nat (of_char c) :: byte)) s = s" by (intro map_idI) simp
  thus ?thesis by (simp add: str_of_def bytes_of_def)
qed

lemma bytes_of_str_of [simp]: "bytes_of (str_of bs) = bs"
proof -
  have "(of_nat (of_char (char_of (unat b) :: char)) :: byte) = b" for b
    using unat_byte_less [of b] by simp
  hence "map ((\<lambda>c. of_nat (of_char (c :: char)) :: byte) \<circ> (\<lambda>b. char_of (unat b))) bs = bs" by (intro map_idI) simp
  thus ?thesis by (simp add: str_of_def bytes_of_def)
qed

definition HasPrefix :: "string \<Rightarrow> string \<Rightarrow> bool" where
  "HasPrefix s p \<longleftrightarrow> take (length p) s = p"

lemma HasPrefix_append [simp]: "HasPrefix (p @ s) p"
  by (simp add: HasPrefix_def)

lemma HasPrefix_iff: "HasPrefix s p \<longleftrightarrow> (\<exists>t. s = p @ t)"
  by (auto simp: HasPrefix_def) (metis append_take_drop_id)

section \<open>Hexadecimal\<close>

definition hexDigits :: string where
  "hexDigits = ''0123456789abcdef''"

fun hexByte :: "byte \<Rightarrow> string" where
  "hexByte b = [hexDigits ! (unat b div 16), hexDigits ! (unat b mod 16)]"

definition hexEncode :: "bytes \<Rightarrow> string" where
  "hexEncode bs = concat (map hexByte bs)"

text \<open>The value of a digit, of either case.\<close>

definition hexValue :: "char \<Rightarrow> nat option" where
  "hexValue c =
     (let n = of_char c in
      if 48 \<le> n \<and> n \<le> 57 then Some (n - 48)
      else if 97 \<le> n \<and> n \<le> 102 then Some (n - 87)
      else if 65 \<le> n \<and> n \<le> 70 then Some (n - 55)
      else None)"

fun hexDecode :: "string \<Rightarrow> bytes option" where
  "hexDecode [] = Some []"
| "hexDecode [c] = None"
| "hexDecode (a # b # cs) =
     (case hexValue a of None \<Rightarrow> None | Some x \<Rightarrow>
      (case hexValue b of None \<Rightarrow> None | Some y \<Rightarrow>
       (case hexDecode cs of None \<Rightarrow> None | Some bs \<Rightarrow> Some (of_nat (16 * x + y) # bs))))"

lemma hexValue_digit: "n < 16 \<Longrightarrow> hexValue (hexDigits ! n) = Some n"
proof -
  have "\<forall>n \<in> set [0..<16]. hexValue (hexDigits ! n) = Some n"
    by (simp add: hexDigits_def hexValue_def upt_rec)
  moreover assume "n < 16"
  ultimately show ?thesis by simp
qed

lemma hexDecode_Encode [simp]: "hexDecode (hexEncode bs) = Some bs"
proof (induction bs)
  case (Cons b bs)
  have "unat b div 16 < 16" "unat b mod 16 < 16" using unat_byte_less [of b] by auto
  thus ?case using Cons by (simp add: hexEncode_def hexValue_digit)
qed (simp add: hexEncode_def)

lemma length_hexEncode [simp]: "length (hexEncode bs) = 2 * length bs"
  by (induction bs) (simp_all add: hexEncode_def)

lemma hexEncode_inj [simp]: "hexEncode a = hexEncode b \<longleftrightarrow> a = b"
  by (metis hexDecode_Encode option.inject)

lemma hexDecode_length: "hexDecode s = Some bs \<Longrightarrow> length s = 2 * length bs"
  by (induction s arbitrary: bs rule: hexDecode.induct) (auto split: option.splits)

lemma hexEncode_chars: "c \<in> set (hexEncode bs) \<Longrightarrow> c \<in> set hexDigits"
proof -
  have "length hexDigits = 16" by (simp add: hexDigits_def)
  hence "hexDigits ! n \<in> set hexDigits" if "n < 16" for n using that by (intro nth_mem) simp
  hence "set (hexByte b) \<subseteq> set hexDigits" for b :: byte
    using unat_byte_less [of b] by simp
  moreover assume "c \<in> set (hexEncode bs)"
  ultimately show "c \<in> set hexDigits" by (auto simp: hexEncode_def simp del: hexByte.simps)
qed

section \<open>Splitting and joining\<close>

fun splitOn :: "char \<Rightarrow> string \<Rightarrow> string list" where
  "splitOn sep [] = [[]]"
| "splitOn sep (c # cs) =
     (if c = sep then [] # splitOn sep cs
      else (case splitOn sep cs of [] \<Rightarrow> [[c]] | x # xs \<Rightarrow> (c # x) # xs))"

fun joinWith :: "char \<Rightarrow> string list \<Rightarrow> string" where
  "joinWith sep [] = []"
| "joinWith sep [x] = x"
| "joinWith sep (x # y # xs) = x @ sep # joinWith sep (y # xs)"

lemma splitOn_ne [simp]: "splitOn sep s \<noteq> []"
  by (induction s) (auto split: list.splits)

lemma joinWith_splitOn: "joinWith sep (splitOn sep s) = s"
proof (induction s)
  case (Cons c cs)
  obtain x xs where x: "splitOn sep cs = x # xs" by (cases "splitOn sep cs") auto
  show ?case using Cons x by (cases xs) auto
qed simp

lemma splitOn_no_sep: "sep \<notin> set s \<Longrightarrow> splitOn sep s = [s]"
  by (induction s) auto

lemma splitOn_append: "sep \<notin> set a \<Longrightarrow> splitOn sep (a @ sep # b) = a # splitOn sep b"
  by (induction a) auto

section \<open>Trimming and cleaning\<close>

definition isSpace :: "char \<Rightarrow> bool" where
  "isSpace c \<longleftrightarrow> of_char c \<in> {9 :: nat, 10, 11, 12, 13, 32}"

definition TrimSpace :: "string \<Rightarrow> string" where
  "TrimSpace s = rev (dropWhile isSpace (rev (dropWhile isSpace s)))"

text \<open>\<open>path.Clean\<close>: the segments without \<open>.\<close> and empty ones, each \<open>..\<close> removing the segment
  before it; the first list holds the segments so far, in reverse.\<close>

fun cleanSegs :: "bool \<Rightarrow> string list \<Rightarrow> string list \<Rightarrow> string list" where
  "cleanSegs rooted acc [] = rev acc"
| "cleanSegs rooted acc (x # xs) =
     (if x = [] \<or> x = ''.'' then cleanSegs rooted acc xs
      else if x = ''..'' then
        (case acc of
           [] \<Rightarrow> if rooted then cleanSegs rooted [] xs else cleanSegs rooted [x] xs
         | y # ys \<Rightarrow> if y = ''..'' then cleanSegs rooted (x # acc) xs else cleanSegs rooted ys xs)
      else cleanSegs rooted (x # acc) xs)"

definition pathClean :: "string \<Rightarrow> string" where
  "pathClean s =
     (if s = [] then ''.''
      else
        let rooted = HasPrefix s ''/'';
            body = joinWith CHR ''/'' (cleanSegs rooted [] (splitOn CHR ''/'' s))
        in if rooted then CHR ''/'' # body else if body = [] then ''.'' else body)"

end
