(* ===== verification/Storage.thy ===== *)
theory Storage
  imports Go_Strings
begin

text \<open>
  Object storage: the interface \<open>storage.Backend\<close> (\<open>internal/storage/backend.go\<close>) as a record of
  operations on a backend state, what its clients rely on as the locale \<open>object_store\<close>, and
  the in-memory backend (\<open>internal/storage/storagetest/memory.go\<close>), which implements it.
  Streams are their contents. SHA-256 and the clock are parameters; cancelled contexts are left
  out.
\<close>

section \<open>Interface\<close>

datatype storage_error =
    InvalidKeyError string
  | SizeMismatch string nat int
  | ObjectConflict string
  | ObjectNotFound string
  | InvalidRange int int
  | StorageFailure nat

record objectInfo =
  infoKey :: string
  infoSize :: nat
  infoETag :: string
  infoUpdatedAt :: int

record listPage =
  pageObjects :: "objectInfo list"
  pageNextToken :: string

record 'b backend =
  putOp :: "string \<Rightarrow> bytes \<Rightarrow> int \<Rightarrow> ('b, storage_error, objectInfo) op"
  getOp :: "'b \<Rightarrow> string \<Rightarrow> storage_error + bytes \<times> objectInfo"
  getRangeOp :: "'b \<Rightarrow> string \<Rightarrow> int \<Rightarrow> int \<Rightarrow> storage_error + bytes"
  headOp :: "'b \<Rightarrow> string \<Rightarrow> storage_error + objectInfo"
  existsOp :: "'b \<Rightarrow> string \<Rightarrow> storage_error + bool"
  deleteOp :: "string \<Rightarrow> ('b, storage_error, unit) op"
  listOp :: "'b \<Rightarrow> string \<Rightarrow> string \<Rightarrow> storage_error + listPage"

section \<open>Keys\<close>

definition validateKey :: "string \<Rightarrow> storage_error + unit" where
  "validateKey key =
     (let cleaned = pathClean key in
      if key = [] \<or> cleaned = ''.'' \<or> HasPrefix cleaned ''/'' \<or> cleaned = ''..'' \<or> HasPrefix cleaned ''../''
      then Inl (InvalidKeyError key)
      else if CHR 0x5C \<in> set key then Inl (InvalidKeyError key)
      else if ''..'' \<in> set (splitOn CHR ''/'' key) then Inl (InvalidKeyError key)
      else Inr ())"

definition key_ok :: "string \<Rightarrow> bool" where
  "key_ok key \<longleftrightarrow> validateKey key = Inr ()"

text \<open>Keys of plain segments are their own clean form and valid.\<close>

definition plain_seg :: "string \<Rightarrow> bool" where
  "plain_seg x \<longleftrightarrow> x \<noteq> [] \<and> x \<noteq> ''.'' \<and> x \<noteq> ''..''"

lemma cleanSegs_plain: "\<forall>x \<in> set xs. plain_seg x \<Longrightarrow> cleanSegs r acc xs = rev acc @ xs"
  by (induction xs arbitrary: acc) (auto simp: plain_seg_def)

lemma splitOn_slash_first: "HasPrefix s (p @ ''/'') \<Longrightarrow> CHR ''/'' \<notin> set p \<Longrightarrow> hd (splitOn CHR ''/'' s) = p"
  by (auto simp: HasPrefix_iff splitOn_append)

lemma plain_key_ok:
  assumes "\<forall>x \<in> set (splitOn CHR ''/'' s). plain_seg x" "CHR 0x5C \<notin> set s"
  shows "pathClean s = s" "key_ok s"
proof -
  let ?xs = "splitOn CHR ''/'' s"
  have ne: "s \<noteq> []" by (rule notI) (use assms(1) in \<open>simp add: plain_seg_def\<close>)
  have hd: "plain_seg (hd ?xs)" using assms(1) hd_in_set [OF splitOn_ne] by blast
  have r: "\<not> HasPrefix s ''/''"
  proof
    assume "HasPrefix s ''/''"
    hence "hd ?xs = []" using splitOn_slash_first [of s "[]"] by simp
    thus False using hd by (simp add: plain_seg_def)
  qed
  have d: "\<not> HasPrefix s ''../''"
  proof
    assume "HasPrefix s ''../''"
    hence "hd ?xs = ''..''" using splitOn_slash_first [of s "''..''"] by simp
    thus False using hd by (simp add: plain_seg_def)
  qed
  show c: "pathClean s = s"
    using ne r cleanSegs_plain [OF assms(1), of False "[]"] by (simp add: pathClean_def Let_def joinWith_splitOn)
  have "''..'' \<notin> set ?xs" using assms(1) by (auto simp: plain_seg_def)
  moreover have "s \<noteq> ''.''" "s \<noteq> ''..''" by (rule notI, use assms(1) in \<open>simp add: plain_seg_def\<close>)+
  ultimately show "key_ok s" using ne r d c assms(2) by (simp add: key_ok_def validateKey_def Let_def)
qed

section \<open>What the clients of a backend rely on\<close>

locale object_store =
  fixes B :: "'b backend" and objs :: "'b \<Rightarrow> string \<Rightarrow> bytes option" and binv :: "'b \<Rightarrow> bool"
    and good_key :: "string \<Rightarrow> bool"
  assumes put_ok: "binv s \<Longrightarrow> good_key k \<Longrightarrow> putOp B k bs n s = (Inr info, s') \<Longrightarrow>
      objs s k = None \<and> objs s' = (objs s)(k \<mapsto> bs) \<and> infoSize info = length bs \<and> binv s'"
    and put_err: "binv s \<Longrightarrow> good_key k \<Longrightarrow> putOp B k bs n s = (Inl e, s') \<Longrightarrow> objs s' = objs s \<and> binv s'"
    and put_taken: "binv s \<Longrightarrow> good_key k \<Longrightarrow> objs s k \<noteq> None \<Longrightarrow> \<exists>e s'. putOp B k bs n s = (Inl e, s')"
    and get_found: "binv s \<Longrightarrow> good_key k \<Longrightarrow> objs s k = Some bs \<Longrightarrow> \<exists>info. getOp B s k = Inr (bs, info)"
    and get_missing: "binv s \<Longrightarrow> good_key k \<Longrightarrow> objs s k = None \<Longrightarrow> \<exists>e. getOp B s k = Inl e"
    and exists_law: "binv s \<Longrightarrow> good_key k \<Longrightarrow> existsOp B s k = Inr (objs s k \<noteq> None)"
    and delete_ok: "binv s \<Longrightarrow> good_key k \<Longrightarrow> deleteOp B k s = (Inr u, s') \<Longrightarrow> objs s' = (objs s)(k := None) \<and> binv s'"
    and delete_err: "binv s \<Longrightarrow> good_key k \<Longrightarrow> deleteOp B k s = (Inl e, s') \<Longrightarrow> objs s' = objs s \<and> binv s'"
begin

lemma get_iff: "binv s \<Longrightarrow> good_key k \<Longrightarrow> getOp B s k = Inr (bs, info) \<Longrightarrow> objs s k = Some bs"
  using get_found [of s k] get_missing [of s k] by (cases "objs s k") fastforce+

end

section \<open>The in-memory backend\<close>

record memoryObject =
  objData :: bytes
  objInfo :: objectInfo

record memoryBackend =
  memName :: string
  memObjects :: "(string \<times> memoryObject) list"

definition NewMemoryBackend :: "string \<Rightarrow> memoryBackend" where
  "NewMemoryBackend nm = \<lparr>memName = nm, memObjects = []\<rparr>"

definition Memory_Put :: "(bytes \<Rightarrow> bytes) \<Rightarrow> int \<Rightarrow> string \<Rightarrow> bytes \<Rightarrow> int \<Rightarrow> (memoryBackend, storage_error, objectInfo) op" where
  "Memory_Put sha now key bs sz b =
     (case validateKey key of Inl e \<Rightarrow> (Inl e, b) | Inr _ \<Rightarrow>
      let written = length bs in
      if 0 \<le> sz \<and> int written \<noteq> sz then (Inl (SizeMismatch key written sz), b)
      else
        let info = \<lparr>infoKey = key, infoSize = written, infoETag = hexEncode (sha bs), infoUpdatedAt = now\<rparr> in
        if map_of (memObjects b) key \<noteq> None then (Inl (ObjectConflict key), b)
        else (Inr info, b\<lparr>memObjects := kv_upd key \<lparr>objData = bs, objInfo = info\<rparr> (memObjects b)\<rparr>))"

definition Memory_Get :: "memoryBackend \<Rightarrow> string \<Rightarrow> storage_error + bytes \<times> objectInfo" where
  "Memory_Get b key =
     (case validateKey key of Inl e \<Rightarrow> Inl e | Inr _ \<Rightarrow>
      (case map_of (memObjects b) key of None \<Rightarrow> Inl (ObjectNotFound key)
       | Some obj \<Rightarrow> Inr (objData obj, objInfo obj)))"

definition Memory_GetRange :: "memoryBackend \<Rightarrow> string \<Rightarrow> int \<Rightarrow> int \<Rightarrow> storage_error + bytes" where
  "Memory_GetRange b key off len =
     (case validateKey key of Inl e \<Rightarrow> Inl e | Inr _ \<Rightarrow>
      (case map_of (memObjects b) key of None \<Rightarrow> Inl (ObjectNotFound key)
       | Some obj \<Rightarrow>
           let n = int (length (objData obj)) in
           if off < 0 \<or> len < 0 \<or> off > n then Inl (InvalidRange off len)
           else
             let stop = off + len; stop' = (if stop > n then n else stop)
             in Inr (slice (objData obj) (nat off) (nat (stop' - off)))))"

definition Memory_Head :: "memoryBackend \<Rightarrow> string \<Rightarrow> storage_error + objectInfo" where
  "Memory_Head b key =
     (case validateKey key of Inl e \<Rightarrow> Inl e | Inr _ \<Rightarrow>
      (case map_of (memObjects b) key of None \<Rightarrow> Inl (ObjectNotFound key) | Some obj \<Rightarrow> Inr (objInfo obj)))"

definition Memory_Exists :: "memoryBackend \<Rightarrow> string \<Rightarrow> storage_error + bool" where
  "Memory_Exists b key =
     (case Memory_Head b key of
        Inr _ \<Rightarrow> Inr True
      | Inl e \<Rightarrow> (case e of ObjectNotFound _ \<Rightarrow> Inr False | _ \<Rightarrow> Inl e))"

definition Memory_Delete :: "string \<Rightarrow> (memoryBackend, storage_error, unit) op" where
  "Memory_Delete key b =
     (case validateKey key of Inl e \<Rightarrow> (Inl e, b) | Inr _ \<Rightarrow> (Inr (), b\<lparr>memObjects := kv_del key (memObjects b)\<rparr>))"

definition Memory_List :: "memoryBackend \<Rightarrow> string \<Rightarrow> string \<Rightarrow> storage_error + listPage" where
  "Memory_List b prefix token =
     Inr \<lparr>pageObjects = map (objInfo \<circ> snd)
            (filter (\<lambda>(key, obj). HasPrefix key prefix \<and> (token = [] \<or> token < key)) (memObjects b)),
          pageNextToken = []\<rparr>"

definition memoryOps :: "(bytes \<Rightarrow> bytes) \<Rightarrow> int \<Rightarrow> memoryBackend backend" where
  "memoryOps sha now =
     \<lparr>putOp = Memory_Put sha now, getOp = Memory_Get, getRangeOp = Memory_GetRange, headOp = Memory_Head,
      existsOp = Memory_Exists, deleteOp = Memory_Delete, listOp = Memory_List\<rparr>"

definition mem_objs :: "memoryBackend \<Rightarrow> string \<Rightarrow> bytes option" where
  "mem_objs b k = map_option objData (map_of (memObjects b) k)"

definition mem_inv :: "memoryBackend \<Rightarrow> bool" where
  "mem_inv b \<longleftrightarrow> kv_sorted (memObjects b)
     \<and> (\<forall>(k, obj) \<in> set (memObjects b). infoKey (objInfo obj) = k \<and> infoSize (objInfo obj) = length (objData obj))"

lemma NewMemoryBackend_ok: "mem_inv (NewMemoryBackend nm)" "mem_objs (NewMemoryBackend nm) k = None"
  by (simp_all add: mem_inv_def mem_objs_def NewMemoryBackend_def kv_simps)

interpretation mem: object_store "memoryOps sha now" mem_objs mem_inv key_ok for sha now
proof
  fix s s' :: memoryBackend and k bs n info
  assume *: "mem_inv s" "key_ok k" "putOp (memoryOps sha now) k bs n s = (Inr info, s')"
  hence so: "kv_sorted (memObjects s)" by (simp add: mem_inv_def)
  let ?o = "\<lparr>objData = bs, objInfo = info\<rparr>"
  have r: "map_of (memObjects s) k = None" "s' = s\<lparr>memObjects := kv_upd k ?o (memObjects s)\<rparr>"
    "infoSize info = length bs" "infoKey info = k"
    using *(2,3) by (auto simp: memoryOps_def Memory_Put_def Let_def key_ok_def split: if_splits)
  have "mem_objs s' = (mem_objs s)(k \<mapsto> bs)"
    using map_of_kv_upd [OF so] r(2) by (auto simp: mem_objs_def)
  moreover have "mem_inv s'"
    using *(1) r kv_sorted_kv_upd [OF so] set_kv_upd [OF so] by (auto simp: mem_inv_def)
  ultimately show "mem_objs s k = None \<and> mem_objs s' = (mem_objs s)(k \<mapsto> bs) \<and> infoSize info = length bs \<and> mem_inv s'"
    using r by (simp add: mem_objs_def)
next
  fix s s' :: memoryBackend and k bs n e
  assume "mem_inv s" "key_ok k" "putOp (memoryOps sha now) k bs n s = (Inl e, s')"
  thus "mem_objs s' = mem_objs s \<and> mem_inv s'"
    by (auto simp: memoryOps_def Memory_Put_def Let_def key_ok_def split: if_splits)
next
  fix s :: memoryBackend and k bs n
  assume "mem_inv s" "key_ok k" "mem_objs s k \<noteq> None"
  thus "\<exists>e s'. putOp (memoryOps sha now) k bs n s = (Inl e, s')"
    by (auto simp: memoryOps_def Memory_Put_def Let_def key_ok_def mem_objs_def)
next
  fix s s' :: memoryBackend and k u
  assume *: "mem_inv s" "key_ok k" "deleteOp (memoryOps sha now) k s = (Inr u, s')"
  have "mem_objs s' = (mem_objs s)(k := None)" "s' = s\<lparr>memObjects := kv_del k (memObjects s)\<rparr>"
    using *(2,3) by (auto simp: memoryOps_def Memory_Delete_def key_ok_def mem_objs_def map_of_kv_del)
  moreover have "mem_inv s'"
    using *(1) kv_sorted_kv_del calculation(2) by (auto simp: mem_inv_def set_kv_del)
  ultimately show "mem_objs s' = (mem_objs s)(k := None) \<and> mem_inv s'" by simp
qed (auto simp: memoryOps_def Memory_Get_def Memory_Exists_def Memory_Head_def Memory_Delete_def key_ok_def mem_objs_def
      split: option.splits)

end
