(* ===== verification/Envelope.thy ===== *)
theory Envelope
  imports Go_Strings
begin

text \<open>
  Encrypted chunk envelopes (\<open>internal/chunk/envelope.go\<close>) over the ciphers of
  \<open>internal/crypto/cipher.go\<close>. The authenticated encryption itself is a parameter, a record of
  its nonce size and its \<open>Seal\<close> and \<open>Open\<close>, with two laws where they are used: \<open>Open\<close>
  inverts \<open>Seal\<close>, and accepts nothing else. As Go's implementations do, it panics on a nonce of
  the wrong length. What \<open>crypto/rand\<close> returns is an argument.
\<close>

section \<open>Ciphers\<close>

datatype env_error =
    CipherRequired
  | KeyIDRequired
  | BadKeyLength string nat
  | RandomFailed string
  | UnsupportedCipher string
  | UnsupportedEnvelopeVersion byte
  | UnsupportedEnvelopeAlgorithm byte
  | BadNonceLength
  | BadKeyIDLength
  | EnvelopeTooShort string
  | InvalidEnvelopeMagic
  | EmptyNonce
  | EmptyKeyID
  | AlgorithmMismatch byte string
  | DecryptFailed string
  | NonceLengthPanic

record aead =
  aeadNonceSize :: nat
  aeadOverhead :: nat
  aeadSeal :: "bytes \<Rightarrow> bytes \<Rightarrow> bytes \<Rightarrow> bytes"
  aeadOpen :: "bytes \<Rightarrow> bytes \<Rightarrow> bytes \<Rightarrow> bytes option"

record cipher =
  cipherAlgorithm :: string
  cipherAead :: aead

definition AlgorithmAES256GCM :: string where "AlgorithmAES256GCM = ''aes-256-gcm''"

definition AlgorithmChaCha20Poly1305 :: string where "AlgorithmChaCha20Poly1305 = ''chacha20-poly1305''"

text \<open>The constructors, with the library's construction of the cipher from a 32-byte key.\<close>

definition NewAES256GCM :: "(bytes \<Rightarrow> aead) \<Rightarrow> bytes \<Rightarrow> env_error + cipher" where
  "NewAES256GCM gcm key =
     (if length key \<noteq> 32 then Inl (BadKeyLength AlgorithmAES256GCM (length key))
      else Inr \<lparr>cipherAlgorithm = AlgorithmAES256GCM, cipherAead = gcm key\<rparr>)"

definition NewChaCha20Poly1305 :: "(bytes \<Rightarrow> aead) \<Rightarrow> bytes \<Rightarrow> env_error + cipher" where
  "NewChaCha20Poly1305 chacha key =
     (if length key \<noteq> 32 then Inl (BadKeyLength AlgorithmChaCha20Poly1305 (length key))
      else Inr \<lparr>cipherAlgorithm = AlgorithmChaCha20Poly1305, cipherAead = chacha key\<rparr>)"

definition NonceSize :: "cipher \<Rightarrow> nat" where "NonceSize c = aeadNonceSize (cipherAead c)"

definition Overhead :: "cipher \<Rightarrow> nat" where "Overhead c = aeadOverhead (cipherAead c)"

definition Cipher_Seal :: "cipher \<Rightarrow> bytes \<Rightarrow> bytes \<Rightarrow> bytes \<Rightarrow> env_error + bytes" where
  "Cipher_Seal c nonce plaintext ad =
     (if length nonce \<noteq> NonceSize c then Inl NonceLengthPanic
      else Inr (aeadSeal (cipherAead c) nonce plaintext ad))"

definition Cipher_Open :: "cipher \<Rightarrow> bytes \<Rightarrow> bytes \<Rightarrow> bytes \<Rightarrow> env_error + bytes" where
  "Cipher_Open c nonce ciphertext ad =
     (if length nonce \<noteq> NonceSize c then Inl NonceLengthPanic
      else (case aeadOpen (cipherAead c) nonce ciphertext ad of
              None \<Rightarrow> Inl (DecryptFailed (cipherAlgorithm c))
            | Some p \<Rightarrow> Inr p))"

text \<open>\<open>random\<close> is what the random source yields, at least as long as the nonce, or fails with.\<close>

definition NewNonce :: "cipher \<Rightarrow> bytes option \<Rightarrow> env_error + bytes" where
  "NewNonce c random =
     (case random of None \<Rightarrow> Inl (RandomFailed (cipherAlgorithm c))
      | Some bs \<Rightarrow> if length bs < NonceSize c then Inl (RandomFailed (cipherAlgorithm c))
                  else Inr (take (NonceSize c) bs))"

section \<open>Envelopes\<close>

definition envelopeMagic :: bytes where "envelopeMagic = bytes_of ''KCHK''"

definition EnvelopeVersion :: byte where "EnvelopeVersion = 1"

definition algorithmAES256GCM :: byte where "algorithmAES256GCM = 2"

definition algorithmChaCha20 :: byte where "algorithmChaCha20 = 3"

record envelopeHeader =
  Version :: byte
  Algorithm :: byte
  KeyID :: string
  Nonce :: bytes

definition envelopeAlgorithm :: "string \<Rightarrow> env_error + byte" where
  "envelopeAlgorithm nm =
     (if nm = AlgorithmAES256GCM then Inr algorithmAES256GCM
      else if nm = AlgorithmChaCha20Poly1305 then Inr algorithmChaCha20
      else Inl (UnsupportedCipher nm))"

definition marshalHeader :: "envelopeHeader \<Rightarrow> env_error + bytes" where
  "marshalHeader h =
     (if Version h \<noteq> EnvelopeVersion then Inl (UnsupportedEnvelopeVersion (Version h))
      else if Algorithm h \<noteq> algorithmAES256GCM \<and> Algorithm h \<noteq> algorithmChaCha20
      then Inl (UnsupportedEnvelopeAlgorithm (Algorithm h))
      else if Nonce h = [] \<or> length (Nonce h) > 255 then Inl BadNonceLength
      else if KeyID h = [] \<or> length (KeyID h) > 65535 then Inl BadKeyIDLength
      else Inr (envelopeMagic @ [Version h, Algorithm h, of_nat (length (Nonce h))]
                @ putBE 2 (length (KeyID h)) @ Nonce h @ bytes_of (KeyID h)))"

definition makeAdditionalData :: "bytes \<Rightarrow> bytes \<Rightarrow> bytes" where
  "makeAdditionalData header ad = header @ ad"

definition ParseEnvelopeHeader :: "bytes \<Rightarrow> env_error + envelopeHeader \<times> nat" where
  "ParseEnvelopeHeader env =
     (if length env < 4 then Inl (EnvelopeTooShort ''magic'')
      else if slice env 0 4 \<noteq> envelopeMagic then Inl InvalidEnvelopeMagic
      else if length env < 5 then Inl (EnvelopeTooShort ''version'')
      else if env ! 4 \<noteq> EnvelopeVersion then Inl (UnsupportedEnvelopeVersion (env ! 4))
      else if length env < 6 then Inl (EnvelopeTooShort ''algorithm'')
      else if length env < 7 then Inl (EnvelopeTooShort ''nonce length'')
      else if length env < 9 then Inl (EnvelopeTooShort ''key id length'')
      else
        let nonceLen = unat (env ! 6); keyLen = getBE (slice env 7 2) in
        if nonceLen = 0 then Inl EmptyNonce
        else if keyLen = 0 then Inl EmptyKeyID
        else if length env < 9 + nonceLen then Inl (EnvelopeTooShort ''nonce'')
        else if length env < 9 + nonceLen + keyLen then Inl (EnvelopeTooShort ''key id'')
        else Inr (\<lparr>Version = env ! 4, Algorithm = env ! 5, KeyID = str_of (slice env (9 + nonceLen) keyLen),
                    Nonce = slice env 9 nonceLen\<rparr>, 9 + nonceLen + keyLen))"

definition SealEnvelope :: "cipher option \<Rightarrow> bytes option \<Rightarrow> string \<Rightarrow> bytes \<Rightarrow> bytes \<Rightarrow> env_error + bytes" where
  "SealEnvelope cip random keyID plaintext ad =
     (case cip of None \<Rightarrow> Inl CipherRequired | Some c \<Rightarrow>
      if keyID = [] then Inl KeyIDRequired
      else (case envelopeAlgorithm (cipherAlgorithm c) of Inl e \<Rightarrow> Inl e | Inr alg \<Rightarrow>
       (case NewNonce c random of Inl e \<Rightarrow> Inl e | Inr nonce \<Rightarrow>
        (case marshalHeader \<lparr>Version = EnvelopeVersion, Algorithm = alg, KeyID = keyID, Nonce = nonce\<rparr> of
           Inl e \<Rightarrow> Inl e
         | Inr hb \<Rightarrow>
             (case Cipher_Seal c nonce plaintext (makeAdditionalData hb ad) of
                Inl e \<Rightarrow> Inl e | Inr ct \<Rightarrow> Inr (hb @ ct))))))"

definition OpenEnvelope :: "cipher option \<Rightarrow> bytes \<Rightarrow> bytes \<Rightarrow> env_error + bytes \<times> envelopeHeader" where
  "OpenEnvelope cip env ad =
     (case cip of None \<Rightarrow> Inl CipherRequired | Some c \<Rightarrow>
      (case ParseEnvelopeHeader env of Inl e \<Rightarrow> Inl e | Inr (h, hl) \<Rightarrow>
       (case envelopeAlgorithm (cipherAlgorithm c) of Inl e \<Rightarrow> Inl e | Inr alg \<Rightarrow>
        if Algorithm h \<noteq> alg then Inl (AlgorithmMismatch (Algorithm h) (cipherAlgorithm c))
        else (case Cipher_Open c (Nonce h) (drop hl env) (makeAdditionalData (take hl env) ad) of
                Inl e \<Rightarrow> Inl e | Inr p \<Rightarrow> Inr (p, h)))))"

section \<open>What authenticated encryption promises\<close>

definition aead_opens :: "aead \<Rightarrow> bool" where
  "aead_opens A \<longleftrightarrow> (\<forall>n p ad. length n = aeadNonceSize A \<longrightarrow> aeadOpen A n (aeadSeal A n p ad) ad = Some p)"

definition aead_authentic :: "aead \<Rightarrow> bool" where
  "aead_authentic A \<longleftrightarrow>
     (\<forall>n ct p ad. length n = aeadNonceSize A \<and> aeadOpen A n ct ad = Some p \<longrightarrow> ct = aeadSeal A n p ad)"

section \<open>Headers\<close>

lemma length_envelopeMagic [simp]: "length envelopeMagic = 4"
  by (simp add: envelopeMagic_def)

lemma marshalHeader_length: "marshalHeader h = Inr hb \<Longrightarrow> length hb = 9 + length (Nonce h) + length (KeyID h)"
  by (auto simp: marshalHeader_def split: if_splits)

lemma nonce_len_byte: "n \<le> 255 \<Longrightarrow> unat (of_nat n :: byte) = n"
  by (simp add: unat_of_nat)

lemma parse_marshal:
  assumes "marshalHeader h = Inr hb"
  shows "ParseEnvelopeHeader (hb @ rest) = Inr (h, length hb)"
proof -
  let ?n = "length (Nonce h)" and ?k = "length (KeyID h)"
  have v: "Version h = EnvelopeVersion" "0 < ?n" "?n \<le> 255" "0 < ?k" "?k < 256 ^ 2"
    and hb: "hb = envelopeMagic @ [Version h, Algorithm h, of_nat ?n] @ putBE 2 ?k @ Nonce h @ bytes_of (KeyID h)"
    using assms by (auto simp: marshalHeader_def split: if_splits)
  let ?env = "hb @ rest"
  have len: "length hb = 9 + ?n + ?k" by (rule marshalHeader_length [OF assms])
  define pre where "pre = envelopeMagic @ [Version h, Algorithm h, of_nat ?n] @ putBE 2 ?k"
  have pre: "hb = pre @ Nonce h @ bytes_of (KeyID h)" "length pre = 9" by (simp_all add: pre_def hb)
  have f1: "slice ?env 0 4 = envelopeMagic" "?env ! 4 = Version h" "?env ! 5 = Algorithm h" "?env ! 6 = of_nat ?n"
    "slice ?env 7 2 = putBE 2 ?k"
    by (simp_all add: hb nth_append slice_def)
  have f2: "slice ?env 9 ?n = Nonce h" "slice ?env (9 + ?n) ?k = bytes_of (KeyID h)"
    using pre by (simp_all add: slice_def)
  note f = f1 f2
  show ?thesis
    using v len nonce_len_byte [OF v(3)] getBE_putBE [OF v(5)]
    by (simp add: ParseEnvelopeHeader_def f Let_def)
qed

lemma ParseEnvelopeHeader_Inr:
  assumes "ParseEnvelopeHeader env = Inr (h, hl)" "Algorithm h = algorithmAES256GCM \<or> Algorithm h = algorithmChaCha20"
  shows "marshalHeader h = Inr (take hl env)" "hl \<le> length env"
proof -
  let ?n = "unat (env ! 6)" and ?k = "getBE (slice env 7 2)"
  have c: "9 + ?n + ?k \<le> length env" "slice env 0 4 = envelopeMagic" "env ! 4 = EnvelopeVersion" "?n \<noteq> 0" "?k \<noteq> 0"
    and h: "h = \<lparr>Version = env ! 4, Algorithm = env ! 5, KeyID = str_of (slice env (9 + ?n) ?k), Nonce = slice env 9 ?n\<rparr>"
    and hl: "hl = 9 + ?n + ?k"
    using assms(1) by (auto simp: ParseEnvelopeHeader_def Let_def split: if_splits)
  show "hl \<le> length env" using c hl by simp
  have k: "?k < 65536" using getLE_bound [of "rev (slice env 7 2)"] c(1) by (simp add: getBE_def)
  have n: "?n < 256" by (rule unat_byte_less)
  have pk: "putBE 2 ?k = slice env 7 2"
    using putLE_getLE [of "rev (slice env 7 2)"] c(1) by (simp add: putBE_def getBE_def)
  have ne: "str_of (slice env (9 + ?n) ?k) \<noteq> []" "slice env 9 ?n \<noteq> []"
    using c(1,4,5) by (auto simp: slice_def str_of_def)
  have t7: "take 7 env = slice env 0 4 @ [env ! 4, env ! 5, env ! 6]"
  proof -
    have "take (Suc 4) env = take 4 env @ [env ! 4]" "take (Suc 5) env = take 5 env @ [env ! 5]"
        "take (Suc 6) env = take 6 env @ [env ! 6]"
      using c(1) by (intro take_Suc_conv_app_nth; simp)+
    thus ?thesis by (simp add: slice_def)
  qed
  have "take hl env = take 7 env @ slice env 7 2 @ slice env 9 ?n @ slice env (9 + ?n) ?k"
    using take_add [of 7 2 env] take_add [of 9 ?n env] take_add [of "9 + ?n" ?k env] by (simp add: hl slice_def)
  thus "marshalHeader h = Inr (take hl env)"
    using c n k assms(2) pk t7 ne by (simp add: marshalHeader_def h)
qed

section \<open>Sealing and opening\<close>

lemma SealEnvelope_Inr:
  assumes "SealEnvelope (Some c) random keyID p ad = Inr env"
  obtains h hb where "marshalHeader h = Inr hb" "envelopeAlgorithm (cipherAlgorithm c) = Inr (Algorithm h)" "KeyID h = keyID"
    "NewNonce c random = Inr (Nonce h)" "length (Nonce h) = NonceSize c" "Version h = EnvelopeVersion"
    "env = hb @ aeadSeal (cipherAead c) (Nonce h) p (hb @ ad)"
proof -
  obtain alg nonce hb where *: "envelopeAlgorithm (cipherAlgorithm c) = Inr alg" "NewNonce c random = Inr nonce"
      "marshalHeader \<lparr>Version = EnvelopeVersion, Algorithm = alg, KeyID = keyID, Nonce = nonce\<rparr> = Inr hb"
      "length nonce = NonceSize c" "env = hb @ aeadSeal (cipherAead c) nonce p (hb @ ad)"
    using assms by (auto simp: SealEnvelope_def Cipher_Seal_def makeAdditionalData_def split: if_splits sum.splits)
  show thesis
    by (rule that [of "\<lparr>Version = EnvelopeVersion, Algorithm = alg, KeyID = keyID, Nonce = nonce\<rparr>" hb]) (use * in simp_all)
qed

lemma Open_Seal:
  assumes "aead_opens (cipherAead c)" "SealEnvelope (Some c) random keyID p ad = Inr env"
  shows "\<exists>h. OpenEnvelope (Some c) env ad = Inr (p, h) \<and> KeyID h = keyID"
proof -
  obtain h hb where h: "marshalHeader h = Inr hb" "envelopeAlgorithm (cipherAlgorithm c) = Inr (Algorithm h)" "KeyID h = keyID"
      "length (Nonce h) = NonceSize c" "env = hb @ aeadSeal (cipherAead c) (Nonce h) p (hb @ ad)"
    by (rule SealEnvelope_Inr [OF assms(2)])
  thus ?thesis using parse_marshal [OF h(1)] assms(1)
    by (simp add: OpenEnvelope_def Cipher_Open_def makeAdditionalData_def aead_opens_def NonceSize_def)
qed

lemma Open_only_sealed:
  assumes "aead_authentic (cipherAead c)" "OpenEnvelope (Some c) env ad = Inr (p, h)"
  shows "SealEnvelope (Some c) (Some (Nonce h)) (KeyID h) p ad = Inr env"
proof -
  obtain hl where ph: "ParseEnvelopeHeader env = Inr (h, hl)" and alg: "envelopeAlgorithm (cipherAlgorithm c) = Inr (Algorithm h)"
    and n: "length (Nonce h) = NonceSize c" and op: "aeadOpen (cipherAead c) (Nonce h) (drop hl env) (take hl env @ ad) = Some p"
    using assms(2) by (auto simp: OpenEnvelope_def Cipher_Open_def makeAdditionalData_def split: sum.splits if_splits option.splits)
  have a: "Algorithm h = algorithmAES256GCM \<or> Algorithm h = algorithmChaCha20"
    using alg by (auto simp: envelopeAlgorithm_def split: if_splits)
  note m = ParseEnvelopeHeader_Inr [OF ph a]
  have ct: "drop hl env = aeadSeal (cipherAead c) (Nonce h) p (take hl env @ ad)"
    using assms(1) n op by (auto simp: aead_authentic_def NonceSize_def)
  have k: "KeyID h \<noteq> []" "Version h = EnvelopeVersion" using m(1) by (auto simp: marshalHeader_def split: if_splits)
  hence "marshalHeader \<lparr>Version = EnvelopeVersion, Algorithm = Algorithm h, KeyID = KeyID h, Nonce = Nonce h\<rparr> = Inr (take hl env)"
    using m(1) by (cases h) simp
  moreover have "take hl env @ aeadSeal (cipherAead c) (Nonce h) p (take hl env @ ad) = env"
    using append_take_drop_id [of hl env] ct by simp
  ultimately show ?thesis using k alg n
    by (simp add: SealEnvelope_def NewNonce_def Cipher_Seal_def makeAdditionalData_def)
qed

section \<open>A changed nonce length\<close>

text \<open>One byte of the header holds the length of the nonce. Increasing it makes \<open>OpenEnvelope\<close> pass
  a nonce of the wrong length on, which panics.\<close>

lemma Open_tampered_nonce:
  assumes "SealEnvelope (Some c) random keyID p ad = Inr env" "NonceSize c < 255"
    "\<And>n q a. aeadSeal (cipherAead c) n q a \<noteq> []"
  shows "OpenEnvelope (Some c) (env[6 := env ! 6 + 1]) ad = Inl NonceLengthPanic"
proof -
  obtain h hb where h: "marshalHeader h = Inr hb" "envelopeAlgorithm (cipherAlgorithm c) = Inr (Algorithm h)" "KeyID h = keyID"
      "NewNonce c random = Inr (Nonce h)" "length (Nonce h) = NonceSize c" "Version h = EnvelopeVersion"
      "env = hb @ aeadSeal (cipherAead c) (Nonce h) p (hb @ ad)"
    by (rule SealEnvelope_Inr [OF assms(1)])
  let ?n = "length (Nonce h)" and ?k = "length (KeyID h)" and ?ct = "aeadSeal (cipherAead c) (Nonce h) p (hb @ ad)"
  let ?env = "env[6 := env ! 6 + 1]"
  have v: "0 < ?n" "?n \<le> 255" "0 < ?k" "?k < 256 ^ 2"
    and hb: "hb = envelopeMagic @ [Version h, Algorithm h, of_nat ?n] @ putBE 2 ?k @ Nonce h @ bytes_of (KeyID h)"
    using h(1) by (auto simp: marshalHeader_def split: if_splits)
  have len: "length hb = 9 + ?n + ?k" by (rule marshalHeader_length [OF h(1)])
  have ct: "0 < length ?ct" using assms(3) by simp
  have f: "slice ?env 0 4 = envelopeMagic" "?env ! 4 = EnvelopeVersion" "?env ! 5 = Algorithm h" "slice ?env 7 2 = putBE 2 ?k"
    using h(6,7) by (simp_all add: hb nth_append slice_def list_update_append)
  have "?env ! 6 = of_nat (?n + 1)" using h(7) by (simp add: hb nth_append)
  hence n1: "unat (?env ! 6) = ?n + 1" using nonce_len_byte [of "?n + 1"] assms(2) h(5) by simp
  obtain h' hl where ph: "ParseEnvelopeHeader ?env = Inr (h', hl)" "Nonce h' = slice ?env 9 (?n + 1)" "Algorithm h' = Algorithm h"
    using v len ct f n1 h(7) getBE_putBE [OF v(4)]
    by (simp add: ParseEnvelopeHeader_def Let_def)
  have "9 + (?n + 1) \<le> length ?env" using len v(3) arg_cong [OF h(7), of length] by (simp del: length_greater_0_conv)
  hence "length (Nonce h') = ?n + 1" unfolding ph(2) by (simp only: length_slice)
  thus ?thesis using ph(1,3) h(2,5) by (simp add: OpenEnvelope_def Cipher_Open_def)
qed

end
