(* ===== verification/Pipeline.thy ===== *)
theory Pipeline
  imports FastCDC Chunk_Index Storage Envelope "HOL-Library.Multiset"
begin

text \<open>
  The chunk pipeline (\<open>internal/chunk/pipeline.go\<close>, \<open>hash.go\<close>, and the compressors of
  \<open>internal/compress\<close>): \<open>Feed\<close> cuts a stream into chunks and runs them through hash, encode and
  upload workers; \<open>Restore\<close> reads them back.

  The workers run concurrently, so \<open>Feed\<close> is a step relation: a step takes any chunk out of one
  of the channels and puts the outcome of its worker function into the next one. Every order in
  which the workers can process the chunks is a run of it. The worker functions are the code's;
  the hooks that replace them in tests are left out. BLAKE3, the compression libraries, the
  authenticated encryption and the random source are parameters.
\<close>

section \<open>Hashes\<close>

definition HashSize :: nat where "HashSize = 32"

definition Hash_String :: "bytes \<Rightarrow> string" where "Hash_String h = hexEncode h"

definition ParseHash :: "string \<Rightarrow> bytes option" where
  "ParseHash v =
     (case hexDecode v of None \<Rightarrow> None
      | Some bs \<Rightarrow> if length bs \<noteq> HashSize then None else Some bs)"

definition contentKey :: "bytes \<Rightarrow> string" where
  "contentKey h =
     (let v = Hash_String h in ''data/'' @ take 2 v @ ''/'' @ take 2 (drop 2 v) @ ''/'' @ v)"

lemma ParseHash_String: "length h = HashSize \<Longrightarrow> ParseHash (Hash_String h) = Some h"
  by (simp add: ParseHash_def Hash_String_def)

lemma contentKey_inj: "length h = 32 \<Longrightarrow> length h' = 32 \<Longrightarrow> contentKey h = contentKey h' \<Longrightarrow> h = h'"
  by (auto simp: contentKey_def Hash_String_def Let_def)

lemma contentKey_ok:
  assumes "length h = 32"
  shows "key_ok (contentKey h)"
proof (rule plain_key_ok(2))
  let ?v = "hexEncode h"
  have d: "CHR ''/'' \<notin> set hexDigits" "CHR ''.'' \<notin> set hexDigits" "CHR 0x5C \<notin> set hexDigits"
    by (simp_all add: hexDigits_def)
  have sub: "set (take n ?v) \<subseteq> set hexDigits" "set (take n (drop m ?v)) \<subseteq> set hexDigits" "set ?v \<subseteq> set hexDigits" for n m
    using hexEncode_chars set_take_subset set_drop_subset by fast+
  have p: "plain_seg x" if "x \<noteq> []" "set x \<subseteq> set hexDigits" for x
    using that d by (auto simp: plain_seg_def)
  have "splitOn CHR ''/'' (contentKey h) = [''data'', take 2 ?v, take 2 (drop 2 ?v), ?v]"
  proof -
    have "CHR ''/'' \<notin> set (take 2 ?v)" "CHR ''/'' \<notin> set (take 2 (drop 2 ?v))" "CHR ''/'' \<notin> set ?v"
      using sub d(1) by blast+
    thus ?thesis
      by (simp add: contentKey_def Hash_String_def Let_def splitOn_append splitOn_no_sep)
  qed
  moreover have "length ?v = 64" using assms by simp
  hence "0 < length (take 2 ?v)" "0 < length (take 2 (drop 2 ?v))" "0 < length ?v" by simp_all
  hence "take 2 ?v \<noteq> []" "take 2 (drop 2 ?v) \<noteq> []" "?v \<noteq> []" by blast+
  moreover have "plain_seg ''data''" by (simp add: plain_seg_def)
  ultimately show "\<forall>x \<in> set (splitOn CHR ''/'' (contentKey h)). plain_seg x"
    using p sub by simp
  have "CHR 0x5C \<notin> set (take 2 ?v)" "CHR 0x5C \<notin> set (take 2 (drop 2 ?v))" "CHR 0x5C \<notin> set ?v"
    using sub d(3) by blast+
  thus "CHR 0x5C \<notin> set (contentKey h)" by (simp add: contentKey_def Hash_String_def Let_def)
qed

section \<open>Compressors\<close>

definition AlgorithmNone :: string where "AlgorithmNone = ''none''"

definition AlgorithmGzip :: string where "AlgorithmGzip = ''gzip''"

definition AlgorithmZstd :: string where "AlgorithmZstd = ''zstd''"

text \<open>A compressor as what writing data to it and closing it produces, and what reading its output
  back gives.\<close>

record compressor =
  compAlgorithm :: string
  compressFn :: "bytes \<Rightarrow> bytes option"
  decompressFn :: "bytes \<Rightarrow> bytes option"

definition noneCompressor :: compressor where
  "noneCompressor = \<lparr>compAlgorithm = AlgorithmNone, compressFn = Some, decompressFn = Some\<rparr>"

record compressLib =
  gzipCompress :: "bytes \<Rightarrow> bytes option"
  gzipDecompress :: "bytes \<Rightarrow> bytes option"
  zstdCompress :: "bytes \<Rightarrow> bytes option"
  zstdDecompress :: "bytes \<Rightarrow> bytes option"

definition compress_New :: "compressLib \<Rightarrow> string \<Rightarrow> string + compressor" where
  "compress_New L alg =
     (if alg = AlgorithmNone then Inr noneCompressor
      else if alg = AlgorithmGzip
      then Inr \<lparr>compAlgorithm = AlgorithmGzip, compressFn = gzipCompress L, decompressFn = gzipDecompress L\<rparr>
      else if alg = AlgorithmZstd
      then Inr \<lparr>compAlgorithm = AlgorithmZstd, compressFn = zstdCompress L, decompressFn = zstdDecompress L\<rparr>
      else Inl alg)"

section \<open>Chunks on their way\<close>

record pipelineChunk =
  pcSequence :: nat
  pcOffset :: nat
  pcSize :: nat
  pcData :: bytes

record hashedChunk = pipelineChunk +
  hcHash :: bytes
  hcDuplicate :: bool

record encodedChunk = hashedChunk +
  ecKey :: string
  ecCompression :: string
  ecEncryption :: string
  ecKeyID :: string
  ecPayload :: bytes

record chunkRef =
  rSequence :: nat
  rHash :: bytes
  rKey :: string
  rOffset :: int
  rSize :: int
  rStoredSize :: int
  rETag :: string
  rCompression :: string
  rEncryption :: string
  rKeyID :: string
  rDuplicate :: bool

record stats =
  stChunks :: nat
  stBytesIn :: int
  stUploadedChunks :: nat
  stDedupedChunks :: nat
  stBytesUploaded :: int

definition zeroStats :: stats where
  "zeroStats = \<lparr>stChunks = 0, stBytesIn = 0, stUploadedChunks = 0, stDedupedChunks = 0, stBytesUploaded = 0\<rparr>"

record 'b pipeline =
  Chunker :: "fastcdc option"
  Compressor :: "compressor option"
  Cipher :: "cipher option"
  PKeyID :: string
  Backend :: "'b backend option"
  Concurrency :: int

datatype pipe_error =
    InputFailed chunk_error
  | InputCancelled
  | HashCancelled nat
  | EncodeCancelled nat
  | UploadCancelled nat
  | EncodeCipherRequired nat
  | EncodeKeyIDRequired nat
  | CompressFailed nat
  | SealFailed nat env_error
  | UploadBackendRequired nat
  | UploadFailed nat storage_error
  | BackendRequired
  | RestoreCipherRequired
  | EmptyChunkKey nat
  | GetFailed nat storage_error
  | OpenFailed nat env_error
  | UnknownCompression nat string
  | DecompressFailed nat
  | HashMismatch nat
  | ChunkSizeMismatch nat

section \<open>Worker functions\<close>

text \<open>\<open>chunkFunc\<close>: number the chunks of the chunker.\<close>

fun numberChunks :: "nat \<Rightarrow> chunk list \<Rightarrow> pipelineChunk list" where
  "numberChunks n [] = []"
| "numberChunks n (c # cs) =
     \<lparr>pcSequence = n, pcOffset = Offset c, pcSize = Size c, pcData = Data c\<rparr> # numberChunks (n + 1) cs"

text \<open>The deduplication state: the index of the pipeline, or the set of the hashes seen in this run.\<close>

datatype dedupState = WithIndex chunkIndex | Seen "bytes set"

fun dedupAdd :: "bytes \<Rightarrow> dedupState \<Rightarrow> bool \<times> dedupState" where
  "dedupAdd h (WithIndex i) = (case Index_Add h i of (new, i') \<Rightarrow> (new, WithIndex i'))"
| "dedupAdd h (Seen s) = (case seenAdd h s of (new, s') \<Rightarrow> (new, Seen s'))"

definition hashFunc :: "(bytes \<Rightarrow> bytes) \<Rightarrow> dedupState \<Rightarrow> pipelineChunk \<Rightarrow> hashedChunk \<times> dedupState" where
  "hashFunc H d c =
     (let h = H (pcData c) in
      case dedupAdd h d of (new, d') \<Rightarrow>
        (\<lparr>pcSequence = pcSequence c, pcOffset = pcOffset c, pcSize = pcSize c, pcData = pcData c,
          hcHash = h, hcDuplicate = (\<not> new)\<rparr>, d'))"

definition pipeCompressor :: "'b pipeline \<Rightarrow> compressor" where
  "pipeCompressor p = (case Compressor p of None \<Rightarrow> noneCompressor | Some c \<Rightarrow> c)"

definition encodeWith :: "hashedChunk \<Rightarrow> string \<Rightarrow> string \<Rightarrow> string \<Rightarrow> bytes \<Rightarrow> encodedChunk" where
  "encodeWith c cmp enc keyID payload =
     \<lparr>pcSequence = pcSequence c, pcOffset = pcOffset c, pcSize = pcSize c, pcData = pcData c,
      hcHash = hcHash c, hcDuplicate = hcDuplicate c, ecKey = contentKey (hcHash c),
      ecCompression = cmp, ecEncryption = enc, ecKeyID = keyID, ecPayload = payload\<rparr>"

definition encodeFunc :: "'b pipeline \<Rightarrow> bytes option \<Rightarrow> hashedChunk \<Rightarrow> pipe_error + encodedChunk" where
  "encodeFunc p random c =
     (let cmp = pipeCompressor p in
      if hcDuplicate c then
        Inr (case Cipher p of
               None \<Rightarrow> encodeWith c (compAlgorithm cmp) [] [] []
             | Some cip \<Rightarrow> encodeWith c (compAlgorithm cmp) (cipherAlgorithm cip) (PKeyID p) [])
      else (case Cipher p of
              None \<Rightarrow> Inl (EncodeCipherRequired (pcSequence c))
            | Some cip \<Rightarrow>
                if PKeyID p = [] then Inl (EncodeKeyIDRequired (pcSequence c))
                else (case compressFn cmp (pcData c) of
                        None \<Rightarrow> Inl (CompressFailed (pcSequence c))
                      | Some z \<Rightarrow>
                          (case SealEnvelope (Some cip) random (PKeyID p) z (hcHash c) of
                             Inl e \<Rightarrow> Inl (SealFailed (pcSequence c) e)
                           | Inr payload \<Rightarrow>
                               Inr (encodeWith c (compAlgorithm cmp) (cipherAlgorithm cip) (PKeyID p) payload)))))"

definition refOf :: "encodedChunk \<Rightarrow> nat \<Rightarrow> string \<Rightarrow> chunkRef" where
  "refOf c stored etag =
     \<lparr>rSequence = pcSequence c, rHash = hcHash c, rKey = ecKey c, rOffset = int (pcOffset c), rSize = int (pcSize c),
      rStoredSize = int stored, rETag = etag, rCompression = ecCompression c, rEncryption = ecEncryption c,
      rKeyID = ecKeyID c, rDuplicate = hcDuplicate c\<rparr>"

definition uploadFunc :: "'b pipeline \<Rightarrow> encodedChunk \<Rightarrow> ('b, pipe_error, chunkRef) op" where
  "uploadFunc p c b =
     (if hcDuplicate c then (Inr (refOf c 0 []), b)
      else (case Backend p of
              None \<Rightarrow> (Inl (UploadBackendRequired (pcSequence c)), b)
            | Some B \<Rightarrow>
                (case putOp B (ecKey c) (ecPayload c) (int (length (ecPayload c))) b of
                   (Inl e, b') \<Rightarrow> (Inl (UploadFailed (pcSequence c) e), b')
                 | (Inr info, b') \<Rightarrow> (Inr (refOf c (infoSize info) (infoETag info)), b'))))"

text \<open>The counters the collecting loop of \<open>Feed\<close> keeps.\<close>

definition countRef :: "chunkRef \<Rightarrow> stats \<Rightarrow> stats" where
  "countRef r st =
     (let st1 = st\<lparr>stChunks := stChunks st + 1, stBytesIn := stBytesIn st + rSize r\<rparr> in
      if rDuplicate r then st1\<lparr>stDedupedChunks := stDedupedChunks st1 + 1\<rparr>
      else st1\<lparr>stUploadedChunks := stUploadedChunks st1 + 1, stBytesUploaded := stBytesUploaded st1 + rStoredSize r\<rparr>)"

section \<open>The running pipeline\<close>

text \<open>\<open>Feed\<close> runs a source, and \<open>workers\<close> goroutines for each of hashing, encoding and uploading, joined by
  channels. A state holds what the source has still to send (with the error that ends it), what
  waits in each channel, how many workers of each stage run, what the collecting loop has, the
  deduplication state, the backend, the first error, whether the context of the workers is cancelled, and
  whether the caller cancelled it. A step
  is one worker taking an item, working on it and handing it on; workers of one stage overtake each
  other, so any item of a channel may be next, and the channels have no bound here.\<close>

record 'b pipeState =
  pending :: "pipelineChunk list"
  srcErr :: "chunk_error option"
  chunkCh :: "pipelineChunk list"
  hashers :: nat
  hashCh :: "hashedChunk list"
  encoders :: nat
  encodeCh :: "encodedChunk list"
  uploaders :: nat
  refs :: "chunkRef list"
  counts :: stats
  dstate :: dedupState
  store :: 'b
  firstErr :: "pipe_error option"
  cancelled :: bool
  ctxCancelled :: bool

definition fail :: "pipe_error \<Rightarrow> 'b pipeState \<Rightarrow> 'b pipeState" where
  "fail e s = s\<lparr>firstErr := (case firstErr s of None \<Rightarrow> Some e | Some x \<Rightarrow> Some x), cancelled := True\<rparr>"

text \<open>A worker whose context is cancelled while it hands its item on returns without calling
  \<open>fail\<close>: the item is lost. These are the steps named \<open>dropped\<close>.\<close>

inductive feed_step :: "(bytes \<Rightarrow> bytes) \<Rightarrow> 'b pipeline \<Rightarrow> 'b pipeState \<Rightarrow> 'b pipeState \<Rightarrow> bool"
  for H :: "bytes \<Rightarrow> bytes" and p :: "'b pipeline" where
  cancel: "\<not> cancelled s \<Longrightarrow> feed_step H p s (s\<lparr>cancelled := True, ctxCancelled := True\<rparr>)"
| send: "pending s = c # cs \<Longrightarrow> feed_step H p s (s\<lparr>pending := cs, chunkCh := chunkCh s @ [c]\<rparr>)"
| send_cancelled: "cancelled s \<Longrightarrow> pending s = c # cs \<Longrightarrow>
    feed_step H p s (fail InputCancelled (s\<lparr>pending := [], srcErr := None\<rparr>))"
| input_fails: "pending s = [] \<Longrightarrow> srcErr s = Some e \<Longrightarrow>
    feed_step H p s (fail (InputFailed e) (s\<lparr>srcErr := None\<rparr>))"
| hash: "0 < hashers s \<Longrightarrow> chunkCh s = xs @ c # ys \<Longrightarrow> hashFunc H (dstate s) c = (h, d') \<Longrightarrow>
    feed_step H p s (s\<lparr>chunkCh := xs @ ys, hashCh := hashCh s @ [h], dstate := d'\<rparr>)"
| hash_cancelled: "0 < hashers s \<Longrightarrow> chunkCh s = xs @ c # ys \<Longrightarrow> cancelled s \<Longrightarrow>
    feed_step H p s (fail (HashCancelled (pcSequence c)) (s\<lparr>chunkCh := xs @ ys, hashers := hashers s - 1\<rparr>))"
| hash_dropped: "0 < hashers s \<Longrightarrow> chunkCh s = xs @ c # ys \<Longrightarrow> hashFunc H (dstate s) c = (h, d') \<Longrightarrow> cancelled s \<Longrightarrow>
    feed_step H p s (s\<lparr>chunkCh := xs @ ys, hashers := hashers s - 1, dstate := d'\<rparr>)"
| encode: "0 < encoders s \<Longrightarrow> hashCh s = xs @ h # ys \<Longrightarrow> encodeFunc p random h = Inr e \<Longrightarrow>
    feed_step H p s (s\<lparr>hashCh := xs @ ys, encodeCh := encodeCh s @ [e]\<rparr>)"
| encode_fails: "0 < encoders s \<Longrightarrow> hashCh s = xs @ h # ys \<Longrightarrow> encodeFunc p random h = Inl err \<Longrightarrow>
    feed_step H p s (fail err (s\<lparr>hashCh := xs @ ys, encoders := encoders s - 1\<rparr>))"
| encode_cancelled: "0 < encoders s \<Longrightarrow> hashCh s = xs @ h # ys \<Longrightarrow> cancelled s \<Longrightarrow>
    feed_step H p s (fail (EncodeCancelled (pcSequence h)) (s\<lparr>hashCh := xs @ ys, encoders := encoders s - 1\<rparr>))"
| encode_dropped: "0 < encoders s \<Longrightarrow> hashCh s = xs @ h # ys \<Longrightarrow> encodeFunc p random h = Inr e \<Longrightarrow> cancelled s \<Longrightarrow>
    feed_step H p s (s\<lparr>hashCh := xs @ ys, encoders := encoders s - 1\<rparr>)"
| upload: "0 < uploaders s \<Longrightarrow> encodeCh s = xs @ e # ys \<Longrightarrow> uploadFunc p e (store s) = (Inr r, b') \<Longrightarrow>
    feed_step H p s (s\<lparr>encodeCh := xs @ ys, refs := refs s @ [r], counts := countRef r (counts s), store := b'\<rparr>)"
| upload_fails: "0 < uploaders s \<Longrightarrow> encodeCh s = xs @ e # ys \<Longrightarrow> uploadFunc p e (store s) = (Inl err, b') \<Longrightarrow>
    feed_step H p s (fail err (s\<lparr>encodeCh := xs @ ys, uploaders := uploaders s - 1, store := b'\<rparr>))"
| upload_cancelled: "0 < uploaders s \<Longrightarrow> encodeCh s = xs @ e # ys \<Longrightarrow> cancelled s \<Longrightarrow>
    feed_step H p s (fail (UploadCancelled (pcSequence e)) (s\<lparr>encodeCh := xs @ ys, uploaders := uploaders s - 1\<rparr>))"
| upload_dropped: "0 < uploaders s \<Longrightarrow> encodeCh s = xs @ e # ys \<Longrightarrow> uploadFunc p e (store s) = (Inr r, b') \<Longrightarrow> cancelled s \<Longrightarrow>
    feed_step H p s (s\<lparr>encodeCh := xs @ ys, uploaders := uploaders s - 1, store := b'\<rparr>)"

inductive feed_run :: "(bytes \<Rightarrow> bytes) \<Rightarrow> 'b pipeline \<Rightarrow> 'b pipeState \<Rightarrow> 'b pipeState \<Rightarrow> bool"
  for H :: "bytes \<Rightarrow> bytes" and p :: "'b pipeline" and s :: "'b pipeState" where
  refl: "feed_run H p s s"
| step: "feed_run H p s t \<Longrightarrow> feed_step H p t u \<Longrightarrow> feed_run H p s u"

definition defaultMaxPipelineWorkers :: int where "defaultMaxPipelineWorkers = 8"

definition workerCount :: "int \<Rightarrow> 'b pipeline \<Rightarrow> int" where
  "workerCount procs p =
     (if 0 < Concurrency p then Concurrency p
      else if procs < 1 then 1
      else if defaultMaxPipelineWorkers < procs then defaultMaxPipelineWorkers
      else procs)"

text \<open>The state in which \<open>Feed\<close> starts its goroutines, on what the chunker makes of the reader.\<close>

definition pipeChunker :: "'b pipeline \<Rightarrow> fastcdc" where
  "pipeChunker p = (case Chunker p of Some c \<Rightarrow> c | None \<Rightarrow> NewDefaultFastCDC)"

definition chunkFunc :: "'r read_fn \<Rightarrow> nat \<Rightarrow> 'b pipeline \<Rightarrow> 'r \<Rightarrow> (chunk_error + unit) \<times> chunk list" where
  "chunkFunc rd rounds p r = Split rd rounds (pipeChunker p) r"

definition feedStart :: "'r read_fn \<Rightarrow> nat \<Rightarrow> int \<Rightarrow> 'b pipeline \<Rightarrow> dedupState \<Rightarrow> 'b \<Rightarrow> 'r \<Rightarrow> 'b pipeState" where
  "feedStart rd rounds procs p d b r =
     (let w = nat (workerCount procs p) in
      case chunkFunc rd rounds p r of (res, chunks) \<Rightarrow>
        \<lparr>pending = numberChunks 0 chunks, srcErr = (case res of Inl e \<Rightarrow> Some e | Inr _ \<Rightarrow> None),
         chunkCh = [], hashers = w, hashCh = [], encoders = w, encodeCh = [], uploaders = w,
         refs = [], counts = zeroStats, dstate = d, store = b, firstErr = None, cancelled = False, ctxCancelled = False\<rparr>)"

text \<open>The source has returned, and every stage has run dry or lost its workers.\<close>

definition feedDone :: "'b pipeState \<Rightarrow> bool" where
  "feedDone s \<longleftrightarrow> pending s = [] \<and> srcErr s = None \<and> (chunkCh s = [] \<or> hashers s = 0)
     \<and> (hashCh s = [] \<or> encoders s = 0) \<and> (encodeCh s = [] \<or> uploaders s = 0)"

text \<open>What \<open>Feed\<close> returns when the channels have run dry.\<close>

definition feedResult :: "'b pipeState \<Rightarrow> pipe_error + chunkRef list \<times> stats" where
  "feedResult s =
     (case firstErr s of Some e \<Rightarrow> Inl e | None \<Rightarrow> Inr (sort_key rSequence (refs s), counts s))"

section \<open>Restore\<close>

definition compressorFor :: "compressLib \<Rightarrow> 'b pipeline \<Rightarrow> string \<Rightarrow> string + compressor" where
  "compressorFor L p alg =
     (if alg = [] then (case Compressor p of Some c \<Rightarrow> Inr c | None \<Rightarrow> compress_New L AlgorithmNone)
      else compress_New L alg)"

text \<open>The loop over the references; the state is what the writer has received and the counters.\<close>

fun restoreLoop :: "compressLib \<Rightarrow> (bytes \<Rightarrow> bytes) \<Rightarrow> 'b pipeline \<Rightarrow> 'b backend \<Rightarrow> 'b \<Rightarrow> chunkRef list \<Rightarrow>
    (bytes \<times> stats, pipe_error, unit) op" where
  "restoreLoop L H p B b [] ws = (Inr (), ws)"
| "restoreLoop L H p B b (r # rs) ws =
     (let n = rSequence r in
      if rKey r = [] then (Inl (EmptyChunkKey n), ws)
      else (case getOp B b (rKey r) of Inl e \<Rightarrow> (Inl (GetFailed n e), ws) | Inr (env, _) \<Rightarrow>
       (case OpenEnvelope (Cipher p) env (rHash r) of Inl e \<Rightarrow> (Inl (OpenFailed n e), ws) | Inr (z, _) \<Rightarrow>
        (case compressorFor L p (rCompression r) of Inl a \<Rightarrow> (Inl (UnknownCompression n a), ws) | Inr cmp \<Rightarrow>
         (case decompressFn cmp z of None \<Rightarrow> (Inl (DecompressFailed n), ws) | Some bs \<Rightarrow>
          let ws1 = (fst ws @ bs, snd ws) in
          if H bs \<noteq> rHash r then (Inl (HashMismatch n), ws1)
          else if 0 \<le> rSize r \<and> int (length bs) \<noteq> rSize r then (Inl (ChunkSizeMismatch n), ws1)
          else restoreLoop L H p B b rs
                 (fst ws1, (snd ws)\<lparr>stChunks := stChunks (snd ws) + 1, stBytesIn := stBytesIn (snd ws) + int (length bs)\<rparr>))))))"

definition Restore :: "compressLib \<Rightarrow> (bytes \<Rightarrow> bytes) \<Rightarrow> 'b pipeline \<Rightarrow> 'b \<Rightarrow> chunkRef list \<Rightarrow>
    (pipe_error + unit) \<times> bytes \<times> stats" where
  "Restore L H p b rs =
     (case Backend p of None \<Rightarrow> (Inl BackendRequired, [], zeroStats) | Some B \<Rightarrow>
      if Cipher p = None then (Inl RestoreCipherRequired, [], zeroStats)
      else restoreLoop L H p B b (sort_key rSequence rs) ([], zeroStats))"

end
