(* ===== verification/Pipeline_Inv.thy ===== *)
theory Pipeline_Inv
  imports Pipeline
begin

text \<open>
  What holds of every interleaving of the workers of \<open>Feed\<close>: every run ends, every chunk is
  accounted for, a hash is uploaded once, and a run that ends without error or cancellation leaves
  references from which \<open>Restore\<close> rebuilds the input.
\<close>

section \<open>Every run ends\<close>

fun feedMeasure :: "'b pipeState \<Rightarrow> nat" where
  "feedMeasure s = 4 * length (pending s) + 3 * length (chunkCh s) + 2 * length (hashCh s) + length (encodeCh s)
     + (if srcErr s = None then 0 else 1) + (if cancelled s then 0 else 1)"

lemma fail_sel [simp]:
  "pending (fail e s) = pending s" "srcErr (fail e s) = srcErr s" "chunkCh (fail e s) = chunkCh s"
  "hashCh (fail e s) = hashCh s" "encodeCh (fail e s) = encodeCh s" "refs (fail e s) = refs s"
  "counts (fail e s) = counts s" "store (fail e s) = store s" "dstate (fail e s) = dstate s" "cancelled (fail e s)"
  "hashers (fail e s) = hashers s" "encoders (fail e s) = encoders s" "uploaders (fail e s) = uploaders s"
  "firstErr (fail e s) \<noteq> None" "ctxCancelled (fail e s) = ctxCancelled s"
  by (simp_all add: fail_def split: option.splits)

lemma feed_step_measure: "feed_step H p s t \<Longrightarrow> feedMeasure t < feedMeasure s"
  by (induction rule: feed_step.induct) auto

lemma feed_progress:
  assumes "\<not> feedDone s"
  shows "\<exists>t. feed_step H p s t \<and> ctxCancelled t = ctxCancelled s"
proof -
  consider c cs where "pending s = c # cs" | e where "pending s = []" "srcErr s = Some e"
    | c cs where "chunkCh s = [] @ c # cs" "0 < hashers s" | h hs where "hashCh s = [] @ h # hs" "0 < encoders s"
    | e es where "encodeCh s = [] @ e # es" "0 < uploaders s"
    using assms by (cases "pending s"; cases "srcErr s"; cases "chunkCh s"; cases "hashCh s"; cases "encodeCh s")
      (auto simp: feedDone_def)
  thus ?thesis
  proof cases
    case 1
    show ?thesis by (rule exI, rule conjI, rule feed_step.send [OF 1]) simp
  next
    case 2
    show ?thesis by (rule exI, rule conjI, rule feed_step.input_fails [OF 2]) simp
  next
    case (3 c cs)
    obtain h d' where h: "hashFunc H (dstate s) c = (h, d')" by fastforce
    show ?thesis by (rule exI, rule conjI, rule feed_step.hash [OF 3(2,1) h]) simp
  next
    case (4 h hs)
    show ?thesis
    proof (cases "encodeFunc p None h")
      case (Inl err)
      show ?thesis by (rule exI, rule conjI, rule feed_step.encode_fails [OF 4(2,1) Inl]) simp
    next
      case (Inr e)
      show ?thesis by (rule exI, rule conjI, rule feed_step.encode [OF 4(2,1) Inr]) simp
    qed
  next
    case (5 e es)
    obtain x b' where u: "uploadFunc p e (store s) = (x, b')" by fastforce
    show ?thesis
    proof (cases x)
      case (Inl err)
      show ?thesis by (rule exI, rule conjI, rule feed_step.upload_fails [OF 5(2,1) u [unfolded Inl]]) simp
    next
      case (Inr r)
      show ?thesis by (rule exI, rule conjI, rule feed_step.upload [OF 5(2,1) u [unfolded Inr]]) simp
    qed
  qed
qed

lemma feed_ends: "\<exists>t. feed_run H p s t \<and> feedDone t \<and> ctxCancelled t = ctxCancelled s"
proof -
  have "feed_run H p s u \<Longrightarrow> ctxCancelled u = ctxCancelled s \<Longrightarrow>
      \<exists>t. feed_run H p s t \<and> feedDone t \<and> ctxCancelled t = ctxCancelled s" for u
  proof (induction "feedMeasure u" arbitrary: u rule: less_induct)
    case less
    show ?case
    proof (cases "feedDone u")
      case False
      then obtain v where v: "feed_step H p u v" "ctxCancelled v = ctxCancelled u" using feed_progress by blast
      show ?thesis by (rule less.hyps [OF feed_step_measure [OF v(1)] feed_run.step [OF less.prems(1) v(1)]]) (use v less.prems in simp)
    qed (use less.prems in blast)
  qed
  thus ?thesis using feed_run.refl by blast
qed

section \<open>The counters\<close>

lemma feed_counts:
  assumes "feed_run H p s t" "counts s = fold countRef (refs s) zeroStats"
  shows "counts t = fold countRef (refs t) zeroStats"
  using assms
proof (induction rule: feed_run.induct)
  case (step t u)
  from step.hyps(2) step.IH [OF step.prems] show ?case by (induction rule: feed_step.induct) auto
qed

lemma fold_countRef:
  "stChunks (fold countRef rs st) = stChunks st + length rs"
  "stBytesIn (fold countRef rs st) = stBytesIn st + (\<Sum>r\<leftarrow>rs. rSize r)"
  "stUploadedChunks (fold countRef rs st) = stUploadedChunks st + length (filter (\<lambda>r. \<not> rDuplicate r) rs)"
  "stDedupedChunks (fold countRef rs st) = stDedupedChunks st + length (filter rDuplicate rs)"
  by (induction rs arbitrary: st) (auto simp: countRef_def Let_def)

section \<open>The deduplication state of the pipeline\<close>

fun dedupKnown :: "dedupState \<Rightarrow> bytes set" where
  "dedupKnown (WithIndex i) = entries i"
| "dedupKnown (Seen s) = s"

fun dedupInv :: "dedupState \<Rightarrow> bool" where
  "dedupInv (WithIndex i) = index_inv i"
| "dedupInv (Seen s) = True"

interpretation pd: dedup dedupAdd dedupKnown dedupInv
proof
  fix d h new d'
  assume *: "dedupInv d" "dedupAdd h d = (new, d')"
  have "(new \<longleftrightarrow> h \<notin> dedupKnown d) \<and> dedupKnown d' = insert h (dedupKnown d) \<and> dedupInv d'"
  proof (cases d)
    case (WithIndex i)
    obtain i' where i: "Index_Add h i = (new, i')" "d' = WithIndex i'" using *(2) WithIndex by (auto split: prod.splits)
    show ?thesis using *(1) ix.add_law [OF _ i(1)] ix.add_known [OF _ i(1)] ix.add_inv [OF _ i(1)] i(2) WithIndex by simp
  next
    case (Seen x)
    obtain y where y: "seenAdd h x = (new, y)" "d' = Seen y" using *(2) Seen by (auto split: prod.splits)
    show ?thesis using sn.add_law [OF _ y(1)] sn.add_known [OF _ y(1)] y(2) Seen by simp
  qed
  thus "new \<longleftrightarrow> h \<notin> dedupKnown d" "dedupKnown d' = insert h (dedupKnown d)" "dedupInv d'" by blast+
qed

section \<open>What a run keeps\<close>

text \<open>What the pipeline needs of its parts: 32-byte hashes without a collision among the data at
  hand, a cipher that opens what it sealed, and a compressor that reads back what it wrote and that
  its name selects.\<close>

definition pipe_ok :: "compressLib \<Rightarrow> (bytes \<Rightarrow> bytes) \<Rightarrow> 'b pipeline \<Rightarrow> bytes set \<Rightarrow> bool" where
  "pipe_ok L H p D \<longleftrightarrow> (\<forall>x. length (H x) = HashSize) \<and> inj_on H D
     \<and> (\<exists>c. Cipher p = Some c \<and> aead_opens (cipherAead c))
     \<and> (\<forall>x z. compressFn (pipeCompressor p) x = Some z \<longrightarrow> decompressFn (pipeCompressor p) z = Some x)
     \<and> compress_New L (compAlgorithm (pipeCompressor p)) = Inr (pipeCompressor p)"

text \<open>An envelope from which the data of a hash comes back.\<close>

definition opens_to :: "'b pipeline \<Rightarrow> bytes \<Rightarrow> bytes \<Rightarrow> bytes \<Rightarrow> bool" where
  "opens_to p env h x \<longleftrightarrow>
     (\<exists>z hd. OpenEnvelope (Cipher p) env h = Inr (z, hd) \<and> decompressFn (pipeCompressor p) z = Some x)"

definition stored_in :: "(string \<Rightarrow> bytes option) \<Rightarrow> 'b pipeline \<Rightarrow> (bytes \<Rightarrow> bytes) \<Rightarrow> bytes set \<Rightarrow> bytes \<Rightarrow> bool" where
  "stored_in os p H D h \<longleftrightarrow> (\<exists>env x. os (contentKey h) = Some env \<and> opens_to p env h x \<and> x \<in> D \<and> H x = h)"

text \<open>What identifies a chunk on its whole way.\<close>

definition chunkId :: "(bytes \<Rightarrow> bytes) \<Rightarrow> 'a pipelineChunk_scheme \<Rightarrow> nat \<times> int \<times> int \<times> bytes" where
  "chunkId H c = (pcSequence c, int (pcOffset c), int (pcSize c), H (pcData c))"

definition refId :: "chunkRef \<Rightarrow> nat \<times> int \<times> int \<times> bytes" where
  "refId r = (rSequence r, rOffset r, rSize r, rHash r)"

definition allIds :: "(bytes \<Rightarrow> bytes) \<Rightarrow> 'b pipeState \<Rightarrow> (nat \<times> int \<times> int \<times> bytes) multiset" where
  "allIds H s = mset (map (chunkId H) (pending s)) + mset (map (chunkId H) (chunkCh s))
     + mset (map (chunkId H) (hashCh s)) + mset (map (chunkId H) (encodeCh s)) + mset (map refId (refs s))"

definition hashed_ok :: "(bytes \<Rightarrow> bytes) \<Rightarrow> bytes set \<Rightarrow> dedupState \<Rightarrow> 'a hashedChunk_scheme \<Rightarrow> bool" where
  "hashed_ok H D d h \<longleftrightarrow> hcHash h = H (pcData h) \<and> pcData h \<in> D \<and> H (pcData h) \<in> dedupKnown d"

definition encoded_ok :: "'b pipeline \<Rightarrow> encodedChunk \<Rightarrow> bool" where
  "encoded_ok p e \<longleftrightarrow> ecKey e = contentKey (hcHash e) \<and> ecCompression e = compAlgorithm (pipeCompressor p)
     \<and> (\<not> hcDuplicate e \<longrightarrow> opens_to p (ecPayload e) (hcHash e) (pcData e))"

definition ref_ok :: "'b pipeline \<Rightarrow> dedupState \<Rightarrow> chunkRef \<Rightarrow> bool" where
  "ref_ok p d r \<longleftrightarrow> rKey r = contentKey (rHash r) \<and> rCompression r = compAlgorithm (pipeCompressor p)
     \<and> rHash r \<in> dedupKnown d"

text \<open>The hashes whose upload is still to come, and those that have been uploaded.\<close>

definition newHashes :: "'a hashedChunk_scheme list \<Rightarrow> bytes list" where
  "newHashes hs = map hcHash (filter (\<lambda>h. \<not> hcDuplicate h) hs)"

definition newRefs :: "chunkRef list \<Rightarrow> bytes list" where
  "newRefs rs = map rHash (filter (\<lambda>r. \<not> rDuplicate r) rs)"

definition feed_inv :: "(bytes \<Rightarrow> bytes) \<Rightarrow> 'b pipeline \<Rightarrow> bytes set \<Rightarrow> ('b \<Rightarrow> string \<Rightarrow> bytes option) \<Rightarrow> ('b \<Rightarrow> bool) \<Rightarrow>
    (nat \<times> int \<times> int \<times> bytes) multiset \<Rightarrow> bytes set \<Rightarrow> 'b pipeState \<Rightarrow> bool" where
  "feed_inv H p D objs binv ids K0 s \<longleftrightarrow>
     dedupInv (dstate s) \<and> binv (store s) \<and> allIds H s = ids
     \<and> (\<forall>c \<in> set (pending s) \<union> set (chunkCh s). pcData c \<in> D)
     \<and> (\<forall>h \<in> set (hashCh s). hashed_ok H D (dstate s) h)
     \<and> (\<forall>e \<in> set (encodeCh s). hashed_ok H D (dstate s) e \<and> encoded_ok p e)
     \<and> (\<forall>r \<in> set (refs s). ref_ok p (dstate s) r)
     \<and> finite (dedupKnown (dstate s) - K0)
     \<and> mset (newHashes (hashCh s)) + mset (newHashes (encodeCh s)) + mset (newRefs (refs s)) = mset_set (dedupKnown (dstate s) - K0)
     \<and> (\<forall>k \<in> dedupKnown (dstate s). k \<in> set (newHashes (hashCh s)) \<union> set (newHashes (encodeCh s)) \<or> stored_in (objs (store s)) p H D k)"

lemma hashed_ok_mono: "hashed_ok H D d h \<Longrightarrow> dedupKnown d \<subseteq> dedupKnown d' \<Longrightarrow> hashed_ok H D d' h"
  by (auto simp: hashed_ok_def)

lemma ref_ok_mono: "ref_ok p d r \<Longrightarrow> dedupKnown d \<subseteq> dedupKnown d' \<Longrightarrow> ref_ok p d' r"
  by (auto simp: ref_ok_def)

lemma feed_inv_send:
  assumes "feed_inv H p D objs binv ids K0 s" "pending s = c # cs"
  shows "feed_inv H p D objs binv ids K0 (s\<lparr>pending := cs, chunkCh := chunkCh s @ [c]\<rparr>)"
  using assms by (auto simp: feed_inv_def allIds_def ac_simps)

lemma feed_inv_hash:
  assumes inv: "feed_inv H p D objs binv ids K0 s" and cc: "chunkCh s = xs @ c # ys" and h: "hashFunc H (dstate s) c = (h, d')"
    and K0: "K0 \<subseteq> dedupKnown (dstate s)"
  shows "feed_inv H p D objs binv ids K0 (s\<lparr>chunkCh := xs @ ys, hashCh := hashCh s @ [h], dstate := d'\<rparr>)"
proof -
  obtain new where a: "dedupAdd (H (pcData c)) (dstate s) = (new, d')"
    and hh: "h = \<lparr>pcSequence = pcSequence c, pcOffset = pcOffset c, pcSize = pcSize c, pcData = pcData c,
          hcHash = H (pcData c), hcDuplicate = (\<not> new)\<rparr>"
    using h by (auto simp: hashFunc_def Let_def split: prod.splits)
  have dinv: "dedupInv (dstate s)" using inv by (simp add: feed_inv_def)
  note law = pd.add_law [OF dinv a] and kn = pd.add_known [OF dinv a] and di = pd.add_inv [OF dinv a]
  have ids: "allIds H (s\<lparr>chunkCh := xs @ ys, hashCh := hashCh s @ [h], dstate := d'\<rparr>) = allIds H s"
    using cc hh by (simp add: allIds_def chunkId_def)
  have sub: "dedupKnown (dstate s) \<subseteq> dedupKnown d'" using kn by blast
  note hm = hashed_ok_mono [OF _ sub] and rm = ref_ok_mono [OF _ sub]
  have hok: "hashed_ok H D d' h" using inv cc hh kn by (simp add: hashed_ok_def feed_inv_def)
  have fin: "finite (dedupKnown d' - K0)" using inv kn by (simp add: feed_inv_def insert_Diff_if)
  have ms: "mset (newHashes (hashCh s @ [h])) + mset (newHashes (encodeCh s)) + mset (newRefs (refs s)) = mset_set (dedupKnown d' - K0)"
  proof (cases new)
    case True
    hence "dedupKnown d' - K0 = insert (H (pcData c)) (dedupKnown (dstate s) - K0)" "H (pcData c) \<notin> dedupKnown (dstate s) - K0"
      using law kn K0 by auto
    thus ?thesis using inv True hh by (simp add: newHashes_def feed_inv_def)
  next
    case False
    hence "dedupKnown d' = dedupKnown (dstate s)" using law kn by auto
    thus ?thesis using inv False hh by (simp add: newHashes_def feed_inv_def)
  qed
  have st: "k \<in> set (newHashes (hashCh s @ [h])) \<union> set (newHashes (encodeCh s)) \<or> stored_in (objs (store s)) p H D k"
    if "k \<in> dedupKnown d'" for k
  proof (cases "k \<in> dedupKnown (dstate s)")
    case True
    thus ?thesis using inv by (auto simp: feed_inv_def newHashes_def)
  next
    case False
    thus ?thesis using that kn law hh by (auto simp: newHashes_def)
  qed
  have "\<forall>x \<in> set (hashCh s @ [h]). hashed_ok H D d' x" "\<forall>e \<in> set (encodeCh s). hashed_ok H D d' e \<and> encoded_ok p e"
      "\<forall>r \<in> set (refs s). ref_ok p d' r" "\<forall>c \<in> set (pending s) \<union> set (xs @ ys). pcData c \<in> D"
    using inv hok cc by (auto simp: feed_inv_def intro: hm rm)
  moreover have "binv (store s)" "allIds H s = ids" using inv by (simp_all add: feed_inv_def)
  ultimately show ?thesis using ids fin ms st di by (simp add: feed_inv_def)
qed

lemma encodeFunc_base:
  assumes "encodeFunc p random h = Inr e"
  shows "chunkId H e = chunkId H h" "hcHash e = hcHash h" "hcDuplicate e = hcDuplicate h" "pcData e = pcData h"
  using assms by (auto simp: encodeFunc_def encodeWith_def chunkId_def Let_def split: if_splits option.splits sum.splits)

lemma encodeFunc_ok:
  assumes "pipe_ok L H p D" "encodeFunc p random h = Inr e"
  shows "encoded_ok p e"
proof -
  obtain c where c: "Cipher p = Some c" "aead_opens (cipherAead c)" using assms(1) by (auto simp: pipe_ok_def)
  have k: "ecKey e = contentKey (hcHash e)" "ecCompression e = compAlgorithm (pipeCompressor p)"
    using assms(2) by (auto simp: encodeFunc_def encodeWith_def Let_def split: if_splits option.splits sum.splits)
  have "opens_to p (ecPayload e) (hcHash e) (pcData e)" if "\<not> hcDuplicate e"
  proof -
    have "\<not> hcDuplicate h" using that encodeFunc_base(3) [OF assms(2)] by simp
    then obtain z where z: "compressFn (pipeCompressor p) (pcData h) = Some z"
        "SealEnvelope (Some c) random (PKeyID p) z (hcHash h) = Inr (ecPayload e)"
      using assms(2) c(1) by (auto simp: encodeFunc_def encodeWith_def Let_def split: if_splits option.splits sum.splits)
    obtain hd where "OpenEnvelope (Some c) (ecPayload e) (hcHash h) = Inr (z, hd)" using Open_Seal [OF c(2) z(2)] by blast
    moreover have "decompressFn (pipeCompressor p) z = Some (pcData h)" using assms(1) z(1) by (simp add: pipe_ok_def)
    ultimately show ?thesis using c(1) encodeFunc_base [OF assms(2)] by (simp add: opens_to_def)
  qed
  thus ?thesis using k by (simp add: encoded_ok_def)
qed

lemma newHashes_simps [simp]:
  "newHashes [] = []" "newHashes (xs @ ys) = newHashes xs @ newHashes ys"
  "newHashes (h # hs) = (if hcDuplicate h then newHashes hs else hcHash h # newHashes hs)"
  by (simp_all add: newHashes_def)

lemma newRefs_simps [simp]:
  "newRefs [] = []" "newRefs (xs @ ys) = newRefs xs @ newRefs ys"
  "newRefs (r # rs) = (if rDuplicate r then newRefs rs else rHash r # newRefs rs)"
  by (simp_all add: newRefs_def)

lemma feed_inv_encode:
  assumes ok: "pipe_ok L H p D" and inv: "feed_inv H p D objs binv ids K0 s"
    and hc: "hashCh s = xs @ h # ys" and e: "encodeFunc p random h = Inr e"
  shows "feed_inv H p D objs binv ids K0 (s\<lparr>hashCh := xs @ ys, encodeCh := encodeCh s @ [e]\<rparr>)"
proof -
  note b = encodeFunc_base [OF e]
  have "allIds H (s\<lparr>hashCh := xs @ ys, encodeCh := encodeCh s @ [e]\<rparr>) = allIds H s"
    using hc b(1) [of H] by (simp add: allIds_def)
  moreover have "hashed_ok H D (dstate s) h" using inv hc by (simp add: feed_inv_def)
  hence "hashed_ok H D (dstate s) e" using b(2,4) by (simp add: hashed_ok_def)
  moreover have "mset (newHashes (xs @ ys)) + mset (newHashes (encodeCh s @ [e])) = mset (newHashes (hashCh s)) + mset (newHashes (encodeCh s))"
    using hc b by simp
  moreover have "set (newHashes (xs @ ys)) \<union> set (newHashes (encodeCh s @ [e])) = set (newHashes (hashCh s)) \<union> set (newHashes (encodeCh s))"
    using hc b by auto
  ultimately show ?thesis using inv hc encodeFunc_ok [OF ok e] unfolding feed_inv_def by (simp del: newHashes_simps)
qed

lemma stored_in_upd:
  assumes "stored_in os p H D k" "os (contentKey h) = None"
  shows "stored_in (os(contentKey h \<mapsto> env)) p H D k"
  using assms by (auto simp: stored_in_def)

lemma uploadFunc_dup: "uploadFunc p e b = (Inr r, b') \<Longrightarrow> hcDuplicate e \<Longrightarrow> b' = b"
  by (simp add: uploadFunc_def)

lemma uploadFunc_ref:
  assumes "uploadFunc p e b = (Inr r, b')"
  shows "rSequence r = pcSequence e" "rHash r = hcHash e" "rKey r = ecKey e" "rOffset r = int (pcOffset e)"
    "rSize r = int (pcSize e)" "rCompression r = ecCompression e" "rDuplicate r = hcDuplicate e"
  using assms by (auto simp: uploadFunc_def refOf_def split: if_splits option.splits prod.splits sum.splits)

context object_store
begin

lemma uploadFunc_stored:
  assumes "Backend p = Some B" "binv b" "good_key (ecKey e)" "uploadFunc p e b = (Inr r, b')" "\<not> hcDuplicate e"
  shows "binv b'" "objs b (ecKey e) = None" "objs b' = (objs b)(ecKey e \<mapsto> ecPayload e)"
proof -
  obtain info where "putOp B (ecKey e) (ecPayload e) (int (length (ecPayload e))) b = (Inr info, b')"
    using assms(1,4,5) by (auto simp: uploadFunc_def split: prod.splits sum.splits)
  from put_ok [OF assms(2,3) this] show "binv b'" "objs b (ecKey e) = None" "objs b' = (objs b)(ecKey e \<mapsto> ecPayload e)" by auto
qed

lemma feed_inv_upload:
  assumes be: "Backend p = Some B" and gk: "\<forall>h. length h = HashSize \<longrightarrow> good_key (contentKey h)" and ok: "pipe_ok L H p D"
    and inv: "feed_inv H p D objs binv ids K0 s"
    and ec: "encodeCh s = xs @ e # ys" and r: "uploadFunc p e (store s) = (Inr r, b')"
  shows "feed_inv H p D objs binv ids K0 (s\<lparr>encodeCh := xs @ ys, refs := refs s @ [r], counts := n, store := b'\<rparr>)"
proof -
  note u = uploadFunc_ref [OF r]
  have bi: "binv (store s)" and he: "hashed_ok H D (dstate s) e" and eo: "encoded_ok p e"
    using inv ec by (simp_all add: feed_inv_def)
  have "good_key (ecKey e)" using he eo ok gk by (simp add: hashed_ok_def encoded_ok_def pipe_ok_def)
  note st = uploadFunc_stored [OF be bi this r]
  have bi': "binv b'" using st(1) uploadFunc_dup [OF r] bi by (cases "hcDuplicate e") auto
  have k: "stored_in (objs b') p H D k" if "stored_in (objs (store s)) p H D k" for k
    using that st(2,3) eo uploadFunc_dup [OF r] stored_in_upd [OF that]
    by (cases "hcDuplicate e") (simp_all add: encoded_ok_def)
  have new: "stored_in (objs b') p H D (hcHash e)" if "\<not> hcDuplicate e"
    using that st(3) he eo by (auto simp: stored_in_def encoded_ok_def hashed_ok_def)
  have ids: "allIds H (s\<lparr>encodeCh := xs @ ys, refs := refs s @ [r], counts := n, store := b'\<rparr>) = allIds H s"
    using ec u he by (simp add: allIds_def chunkId_def refId_def hashed_ok_def)
  have ref: "ref_ok p (dstate s) r" using u he eo by (simp add: ref_ok_def hashed_ok_def encoded_ok_def)
  have ms: "mset (newHashes (xs @ ys)) + mset (newRefs (refs s @ [r])) = mset (newHashes (encodeCh s)) + mset (newRefs (refs s))"
    using ec u by simp
  have all: "\<forall>j \<in> dedupKnown (dstate s). j \<in> set (newHashes (hashCh s)) \<union> set (newHashes (xs @ ys)) \<or> stored_in (objs b') p H D j"
  proof
    fix j assume "j \<in> dedupKnown (dstate s)"
    hence "j \<in> set (newHashes (hashCh s)) \<union> set (newHashes (encodeCh s)) \<or> stored_in (objs (store s)) p H D j"
      using inv by (simp add: feed_inv_def)
    thus "j \<in> set (newHashes (hashCh s)) \<union> set (newHashes (xs @ ys)) \<or> stored_in (objs b') p H D j"
      using ec new k by (auto split: if_splits)
  qed
  show ?thesis using inv ec bi' ids ref ms all unfolding feed_inv_def
    by (simp del: newHashes_simps newRefs_simps add: add.assoc)
qed

end

lemma feed_step_cancelled: "feed_step H p s u \<Longrightarrow> cancelled s \<Longrightarrow> cancelled u"
  by (induction rule: feed_step.induct) auto

lemma feed_cause:
  assumes "feed_run H p s t" "cancelled s \<longrightarrow> ctxCancelled s \<or> firstErr s \<noteq> None"
  shows "cancelled t \<longrightarrow> ctxCancelled t \<or> firstErr t \<noteq> None"
  using assms
proof (induction rule: feed_run.induct)
  case (step t u)
  from step.hyps(2) step.IH [OF step.prems] show ?case
    by (induction rule: feed_step.induct) (simp_all del: not_None_eq)
qed

text \<open>The steps of a run that has not been cancelled.\<close>

lemma feed_step_live:
  assumes "feed_step H p s u" "\<not> cancelled u"
  obtains c cs where "pending s = c # cs" "u = s\<lparr>pending := cs, chunkCh := chunkCh s @ [c]\<rparr>"
  | xs c ys h d' where "chunkCh s = xs @ c # ys" "hashFunc H (dstate s) c = (h, d')"
      "u = s\<lparr>chunkCh := xs @ ys, hashCh := hashCh s @ [h], dstate := d'\<rparr>"
  | xs h ys random e where "hashCh s = xs @ h # ys" "encodeFunc p random h = Inr e"
      "u = s\<lparr>hashCh := xs @ ys, encodeCh := encodeCh s @ [e]\<rparr>"
  | xs e ys r b' where "encodeCh s = xs @ e # ys" "uploadFunc p e (store s) = (Inr r, b')"
      "u = s\<lparr>encodeCh := xs @ ys, refs := refs s @ [r], counts := countRef r (counts s), store := b'\<rparr>"
  using assms(1)
proof (cases rule: feed_step.cases)
  case send
  thus thesis using that(1) by blast
next
  case hash
  thus thesis using that(2) by blast
next
  case encode
  thus thesis using that(3) by blast
next
  case upload
  thus thesis using that(4) by blast
qed (use assms(2) in simp_all)

lemma hashFunc_known:
  assumes "dedupInv d" "hashFunc H d c = (h, d')"
  shows "dedupKnown d' = insert (H (pcData c)) (dedupKnown d)"
proof -
  obtain new where "dedupAdd (H (pcData c)) d = (new, d')" using assms(2) by (auto simp: hashFunc_def Let_def split: prod.splits)
  from pd.add_known [OF assms(1) this] show ?thesis .
qed

lemma feed_inv_dedup: "feed_inv H p D objs binv ids K0 s \<Longrightarrow> dedupInv (dstate s)"
  by (simp add: feed_inv_def)

definition sameWorkers :: "'b pipeState \<Rightarrow> 'b pipeState \<Rightarrow> bool" where
  "sameWorkers s t \<longleftrightarrow> hashers t = hashers s \<and> encoders t = encoders s \<and> uploaders t = uploaders s \<and> firstErr t = firstErr s"

context object_store
begin

lemma feed_step_inv:
  assumes be: "Backend p = Some B" and gk: "\<forall>h. length h = HashSize \<longrightarrow> good_key (contentKey h)" and ok: "pipe_ok L H p D"
    and st: "feed_step H p s u" and c: "\<not> cancelled u"
    and inv: "feed_inv H p D objs binv ids K0 s" and K0: "K0 \<subseteq> dedupKnown (dstate s)"
  shows "feed_inv H p D objs binv ids K0 u \<and> K0 \<subseteq> dedupKnown (dstate u) \<and> sameWorkers s u"
  using st c
proof (cases rule: feed_step_live)
  case 1
  thus ?thesis using feed_inv_send [OF inv 1(1)] K0 by (simp add: sameWorkers_def)
next
  case 2
  thus ?thesis using feed_inv_hash [OF inv 2(1,2) K0] K0 hashFunc_known [OF feed_inv_dedup [OF inv] 2(2)]
    by (auto simp: sameWorkers_def)
next
  case 3
  thus ?thesis using feed_inv_encode [OF ok inv 3(1,2)] K0 by (simp add: sameWorkers_def)
next
  case 4
  thus ?thesis using feed_inv_upload [OF be gk ok inv 4(1,2)] K0 by (simp add: sameWorkers_def)
qed

lemma feed_run_inv:
  assumes be: "Backend p = Some B" and gk: "\<forall>h. length h = HashSize \<longrightarrow> good_key (contentKey h)" and ok: "pipe_ok L H p D"
    and inv: "feed_inv H p D objs binv ids K0 s" and K0: "K0 \<subseteq> dedupKnown (dstate s)"
    and run: "feed_run H p s t" and c: "\<not> cancelled t"
  shows "feed_inv H p D objs binv ids K0 t \<and> K0 \<subseteq> dedupKnown (dstate t) \<and> sameWorkers s t"
  using run c
proof (induction rule: feed_run.induct)
  case refl
  thus ?case using inv K0 by (simp add: sameWorkers_def)
next
  case (step t u)
  have "\<not> cancelled t" using feed_step_cancelled [OF step.hyps(2)] step.prems by blast
  note IH = step.IH [OF this]
  have "feed_inv H p D objs binv ids K0 u \<and> K0 \<subseteq> dedupKnown (dstate u) \<and> sameWorkers t u"
    by (rule feed_step_inv [OF be gk ok step.hyps(2) step.prems]) (use IH in auto)
  thus ?case using IH by (simp add: sameWorkers_def)
qed

end

section \<open>Restoring\<close>

lemma numberChunks_seq: "map pcSequence (numberChunks n cs) = [n..<n + length cs]"
proof (induction n cs rule: numberChunks.induct)
  case (2 n c cs)
  have "[n..<n + length (c # cs)] = n # [n + 1..<n + 1 + length cs]" by (subst upt_conv_Cons) simp_all
  thus ?case using "2.IH" by (simp del: upt_Suc)
qed simp

lemma sort_ids:
  assumes "mset (map refId rs) = mset (map (chunkId H) (numberChunks n cs))"
  shows "map refId (sort_key rSequence rs) = map (chunkId H) (numberChunks n cs)"
proof -
  let ?ids = "map (chunkId H) (numberChunks n cs)" and ?sorted = "map refId (sort_key rSequence rs)"
  have f: "map fst ?ids = [n..<n + length cs]" using numberChunks_seq [of n cs] by (simp add: chunkId_def comp_def)
  have "inj_on fst (set ?ids)" using f by (metis distinct_map distinct_upt)
  moreover have "set (map refId rs) = set ?ids" using assms by (metis set_mset_mset)
  ultimately have inj: "inj_on fst (set (map refId rs))" by simp
  have "sort_key fst (map refId rs) = ?ids"
    by (rule sort_key_inj_key_eq [OF assms inj]) (simp only: f sorted_upt)
  moreover have "fst \<circ> refId = rSequence" by (rule ext) (simp add: refId_def)
  hence "sorted (map fst ?sorted)" by (simp only: map_map sorted_sort_key)
  moreover have "mset (map refId rs) = mset ?sorted" by simp
  ultimately show ?thesis using sort_key_inj_key_eq [OF _ inj, of ?sorted] by simp
qed

lemma compressorFor_own:
  assumes "pipe_ok L H p D"
  shows "compressorFor L p (compAlgorithm (pipeCompressor p)) = Inr (pipeCompressor p)"
proof -
  have n: "compress_New L (compAlgorithm (pipeCompressor p)) = Inr (pipeCompressor p)" using assms by (simp add: pipe_ok_def)
  hence "compAlgorithm (pipeCompressor p) \<noteq> []"
    by (auto simp: compress_New_def AlgorithmNone_def AlgorithmGzip_def AlgorithmZstd_def)
  thus ?thesis using n by (simp add: compressorFor_def)
qed

context object_store
begin

lemma restoreLoop_ok:
  assumes ok: "pipe_ok L H p D" and gk: "\<forall>h. length h = HashSize \<longrightarrow> good_key (contentKey h)" and bi: "binv b"
  shows "\<forall>r \<in> set rs. rKey r = contentKey (rHash r) \<and> rCompression r = compAlgorithm (pipeCompressor p)
      \<and> stored_in (objs b) p H D (rHash r) \<Longrightarrow>
    map rHash rs = map H xs \<Longrightarrow> map rSize rs = map (\<lambda>x. int (length x)) xs \<Longrightarrow> set xs \<subseteq> D \<Longrightarrow>
    restoreLoop L H p B b rs (w, st)
      = (Inr (), w @ concat xs, st\<lparr>stChunks := stChunks st + length rs, stBytesIn := stBytesIn st + int (length (concat xs))\<rparr>)"
proof (induction rs arbitrary: xs w st)
  case (Cons r rs)
  obtain x xs' where xs: "xs = x # xs'" "rHash r = H x" "rSize r = int (length x)" "x \<in> D"
    using Cons.prems(2-4) by (cases xs) auto
  obtain env y z hd where e: "objs b (contentKey (H x)) = Some env" "OpenEnvelope (Cipher p) env (H x) = Inr (z, hd)"
      "decompressFn (pipeCompressor p) z = Some y" "y \<in> D" "H y = H x"
    using Cons.prems(1) xs(2) by (auto simp: stored_in_def opens_to_def)
  have y: "y = x" using ok e(4,5) xs(4) by (auto simp: pipe_ok_def dest: inj_onD)
  have "good_key (contentKey (H x))" using ok gk by (simp add: pipe_ok_def)
  then obtain info where g: "getOp B b (contentKey (H x)) = Inr (env, info)" using get_found [OF bi _ e(1)] by blast
  have k: "rKey r = contentKey (H x)" "rKey r \<noteq> []" "rCompression r = compAlgorithm (pipeCompressor p)"
    using Cons.prems(1) xs(2) by (simp_all add: contentKey_def Let_def)
  let ?st = "st\<lparr>stChunks := stChunks st + 1, stBytesIn := stBytesIn st + int (length x)\<rparr>"
  have "restoreLoop L H p B b rs (w @ x, ?st)
      = (Inr (), (w @ x) @ concat xs', ?st\<lparr>stChunks := stChunks ?st + length rs, stBytesIn := stBytesIn ?st + int (length (concat xs'))\<rparr>)"
    by (rule Cons.IH) (use Cons.prems xs(1) in auto)
  moreover have "restoreLoop L H p B b (r # rs) (w, st) = restoreLoop L H p B b rs (w @ x, ?st)"
    using k g e(2,3) y xs compressorFor_own [OF ok] by (simp add: Let_def)
  ultimately show ?case using xs(1) by simp
qed simp

end

lemma numberChunks_data: "map pcData (numberChunks n (mkChunks off ps)) = ps"
  by (induction ps arbitrary: n off) simp_all

lemma numberChunks_ids:
  "map (\<lambda>i. snd (snd (snd i))) (map (chunkId H) (numberChunks n (mkChunks off ps))) = map H ps"
  "map (\<lambda>i. fst (snd (snd i))) (map (chunkId H) (numberChunks n (mkChunks off ps))) = map (\<lambda>x. int (length x)) ps"
  by (induction ps arbitrary: n off) (simp_all add: chunkId_def)

lemma refId_parts: "(\<lambda>i. snd (snd (snd i))) (refId r) = rHash r" "(\<lambda>i. fst (snd (snd i))) (refId r) = rSize r"
  by (simp_all add: refId_def)

lemma refs_of_ids:
  assumes "mset (map refId rs) = mset (map (chunkId H) (numberChunks n (mkChunks off ps)))"
  shows "map rHash (sort_key rSequence rs) = map H ps" "map rSize (sort_key rSequence rs) = map (\<lambda>x. int (length x)) ps"
proof -
  let ?s = "sort_key rSequence rs"
  note s = sort_ids [OF assms]
  have "map rHash ?s = map (\<lambda>i. snd (snd (snd i))) (map refId ?s)" by (simp add: refId_def)
  also have "\<dots> = map H ps" unfolding s by (rule numberChunks_ids)
  finally show "map rHash ?s = map H ps" .
  have "map rSize ?s = map (\<lambda>i. fst (snd (snd i))) (map refId ?s)" by (simp add: refId_def)
  also have "\<dots> = map (\<lambda>x. int (length x)) ps" unfolding s by (rule numberChunks_ids)
  finally show "map rSize ?s = map (\<lambda>x. int (length x)) ps" .
qed

lemma workerCount_pos: "1 \<le> workerCount procs p"
  by (simp add: workerCount_def defaultMaxPipelineWorkers_def)

lemma feedStart_inv:
  assumes "chunkFunc rd rounds p r = (Inr u, mkChunks 0 ps)" "set ps \<subseteq> D" "dedupInv d" "binv b"
    "\<forall>k \<in> dedupKnown d. stored_in (objs b) p H D k"
  shows "feed_inv H p D objs binv (mset (map (chunkId H) (numberChunks 0 (mkChunks 0 ps)))) (dedupKnown d)
    (feedStart rd rounds procs p d b r)"
proof -
  have "pcData c \<in> D" if "c \<in> set (numberChunks 0 (mkChunks 0 ps))" for c
    using that assms(2) numberChunks_data [of 0 0 ps] by (metis imageI list.set_map subsetD)
  thus ?thesis using assms by (simp add: feed_inv_def feedStart_def allIds_def Let_def)
qed

lemma feedStart_sel:
  "dstate (feedStart rd rounds procs p d b r) = d" "cancelled (feedStart rd rounds procs p d b r) = False"
  "ctxCancelled (feedStart rd rounds procs p d b r) = False"
  "firstErr (feedStart rd rounds procs p d b r) = None" "refs (feedStart rd rounds procs p d b r) = []"
  "counts (feedStart rd rounds procs p d b r) = zeroStats" "store (feedStart rd rounds procs p d b r) = b"
  "0 < hashers (feedStart rd rounds procs p d b r)" "0 < encoders (feedStart rd rounds procs p d b r)"
  "0 < uploaders (feedStart rd rounds procs p d b r)"
  using workerCount_pos [of procs p] by (simp_all add: feedStart_def Let_def split: prod.splits)

context object_store
begin

text \<open>The end of a run that was not cancelled.\<close>

lemma feed_end:
  assumes be: "Backend p = Some B" and gk: "\<forall>h. length h = HashSize \<longrightarrow> good_key (contentKey h)" and ok: "pipe_ok L H p D"
    and ch: "chunkFunc rd rounds p r = (Inr u, mkChunks 0 ps)" "set ps \<subseteq> D" and d: "dedupInv d" "binv b"
    "\<forall>k \<in> dedupKnown d. stored_in (objs b) p H D k"
    and run: "feed_run H p (feedStart rd rounds procs p d b r) t" "\<not> cancelled t" "feedDone t"
  shows "firstErr t = None" "mset (map refId (refs t)) = mset (map (chunkId H) (numberChunks 0 (mkChunks 0 ps)))"
    "mset (newRefs (refs t)) = mset_set (H ` set ps - dedupKnown d)" "binv (store t)"
    "\<forall>r \<in> set (refs t). rKey r = contentKey (rHash r) \<and> rCompression r = compAlgorithm (pipeCompressor p)
       \<and> stored_in (objs (store t)) p H D (rHash r)"
proof -
  let ?s = "feedStart rd rounds procs p d b r" and ?ids = "mset (map (chunkId H) (numberChunks 0 (mkChunks 0 ps)))"
  note inv0 = feedStart_inv [where objs = objs and binv = binv and procs = procs, OF ch d]
  have "feed_inv H p D objs binv ?ids (dedupKnown d) t \<and> dedupKnown d \<subseteq> dedupKnown (dstate t) \<and> sameWorkers ?s t"
    by (rule feed_run_inv [OF be gk ok inv0 _ run(1,2)]) (simp_all add: feedStart_sel)
  hence inv: "feed_inv H p D objs binv ?ids (dedupKnown d) t" and sw: "sameWorkers ?s t" by blast+
  show "firstErr t = None" using sw by (simp add: sameWorkers_def feedStart_sel)
  have dry: "pending t = []" "chunkCh t = []" "hashCh t = []" "encodeCh t = []"
    using run(3) sw feedStart_sel(8-10) [of rd rounds procs p d b r] by (auto simp: feedDone_def sameWorkers_def)
  show ids: "mset (map refId (refs t)) = ?ids" using inv dry by (simp add: feed_inv_def allIds_def)
  show "binv (store t)" using inv by (simp add: feed_inv_def)
  have new: "mset (newRefs (refs t)) = mset_set (dedupKnown (dstate t) - dedupKnown d)" "finite (dedupKnown (dstate t) - dedupKnown d)"
    using inv dry by (simp_all add: feed_inv_def)
  have hs: "rHash ` set (refs t) = H ` set ps" using refs_of_ids(1) [OF ids] by (metis list.set_map set_sort)
  have "set (newRefs (refs t)) = dedupKnown (dstate t) - dedupKnown d"
    using new by (metis finite_set_mset_mset_set set_mset_mset)
  hence "dedupKnown (dstate t) - dedupKnown d \<subseteq> H ` set ps" using hs by (auto simp: newRefs_def)
  moreover have "rHash ` set (refs t) \<subseteq> dedupKnown (dstate t)" using inv by (auto simp: feed_inv_def ref_ok_def)
  hence "H ` set ps \<subseteq> dedupKnown (dstate t)" unfolding hs .
  ultimately have "dedupKnown (dstate t) - dedupKnown d = H ` set ps - dedupKnown d" by blast
  thus "mset (newRefs (refs t)) = mset_set (H ` set ps - dedupKnown d)" using new by simp
  show "\<forall>r \<in> set (refs t). rKey r = contentKey (rHash r) \<and> rCompression r = compAlgorithm (pipeCompressor p)
       \<and> stored_in (objs (store t)) p H D (rHash r)"
    using inv dry by (simp add: feed_inv_def ref_ok_def)
qed

lemma Restore_refs:
  assumes be: "Backend p = Some B" and gk: "\<forall>h. length h = HashSize \<longrightarrow> good_key (contentKey h)" and ok: "pipe_ok L H p D"
    and bi: "binv b" and ids: "mset (map refId rs) = mset (map (chunkId H) (numberChunks 0 (mkChunks 0 ps)))" and D: "set ps \<subseteq> D"
    and rs: "\<forall>r \<in> set rs. rKey r = contentKey (rHash r) \<and> rCompression r = compAlgorithm (pipeCompressor p)
       \<and> stored_in (objs b) p H D (rHash r)"
  shows "Restore L H p b rs
    = (Inr (), concat ps, zeroStats\<lparr>stChunks := length ps, stBytesIn := int (length (concat ps))\<rparr>)"
proof -
  let ?s = "sort_key rSequence rs"
  have n: "length ?s = length ps" using refs_of_ids(1) [OF ids] by (metis length_map)
  have "\<forall>r \<in> set ?s. rKey r = contentKey (rHash r) \<and> rCompression r = compAlgorithm (pipeCompressor p)
       \<and> stored_in (objs b) p H D (rHash r)" using rs by simp
  from restoreLoop_ok [OF ok gk bi this refs_of_ids [OF ids] D, of "[]" zeroStats] n
  have "restoreLoop L H p B b ?s ([], zeroStats) = (Inr (), concat ps, zeroStats\<lparr>stChunks := length ps, stBytesIn := int (length (concat ps))\<rparr>)"
    by (simp add: zeroStats_def)
  moreover have "Cipher p \<noteq> None" using ok by (auto simp: pipe_ok_def)
  ultimately show ?thesis using be by (simp add: Restore_def)
qed

text \<open>A new chunk whose key the store already has is never uploaded.\<close>

lemma feed_taken_step:
  assumes be: "Backend p = Some B" and gk: "good_key (contentKey h)"
    and st: "feed_step H p s u" and c: "\<not> cancelled u" and bi: "binv (store s)"
    and gks: "\<forall>e \<in> set (encodeCh s). good_key (ecKey e)" and ek: "\<forall>e \<in> set (encodeCh s). ecKey e = contentKey (hcHash e)"
    and tk: "objs (store s) (contentKey h) \<noteq> None"
  shows "objs (store u) (contentKey h) \<noteq> None \<and> (h \<notin> set (newRefs (refs s)) \<longrightarrow> h \<notin> set (newRefs (refs u)))"
  using st c
proof (cases rule: feed_step_live)
  case (4 xs e ys r b')
  show ?thesis
  proof (cases "hcDuplicate e")
    case True
    thus ?thesis using 4 tk uploadFunc_dup [OF 4(2)] uploadFunc_ref(7) [OF 4(2)] by simp
  next
    case False
    have e: "good_key (ecKey e)" "ecKey e = contentKey (hcHash e)" using gks ek 4(1) by auto
    note u = uploadFunc_stored [OF be bi e(1) 4(2) False]
    have "hcHash e \<noteq> h" using u(2) e(2) tk by auto
    thus ?thesis using 4 u(3) tk uploadFunc_ref(2) [OF 4(2)] by auto
  qed
qed (use tk in auto)

lemma feed_taken:
  assumes be: "Backend p = Some B" and gk: "\<forall>h. length h = HashSize \<longrightarrow> good_key (contentKey h)" and ok: "pipe_ok L H p D"
    and inv: "feed_inv H p D objs binv ids K0 s" "K0 \<subseteq> dedupKnown (dstate s)"
    and tk: "objs (store s) (contentKey h) \<noteq> None" "h \<notin> set (newRefs (refs s))" "length h = HashSize"
    and run: "feed_run H p s t" "\<not> cancelled t"
  shows "objs (store t) (contentKey h) \<noteq> None \<and> h \<notin> set (newRefs (refs t))"
  using run
proof (induction rule: feed_run.induct)
  case (step t u)
  have c: "\<not> cancelled t" using feed_step_cancelled [OF step.hyps(2)] step.prems by blast
  note IH = step.IH [OF c]
  have inv': "feed_inv H p D objs binv ids K0 t" using feed_run_inv [OF be gk ok inv step.hyps(1) c] by blast
  hence bi: "binv (store t)" by (simp add: feed_inv_def)
  have ek: "\<forall>e \<in> set (encodeCh t). ecKey e = contentKey (hcHash e)" using inv' by (simp add: feed_inv_def encoded_ok_def)
  moreover have "\<forall>e \<in> set (encodeCh t). length (hcHash e) = HashSize"
    using inv' ok by (simp add: feed_inv_def hashed_ok_def pipe_ok_def)
  ultimately have gks: "\<forall>e \<in> set (encodeCh t). good_key (ecKey e)" using gk by simp
  from feed_taken_step [OF be gk [rule_format, OF tk(3)] step.hyps(2) step.prems bi gks ek] IH show ?case by blast
qed (use tk in simp)

end

end
