(* ===== verification/Chunk_Props.thy ===== *)
theory Chunk_Props
  imports Pipeline_Inv
begin

text \<open>
  The properties of the chunk pipeline: content-defined splitting, deduplication, envelopes, and
  \<open>Feed\<close> and \<open>Restore\<close> under every interleaving of their workers and every cancellation.
\<close>

section \<open>A pipeline for the witnesses\<close>

definition demoAead :: aead where
  "demoAead = \<lparr>aeadNonceSize = 12, aeadOverhead = 1, aeadSeal = (\<lambda>n p ad. p @ [7]),
     aeadOpen = (\<lambda>n ct ad. if ct \<noteq> [] \<and> last ct = 7 then Some (butlast ct) else None)\<rparr>"

definition demoCipher :: cipher where
  "demoCipher = \<lparr>cipherAlgorithm = AlgorithmAES256GCM, cipherAead = demoAead\<rparr>"

lemma demoAead_laws: "aead_opens demoAead" "aead_authentic demoAead"
  by (auto simp: aead_opens_def aead_authentic_def demoAead_def split: if_splits) (metis append_butlast_last_id)

lemma demo_seal: "\<exists>env. SealEnvelope (Some demoCipher) (Some (replicate 12 0)) ''k'' plaintext ad = Inr env"
  by (simp add: SealEnvelope_def demoCipher_def demoAead_def envelopeAlgorithm_def NewNonce_def NonceSize_def
      marshalHeader_def Cipher_Seal_def EnvelopeVersion_def)

definition demoHash :: "bytes \<Rightarrow> bytes" where
  "demoHash x = take 32 (x @ replicate 32 0)"

definition demoLib :: compressLib where
  "demoLib = \<lparr>gzipCompress = Some, gzipDecompress = Some, zstdCompress = Some, zstdDecompress = Some\<rparr>"

definition demoPipe :: "memoryBackend pipeline" where
  "demoPipe = \<lparr>Chunker = None, Compressor = None, Cipher = Some demoCipher, PKeyID = ''k'',
     Backend = Some (memoryOps (\<lambda>x. x) 0), Concurrency = 1\<rparr>"

lemma length_demoHash: "length (demoHash x) = HashSize"
  by (simp add: demoHash_def HashSize_def min_def)

lemma demo_mem: "mem_inv (NewMemoryBackend nm)"
  by (simp add: mem_inv_def NewMemoryBackend_def kv_sorted_def)

lemma demo_ok: "pipe_ok demoLib demoHash demoPipe {[1]}"
  using demoAead_laws
  by (simp add: pipe_ok_def length_demoHash demoPipe_def demoCipher_def pipeCompressor_def noneCompressor_def compress_New_def)

lemma demo_chunker: "pipeChunker demoPipe = NewDefaultFastCDC" "cdc_ok NewDefaultFastCDC"
  by (simp_all add: pipeChunker_def demoPipe_def NewDefaultFastCDC_ok)

lemma cuts_short:
  assumes "cdc_ok c" "bs \<noteq> []" "length bs \<le> minSize c"
  shows "cuts c bs = [bs]"
proof -
  have t: "take (maxSize c) bs = bs" using assms by (simp add: cdc_ok_def)
  have "boundary c bs = length bs" using assms by (auto simp: boundary_def Let_def)
  thus ?thesis using cuts_step(1) [OF assms(1,2)] t by (simp add: cuts.simps [of c "[]"])
qed

lemma demo_cuts: "cuts NewDefaultFastCDC [1] = [[1]]"
  by (rule cuts_short [OF NewDefaultFastCDC_ok]) (simp_all add: NewDefaultFastCDC_def DefaultMinSize_def)

section \<open>Splitting a stream\<close>

text \<open>C19. For a reader that keeps the contract of \<open>io.Reader\<close>, \<open>Split\<close> returns chunks numbered by
  their offsets whose data are those of the reference splitting of the whole content, however the
  reader slices it: together they are the content, none is empty or longer than \<open>maxSize\<close>, and all
  but the last reach \<open>minSize\<close>.\<close>

theorem Split_chunks:
  assumes "io_reader rd content good" "cdc_ok c" "good r" "length (content r) < n"
  shows "\<exists>ps. Split rd n c r = (Inr (), mkChunks 0 ps) \<and> ps = cuts c (content r) \<and> concat ps = content r
    \<and> (\<forall>x \<in> set ps. 0 < length x \<and> length x \<le> maxSize c) \<and> (\<forall>x \<in> set (butlast ps). minSize c \<le> length x)"
  using io_reader.Split_cuts [OF assms] concat_cuts [OF assms(2)] cuts_size [OF assms(2)] cuts_min [OF assms(2)] by blast

theorem Split_chunks_witness:
  "\<exists>ps. Split bytesRead 2 NewDefaultFastCDC [1] = (Inr (), mkChunks 0 ps) \<and> concat ps = [1]"
  using Split_chunks [OF br.io_reader_axioms, of NewDefaultFastCDC "[1]" 2] by (auto simp: NewDefaultFastCDC_ok)

text \<open>Deduplication finds a common prefix: splitting a content and splitting the same content
  with data appended give the same chunks, but for those in the last \<open>maxSize\<close> bytes of the shorter one.\<close>

theorem Split_prefix:
  assumes "io_reader rd content good" "cdc_ok c" "good r" "good q" "content q = content r @ tail'"
    "length (content q) < n"
  shows "\<exists>pre a b. Split rd n c r = (Inr (), mkChunks 0 (pre @ a)) \<and> Split rd n c q = (Inr (), mkChunks 0 (pre @ b))
    \<and> length (concat a) < maxSize c"
proof -
  obtain pre a b where "cuts c (content r) = pre @ a" "cuts c (content r @ tail') = pre @ b" "length (concat a) < maxSize c"
    using cuts_append [OF assms(2)] by blast
  moreover have "length (content r) < n" using assms(5,6) by simp
  ultimately show ?thesis
    using io_reader.Split_cuts [OF assms(1,2,3)] io_reader.Split_cuts [OF assms(1,2,4,6)] assms(5) by metis
qed

theorem Split_prefix_witness:
  "\<exists>pre a b. Split bytesRead 5 NewDefaultFastCDC [1, 2] = (Inr (), mkChunks 0 (pre @ a))
    \<and> Split bytesRead 5 NewDefaultFastCDC [1, 2, 3] = (Inr (), mkChunks 0 (pre @ b)) \<and> length (concat a) < maxSize NewDefaultFastCDC"
  by (rule Split_prefix [OF br.io_reader_axioms NewDefaultFastCDC_ok, where tail' = "[3]"]) simp_all

text \<open>The gear table has values for the bytes below 180 only, the others are zero. On data of
  bytes from 180 on the cut is therefore always at the same length, the larger of \<open>minSize\<close> and half
  of \<open>avgSize\<close>, plus one: there the boundaries do not depend on the content.\<close>

theorem boundary_ignores_high_bytes:
  assumes "cdc_ok c" "\<forall>b \<in> set bs. 180 \<le> unat b" "max (minSize c) (avgSize c div 2) < min (length bs) (maxSize c)"
  shows "boundary c bs = max (minSize c) (avgSize c div 2) + 1"
  by (rule boundary_zero [OF assms])

theorem boundary_ignores_high_bytes_witness:
  "boundary \<lparr>minSize = 2, avgSize = 8, maxSize = 16, mask = 7\<rparr> (replicate 10 200) = 5
    \<and> boundary \<lparr>minSize = 2, avgSize = 8, maxSize = 16, mask = 7\<rparr> (map (\<lambda>i. of_nat (180 + i)) [0..<10]) = 5"
proof -
  let ?c = "\<lparr>minSize = 2, avgSize = 8, maxSize = 16, mask = 7\<rparr>"
  have c: "cdc_ok ?c" by (simp add: cdc_ok_def)
  have "unat (of_nat (180 + i) :: byte) = 180 + i" if "i < 10" for i
    using that by (subst unat_of_nat) (simp add: take_bit_eq_mod)
  hence "\<forall>b \<in> set (map (\<lambda>i. of_nat (180 + i) :: byte) [0..<10]). 180 \<le> unat b" by (simp del: upt_Suc)
  from boundary_ignores_high_bytes [OF c this] boundary_ignores_high_bytes [OF c, of "replicate 10 200"]
  show ?thesis by (simp del: upt_Suc)
qed

text \<open>A reader may return no bytes and no error. If it does so while the buffer is empty,
  \<open>ForEach\<close> takes it for the end: \<open>Split\<close> succeeds and the rest of the stream is lost.\<close>

theorem Split_pause_ends:
  assumes "cdc_ok c" "rd (min (maxSize c) scratchSize) r = (([], NoErr), r')"
  shows "Split rd (Suc n) c r = (Inr (), [])"
  using assms(2) by (rule Split_stalled [OF assms(1)])

theorem Split_pause_ends_witness:
  "Split (\<lambda>n paused. if paused then (([1, 2, 3], EOF), False) else (([], NoErr), True)) 5 NewDefaultFastCDC False = (Inr (), [])"
  using Split_pause_ends [of NewDefaultFastCDC "\<lambda>n paused. if paused then (([1, 2, 3], EOF), False) else (([], NoErr), True)" False True 4]
  by (simp add: NewDefaultFastCDC_ok)

section \<open>Deduplication\<close>

text \<open>C20. The index behaves as the set of the hashes added to it: adding a list of hashes to a new index
  answers each time whether the hash is new, as the plain set of a pipeline without index does, and
  afterwards \<open>Contains\<close> has no false positive and no false negative and \<open>Len\<close> is the number of
  different hashes.\<close>

theorem Index_refines_set:
  assumes "NewIndex n = Inr i0" "dedup.addAll Index_Add hs i0 = (ns, i)"
  shows "fst (dedup.addAll seenAdd hs {}) = ns \<and> (\<forall>h. Index_Contains i h \<longleftrightarrow> h \<in> set hs) \<and> Index_Len i = card (set hs)"
proof -
  have i0: "index_inv i0" "entries i0 = {}" using NewIndex_ok [OF assms(1)] by simp_all
  have i: "entries i = set hs" "index_inv i" "length ns = length hs"
    using ix.addAll_known [OF i0(1) assms(2)] i0(2) by simp_all
  obtain ms s where s: "dedup.addAll seenAdd hs {} = (ms, s)" by fastforce
  have "ms = ns"
  proof (rule nth_equalityI)
    show "length ms = length ns" using sn.addAll_known [OF _ s] i(3) by simp
    fix j assume "j < length ms"
    hence j: "j < length hs" using sn.addAll_known [OF _ s] by simp
    show "ms ! j = ns ! j" using sn.addAll_new [OF _ s j] ix.addAll_new [OF i0(1) assms(2) j] i0(2) by simp
  qed
  thus ?thesis using s i Index_Contains_exact by (simp add: Index_Len_def)
qed

theorem Index_refines_set_witness:
  "\<exists>i0 ns i. NewIndex 10 = Inr i0 \<and> dedup.addAll Index_Add [[1], [2], [1]] i0 = (ns, i) \<and> Index_Contains i [2] \<and> \<not> Index_Contains i [3]"
proof -
  obtain i0 where i0: "NewIndex 10 = Inr i0" using NewIndex_total by blast
  obtain ns i where i: "dedup.addAll Index_Add [[1], [2], [1]] i0 = (ns, i)" by fastforce
  show ?thesis using Index_refines_set [OF i0 i] i0 i by auto
qed

section \<open>Envelopes\<close>

text \<open>C21. What \<open>SealEnvelope\<close> writes, \<open>OpenEnvelope\<close> reads back with the same additional data, under
  every cipher that opens what it sealed, and the header names the key.\<close>

theorem OpenEnvelope_SealEnvelope:
  assumes "aead_opens (cipherAead c)" "SealEnvelope (Some c) random keyID plaintext ad = Inr env"
  shows "\<exists>h. OpenEnvelope (Some c) env ad = Inr (plaintext, h) \<and> KeyID h = keyID"
  by (rule Open_Seal [OF assms])

theorem OpenEnvelope_SealEnvelope_witness:
  "\<exists>env h. SealEnvelope (Some demoCipher) (Some (replicate 12 0)) ''k'' [1, 2] [3] = Inr env
    \<and> OpenEnvelope (Some demoCipher) env [3] = Inr ([1, 2], h) \<and> KeyID h = ''k''"
proof -
  obtain env where env: "SealEnvelope (Some demoCipher) (Some (replicate 12 0)) ''k'' [1, 2] [3] = Inr env" using demo_seal by blast
  have "aead_opens (cipherAead demoCipher)" using demoAead_laws by (simp add: demoCipher_def)
  from OpenEnvelope_SealEnvelope [OF this env] env show ?thesis by blast
qed

text \<open>C22. Under an authenticated cipher \<open>OpenEnvelope\<close> accepts only what \<open>SealEnvelope\<close> wrote: an accepted
  envelope is, byte for byte, the sealing of the plaintext it returns with the nonce and key
  identifier it reports and the same additional data. In particular no header byte can be changed.\<close>

theorem OpenEnvelope_only_sealed:
  assumes "aead_authentic (cipherAead c)" "OpenEnvelope (Some c) env ad = Inr (plaintext, h)"
  shows "SealEnvelope (Some c) (Some (Nonce h)) (KeyID h) plaintext ad = Inr env"
  by (rule Open_only_sealed [OF assms])

theorem OpenEnvelope_only_sealed_witness:
  "\<exists>env plaintext h. OpenEnvelope (Some demoCipher) env [] = Inr (plaintext, h)
    \<and> SealEnvelope (Some demoCipher) (Some (Nonce h)) (KeyID h) plaintext [] = Inr env"
proof -
  obtain env where env: "SealEnvelope (Some demoCipher) (Some (replicate 12 0)) ''k'' [1, 2] [] = Inr env" using demo_seal by blast
  have "aead_opens (cipherAead demoCipher)" "aead_authentic (cipherAead demoCipher)"
    using demoAead_laws by (simp_all add: demoCipher_def)
  with Open_Seal [OF _ env] OpenEnvelope_only_sealed [of demoCipher env "[]"] show ?thesis by blast
qed

text \<open>\<open>OpenEnvelope\<close> does not compare the length of the nonce with that of the cipher: an envelope
  whose nonce-length byte is one higher makes the cipher panic instead of returning an error.\<close>

theorem OpenEnvelope_panics:
  assumes "SealEnvelope (Some c) random keyID plaintext ad = Inr env" "NonceSize c < 255"
    "\<And>n q a. aeadSeal (cipherAead c) n q a \<noteq> []"
  shows "OpenEnvelope (Some c) (env[6 := env ! 6 + 1]) ad = Inl NonceLengthPanic"
  using assms by (rule Open_tampered_nonce)

theorem OpenEnvelope_panics_witness:
  "\<exists>env. SealEnvelope (Some demoCipher) (Some (replicate 12 0)) ''k'' [1, 2] [] = Inr env
    \<and> OpenEnvelope (Some demoCipher) (env[6 := env ! 6 + 1]) [] = Inl NonceLengthPanic"
proof -
  obtain env where env: "SealEnvelope (Some demoCipher) (Some (replicate 12 0)) ''k'' [1, 2] [] = Inr env" using demo_seal by blast
  from OpenEnvelope_panics [OF env] env show ?thesis by (simp add: demoCipher_def demoAead_def NonceSize_def)
qed

section \<open>The pipeline\<close>

text \<open>The pieces the chunker of a pipeline makes of a good reader.\<close>

lemma chunkFunc_pieces:
  assumes "io_reader rd content good" "cdc_ok (pipeChunker p)" "good r" "length (content r) < rounds"
  shows "chunkFunc rd rounds p r = (Inr (), mkChunks 0 (cuts (pipeChunker p) (content r)))"
  using io_reader.Split_cuts [OF assms] by (simp add: chunkFunc_def)

lemma int_sum_list_map: "int (sum_list (map f xs)) = sum_list (map (\<lambda>x. int (f x)) xs)"
  by (induction xs) simp_all

lemma feedResult_live:
  assumes "feed_run H p (feedStart rd rounds procs p d b r) t" "\<not> ctxCancelled t" "feedResult t = Inr (rs, st)"
  shows "\<not> cancelled t" "rs = sort_key rSequence (refs t)" "st = counts t"
    "counts t = fold countRef (refs t) zeroStats"
  using assms feed_cause [OF assms(1)] feed_counts [OF assms(1)]
  by (auto simp: feedResult_def feedStart_sel split: option.splits)

text \<open>A run of the pipeline of the witnesses on a single byte.\<close>

lemma demo_run_data:
  "\<exists>t rs st. feed_run demoHash demoPipe (feedStart bytesRead 2 1 demoPipe (Seen {}) (NewMemoryBackend ''m'') [1]) t
     \<and> feedDone t \<and> \<not> ctxCancelled t \<and> feedResult t = Inr (rs, st)
     \<and> (\<forall>k. mem_objs (store t) k \<noteq> None \<longrightarrow> HasPrefix k ''data/'')"
proof -
  let ?p = demoPipe and ?s = "feedStart bytesRead 2 1 demoPipe (Seen {}) (NewMemoryBackend ''m'') [1]"
  let ?c = "\<lparr>pcSequence = 0, pcOffset = 0, pcSize = 1, pcData = [1 :: byte]\<rparr>"
  let ?h = "\<lparr>pcSequence = 0, pcOffset = 0, pcSize = 1, pcData = [1 :: byte], hcHash = demoHash [1], hcDuplicate = False\<rparr>"
  have "chunkFunc bytesRead 2 ?p [1] = (Inr (), mkChunks 0 [[1]])"
    using chunkFunc_pieces [OF br.io_reader_axioms, of ?p "[1]" 2] demo_chunker demo_cuts by simp
  hence s: "?s = \<lparr>pending = [?c], srcErr = None, chunkCh = [], hashers = 1, hashCh = [], encoders = 1, encodeCh = [], uploaders = 1,
      refs = [], counts = zeroStats, dstate = Seen {}, store = NewMemoryBackend ''m'', firstErr = None, cancelled = False, ctxCancelled = False\<rparr>"
    by (simp add: feedStart_def workerCount_def demoPipe_def)
  define s1 where "s1 = ?s\<lparr>pending := [], chunkCh := [?c]\<rparr>"
  have 1: "feed_step demoHash ?p ?s s1" using feed_step.send [of ?s ?c "[]"] by (simp add: s s1_def)
  define s2 where "s2 = s1\<lparr>chunkCh := [], hashCh := [?h], dstate := Seen {demoHash [1]}\<rparr>"
  have 2: "feed_step demoHash ?p s1 s2"
    using feed_step.hash [of s1 "[]" ?c "[]" demoHash ?h "Seen {demoHash [1]}"] by (simp add: s s1_def s2_def hashFunc_def seenAdd_def Let_def)
  obtain env where env: "SealEnvelope (Some demoCipher) (Some (replicate 12 0)) ''k'' [1] (demoHash [1]) = Inr env" using demo_seal by blast
  let ?e = "encodeWith ?h AlgorithmNone AlgorithmAES256GCM ''k'' env"
  have "encodeFunc ?p (Some (replicate 12 0)) ?h = Inr ?e" using env
    by (simp add: encodeFunc_def demoPipe_def pipeCompressor_def noneCompressor_def demoCipher_def Let_def)
  define s3 where "s3 = s2\<lparr>hashCh := [], encodeCh := [?e]\<rparr>"
  have 3: "feed_step demoHash ?p s2 s3"
    using feed_step.encode [of s2 "[]" ?h "[]" ?p _ ?e] \<open>encodeFunc ?p _ ?h = _\<close> by (simp add: s s1_def s2_def s3_def)
  have key: "key_ok (contentKey (demoHash [1]))" by (rule contentKey_ok) (use length_demoHash in \<open>simp add: HashSize_def\<close>)
  then obtain u info b' where up: "uploadFunc ?p ?e (NewMemoryBackend ''m'') = (Inr (refOf ?e u info), b')"
    by (simp add: uploadFunc_def encodeWith_def demoPipe_def memoryOps_def Memory_Put_def NewMemoryBackend_def key_ok_def Let_def
        split: sum.splits)
  obtain i where "putOp (memoryOps (\<lambda>x. x) 0) (contentKey (demoHash [1])) env (int (length env)) (NewMemoryBackend ''m'') = (Inr i, b')"
    using up by (auto simp: uploadFunc_def encodeWith_def demoPipe_def split: prod.splits sum.splits)
  from mem.put_ok [OF demo_mem key this] have "\<forall>k. mem_objs b' k \<noteq> None \<longrightarrow> HasPrefix k ''data/''"
    by (auto simp: NewMemoryBackend_ok contentKey_def Let_def HasPrefix_iff)
  hence st: "\<forall>k. mem_objs (store (s3\<lparr>encodeCh := [], refs := [refOf ?e u info], counts := countRef (refOf ?e u info) zeroStats, store := b'\<rparr>)) k \<noteq> None \<longrightarrow> HasPrefix k ''data/''"
    by simp
  define s4 where "s4 = s3\<lparr>encodeCh := [], refs := [refOf ?e u info], counts := countRef (refOf ?e u info) zeroStats, store := b'\<rparr>"
  have 4: "feed_step demoHash ?p s3 s4"
    using feed_step.upload [of s3 "[]" ?e "[]" ?p _ b'] up by (simp add: s s1_def s2_def s3_def s4_def)
  have "feed_run demoHash ?p ?s s4"
    using feed_run.step [OF feed_run.step [OF feed_run.step [OF feed_run.step [OF feed_run.refl 1] 2] 3] 4] .
  moreover have "feedDone s4" "\<not> ctxCancelled s4" "feedResult s4 = Inr ([refOf ?e u info], counts s4)"
    by (simp_all add: feedDone_def feedResult_def s s1_def s2_def s3_def s4_def)
  ultimately show ?thesis using st unfolding s4_def by blast
qed

lemma demo_run:
  "\<exists>t rs st. feed_run demoHash demoPipe (feedStart bytesRead 2 1 demoPipe (Seen {}) (NewMemoryBackend ''m'') [1]) t
     \<and> feedDone t \<and> \<not> ctxCancelled t \<and> feedResult t = Inr (rs, st)"
  using demo_run_data by blast



text \<open>What a successful run of \<open>Feed\<close> leaves behind.\<close>

lemma Feed_restored:
  assumes "object_store B objs binv good_key" "io_reader rd content good"
    and "Backend p = Some B" "\<forall>h. length h = HashSize \<longrightarrow> good_key (contentKey h)" "pipe_ok L H p D"
    and "cdc_ok (pipeChunker p)" "good r" "length (content r) < rounds" "set (cuts (pipeChunker p) (content r)) \<subseteq> D"
    and "dedupInv d" "binv b" "\<forall>k \<in> dedupKnown d. stored_in (objs b) p H D k"
    and "feed_run H p (feedStart rd rounds procs p d b r) t" "feedDone t" "\<not> ctxCancelled t" "feedResult t = Inr (rs, st)"
  shows "\<exists>st'. Restore L H p (store t) rs = (Inr (), content r, st') \<and> stChunks st' = stChunks st
    \<and> stBytesIn st' = int (length (content r)) \<and> stBytesIn st = int (length (content r))"
    and "binv (store t)"
proof -
  let ?ps = "cuts (pipeChunker p) (content r)"
  note live = feedResult_live [OF assms(13,15,16)]
  note e = object_store.feed_end [OF assms(1,3-5) chunkFunc_pieces [OF assms(2,6,7,8)] assms(9-13) live(1) assms(14)]
  have ids: "mset (map refId rs) = mset (map (chunkId H) (numberChunks 0 (mkChunks 0 ?ps)))" using e(2) live(2) by simp
  have "Restore L H p (store t) rs
      = (Inr (), concat ?ps, zeroStats\<lparr>stChunks := length ?ps, stBytesIn := int (length (concat ?ps))\<rparr>)"
    by (rule object_store.Restore_refs [OF assms(1,3-5) e(4) ids assms(9)]) (use e(5) live(2) in simp_all)
  moreover have "length (refs t) = length ?ps" using refs_of_ids(1) [OF e(2)] by (metis length_map length_sort)
  moreover have "(\<Sum>r\<leftarrow>refs t. rSize r) = int (length (concat ?ps))"
  proof -
    have "(\<Sum>r\<leftarrow>refs t. rSize r) = sum_mset (mset (map rSize (sort_key rSequence (refs t))))"
      by (simp flip: sum_mset_sum_list)
    also have "\<dots> = sum_list (map (\<lambda>x. int (length x)) ?ps)"
      unfolding refs_of_ids(2) [OF e(2)] by (rule sum_mset_sum_list)
    finally show ?thesis by (simp add: length_concat int_sum_list_map)
  qed
  ultimately show "\<exists>st'. Restore L H p (store t) rs = (Inr (), content r, st') \<and> stChunks st' = stChunks st
    \<and> stBytesIn st' = int (length (content r)) \<and> stBytesIn st = int (length (content r))" using live(3,4) concat_cuts [OF assms(6)] fold_countRef [of "refs t" zeroStats]
    by (simp add: zeroStats_def)
  show "binv (store t)" by (rule e(4))
qed

text \<open>C14. Backup and restore: let \<open>Feed\<close> read a good reader into any backend that keeps the contract of
  object stores, with a cipher that opens what it sealed, a compressor that reads back what it wrote,
  no hash collision among the data at hand, and an index whose hashes are all stored. In whatever
  order the workers take their chunks, if \<open>Feed\<close> returns no error and the caller did not cancel,
  then \<open>Restore\<close> of the references it returns writes exactly the content of the reader, and the
  counters agree with it.\<close>

theorem Feed_Restore:
  assumes "object_store B objs binv good_key" "io_reader rd content good"
    and "Backend p = Some B" "\<forall>h. length h = HashSize \<longrightarrow> good_key (contentKey h)" "pipe_ok L H p D"
    and "cdc_ok (pipeChunker p)" "good r" "length (content r) < rounds" "set (cuts (pipeChunker p) (content r)) \<subseteq> D"
    and "dedupInv d" "binv b" "\<forall>k \<in> dedupKnown d. stored_in (objs b) p H D k"
    and "feed_run H p (feedStart rd rounds procs p d b r) t" "feedDone t" "\<not> ctxCancelled t" "feedResult t = Inr (rs, st)"
  shows "\<exists>st'. Restore L H p (store t) rs = (Inr (), content r, st') \<and> stChunks st' = stChunks st
    \<and> stBytesIn st' = int (length (content r)) \<and> stBytesIn st = int (length (content r))"
  by (rule Feed_restored(1) [OF assms])

theorem Feed_Restore_witness:
  "\<exists>t rs st st'. feed_run demoHash demoPipe (feedStart bytesRead 2 1 demoPipe (Seen {}) (NewMemoryBackend ''m'') [1]) t
    \<and> feedDone t \<and> feedResult t = Inr (rs, st) \<and> Restore demoLib demoHash demoPipe (store t) rs = (Inr (), [1], st')"
proof -
  obtain t rs st where t: "feed_run demoHash demoPipe (feedStart bytesRead 2 1 demoPipe (Seen {}) (NewMemoryBackend ''m'') [1]) t"
     "feedDone t" "\<not> ctxCancelled t" "feedResult t = Inr (rs, st)" using demo_run by blast
  have "\<exists>st'. Restore demoLib demoHash demoPipe (store t) rs = (Inr (), [1], st') \<and> stChunks st' = stChunks st
    \<and> stBytesIn st' = int (length [1 :: byte]) \<and> stBytesIn st = int (length [1 :: byte])"
    by (rule Feed_Restore [OF mem.object_store_axioms br.io_reader_axioms _ _ demo_ok _ _ _ _ _ _ _ t])
      (use demo_chunker demo_cuts in \<open>simp_all add: demoPipe_def contentKey_ok HashSize_def demo_mem\<close>)
  thus ?thesis using t by blast
qed

text \<open>C15. Deduplication under every interleaving: of the chunks with one hash exactly one is uploaded,
  and none of a hash the index already had. So the number of uploads is that of the new hashes.\<close>

theorem Feed_uploads_once:
  assumes "object_store B objs binv good_key" "io_reader rd content good"
    and "Backend p = Some B" "\<forall>h. length h = HashSize \<longrightarrow> good_key (contentKey h)" "pipe_ok L H p D"
    and "cdc_ok (pipeChunker p)" "good r" "length (content r) < rounds" "set (cuts (pipeChunker p) (content r)) \<subseteq> D"
    and "dedupInv d" "binv b" "\<forall>k \<in> dedupKnown d. stored_in (objs b) p H D k"
    and "feed_run H p (feedStart rd rounds procs p d b r) t" "feedDone t" "\<not> ctxCancelled t" "feedResult t = Inr (rs, st)"
  shows "mset (newRefs rs) = mset_set (H ` set (cuts (pipeChunker p) (content r)) - dedupKnown d)
    \<and> stUploadedChunks st = card (H ` set (cuts (pipeChunker p) (content r)) - dedupKnown d)
    \<and> stUploadedChunks st + stDedupedChunks st = stChunks st"
proof -
  let ?new = "H ` set (cuts (pipeChunker p) (content r)) - dedupKnown d"
  note live = feedResult_live [OF assms(13,15,16)]
  note e = object_store.feed_end [OF assms(1,3-5) chunkFunc_pieces [OF assms(2,6,7,8)] assms(9-13) live(1) assms(14)]
  have "mset (newRefs rs) = mset (newRefs (refs t))" using live(2) by (simp add: newRefs_def)
  moreover have "length (filter (\<lambda>r. \<not> rDuplicate r) (refs t)) = card ?new"
    using e(3) by (metis length_map newRefs_def size_mset size_mset_set)
  moreover have "length (filter (\<lambda>r. \<not> rDuplicate r) (refs t)) + length (filter rDuplicate (refs t)) = length (refs t)"
    using sum_length_filter_compl [of rDuplicate "refs t"] by simp
  ultimately show ?thesis using e(3) live(3,4) fold_countRef [of "refs t" zeroStats] by (simp add: zeroStats_def)
qed

theorem Feed_uploads_once_witness:
  "\<exists>t rs st. feed_run demoHash demoPipe (feedStart bytesRead 2 1 demoPipe (Seen {}) (NewMemoryBackend ''m'') [1]) t
    \<and> feedResult t = Inr (rs, st) \<and> stUploadedChunks st = 1"
proof -
  obtain t rs st where t: "feed_run demoHash demoPipe (feedStart bytesRead 2 1 demoPipe (Seen {}) (NewMemoryBackend ''m'') [1]) t"
     "feedDone t" "\<not> ctxCancelled t" "feedResult t = Inr (rs, st)" using demo_run by blast
  note u = Feed_uploads_once [OF mem.object_store_axioms br.io_reader_axioms _ _ demo_ok _ _ _ _ _ _ _ t]
  have "stUploadedChunks st = card (demoHash ` set (cuts (pipeChunker demoPipe) [1]) - dedupKnown (Seen {}))"
    by (rule u [THEN conjunct2, THEN conjunct1])
      (use demo_chunker demo_cuts in \<open>simp_all add: demoPipe_def contentKey_ok HashSize_def demo_mem\<close>)
  thus ?thesis using t demo_chunker demo_cuts by simp blast
qed

text \<open>C17. Without an index the pipeline knows only the chunks of its own run, and a backend refuses a key
  it already has. So a backup with a chunk that an earlier backup stored does not succeed: \<open>Feed\<close>
  returns an error in every interleaving, unless the caller cancels it.\<close>

theorem Feed_fails_on_stored_chunk:
  assumes "object_store B objs binv good_key" "io_reader rd content good"
    and "Backend p = Some B" "\<forall>h. length h = HashSize \<longrightarrow> good_key (contentKey h)" "pipe_ok L H p D"
    and "cdc_ok (pipeChunker p)" "good r" "length (content r) < rounds" "set (cuts (pipeChunker p) (content r)) \<subseteq> D"
    and "binv b" "x \<in> set (cuts (pipeChunker p) (content r))" "objs b (contentKey (H x)) \<noteq> None"
    and "feed_run H p (feedStart rd rounds procs p (Seen {}) b r) t" "feedDone t" "\<not> ctxCancelled t"
  shows "\<exists>e. feedResult t = Inl e"
proof (rule ccontr)
  let ?s = "feedStart rd rounds procs p (Seen {}) b r"
  assume "\<not> ?thesis"
  then obtain rs st where "feedResult t = Inr (rs, st)" by (cases "feedResult t") auto
  note c = feedResult_live(1) [OF assms(13,15) this] and ch = chunkFunc_pieces [OF assms(2,6,7,8)]
  have d: "dedupInv (Seen {})" "\<forall>k \<in> dedupKnown (Seen {}). stored_in (objs b) p H D k" by simp_all
  note e = object_store.feed_end [OF assms(1,3-5) ch assms(9) d(1) assms(10) d(2) assms(13) c assms(14)]
  note inv = feedStart_inv [where objs = objs and binv = binv and procs = procs, OF ch assms(9) d(1) assms(10) d(2)]
  have tk: "objs (store ?s) (contentKey (H x)) \<noteq> None" "H x \<notin> set (newRefs (refs ?s))" "length (H x) = HashSize"
    using assms(5,12) by (simp_all add: feedStart_sel pipe_ok_def)
  have "H x \<notin> set (newRefs (refs t))"
    using object_store.feed_taken [OF assms(1,3-5) inv _ tk assms(13) c] by (simp add: feedStart_sel)
  moreover have "H x \<in> set (newRefs (refs t))" using e(3) assms(11) by (metis (no_types, lifting) Diff_empty List.finite_set dedupKnown.simps(2) finite_imageI finite_set_mset_mset_set imageI set_mset_mset)
  ultimately show False by blast
qed

theorem Feed_fails_on_stored_chunk_witness:
  "\<exists>t b. mem_objs b (contentKey (demoHash [1])) \<noteq> None
    \<and> feed_run demoHash demoPipe (feedStart bytesRead 2 1 demoPipe (Seen {}) b [1]) t \<and> feedDone t \<and> (\<exists>e. feedResult t = Inl e)"
proof -
  let ?k = "contentKey (demoHash [1])"
  obtain b info where "Memory_Put (\<lambda>x. x) 0 ?k [] 0 (NewMemoryBackend ''m'') = (Inr info, b)"
    using contentKey_ok [of "demoHash [1]"] length_demoHash [of "[1]"]
    by (simp add: Memory_Put_def NewMemoryBackend_def key_ok_def HashSize_def Let_def split: sum.splits)
  hence put: "putOp (memoryOps (\<lambda>x. x) 0) ?k [] 0 (NewMemoryBackend ''m'') = (Inr info, b)" by (simp add: memoryOps_def)
  have "key_ok ?k" using contentKey_ok length_demoHash by (simp add: HashSize_def)
  note b = mem.put_ok [OF demo_mem this put]
  obtain t where t: "feed_run demoHash demoPipe (feedStart bytesRead 2 1 demoPipe (Seen {}) b [1]) t" "feedDone t" "\<not> ctxCancelled t"
    using feed_ends feedStart_sel(3) by metis
  have "\<exists>e. feedResult t = Inl e"
    by (rule Feed_fails_on_stored_chunk [OF mem.object_store_axioms br.io_reader_axioms _ _ demo_ok _ _ _ _ _ _ _ t, where x = "[1]"])
      (use demo_chunker demo_cuts b in \<open>simp_all add: demoPipe_def contentKey_ok HashSize_def\<close>)
  moreover have "mem_objs b ?k \<noteq> None" using b by simp
  ultimately show ?thesis using t by blast
qed

text \<open>C18. A worker that finds the context cancelled while it hands its chunk on returns without recording an
  error. If that happens to the last chunks, \<open>Feed\<close> reports success for a backup in which they are
  missing: a stream of one chunk, cancelled while it is hashed, gives no references and no error.\<close>

theorem Feed_drops_on_cancel:
  assumes "io_reader rd content good" "cdc_ok (pipeChunker p)" "good r" "length (content r) < rounds"
    "content r \<noteq> []" "length (content r) \<le> minSize (pipeChunker p)"
  shows "\<exists>t. feed_run H p (feedStart rd rounds procs p d b r) t \<and> feedDone t \<and> feedResult t = Inr ([], zeroStats)"
proof -
  let ?s = "feedStart rd rounds procs p d b r"
  let ?c = "\<lparr>pcSequence = 0, pcOffset = 0, pcSize = length (content r), pcData = content r\<rparr>"
  have "chunkFunc rd rounds p r = (Inr (), mkChunks 0 [content r])"
    using chunkFunc_pieces [OF assms(1-4)] cuts_short [OF assms(2,5,6)] by simp
  hence s: "pending ?s = [?c]" "srcErr ?s = None" "chunkCh ?s = []" "hashCh ?s = []" "encodeCh ?s = []"
    by (simp_all add: feedStart_def Let_def)
  note sel = feedStart_sel [of rd rounds procs p d b r]
  define s1 where "s1 = ?s\<lparr>pending := [], chunkCh := [?c]\<rparr>"
  have 1: "feed_step H p ?s s1" using feed_step.send [OF s(1)] s(3) by (simp add: s1_def)
  define s2 where "s2 = s1\<lparr>cancelled := True, ctxCancelled := True\<rparr>"
  have 2: "feed_step H p s1 s2" using feed_step.cancel [of s1] sel by (simp add: s1_def s2_def)
  obtain h d' where h: "hashFunc H (dstate s2) ?c = (h, d')" by fastforce
  define s3 where "s3 = s2\<lparr>chunkCh := [], hashers := hashers s2 - 1, dstate := d'\<rparr>"
  have 3: "feed_step H p s2 s3"
    using feed_step.hash_dropped [of s2 "[]" ?c "[]" H h d' p] h sel by (simp add: s1_def s2_def s3_def)
  have "feed_run H p ?s s3" using feed_run.step [OF feed_run.step [OF feed_run.step [OF feed_run.refl 1] 2] 3] .
  moreover have "feedDone s3" "feedResult s3 = Inr ([], zeroStats)"
    using s sel by (simp_all add: feedDone_def feedResult_def s1_def s2_def s3_def)
  ultimately show ?thesis by blast
qed

theorem Feed_drops_on_cancel_witness:
  "\<exists>t. feed_run demoHash demoPipe (feedStart bytesRead 2 1 demoPipe (Seen {}) (NewMemoryBackend ''m'') [1]) t
    \<and> feedDone t \<and> feedResult t = Inr ([], zeroStats)"
  by (rule Feed_drops_on_cancel [OF br.io_reader_axioms])
    (use demo_chunker in \<open>simp_all add: NewDefaultFastCDC_def DefaultMinSize_def\<close>)

end
