(* ===== verification/Go_Time.thy ===== *)
theory Go_Time
  imports Main
begin

text \<open>
  The parts of Go's \<open>time\<close> package that the program uses. An instant is the number of nanoseconds
  since the zero time, midnight UTC of 1 January of year 1, which was a Monday; a location is
  the offset that its zone adds to each instant. The dates follow the Gregorian calendar, as in
  Go. Instants are unbounded here: the years that Go can represent reach beyond those any clock
  shows.
\<close>

type_synonym gotime = int

type_synonym location = "gotime \<Rightarrow> int"

definition UTC :: location where "UTC = (\<lambda>_. 0)"

definition Second :: int where "Second = 1000000000"

definition Minute :: int where "Minute = 60 * Second"

definition Hour :: int where "Hour = 60 * Minute"

definition Day :: int where "Day = 24 * Hour"

definition IsZero :: "gotime \<Rightarrow> bool" where "IsZero t \<longleftrightarrow> t = 0"

definition Truncate :: "gotime \<Rightarrow> int \<Rightarrow> gotime" where
  "Truncate t d = (if d \<le> 0 then t else t - t mod d)"

section \<open>The calendar\<close>

text \<open>Days are counted from 1 January of year 1.\<close>

definition isLeap :: "int \<Rightarrow> bool" where
  "isLeap y \<longleftrightarrow> y mod 4 = 0 \<and> (y mod 100 \<noteq> 0 \<or> y mod 400 = 0)"

definition yearLen :: "int \<Rightarrow> int" where "yearLen y = (if isLeap y then 366 else 365)"

definition yearStart :: "int \<Rightarrow> int" where
  "yearStart y = (let p = y - 1 in 365 * p + p div 4 - p div 100 + p div 400)"

text \<open>The year of a day and its number in the year, by cycles of 400, 100, 4 and 1 years.\<close>

definition yearDay :: "int \<Rightarrow> int \<times> int" where
  "yearDay d =
     (let n = d div 146097; r = d mod 146097;
          c = r div 36524; c = c - c div 4; r = r - 36524 * c;
          q = r div 1461; r = r - 1461 * q;
          y = r div 365; y = y - y div 4
      in (400 * n + 100 * c + 4 * q + y + 1, r - 365 * y))"

definition daysBefore :: "int list" where
  "daysBefore = [0, 31, 59, 90, 120, 151, 181, 212, 243, 273, 304, 334, 365]"

definition monthStart :: "bool \<Rightarrow> int \<Rightarrow> int" where
  "monthStart leap m = daysBefore ! nat (m - 1) + (if leap \<and> 3 \<le> m then 1 else 0)"

text \<open>The month, from 1, and the day of the month of the day with this number in the year.\<close>

definition monthDay :: "bool \<Rightarrow> int \<Rightarrow> int \<times> int" where
  "monthDay leap yday =
     (if leap \<and> yday = 59 then (2, 29)
      else let k = (if leap \<and> 59 < yday then yday - 1 else yday); m = k div 31; end' = daysBefore ! nat (m + 1) in
           if end' \<le> k then (m + 2, k - end' + 1) else (m + 1, k - daysBefore ! nat m + 1))"

definition yearOf :: "int \<Rightarrow> int" where "yearOf d = fst (yearDay d)"

definition monthOf :: "int \<Rightarrow> int" where
  "monthOf d = (case yearDay d of (y, k) \<Rightarrow> fst (monthDay (isLeap y) k))"

definition dayOf :: "int \<Rightarrow> int" where
  "dayOf d = (case yearDay d of (y, k) \<Rightarrow> snd (monthDay (isLeap y) k))"

text \<open>\<open>Weekday\<close> counts from Sunday.\<close>

definition weekdayOf :: "int \<Rightarrow> int" where "weekdayOf d = (d + 1) mod 7"

text \<open>\<open>ISOWeek\<close>: the year and week of the Thursday of the week, which begins on Monday.\<close>

definition isoWeekOf :: "int \<Rightarrow> int \<times> int" where
  "isoWeekOf d = (case yearDay (d - d mod 7 + 3) of (y, k) \<Rightarrow> (y, k div 7 + 1))"

section \<open>Instants in a location\<close>

definition local :: "location \<Rightarrow> gotime \<Rightarrow> int" where "local loc t = t + loc t"

definition dayNo :: "location \<Rightarrow> gotime \<Rightarrow> int" where "dayNo loc t = local loc t div Day"

definition Year :: "location \<Rightarrow> gotime \<Rightarrow> int" where "Year loc t = yearOf (dayNo loc t)"

definition Month :: "location \<Rightarrow> gotime \<Rightarrow> int" where "Month loc t = monthOf (dayNo loc t)"

definition MDay :: "location \<Rightarrow> gotime \<Rightarrow> int" where "MDay loc t = dayOf (dayNo loc t)"

definition Weekday :: "location \<Rightarrow> gotime \<Rightarrow> int" where "Weekday loc t = weekdayOf (dayNo loc t)"

definition HourOf :: "location \<Rightarrow> gotime \<Rightarrow> int" where "HourOf loc t = local loc t mod Day div Hour"

definition MinuteOf :: "location \<Rightarrow> gotime \<Rightarrow> int" where "MinuteOf loc t = local loc t mod Hour div Minute"

definition SecondOf :: "location \<Rightarrow> gotime \<Rightarrow> int" where "SecondOf loc t = local loc t mod Minute div Second"

definition NsecOf :: "location \<Rightarrow> gotime \<Rightarrow> int" where "NsecOf loc t = local loc t mod Second"

text \<open>The day of a date; a month outside 1 to 12 counts into the years around it.\<close>

definition dateDays :: "int \<Rightarrow> int \<Rightarrow> int \<Rightarrow> int" where
  "dateDays y m d =
     (let y' = y + (m - 1) div 12; m' = (m - 1) mod 12 + 1 in
      yearStart y' + monthStart (isLeap y') m' + d - 1)"

text \<open>\<open>time.Date\<close>: the instant with these parts; the offset is looked up at the local time and, when
  that gives an instant of another offset, once more there.\<close>

definition Date :: "int \<Rightarrow> int \<Rightarrow> int \<Rightarrow> int \<Rightarrow> int \<Rightarrow> int \<Rightarrow> int \<Rightarrow> location \<Rightarrow> gotime" where
  "Date y m d h mi s ns loc =
     (let l = dateDays y m d * Day + h * Hour + mi * Minute + s * Second + ns; off = loc l in
      if off = 0 then l else l - loc (l - off))"

definition AddDate :: "location \<Rightarrow> gotime \<Rightarrow> int \<Rightarrow> int \<Rightarrow> int \<Rightarrow> gotime" where
  "AddDate loc t years months days =
     Date (Year loc t + years) (Month loc t + months) (MDay loc t + days) (HourOf loc t) (MinuteOf loc t)
       (SecondOf loc t) (NsecOf loc t) loc"

section \<open>Years\<close>

lemma div_pred:
  fixes p n :: int
  assumes "0 < n"
  shows "p div n = (p - 1) div n + (if p mod n = 0 then 1 else 0)"
proof -
  have p: "p = n * (p div n) + p mod n" "0 \<le> p mod n" "p mod n < n" using assms by simp_all
  show ?thesis
  proof (cases "p mod n = 0")
    case True
    hence "p - 1 = n * (p div n - 1) + (n - 1)" using p(1) by (simp add: algebra_simps)
    hence "(p - 1) div n = p div n - 1" by (rule int_div_pos_eq) (use assms in simp_all)
    thus ?thesis using True by simp
  next
    case False
    have "p - 1 = n * (p div n) + (p mod n - 1)" using p(1) by simp
    hence "(p - 1) div n = p div n" by (rule int_div_pos_eq) (use p False in simp_all)
    thus ?thesis using False by simp
  qed
qed

lemma leap_count:
  fixes y :: int
  assumes "d4 = a + (if p4 then 1 else 0)" "d100 = b + (if p100 then 1 else 0)" "d400 = c + (if p400 then 1 else 0)"
    "p400 \<Longrightarrow> p100" "p100 \<Longrightarrow> p4"
  shows "365 * y + d4 - d100 + d400
    = 365 * (y - 1) + a - b + c + (if p4 \<and> (\<not> p100 \<or> p400) then 366 else 365)"
  using assms by (cases p4; cases p100; cases p400) simp_all

lemma yearStart_Suc: "yearStart (y + 1) = yearStart y + yearLen y"
proof -
  have m: "y mod 400 = 0 \<Longrightarrow> y mod 100 = 0" "y mod 100 = 0 \<Longrightarrow> y mod 4 = 0"
    using mod_mod_cancel [of 100 400 y] mod_mod_cancel [of 4 100 y] by auto
  have "yearStart (y + 1) = 365 * y + y div 4 - y div 100 + y div 400" by (simp add: yearStart_def)
  moreover have "yearStart y = 365 * (y - 1) + (y - 1) div 4 - (y - 1) div 100 + (y - 1) div 400"
    by (simp add: yearStart_def Let_def)
  ultimately show ?thesis unfolding yearLen_def isLeap_def
    by (simp only:) (rule leap_count [OF div_pred [OF zero_less_numeral] div_pred [OF zero_less_numeral] div_pred [OF zero_less_numeral] m])
qed

lemma yearLen_pos: "365 \<le> yearLen y" "yearLen y \<le> 366"
  by (simp_all add: yearLen_def)

lemma yearStart_mono: "y \<le> z \<Longrightarrow> yearStart y + 365 * (z - y) \<le> yearStart z"
proof (induction "nat (z - y)" arbitrary: z)
  case (Suc n)
  have "yearStart y + 365 * (z - 1 - y) \<le> yearStart (z - 1)" by (rule Suc(1)) (use Suc(2) in auto)
  thus ?case using yearStart_Suc [of "z - 1"] yearLen_pos(1) [of "z - 1"] by simp
qed simp

lemma year_unique:
  assumes "yearStart y \<le> d" "d < yearStart (y + 1)" "yearStart z \<le> d" "d < yearStart (z + 1)"
  shows "y = z"
proof (rule ccontr)
  assume "y \<noteq> z"
  hence "y + 1 \<le> z \<or> z + 1 \<le> y" by auto
  thus False using yearStart_mono [of "y + 1" z] yearStart_mono [of "z + 1" y] assms by auto
qed

text \<open>The cycles.\<close>

lemma cycle_step:
  fixes x k :: int
  assumes "0 \<le> x" "x \<le> 4 * k" "0 < k"
  defines "c \<equiv> x div k - x div k div 4"
  shows "0 \<le> c" "c \<le> 3" "0 \<le> x - k * c" "x - k * c \<le> k" "c < 3 \<longrightarrow> x - k * c < k"
proof -
  define j where "j = x div k"
  have "k * j + x mod k = x" "0 \<le> x mod k" "x mod k < k" using assms(3) by (simp_all add: j_def)
  hence j: "k * j \<le> x" "x < k * j + k" by linarith+
  have "0 \<le> j" using assms(1,3) by (simp add: j_def pos_imp_zdiv_nonneg_iff)
  moreover have "j \<le> 4" using zdiv_mono1 [OF assms(2,3)] assms(3) by (simp add: j_def)
  ultimately have "j = 0 \<or> j = 1 \<or> j = 2 \<or> j = 3 \<or> j = 4" by presburger
  moreover have c: "c = j - j div 4" by (simp add: c_def j_def)
  ultimately have "j = c \<and> 0 \<le> c \<and> c \<le> 3 \<or> j = 4 \<and> c = 3" by (elim disjE) simp_all
  hence "0 \<le> c \<and> c \<le> 3 \<and> 0 \<le> x - k * c \<and> x - k * c \<le> k \<and> (c < 3 \<longrightarrow> x - k * c < k)"
  proof
    assume "j = c \<and> 0 \<le> c \<and> c \<le> 3"
    thus ?thesis using j by auto
  next
    assume "j = 4 \<and> c = 3"
    thus ?thesis using j assms(2,3) by auto
  qed
  thus "0 \<le> c" "c \<le> 3" "0 \<le> x - k * c" "x - k * c \<le> k" "c < 3 \<longrightarrow> x - k * c < k" by blast+
qed

lemma yearDay_cycles:
  obtains n c q y r where "d = 146097 * n + 36524 * c + 1461 * q + 365 * y + r" "0 \<le> r"
    "0 \<le> c" "c \<le> 3" "0 \<le> q" "q \<le> 24" "0 \<le> y" "y \<le> 3" "r \<le> 365" "r = 365 \<longrightarrow> y = 3 \<and> (q = 24 \<longrightarrow> c = 3)"
    "yearDay d = (400 * n + 100 * c + 4 * q + y + 1, r)"
proof -
  define n where "n = d div 146097"
  define r1 where "r1 = d mod 146097"
  define c where "c = r1 div 36524 - r1 div 36524 div 4"
  define r2 where "r2 = r1 - 36524 * c"
  define q where "q = r2 div 1461"
  define r3 where "r3 = r2 - 1461 * q"
  define y where "y = r3 div 365 - r3 div 365 div 4"
  have r1: "0 \<le> r1" "r1 < 146097" by (simp_all add: r1_def)
  have c: "0 \<le> c" "c \<le> 3" "r2 \<le> 36524" "0 \<le> r2" "c < 3 \<longrightarrow> r2 < 36524"
    using cycle_step [of r1 36524, folded c_def r2_def] r1 by simp_all
  have r2: "r2 = 1461 * q + r3" "0 \<le> r3" "r3 < 1461" by (simp_all add: q_def r3_def minus_mult_div_eq_mod)
  hence q: "0 \<le> q" "q \<le> 24" "0 \<le> r3" "r3 \<le> 1460" "q = 24 \<and> c < 3 \<longrightarrow> r3 < 1460"
    using c by auto
  have y: "0 \<le> y" "y \<le> 3" "0 \<le> r3 - 365 * y" "r3 - 365 * y \<le> 365" "r3 - 365 * y = 365 \<longrightarrow> y = 3 \<and> r3 = 1460"
    using cycle_step [of r3 365, folded y_def] q by auto
  have "d = 146097 * n + r1" by (simp add: n_def r1_def)
  hence d: "d = 146097 * n + 36524 * c + 1461 * q + 365 * y + (r3 - 365 * y)" using r2_def r3_def by linarith
  have yd: "yearDay d = (400 * n + 100 * c + 4 * q + y + 1, r3 - 365 * y)"
    unfolding yearDay_def Let_def n_def c_def q_def y_def r1_def r2_def r3_def by (rule refl)
  have "r3 - 365 * y = 365 \<longrightarrow> y = 3 \<and> (q = 24 \<longrightarrow> c = 3)" using y(5) q(5) c(2) by auto
  from that [OF d y(3) c(1,2) q(1,2) y(1,2,4) this yd] show thesis .
qed

lemma yearStart_cycles:
  assumes "0 \<le> c" "c \<le> 3" "0 \<le> q" "q \<le> 24" "0 \<le> y" "y \<le> 3"
  shows "yearStart (400 * n + 100 * c + 4 * q + y + 1) = 146097 * n + 36524 * c + 1461 * q + 365 * y"
proof -
  let ?p = "400 * n + 100 * c + 4 * q + y"
  have "?p div 4 = 100 * n + 25 * c + q" by (rule int_div_pos_eq [of _ _ _ y]) (use assms in simp_all)
  moreover have "?p div 100 = 4 * n + c" by (rule int_div_pos_eq [of _ _ _ "4 * q + y"]) (use assms in simp_all)
  moreover have "?p div 400 = n" by (rule int_div_pos_eq [of _ _ _ "100 * c + 4 * q + y"]) (use assms in simp_all)
  moreover have "yearStart (?p + 1) = 365 * ?p + ?p div 4 - ?p div 100 + ?p div 400" by (simp add: yearStart_def Let_def)
  ultimately show ?thesis by (simp only:) simp
qed

lemma leap_cycles:
  assumes "0 \<le> q" "q \<le> 24" "q = 24 \<longrightarrow> c = 3"
  shows "isLeap (400 * n + 100 * c + 4 * q + 3 + 1)"
proof -
  let ?y = "400 * n + 100 * c + 4 * q + 3 + 1"
  have "?y = 4 * (100 * n + 25 * c + q + 1)" by simp
  hence 4: "?y mod 4 = 0" by (metis mod_mult_self1_is_0)
  show ?thesis
  proof (cases "q = 24")
    case True
    hence "?y = 400 * (n + 1)" using assms(3) by simp
    hence "?y mod 400 = 0" by (metis mod_mult_self1_is_0)
    thus ?thesis using 4 by (simp add: isLeap_def)
  next
    case False
    hence "?y mod 100 = 4 * q + 4" by (intro int_mod_pos_eq [of _ _ "4 * n + c"]) (use assms in simp_all)
    thus ?thesis using 4 assms(1) by (simp only: isLeap_def) simp
  qed
qed

theorem yearDay_props:
  assumes "yearDay d = (y, k)"
  shows "d = yearStart y + k" "0 \<le> k" "k < yearLen y"
proof -
  obtain n c q j r where r: "d = 146097 * n + 36524 * c + 1461 * q + 365 * j + r" "0 \<le> r"
    "0 \<le> c" "c \<le> 3" "0 \<le> q" "q \<le> 24" "0 \<le> j" "j \<le> 3" "r \<le> 365" "r = 365 \<longrightarrow> j = 3 \<and> (q = 24 \<longrightarrow> c = 3)"
    "yearDay d = (400 * n + 100 * c + 4 * q + j + 1, r)"
    by (rule yearDay_cycles)
  hence y: "y = 400 * n + 100 * c + 4 * q + j + 1" "k = r" using assms by simp_all
  show "d = yearStart y + k" using yearStart_cycles [OF r(3-8)] r(1) y by simp
  show "0 \<le> k" using r(2) y by simp
  show "k < yearLen y"
  proof (cases "r = 365")
    case True
    hence "isLeap y" using leap_cycles [OF r(5,6), of c n] r(10) y by simp
    thus ?thesis using True y by (simp add: yearLen_def)
  next
    case False
    thus ?thesis using r(9) y yearLen_pos(1) [of y] by simp
  qed
qed

lemma yearDay_eq:
  assumes "0 \<le> k" "k < yearLen y"
  shows "yearDay (yearStart y + k) = (y, k)"
proof -
  obtain z j where z: "yearDay (yearStart y + k) = (z, j)" by fastforce
  note p = yearDay_props [OF z]
  have "y = z" by (rule year_unique [of y "yearStart y + k"]) (use assms p yearStart_Suc [of y] yearStart_Suc [of z] in auto)
  thus ?thesis using z p by simp
qed

section \<open>Months\<close>

lemma monthDay_check:
  "\<forall>m \<in> set [1..12]. \<forall>k \<in> set [monthStart l m..monthStart l (m + 1) - 1]. monthDay l k = (m, k - monthStart l m + 1)"
proof -
  have "\<forall>m \<in> set [1..12]. \<forall>k \<in> set [monthStart False m..monthStart False (m + 1) - 1]. monthDay False k = (m, k - monthStart False m + 1)"
    "\<forall>m \<in> set [1..12]. \<forall>k \<in> set [monthStart True m..monthStart True (m + 1) - 1]. monthDay True k = (m, k - monthStart True m + 1)"
    by code_simp+
  thus ?thesis by (cases l) simp_all
qed

lemma monthDay_eq:
  assumes "1 \<le> m" "m \<le> 12" "monthStart l m \<le> k" "k < monthStart l (m + 1)"
  shows "monthDay l k = (m, k - monthStart l m + 1)"
  using monthDay_check [of l] assms by simp

lemma monthStart_ends: "monthStart l 1 = 0" "monthStart l 13 = (if l then 366 else 365)"
  by (simp_all add: monthStart_def daysBefore_def)

lemma monthStart_step: "\<forall>m \<in> set [1..12]. 28 \<le> monthStart l (m + 1) - monthStart l m \<and> monthStart l (m + 1) - monthStart l m \<le> 31"
proof -
  have "\<forall>m \<in> set [1..12]. 28 \<le> monthStart False (m + 1) - monthStart False m \<and> monthStart False (m + 1) - monthStart False m \<le> 31"
    "\<forall>m \<in> set [1..12]. 28 \<le> monthStart True (m + 1) - monthStart True m \<and> monthStart True (m + 1) - monthStart True m \<le> 31"
    by code_simp+
  thus ?thesis by (cases l) simp_all
qed

lemma month_found:
  assumes "0 \<le> k" "k < (if l then 366 else 365)"
  obtains m where "1 \<le> m" "m \<le> 12" "monthStart l m \<le> k" "k < monthStart l (m + 1)"
proof -
  have "k < monthStart l (1 + int n) \<Longrightarrow> n \<le> 12 \<Longrightarrow> \<exists>m. 1 \<le> m \<and> m \<le> int n \<and> monthStart l m \<le> k \<and> k < monthStart l (m + 1)" for n
  proof (induction n)
    case 0
    thus ?case using assms(1) monthStart_ends(1) [of l] by simp
  next
    case (Suc n)
    show ?case
    proof (cases "k < monthStart l (1 + int n)")
      case True
      then obtain m where "1 \<le> m" "m \<le> int n" "monthStart l m \<le> k" "k < monthStart l (m + 1)" using Suc by auto
      thus ?thesis by (intro exI [of _ m]) simp
    next
      case False
      thus ?thesis using Suc.prems by (intro exI [of _ "1 + int n"]) (simp add: add.commute add.left_commute)
    qed
  qed
  from this [of 12] show thesis using that assms(2) monthStart_ends(2) [of l] by auto
qed

section \<open>Dates\<close>

text \<open>The parts of a day give the day back, and the days of a month are consecutive.\<close>

lemma day_parts:
  obtains k where "d = yearStart (yearOf d) + k" "0 \<le> k" "k < yearLen (yearOf d)" "1 \<le> monthOf d" "monthOf d \<le> 12"
    "monthStart (isLeap (yearOf d)) (monthOf d) \<le> k" "k < monthStart (isLeap (yearOf d)) (monthOf d + 1)"
    "dayOf d = k - monthStart (isLeap (yearOf d)) (monthOf d) + 1"
proof -
  obtain y k where y: "yearDay d = (y, k)" by fastforce
  note p = yearDay_props [OF y]
  obtain m where m: "1 \<le> m" "m \<le> 12" "monthStart (isLeap y) m \<le> k" "k < monthStart (isLeap y) (m + 1)"
    using month_found [of k "isLeap y"] p by (auto simp: yearLen_def)
  note e = monthDay_eq [OF m]
  show thesis by (rule that [of k]) (use y p m e in \<open>simp_all add: yearOf_def monthOf_def dayOf_def\<close>)
qed

lemma parts_eq:
  assumes "1 \<le> m" "m \<le> 12" "0 \<le> j" "monthStart (isLeap y) m + j < monthStart (isLeap y) (m + 1)"
  shows "yearOf (yearStart y + monthStart (isLeap y) m + j) = y" "monthOf (yearStart y + monthStart (isLeap y) m + j) = m"
    "dayOf (yearStart y + monthStart (isLeap y) m + j) = j + 1"
proof -
  let ?k = "monthStart (isLeap y) m + j"
  have "monthStart l (1 + int n) \<le> monthStart l (1 + int n + int i)" if "n + i \<le> 12" for l n i
    using that
  proof (induction i)
    case (Suc i)
    have "28 \<le> monthStart l (1 + int (n + i) + 1) - monthStart l (1 + int (n + i))" 
      by (rule monthStart_step [rule_format, THEN conjunct1]) (use Suc.prems in simp)
    thus ?case using Suc by (simp add: algebra_simps)
  qed simp
  note mono = this [of 0 "nat (m - 1)" "isLeap y"] this [of "nat m" "nat (12 - m)" "isLeap y"]
  have "monthStart (isLeap y) 13 = yearLen y" by (simp add: monthStart_ends yearLen_def)
  hence "0 \<le> monthStart (isLeap y) m" "monthStart (isLeap y) (m + 1) \<le> yearLen y"
    using mono assms(1,2) monthStart_ends(1) [of "isLeap y"] by (simp_all add: add.commute)
  hence k: "0 \<le> ?k" "?k < yearLen y" using assms by linarith+
  have "yearDay (yearStart y + ?k) = (y, ?k)" by (rule yearDay_eq [OF k])
  moreover have "monthDay (isLeap y) ?k = (m, ?k - monthStart (isLeap y) m + 1)" by (rule monthDay_eq) (use assms in simp_all)
  ultimately show "yearOf (yearStart y + monthStart (isLeap y) m + j) = y" "monthOf (yearStart y + monthStart (isLeap y) m + j) = m"
    "dayOf (yearStart y + monthStart (isLeap y) m + j) = j + 1"
    by (simp_all add: yearOf_def monthOf_def dayOf_def add.assoc)
qed

lemma dateDays_parts: "dateDays (yearOf d) (monthOf d) (dayOf d + i) = d + i"
proof -
  obtain k where k: "d = yearStart (yearOf d) + k" "1 \<le> monthOf d" "monthOf d \<le> 12"
    "dayOf d = k - monthStart (isLeap (yearOf d)) (monthOf d) + 1" using day_parts [of d] by metis
  have "(monthOf d - 1) div 12 = 0" "(monthOf d - 1) mod 12 = monthOf d - 1" using k(2,3) by simp_all
  hence "dateDays (yearOf d) (monthOf d) (dayOf d + i) = yearStart (yearOf d) + k + i" using k(4) by (simp add: dateDays_def Let_def)
  thus ?thesis using k(1) by simp
qed

end
