(* ===== verification/Core_Types.thy ===== *)
theory Core_Types
  imports Go_Strings Go_Time
begin

text \<open>
  The types of \<open>internal/core\<close> that the schedulers, the retention policies and the stores share,
  and identifiers. A Go string type is a string, an instant a \<^typ>\<open>gotime\<close>, a map with string
  keys an association list.
\<close>

section \<open>Integers\<close>

text \<open>An \<open>int64\<close> after an operation that may overflow.\<close>

definition wrap64 :: "int \<Rightarrow> int" where
  "wrap64 x = (x + 2 ^ 63) mod 2 ^ 64 - 2 ^ 63"

lemma wrap64_id: "- (2 ^ 63) \<le> x \<Longrightarrow> x < 2 ^ 63 \<Longrightarrow> wrap64 x = x"
  by (simp add: wrap64_def)

text \<open>\<open>strconv.ParseInt\<close> with base 10 and 64 bits, which is also \<open>strconv.Atoi\<close>: digits with an optional
  sign, in the range of \<open>int64\<close>.\<close>

definition digitValue :: "char \<Rightarrow> int option" where
  "digitValue c = (let n = of_char c :: int in if 48 \<le> n \<and> n \<le> 57 then Some (n - 48) else None)"

fun parseDigits :: "int \<Rightarrow> string \<Rightarrow> int option" where
  "parseDigits acc [] = Some acc"
| "parseDigits acc (c # cs) = (case digitValue c of None \<Rightarrow> None | Some d \<Rightarrow> parseDigits (10 * acc + d) cs)"

definition ParseInt :: "string \<Rightarrow> int option" where
  "ParseInt s =
     (let neg = (s \<noteq> [] \<and> hd s = CHR ''-'');
          ds = (if s \<noteq> [] \<and> (hd s = CHR ''-'' \<or> hd s = CHR ''+'') then tl s else s) in
      if ds = [] then None
      else (case parseDigits 0 ds of None \<Rightarrow> None
            | Some n \<Rightarrow> let v = (if neg then - n else n) in
                if v < - (2 ^ 63) \<or> 2 ^ 63 \<le> v then None else Some v))"

section \<open>Identifiers\<close>

type_synonym ident = string

definition ID_IsZero :: "ident \<Rightarrow> bool" where
  "ID_IsZero i \<longleftrightarrow> TrimSpace i = []"

definition formatUUID :: "bytes \<Rightarrow> string" where
  "formatUUID b = hexEncode (take 4 b) @ ''-'' @ hexEncode (take 2 (drop 4 b)) @ ''-'' @ hexEncode (take 2 (drop 6 b))
     @ ''-'' @ hexEncode (take 2 (drop 8 b)) @ ''-'' @ hexEncode (take 6 (drop 10 b))"

text \<open>\<open>newID\<close>: 48 bits of Unix time in milliseconds, then random bits with the version and the variant
  of UUIDv7 set. The entropy is what the reader yields, or nothing when it fails.\<close>

definition newID :: "int \<Rightarrow> bytes option \<Rightarrow> ident option" where
  "newID unixMillis entropy =
     (case entropy of None \<Rightarrow> None | Some r \<Rightarrow>
      if length r < 16 then None
      else let b = take 16 r;
               t = rev (putLE 6 (nat (unixMillis mod 2 ^ 48)));
               b6 = or (and (b ! 6) 15) 112; b8 = or (and (b ! 8) 63) 128
           in Some (formatUUID (t @ [b6, b ! 7, b8] @ drop 9 b)))"

section \<open>Backups\<close>

definition BackupTypeFull :: string where "BackupTypeFull = ''full''"

definition BackupTypeIncremental :: string where "BackupTypeIncremental = ''incr''"

definition BackupTypeDifferential :: string where "BackupTypeDifferential = ''diff''"

definition BackupTypeStream :: string where "BackupTypeStream = ''stream''"

definition BackupTypeSchema :: string where "BackupTypeSchema = ''schema''"

record backup =
  bID :: ident
  bTargetID :: ident
  bStorageID :: ident
  bJobID :: ident
  bType :: string
  bParentID :: ident
  bManifestID :: ident
  bStartedAt :: gotime
  bEndedAt :: gotime
  bSizeBytes :: int
  bChunkCount :: int
  bProtected :: bool

section \<open>Retention policies\<close>

text \<open>A value of type \<open>any\<close> in the parameters of a rule or the options of a resource: nil, a truth value, an integer of type
  \<open>int\<close> or \<open>int64\<close>, a floating point number \<open>m * 2 ^ e\<close>, one that is no number, a string, a duration, a time, a list, a map, or a value
  of another type. The finite floating point numbers are exactly such \<open>m * 2 ^ e\<close>.\<close>

datatype anyval =
    VNil
  | VBool bool
  | VInt int
  | VFloat int int
  | VNaN
  | VString string
  | VDuration int
  | VTime gotime
  | VList "anyval list"
  | VMap "(string \<times> anyval) list"
  | VOther nat

record retentionRule =
  rrKind :: string
  rrParams :: "(string \<times> anyval) list"

record retentionPolicy =
  rpID :: ident
  rpName :: string
  rpRules :: "retentionRule list"
  rpCreatedAt :: gotime
  rpUpdatedAt :: gotime

section \<open>Schedules\<close>

record jobHookAction =
  hookShell :: string
  hookWebhookURL :: string

record jobHooks =
  PreBackup :: "jobHookAction list"
  OnFailure :: "jobHookAction list"

record schedule =
  sID :: ident
  sName :: string
  sTargetID :: ident
  sStorageID :: ident
  sBackupType :: string
  sExpression :: string
  sRetentionPolicy :: ident
  sHooks :: jobHooks
  sPaused :: bool
  sCreatedAt :: gotime
  sUpdatedAt :: gotime
  sLabels :: "(string \<times> string) list"

end
