(* ===== verification/Retention.thy ===== *)
theory Retention
  imports Core_Types
begin

text \<open>
  Retention policies (\<open>internal/retention/retention.go\<close>): \<open>Resolve\<close> orders the backups newest
  first, marks those that a rule keeps, and then those that a kept backup builds on.

  \<open>time.ParseDuration\<close> and \<open>fmt.Sprint\<close> are parameters of the model, the clock that \<open>Resolve\<close>
  reads when it is given no time is an argument.
\<close>

section \<open>Plans\<close>

record planItem =
  Backup :: backup
  Keep :: bool
  Reasons :: "string list"

datatype retention_error =
    UnsupportedRule string
  | MissingParam string
  | InvalidParam string
  | NegativeParam string

record goLib =
  ParseDuration :: "string \<Rightarrow> int option"
  Sprint :: "anyval \<Rightarrow> string"

definition keep :: "string \<Rightarrow> planItem \<Rightarrow> planItem" where
  "keep reason it =
     (if reason \<in> set (Reasons it) then it\<lparr>Keep := True\<rparr>
      else it\<lparr>Keep := True, Reasons := Reasons it @ [reason]\<rparr>)"

definition backupTime :: "backup \<Rightarrow> gotime" where
  "backupTime b = (if \<not> IsZero (bEndedAt b) then bEndedAt b else bStartedAt b)"

section \<open>Parameters\<close>

text \<open>Truncation of \<open>m * 2 ^ e\<close> towards zero.\<close>

definition floatTrunc :: "int \<Rightarrow> int \<Rightarrow> int" where
  "floatTrunc m e = (if 0 \<le> e then m * 2 ^ nat e else sgn m * (\<bar>m\<bar> div 2 ^ nat (- e)))"

text \<open>The conversion of a number outside the range of \<open>int64\<close> gives the least \<open>int64\<close>, as it does on amd64.\<close>

fun toInt64 :: "anyval \<Rightarrow> int option" where
  "toInt64 (VInt n) = Some n"
| "toInt64 (VFloat m e) = (let n = floatTrunc m e in Some (if n < - (2 ^ 63) \<or> 2 ^ 63 \<le> n then - (2 ^ 63) else n))"
| "toInt64 VNaN = Some (- (2 ^ 63))"
| "toInt64 (VString s) = ParseInt s"
| "toInt64 _ = None"

fun findParam :: "(string \<times> anyval) list \<Rightarrow> string list \<Rightarrow> (anyval \<times> string) option" where
  "findParam params [] = None"
| "findParam params (name # names) =
     (case map_of params name of Some v \<Rightarrow> Some (v, name) | None \<Rightarrow> findParam params names)"

definition int64Param :: "(string \<times> anyval) list \<Rightarrow> string list \<Rightarrow> retention_error + int" where
  "int64Param params names =
     (case findParam params names of None \<Rightarrow> Inl (MissingParam (hd names)) | Some (v, name) \<Rightarrow>
      (case toInt64 v of None \<Rightarrow> Inl (InvalidParam name) | Some n \<Rightarrow> Inr n))"

definition intParam :: "(string \<times> anyval) list \<Rightarrow> string list \<Rightarrow> retention_error + int" where
  "intParam params names = int64Param params names"

definition optionalIntParam :: "(string \<times> anyval) list \<Rightarrow> string \<Rightarrow> retention_error + int" where
  "optionalIntParam params name =
     (case map_of params name of None \<Rightarrow> Inr 0 | Some v \<Rightarrow>
      (case toInt64 v of None \<Rightarrow> Inl (InvalidParam name) | Some n \<Rightarrow>
        if n < 0 then Inl (NegativeParam name) else Inr n))"

definition durationParam :: "goLib \<Rightarrow> (string \<times> anyval) list \<Rightarrow> string list \<Rightarrow> retention_error + int" where
  "durationParam G params names =
     (case findParam params names of None \<Rightarrow> Inl (MissingParam (hd names)) | Some (v, name) \<Rightarrow>
      (case v of
         VDuration d \<Rightarrow> Inr d
       | VString s \<Rightarrow> (case ParseDuration G s of None \<Rightarrow> Inl (InvalidParam name) | Some d \<Rightarrow> Inr d)
       | _ \<Rightarrow> (case toInt64 v of None \<Rightarrow> Inl (InvalidParam name) | Some n \<Rightarrow> Inr (wrap64 (n * Second)))))"

definition stringParam :: "goLib \<Rightarrow> (string \<times> anyval) list \<Rightarrow> string \<Rightarrow> string" where
  "stringParam G params name =
     (case map_of params name of None \<Rightarrow> [] | Some (VString s) \<Rightarrow> s | Some v \<Rightarrow> Sprint G v)"

section \<open>Rules\<close>

fun countLoop :: "string \<Rightarrow> int \<Rightarrow> int \<Rightarrow> planItem list \<Rightarrow> planItem list" where
  "countLoop ty n kept [] = []"
| "countLoop ty n kept (it # its) =
     (if ty \<noteq> [] \<and> bType (Backup it) \<noteq> ty then it # countLoop ty n kept its
      else if kept < n then keep ''count'' it # countLoop ty n (kept + 1) its
      else it # countLoop ty n kept its)"

definition applyCount :: "goLib \<Rightarrow> planItem list \<Rightarrow> retentionRule \<Rightarrow> retention_error + planItem list" where
  "applyCount G its rule =
     (case intParam (rrParams rule) [''n'', ''keep'', ''count''] of Inl e \<Rightarrow> Inl e | Inr n \<Rightarrow>
      if n < 0 then Inl (NegativeParam ''count'')
      else Inr (countLoop (stringParam G (rrParams rule) ''type'') n 0 its))"

definition applyTime :: "goLib \<Rightarrow> planItem list \<Rightarrow> retentionRule \<Rightarrow> gotime \<Rightarrow> retention_error + planItem list" where
  "applyTime G its rule now =
     (case durationParam G (rrParams rule) [''duration'', ''younger_than''] of Inl e \<Rightarrow> Inl e | Inr d \<Rightarrow>
      if d < 0 then Inl (NegativeParam ''duration'')
      else let cutoff = now - d in
           Inr (map (\<lambda>it. if \<not> backupTime (Backup it) < cutoff then keep ''time'' it else it) its))"

fun sizeLoop :: "int \<Rightarrow> int \<Rightarrow> planItem list \<Rightarrow> planItem list" where
  "sizeLoop maxBytes used [] = []"
| "sizeLoop maxBytes used (it # its) =
     (if bProtected (Backup it) then it # sizeLoop maxBytes used its
      else if wrap64 (used + bSizeBytes (Backup it)) \<le> maxBytes
      then keep ''size'' it # sizeLoop maxBytes (wrap64 (used + bSizeBytes (Backup it))) its
      else it # sizeLoop maxBytes used its)"

definition applySize :: "planItem list \<Rightarrow> retentionRule \<Rightarrow> retention_error + planItem list" where
  "applySize its rule =
     (case int64Param (rrParams rule) [''max_bytes'', ''bytes''] of Inl e \<Rightarrow> Inl e | Inr n \<Rightarrow>
      if n < 0 then Inl (NegativeParam ''max_bytes'') else Inr (sizeLoop n 0 its))"

text \<open>One of the four calendars of a grandfather-father-son rule: keep the item if the quota is not
  used up and its period has not been seen.\<close>

definition gfsMark :: "int \<Rightarrow> 'k \<Rightarrow> string \<Rightarrow> 'k set \<times> planItem \<Rightarrow> 'k set \<times> planItem" where
  "gfsMark quota key reason si =
     (case si of (seen, it) \<Rightarrow>
      if quota > int (card seen) \<and> key \<notin> seen then (insert key seen, keep reason it) else (seen, it))"

definition dayKey :: "gotime \<Rightarrow> int \<times> int \<times> int" where
  "dayKey t = (Year UTC t, Month UTC t, MDay UTC t)"

definition weekKey :: "gotime \<Rightarrow> int \<times> int" where "weekKey t = isoWeekOf (dayNo UTC t)"

definition monthKey :: "gotime \<Rightarrow> int \<times> int" where "monthKey t = (Year UTC t, Month UTC t)"

definition yearKey :: "gotime \<Rightarrow> int" where "yearKey t = Year UTC t"

fun gfsLoop :: "int \<times> int \<times> int \<times> int \<Rightarrow> (int \<times> int \<times> int) set \<Rightarrow> (int \<times> int) set \<Rightarrow> (int \<times> int) set \<Rightarrow> int set \<Rightarrow>
    planItem list \<Rightarrow> planItem list" where
  "gfsLoop quotas sd sw sm sy [] = []"
| "gfsLoop quotas sd sw sm sy (it # its) =
     (case quotas of (daily, weekly, monthly, yearly) \<Rightarrow>
      let t = backupTime (Backup it) in
      case gfsMark daily (dayKey t) ''gfs:daily'' (sd, it) of (sd', it1) \<Rightarrow>
      (case gfsMark weekly (weekKey t) ''gfs:weekly'' (sw, it1) of (sw', it2) \<Rightarrow>
      (case gfsMark monthly (monthKey t) ''gfs:monthly'' (sm, it2) of (sm', it3) \<Rightarrow>
      (case gfsMark yearly (yearKey t) ''gfs:yearly'' (sy, it3) of (sy', it4) \<Rightarrow>
       it4 # gfsLoop quotas sd' sw' sm' sy' its))))"

definition applyGFS :: "planItem list \<Rightarrow> retentionRule \<Rightarrow> retention_error + planItem list" where
  "applyGFS its rule =
     (case optionalIntParam (rrParams rule) ''daily'' of Inl e \<Rightarrow> Inl e | Inr daily \<Rightarrow>
      (case optionalIntParam (rrParams rule) ''weekly'' of Inl e \<Rightarrow> Inl e | Inr weekly \<Rightarrow>
       (case optionalIntParam (rrParams rule) ''monthly'' of Inl e \<Rightarrow> Inl e | Inr monthly \<Rightarrow>
        (case optionalIntParam (rrParams rule) ''yearly'' of Inl e \<Rightarrow> Inl e | Inr yearly \<Rightarrow>
          Inr (gfsLoop (daily, weekly, monthly, yearly) {} {} {} {} its)))))"

definition applyRule :: "goLib \<Rightarrow> gotime \<Rightarrow> retentionRule \<Rightarrow> planItem list \<Rightarrow> retention_error + planItem list" where
  "applyRule G now rule its =
     (if rrKind rule = ''count'' then applyCount G its rule
      else if rrKind rule = ''time'' then applyTime G its rule now
      else if rrKind rule = ''size'' then applySize its rule
      else if rrKind rule = ''gfs'' then applyGFS its rule
      else Inl (UnsupportedRule (rrKind rule)))"

fun applyRules :: "goLib \<Rightarrow> gotime \<Rightarrow> retentionRule list \<Rightarrow> planItem list \<Rightarrow> retention_error + planItem list" where
  "applyRules G now [] its = Inr its"
| "applyRules G now (r # rs) its = (case applyRule G now r its of Inl e \<Rightarrow> Inl e | Inr its' \<Rightarrow> applyRules G now rs its')"

section \<open>Ancestors\<close>

text \<open>The index of the backup with an identifier: the last one, as later items overwrite the map.\<close>

definition byID :: "planItem list \<Rightarrow> ident \<Rightarrow> nat option" where
  "byID its i =
     (if ID_IsZero i then None
      else map_of (rev (zip (map (\<lambda>it. bID (Backup it)) its) [0..<length its])) i)"

text \<open>One pass over the items, from index \<open>i\<close>: the parent of a kept item is kept.\<close>

definition parentOf :: "planItem list \<Rightarrow> nat \<Rightarrow> nat option" where
  "parentOf its i = byID its (bParentID (Backup (its ! i)))"

definition chainStep :: "nat \<Rightarrow> planItem list \<times> bool \<Rightarrow> planItem list \<times> bool" where
  "chainStep i ic =
     (case ic of (its, changed) \<Rightarrow>
      if \<not> Keep (its ! i) then (its, changed)
      else (case parentOf its i of
              None \<Rightarrow> (its, changed)
            | Some j \<Rightarrow> if Keep (its ! j) then (its, changed) else (its[j := keep ''chain'' (its ! j)], True)))"

definition chainPass :: "planItem list \<Rightarrow> planItem list \<times> bool" where
  "chainPass its = fold chainStep [0..<length its] (its, False)"

definition unkept :: "planItem list \<Rightarrow> nat" where
  "unkept its = length (filter (\<lambda>it. \<not> Keep it) its)"

lemma keep_sel [simp]: "Keep (keep r it)" "Backup (keep r it) = Backup it"
  by (simp_all add: keep_def)

lemma length_chainStep [simp]: "length (fst (chainStep i ic)) = length (fst ic)"
  by (simp add: chainStep_def split: prod.splits option.splits)

lemma unkept_update: "j < length its \<Longrightarrow> \<not> Keep (its ! j) \<Longrightarrow> Keep it \<Longrightarrow> unkept (its[j := it]) + 1 = unkept its"
  by (induction its arbitrary: j) (auto simp: unkept_def split: nat.splits)

lemma byID_range: "byID its i = Some j \<Longrightarrow> j < length its \<and> bID (Backup (its ! j)) = i \<and> \<not> ID_IsZero i"
  by (auto simp: byID_def set_zip dest!: map_of_SomeD split: if_splits)

lemma parentOf_range: "parentOf its i = Some j \<Longrightarrow> j < length its"
  using byID_range by (auto simp: parentOf_def)

lemma chainStep_unkept: "unkept (fst (chainStep i ic)) + (if snd (chainStep i ic) then 1 else 0) \<le> unkept (fst ic) + (if snd ic then 1 else 0)"
proof -
  obtain its ch where ic: "ic = (its, ch)" by fastforce
  show ?thesis
  proof (cases "parentOf its i")
    case None
    thus ?thesis by (simp add: ic chainStep_def)
  next
    case (Some j)
    show ?thesis
    proof (cases "Keep (its ! i) \<and> \<not> Keep (its ! j)")
      case True
      thus ?thesis using unkept_update [OF parentOf_range [OF Some], of "keep ''chain'' (its ! j)"] Some by (simp add: ic chainStep_def)
    qed (use Some in \<open>auto simp: ic chainStep_def\<close>)
  qed
qed

lemma chainPass_unkept:
  assumes "chainPass its = (its', changed)"
  shows "unkept its' + (if changed then 1 else 0) \<le> unkept its"
proof -
  have "unkept (fst (fold chainStep js ic)) + (if snd (fold chainStep js ic) then 1 else 0) \<le> unkept (fst ic) + (if snd ic then 1 else 0)" for js ic
  proof (induction js arbitrary: ic)
    case (Cons i js)
    show ?case using Cons [of "chainStep i ic"] chainStep_unkept [of i ic] by simp
  qed simp
  from this [of "[0..<length its]" "(its, False)"] show ?thesis using assms by (simp add: chainPass_def)
qed

function protectKeptAncestors :: "planItem list \<Rightarrow> planItem list" where
  "protectKeptAncestors its =
     (case chainPass its of (its', changed) \<Rightarrow> if changed then protectKeptAncestors its' else its')"
  by auto

termination
proof (relation "measure unkept", goal_cases)
  case (2 its its' changed)
  thus ?case using chainPass_unkept [of its its' changed] by auto
qed simp

declare protectKeptAncestors.simps [simp del]

section \<open>Resolve\<close>

definition planItems :: "backup list \<Rightarrow> planItem list" where
  "planItems bs = sort_key (\<lambda>it. - backupTime (Backup it)) (map (\<lambda>b. \<lparr>Backup = b, Keep = False, Reasons = []\<rparr>) bs)"

definition keepProtected :: "planItem list \<Rightarrow> planItem list" where
  "keepProtected its = map (\<lambda>it. if bProtected (Backup it) then keep ''protected'' it else it) its"

definition Resolve :: "goLib \<Rightarrow> gotime \<Rightarrow> backup list \<Rightarrow> retentionPolicy \<Rightarrow> gotime \<Rightarrow> retention_error + planItem list" where
  "Resolve G clock bs policy now =
     (let now' = (if IsZero now then clock else now) in
      case applyRules G now' (rpRules policy) (keepProtected (planItems bs)) of
        Inl e \<Rightarrow> Inl e
      | Inr its \<Rightarrow> Inr (protectKeptAncestors its))"

definition KeepIDs :: "planItem list \<Rightarrow> ident set" where
  "KeepIDs its = (\<lambda>it. bID (Backup it)) ` {it \<in> set its. Keep it}"

definition DropIDs :: "planItem list \<Rightarrow> ident set" where
  "DropIDs its = (\<lambda>it. bID (Backup it)) ` {it \<in> set its. \<not> Keep it}"

end
