(* ===== verification/Retention_Props.thy ===== *)
theory Retention_Props
  imports Retention
begin

text \<open>
  What \<open>Resolve\<close> keeps: a declarative account of each rule, and the closure of the kept backups
  under the backups they build on.
\<close>

section \<open>Marking\<close>

text \<open>The operations on a plan change no backup and drop no mark.\<close>

definition marks :: "planItem list \<Rightarrow> planItem list \<Rightarrow> (nat \<Rightarrow> bool) \<Rightarrow> bool" where
  "marks its its' sel \<longleftrightarrow> map Backup its' = map Backup its
     \<and> (\<forall>i < length its. Keep (its' ! i) \<longleftrightarrow> Keep (its ! i) \<or> sel i)"

lemma marksD:
  assumes "marks its its' sel"
  shows "length its' = length its" "i < length its \<Longrightarrow> Backup (its' ! i) = Backup (its ! i)"
    "i < length its \<Longrightarrow> Keep (its' ! i) \<longleftrightarrow> Keep (its ! i) \<or> sel i"
proof -
  have b: "map Backup its' = map Backup its" using assms by (simp add: marks_def)
  show l: "length its' = length its" using map_eq_imp_length_eq [OF b] .
  show "i < length its \<Longrightarrow> Backup (its' ! i) = Backup (its ! i)" using arg_cong [OF b, of "\<lambda>xs. xs ! i"] l by simp
  show "i < length its \<Longrightarrow> Keep (its' ! i) \<longleftrightarrow> Keep (its ! i) \<or> sel i" using assms by (simp add: marks_def)
qed

lemma marks_trans: "marks a b f \<Longrightarrow> marks b c g \<Longrightarrow> marks a c (\<lambda>i. f i \<or> g i)"
  using marksD(1) [of a b f] by (auto simp: marks_def)

lemma marks_Nil: "marks [] [] sel"
  by (simp add: marks_def)

lemma marks_Cons:
  assumes "marks its its' (\<lambda>i. sel (Suc i))" "Backup it' = Backup it" "Keep it' \<longleftrightarrow> Keep it \<or> sel 0"
  shows "marks (it # its) (it' # its') sel"
  using assms by (auto simp: marks_def less_Suc_eq_0_disj)

lemma marks_cong: "marks a b f \<Longrightarrow> (\<And>i. i < length a \<Longrightarrow> f i = g i) \<Longrightarrow> marks a b g"
  by (auto simp: marks_def)

section \<open>The rules\<close>

definition typeMatches :: "string \<Rightarrow> backup \<Rightarrow> bool" where
  "typeMatches ty b \<longleftrightarrow> ty = [] \<or> bType b = ty"

text \<open>Count: among the matching backups, the newest \<open>n\<close>.\<close>

definition countPick :: "string \<Rightarrow> int \<Rightarrow> backup list \<Rightarrow> nat \<Rightarrow> bool" where
  "countPick ty n bs i \<longleftrightarrow> typeMatches ty (bs ! i) \<and> int (length (filter (typeMatches ty) (take i bs))) < n"

lemma countLoop_marks: "marks its (countLoop ty n k its) (countPick ty (n - k) (map Backup its))"
proof (induction its arbitrary: k)
  case (Cons it its)
  have e: "countPick ty (n - k') (map Backup its) i = countPick ty (n - k) (map Backup (it # its)) (Suc i)"
    if "k' = (if typeMatches ty (Backup it) then k + 1 else k)" for i k'
    using that by (auto simp: countPick_def)
  consider "\<not> typeMatches ty (Backup it)" | "typeMatches ty (Backup it)" "k < n" | "typeMatches ty (Backup it)" "\<not> k < n" by blast
  thus ?case
  proof cases
    case 1
    thus ?thesis using marks_cong [OF Cons e]
      by (auto simp: typeMatches_def countPick_def intro!: marks_Cons)
  next
    case 2
    thus ?thesis using marks_cong [OF Cons e]
      by (auto simp: typeMatches_def countPick_def intro!: marks_Cons)
  next
    case 3
    have "countPick ty (n - k) (map Backup its) i = countPick ty (n - k) (map Backup (it # its)) (Suc i)" for i
      using 3 by (auto simp: countPick_def)
    thus ?thesis using 3 marks_cong [OF Cons] by (auto simp: typeMatches_def countPick_def intro!: marks_Cons)
  qed
qed (simp add: marks_Nil)

text \<open>Size: walking from the newest, every unprotected backup that still fits.\<close>

fun sizePicks :: "int \<Rightarrow> int \<Rightarrow> backup list \<Rightarrow> bool list" where
  "sizePicks m used [] = []"
| "sizePicks m used (b # bs) =
     (let fits = (\<not> bProtected b \<and> wrap64 (used + bSizeBytes b) \<le> m) in
      fits # sizePicks m (if fits then wrap64 (used + bSizeBytes b) else used) bs)"

lemma sizeLoop_marks: "marks its (sizeLoop m used its) (\<lambda>i. sizePicks m used (map Backup its) ! i)"
  by (induction its arbitrary: used) (auto simp: Let_def marks_Nil intro!: marks_Cons)

text \<open>Calendars: the newest backup of each of the newest periods, up to the quota.\<close>

definition gfsPick :: "int \<Rightarrow> (gotime \<Rightarrow> 'k) \<Rightarrow> backup list \<Rightarrow> nat \<Rightarrow> bool" where
  "gfsPick quota key bs i \<longleftrightarrow>
     (let earlier = (\<lambda>b. key (backupTime b)) ` set (take i bs) in
      key (backupTime (bs ! i)) \<notin> earlier \<and> int (card earlier) < quota)"

text \<open>What the set of seen periods is after a prefix: its periods, until the quota is reached.\<close>

definition gfsSeen :: "int \<Rightarrow> 'k set \<Rightarrow> 'k set \<Rightarrow> bool" where
  "gfsSeen quota ks seen \<longleftrightarrow> finite ks \<and> seen \<subseteq> ks \<and> (int (card ks) < quota \<longrightarrow> seen = ks)
     \<and> (quota \<le> int (card ks) \<longrightarrow> quota \<le> int (card seen))"

lemma gfsMark_seen:
  assumes "gfsSeen quota ks seen" "gfsMark quota k r (seen, it) = (seen', it')"
  shows "gfsSeen quota (insert k ks) seen' \<and> Backup it' = Backup it
    \<and> (Keep it' \<longleftrightarrow> Keep it \<or> k \<notin> ks \<and> int (card ks) < quota)"
proof -
  have f: "finite ks" "finite seen" "seen \<subseteq> ks" using assms(1) by (auto simp: gfsSeen_def finite_subset)
  show ?thesis
  proof (cases "int (card ks) < quota")
    case True
    hence "seen = ks" using assms(1) by (simp add: gfsSeen_def)
    thus ?thesis using assms(2) True f(1)
      by (cases "k \<in> ks") (auto simp: gfsMark_def gfsSeen_def insert_absorb)
  next
    case False
    hence q: "quota \<le> int (card seen)" using assms(1) by (simp add: gfsSeen_def)
    hence "seen' = seen" "it' = it" using assms(2) by (auto simp: gfsMark_def)
    moreover have "card ks \<le> card (insert k ks)" using f(1) by (simp add: card_insert_le)
    ultimately show ?thesis using False q f by (auto simp: gfsSeen_def)
  qed
qed

definition periods :: "(gotime \<Rightarrow> 'k) \<Rightarrow> backup list \<Rightarrow> 'k set" where
  "periods key bs = (\<lambda>b. key (backupTime b)) ` set bs"

lemma gfsPick_at: "gfsPick q key (pre @ b # bs) (length pre) \<longleftrightarrow> key (backupTime b) \<notin> periods key pre \<and> int (card (periods key pre)) < q"
  by (simp add: gfsPick_def periods_def Let_def)

lemma periods_snoc: "periods key (pre @ [b]) = insert (key (backupTime b)) (periods key pre)"
  by (simp add: periods_def)

definition gfsPicks :: "int \<times> int \<times> int \<times> int \<Rightarrow> backup list \<Rightarrow> nat \<Rightarrow> bool" where
  "gfsPicks quotas bs i \<longleftrightarrow>
     (case quotas of (d, w, m, y) \<Rightarrow>
      gfsPick d dayKey bs i \<or> gfsPick w weekKey bs i \<or> gfsPick m monthKey bs i \<or> gfsPick y yearKey bs i)"

lemma gfsLoop_marks:
  assumes "gfsSeen d (periods dayKey pre) sd" "gfsSeen w (periods weekKey pre) sw"
    "gfsSeen m (periods monthKey pre) sm" "gfsSeen y (periods yearKey pre) sy"
  shows "marks its (gfsLoop (d, w, m, y) sd sw sm sy its) (\<lambda>i. gfsPicks (d, w, m, y) (pre @ map Backup its) (length pre + i))"
  using assms
proof (induction its arbitrary: pre sd sw sm sy)
  case (Cons it its)
  let ?b = "Backup it" let ?t = "backupTime (Backup it)"
  obtain sd' i1 where 1: "gfsMark d (dayKey ?t) ''gfs:daily'' (sd, it) = (sd', i1)" by fastforce
  obtain sw' i2 where 2: "gfsMark w (weekKey ?t) ''gfs:weekly'' (sw, i1) = (sw', i2)" by fastforce
  obtain sm' i3 where 3: "gfsMark m (monthKey ?t) ''gfs:monthly'' (sm, i2) = (sm', i3)" by fastforce
  obtain sy' i4 where 4: "gfsMark y (yearKey ?t) ''gfs:yearly'' (sy, i3) = (sy', i4)" by fastforce
  note g = gfsMark_seen [OF Cons.prems(1) 1] gfsMark_seen [OF Cons.prems(2) 2] gfsMark_seen [OF Cons.prems(3) 3]
    gfsMark_seen [OF Cons.prems(4) 4]
  have "marks its (gfsLoop (d, w, m, y) sd' sw' sm' sy' its)
      (\<lambda>i. gfsPicks (d, w, m, y) ((pre @ [?b]) @ map Backup its) (length (pre @ [?b]) + i))"
    by (rule Cons.IH) (use g in \<open>simp_all add: periods_snoc\<close>)
  hence "marks (it # its) (i4 # gfsLoop (d, w, m, y) sd' sw' sm' sy' its)
      (\<lambda>i. gfsPicks (d, w, m, y) (pre @ map Backup (it # its)) (length pre + i))"
    by (intro marks_Cons) (use g in \<open>simp_all add: gfsPicks_def gfsPick_at\<close>)
  thus ?case using 1 2 3 4 by (simp add: Let_def)
qed (simp add: marks_Nil)

text \<open>What a rule keeps of the backups in the order of the plan.\<close>

definition ruleSelects :: "goLib \<Rightarrow> gotime \<Rightarrow> retentionRule \<Rightarrow> backup list \<Rightarrow> nat \<Rightarrow> bool" where
  "ruleSelects G now rule bs i \<longleftrightarrow>
     (if rrKind rule = ''count''
      then (\<exists>n. intParam (rrParams rule) [''n'', ''keep'', ''count''] = Inr n \<and> countPick (stringParam G (rrParams rule) ''type'') n bs i)
      else if rrKind rule = ''time''
      then (\<exists>d. durationParam G (rrParams rule) [''duration'', ''younger_than''] = Inr d \<and> now - d \<le> backupTime (bs ! i))
      else if rrKind rule = ''size''
      then (\<exists>n. int64Param (rrParams rule) [''max_bytes'', ''bytes''] = Inr n \<and> sizePicks n 0 bs ! i)
      else (\<exists>d w m y. optionalIntParam (rrParams rule) ''daily'' = Inr d \<and> optionalIntParam (rrParams rule) ''weekly'' = Inr w
          \<and> optionalIntParam (rrParams rule) ''monthly'' = Inr m \<and> optionalIntParam (rrParams rule) ''yearly'' = Inr y
          \<and> gfsPicks (d, w, m, y) bs i))"

lemma gfsSeen_start: "gfsSeen q (periods key []) {}"
  by (simp add: gfsSeen_def periods_def)

lemma applyRule_marks:
  assumes "applyRule G now rule its = Inr its'"
  shows "marks its its' (ruleSelects G now rule (map Backup its))"
proof -
  consider "rrKind rule = ''count''" | "rrKind rule = ''time''" | "rrKind rule = ''size''" | "rrKind rule = ''gfs''"
    using assms by (auto simp: applyRule_def split: if_splits)
  thus ?thesis
  proof cases
    case 1
    then obtain n where "intParam (rrParams rule) [''n'', ''keep'', ''count''] = Inr n"
        "its' = countLoop (stringParam G (rrParams rule) ''type'') n 0 its"
      using assms by (auto simp: applyRule_def applyCount_def split: sum.splits if_splits)
    thus ?thesis using 1 countLoop_marks [of its "stringParam G (rrParams rule) ''type''" n 0]
      by (auto simp: ruleSelects_def intro: marks_cong)
  next
    case 2
    then obtain d where "durationParam G (rrParams rule) [''duration'', ''younger_than''] = Inr d"
        "its' = map (\<lambda>it. if \<not> backupTime (Backup it) < now - d then keep ''time'' it else it) its"
      using assms by (auto simp: applyRule_def applyTime_def Let_def split: sum.splits if_splits)
    thus ?thesis using 2 by (auto simp: ruleSelects_def marks_def)
  next
    case 3
    then obtain n where "int64Param (rrParams rule) [''max_bytes'', ''bytes''] = Inr n" "its' = sizeLoop n 0 its"
      using assms by (auto simp: applyRule_def applySize_def split: sum.splits if_splits)
    thus ?thesis using 3 sizeLoop_marks [of its n 0] by (auto simp: ruleSelects_def intro: marks_cong)
  next
    case 4
    then obtain d w m y where "optionalIntParam (rrParams rule) ''daily'' = Inr d" "optionalIntParam (rrParams rule) ''weekly'' = Inr w"
        "optionalIntParam (rrParams rule) ''monthly'' = Inr m" "optionalIntParam (rrParams rule) ''yearly'' = Inr y"
        "its' = gfsLoop (d, w, m, y) {} {} {} {} its"
      using assms by (auto simp: applyRule_def applyGFS_def split: sum.splits)
    thus ?thesis using 4 gfsLoop_marks [OF gfsSeen_start gfsSeen_start gfsSeen_start gfsSeen_start, of its d w m y]
      by (auto simp: ruleSelects_def intro: marks_cong)
  qed
qed

section \<open>Ancestors\<close>

text \<open>The items that a plan keeps once the backups that kept backups build on are kept.\<close>

inductive chained :: "planItem list \<Rightarrow> nat \<Rightarrow> bool" for its :: "planItem list" where
  base: "i < length its \<Longrightarrow> Keep (its ! i) \<Longrightarrow> chained its i"
| step: "chained its i \<Longrightarrow> parentOf its i = Some j \<Longrightarrow> chained its j"

lemma chained_range: "chained its i \<Longrightarrow> i < length its"
  by (induction rule: chained.induct) (auto dest: parentOf_range)

lemma byID_cong: "map Backup its' = map Backup its \<Longrightarrow> byID its' = byID its"
proof -
  assume b: "map Backup its' = map Backup its"
  have "map (\<lambda>it. bID (Backup it)) its' = map (\<lambda>it. bID (Backup it)) its"
    using arg_cong [OF b, of "map bID"] by (simp add: comp_def)
  thus ?thesis using map_eq_imp_length_eq [OF b] by (simp add: byID_def fun_eq_iff)
qed

lemma parentOf_cong:
  assumes "map Backup its' = map Backup its" "i < length its"
  shows "parentOf its' i = parentOf its i"
proof -
  have "Backup (its' ! i) = Backup (its ! i)"
    using arg_cong [OF assms(1), of "\<lambda>xs. xs ! i"] assms(2) map_eq_imp_length_eq [OF assms(1)] by simp
  thus ?thesis using byID_cong [OF assms(1)] by (simp add: parentOf_def)
qed

text \<open>What every state of the passes satisfies.\<close>

definition chain_inv :: "planItem list \<Rightarrow> planItem list \<Rightarrow> bool" where
  "chain_inv its its' \<longleftrightarrow> map Backup its' = map Backup its
     \<and> (\<forall>i < length its. (Keep (its ! i) \<longrightarrow> Keep (its' ! i)) \<and> (Keep (its' ! i) \<longrightarrow> chained its i))"

lemma chainStep_inv:
  assumes "chain_inv its (fst ic)" "i < length its"
  shows "chain_inv its (fst (chainStep i ic))"
proof -
  obtain its' ch where ic: "ic = (its', ch)" by fastforce
  have b: "map Backup its' = map Backup its" and k: "\<forall>i < length its. (Keep (its ! i) \<longrightarrow> Keep (its' ! i)) \<and> (Keep (its' ! i) \<longrightarrow> chained its i)"
    using assms(1) ic by (simp_all add: chain_inv_def)
  have l: "length its' = length its" using map_eq_imp_length_eq [OF b] .
  show ?thesis
  proof (cases "\<exists>j. Keep (its' ! i) \<and> parentOf its' i = Some j \<and> \<not> Keep (its' ! j)")
    case True
    then obtain j where j: "Keep (its' ! i)" "parentOf its' i = Some j" "\<not> Keep (its' ! j)" by blast
    have jl: "j < length its'" using parentOf_range [OF j(2)] .
    have "chained its i" using k assms(2) j(1) by blast
    hence cj: "chained its j" using j(2) parentOf_cong [OF b assms(2)] by (auto intro: chained.step)
    have "map Backup (its'[j := keep ''chain'' (its' ! j)]) = map Backup its"
      using b jl by (simp add: map_update) (metis list_update_id map_update nth_map)
    moreover have "(Keep (its ! m) \<longrightarrow> Keep (its'[j := keep ''chain'' (its' ! j)] ! m))
        \<and> (Keep (its'[j := keep ''chain'' (its' ! j)] ! m) \<longrightarrow> chained its m)" if "m < length its" for m
      using k that cj l by (cases "m = j") (simp_all add: nth_list_update)
    ultimately show ?thesis using j by (simp add: ic chainStep_def chain_inv_def)
  next
    case False
    hence "chainStep i ic = (its', ch)" by (auto simp: ic chainStep_def split: option.splits)
    thus ?thesis using assms(1) ic by simp
  qed
qed

lemma chainPass_inv:
  assumes "chain_inv its xs" "length xs = length its"
  shows "chain_inv its (fst (chainPass xs))"
proof -
  have "\<forall>j \<in> set js. j < length its \<Longrightarrow> chain_inv its (fst ic) \<Longrightarrow> chain_inv its (fst (fold chainStep js ic))" for js ic
    by (induction js arbitrary: ic) (simp_all add: chainStep_inv)
  from this [of "[0..<length xs]" "(xs, False)"] assms show ?thesis by (simp add: chainPass_def)
qed

text \<open>A pass that changes nothing has found the set closed.\<close>

lemma chainStep_still:
  assumes "\<not> snd (chainStep i (its, ch))"
  shows "chainStep i (its, ch) = (its, False)" "\<not> ch" "Keep (its ! i) \<Longrightarrow> parentOf its i = Some j \<Longrightarrow> Keep (its ! j)"
  using assms by (auto simp: chainStep_def split: if_splits option.splits)

lemma fold_chainStep_still:
  "\<not> snd (fold chainStep js (its, ch)) \<Longrightarrow> fst (fold chainStep js (its, ch)) = its \<and> \<not> ch
    \<and> (\<forall>i \<in> set js. \<forall>j. Keep (its ! i) \<longrightarrow> parentOf its i = Some j \<longrightarrow> Keep (its ! j))"
proof (induction js arbitrary: its ch)
  case (Cons i js)
  obtain its1 ch1 where c: "chainStep i (its, ch) = (its1, ch1)" by fastforce
  have IH: "fst (fold chainStep js (its1, ch1)) = its1" "\<not> ch1"
    "\<forall>i \<in> set js. \<forall>j. Keep (its1 ! i) \<longrightarrow> parentOf its1 i = Some j \<longrightarrow> Keep (its1 ! j)"
    using Cons.IH [of its1 ch1] Cons.prems c by auto
  have "\<not> snd (chainStep i (its, ch))" using c IH(2) by simp
  note st = chainStep_still [OF this]
  have e: "its1 = its" "chainStep i (its, ch) = (its1, ch1)" using st(1) c by simp_all
  have "Keep (its ! j)" if "k \<in> set (i # js)" "Keep (its ! k)" "parentOf its k = Some j" for k j
  proof (cases "k = i")
    case True
    thus ?thesis using st(3) that(2,3) by blast
  next
    case False
    thus ?thesis using IH(3) that unfolding e(1) by simp
  qed
  moreover have "fst (fold chainStep (i # js) (its, ch)) = its" using IH(1) e by simp
  ultimately show ?case using st(2) by blast
qed simp

lemma chainPass_still:
  assumes "chainPass its = (its', False)" "i < length its" "Keep (its ! i)" "parentOf its i = Some j"
  shows "its' = its" "Keep (its ! j)"
  using fold_chainStep_still [of "[0..<length its]" its False] assms by (auto simp: chainPass_def)

lemma chainPass_same: "chainPass its = (its', False) \<Longrightarrow> its' = its"
  using fold_chainStep_still [of "[0..<length its]" its False] by (simp add: chainPass_def)

theorem protectKeptAncestors_exact:
  "chain_inv its (protectKeptAncestors its)
    \<and> (\<forall>i < length its. \<forall>j. Keep (protectKeptAncestors its ! i) \<longrightarrow> parentOf its i = Some j \<longrightarrow> Keep (protectKeptAncestors its ! j))"
proof -
  have "chain_inv its xs \<Longrightarrow> chain_inv its (protectKeptAncestors xs)
    \<and> (\<forall>i < length its. \<forall>j. Keep (protectKeptAncestors xs ! i) \<longrightarrow> parentOf its i = Some j \<longrightarrow> Keep (protectKeptAncestors xs ! j))" for xs
  proof (induction xs rule: protectKeptAncestors.induct)
    case (1 xs)
    obtain xs' ch where c: "chainPass xs = (xs', ch)" by fastforce
    have b: "map Backup xs = map Backup its" using "1.prems" by (simp add: chain_inv_def)
    have l: "length xs = length its" using map_eq_imp_length_eq [OF b] .
    have inv: "chain_inv its xs'" using chainPass_inv [OF "1.prems" l] c by simp
    show ?case
    proof (cases ch)
      case True
      thus ?thesis using "1.IH" [OF c [symmetric] True inv] c by (simp add: protectKeptAncestors.simps [of xs])
    next
      case False
      hence e: "protectKeptAncestors xs = xs" using c chainPass_same [of xs xs'] by (simp add: protectKeptAncestors.simps [of xs])
      moreover have "Keep (xs ! j)" if "i < length its" "Keep (xs ! i)" "parentOf its i = Some j" for i j
        using chainPass_still(2) [of xs xs' i j] c False that l parentOf_cong [OF b that(1)] by simp
      ultimately show ?thesis using "1.prems" by auto
    qed
  qed
  moreover have "chain_inv its its" by (auto simp: chain_inv_def intro: chained.base)
  ultimately show ?thesis by blast
qed

section \<open>What Resolve keeps\<close>

definition newestFirst :: "backup list \<Rightarrow> backup list" where
  "newestFirst bs = sort_key (\<lambda>b. - backupTime b) bs"

definition planOf :: "backup list \<Rightarrow> planItem list" where
  "planOf bs = map (\<lambda>b. \<lparr>Backup = b, Keep = False, Reasons = []\<rparr>) bs"

text \<open>The backups of an ordered list that a policy keeps: protected ones, those a rule selects, and
  those that one of them builds on.\<close>

inductive kept :: "goLib \<Rightarrow> gotime \<Rightarrow> retentionRule list \<Rightarrow> backup list \<Rightarrow> nat \<Rightarrow> bool"
  for G :: goLib and now :: gotime and rules :: "retentionRule list" and bs :: "backup list" where
  protected: "i < length bs \<Longrightarrow> bProtected (bs ! i) \<Longrightarrow> kept G now rules bs i"
| rule: "i < length bs \<Longrightarrow> r \<in> set rules \<Longrightarrow> ruleSelects G now r bs i \<Longrightarrow> kept G now rules bs i"
| parent: "kept G now rules bs i \<Longrightarrow> parentOf (planOf bs) i = Some j \<Longrightarrow> kept G now rules bs j"

lemma sort_key_map: "sort_key k (map f xs) = map f (sort_key (\<lambda>x. k (f x)) xs)"
proof (induction xs)
  case (Cons x xs)
  have "insort_key k (f x) (map f ys) = map f (insort_key (\<lambda>x. k (f x)) x ys)" for ys
    by (induction ys) simp_all
  thus ?case using Cons by simp
qed simp

lemma planItems_eq: "planItems bs = planOf (newestFirst bs)"
  by (simp add: planItems_def planOf_def newestFirst_def sort_key_map)

lemma planOf_sel: "map Backup (planOf bs) = bs" "length (planOf bs) = length bs" "i < length bs \<Longrightarrow> \<not> Keep (planOf bs ! i)"
  by (simp_all add: planOf_def comp_def)

lemma keepProtected_marks: "marks its (keepProtected its) (\<lambda>i. bProtected (Backup (its ! i)))"
  by (auto simp: marks_def keepProtected_def)

lemma applyRules_marks:
  "applyRules G now rules its = Inr its' \<Longrightarrow> marks its its' (\<lambda>i. \<exists>r \<in> set rules. ruleSelects G now r (map Backup its) i)"
proof (induction rules arbitrary: its)
  case (Cons r rs)
  obtain its1 where 1: "applyRule G now r its = Inr its1" "applyRules G now rs its1 = Inr its'"
    using Cons.prems by (auto split: sum.splits)
  note m = applyRule_marks [OF 1(1)]
  have "map Backup its1 = map Backup its" using m by (simp add: marks_def)
  from marks_trans [OF m Cons.IH [OF 1(2)], unfolded this] show ?case by (rule marks_cong) auto
qed (simp add: marks_def)

lemma Resolve_Inr:
  assumes "Resolve G clock bs policy now = Inr plan"
  obtains its where "plan = protectKeptAncestors its" "map Backup its = newestFirst bs"
    "\<And>i. i < length bs \<Longrightarrow> Keep (its ! i) \<longleftrightarrow> bProtected (newestFirst bs ! i)
      \<or> (\<exists>r \<in> set (rpRules policy). ruleSelects G (if IsZero now then clock else now) r (newestFirst bs) i)"
proof -
  let ?now = "if IsZero now then clock else now" and ?bs = "newestFirst bs"
  obtain its where its: "applyRules G ?now (rpRules policy) (keepProtected (planOf ?bs)) = Inr its" "plan = protectKeptAncestors its"
    using assms by (auto simp: Resolve_def planItems_eq Let_def split: sum.splits)
  have p: "marks (planOf ?bs) (keepProtected (planOf ?bs)) (\<lambda>i. bProtected (Backup (planOf ?bs ! i)))" by (rule keepProtected_marks)
  have b: "map Backup (keepProtected (planOf ?bs)) = ?bs" using p by (simp add: marks_def planOf_sel)
  note m = marks_trans [OF p applyRules_marks [OF its(1)], unfolded b]
  have len: "length bs = length (planOf ?bs)" by (simp add: planOf_sel newestFirst_def)
  show thesis
  proof (rule that [OF its(2)])
    show "map Backup its = ?bs" using m by (simp add: marks_def planOf_sel)
    fix i assume "i < length bs"
    hence i: "i < length (planOf ?bs)" using len by simp
    have "Backup (planOf ?bs ! i) = ?bs ! i" using i by (simp add: planOf_def)
    thus "Keep (its ! i) \<longleftrightarrow> bProtected (?bs ! i) \<or> (\<exists>r \<in> set (rpRules policy). ruleSelects G ?now r ?bs i)"
      using marksD(3) [OF m i] i planOf_sel(3) [of i ?bs] by (simp add: planOf_sel)
  qed
qed

lemma Resolve_plan:
  assumes "Resolve G clock bs policy now = Inr plan"
  shows "map Backup plan = newestFirst bs"
    "i < length bs \<Longrightarrow> Keep (plan ! i) \<longleftrightarrow> kept G (if IsZero now then clock else now) (rpRules policy) (newestFirst bs) i"
    "i < length bs \<Longrightarrow> Keep (plan ! i) \<Longrightarrow> parentOf (planOf (newestFirst bs)) i = Some j \<Longrightarrow> Keep (plan ! j)"
proof -
  let ?now = "if IsZero now then clock else now" and ?bs = "newestFirst bs"
  obtain its where its: "plan = protectKeptAncestors its" "map Backup its = ?bs"
    and k: "\<And>i. i < length bs \<Longrightarrow> Keep (its ! i) \<longleftrightarrow> bProtected (?bs ! i) \<or> (\<exists>r \<in> set (rpRules policy). ruleSelects G ?now r ?bs i)"
    by (rule Resolve_Inr [OF assms]) blast
  have len: "length its = length bs" using arg_cong [OF its(2), of length] by (simp add: newestFirst_def)
  have lb: "length ?bs = length bs" by (simp add: newestFirst_def)
  note p = protectKeptAncestors_exact [of its, folded its(1)]
  show b: "map Backup plan = ?bs" using p its(2) by (simp add: chain_inv_def)
  have par: "parentOf its i = parentOf (planOf ?bs) i" if "i < length bs" for i
    using parentOf_cong [of its "planOf ?bs" i] its(2) that lb by (simp add: planOf_sel)
  have ck: "chained its i \<Longrightarrow> kept G ?now (rpRules policy) ?bs i" for i
  proof (induction rule: chained.induct)
    case (base i)
    thus ?case using k [of i] len lb by (auto intro: kept.protected kept.rule)
  next
    case (step i j)
    thus ?case using par [of i] chained_range [OF step(1)] len by (auto intro: kept.parent)
  qed
  have kc: "kept G ?now (rpRules policy) ?bs i \<Longrightarrow> chained its i" for i
  proof (induction rule: kept.induct)
    case (protected i)
    thus ?case using k [of i] len lb by (auto intro: chained.base)
  next
    case (rule i r)
    thus ?case using k [of i] len lb by (auto intro: chained.base)
  next
    case (parent i j)
    thus ?case using par [of i] chained_range [OF parent(3)] len by (auto intro: chained.step)
  qed
  have cl: "chained its i \<Longrightarrow> Keep (plan ! i)" for i
  proof (induction rule: chained.induct)
    case (base i)
    thus ?case using p by (simp add: chain_inv_def)
  next
    case (step i j)
    thus ?case using p chained_range [OF step(1)] by blast
  qed
  have kp: "Keep (plan ! i) \<longleftrightarrow> chained its i" if "i < length bs" for i
  proof
    have "chain_inv its plan" using p by blast
    thus "Keep (plan ! i) \<Longrightarrow> chained its i" using that len by (simp add: chain_inv_def)
  qed (rule cl)
  show "i < length bs \<Longrightarrow> Keep (plan ! i) \<longleftrightarrow> kept G ?now (rpRules policy) ?bs i"
    using ck [of i] kc [of i] kp by blast
  show "i < length bs \<Longrightarrow> Keep (plan ! i) \<Longrightarrow> parentOf (planOf ?bs) i = Some j \<Longrightarrow> Keep (plan ! j)"
    using p par [of i] len by simp
qed

text \<open>C23. \<open>Resolve\<close> returns the backups newest first, each kept exactly when it is protected, when a rule of the
  policy selects it (a count rule the newest \<open>n\<close> of its type, a time rule those not older than its
  duration, a size rule those that fit walking from the newest, a calendar rule the newest of each of
  the newest periods), or when a kept backup builds on it.\<close>

theorem Resolve_exact:
  assumes "Resolve G clock bs policy now = Inr plan"
  shows "map Backup plan = newestFirst bs \<and> (\<forall>i < length bs.
    Keep (plan ! i) = kept G (if IsZero now then clock else now) (rpRules policy) (newestFirst bs) i)"
  using Resolve_plan [OF assms] by blast

lemma Resolve_chains:
  assumes "Resolve G clock bs policy now = Inr plan" "it \<in> set plan"
  shows "(bProtected (Backup it) \<longrightarrow> Keep it) \<and> (Keep it \<longrightarrow> \<not> ID_IsZero (bParentID (Backup it)) \<longrightarrow>
    bParentID (Backup it) \<in> bID ` set bs \<longrightarrow> bParentID (Backup it) \<in> KeepIDs plan)"
proof -
  note r = Resolve_plan [OF assms(1)]
  let ?bs = "newestFirst bs"
  have len: "length plan = length bs" "length ?bs = length bs" using arg_cong [OF r(1), of length] by (simp_all add: newestFirst_def)
  obtain i where i: "i < length bs" "it = plan ! i" using assms(2) len by (metis in_set_conv_nth)
  have bi: "Backup (plan ! j) = ?bs ! j" if "j < length bs" for j
    using that r(1) len(1) by (metis nth_map)
  have "bProtected (Backup it) \<longrightarrow> Keep it"
    using r(2) [OF i(1)] kept.protected [of i ?bs] i bi len(2) by simp
  moreover have "bParentID (Backup it) \<in> KeepIDs plan"
    if k: "Keep it" "\<not> ID_IsZero (bParentID (Backup it))" "bParentID (Backup it) \<in> bID ` set bs"
  proof -
    let ?p = "bParentID (Backup it)" and ?z = "rev (zip (map (\<lambda>it. bID (Backup it)) (planOf ?bs)) [0..<length (planOf ?bs)])"
    have "map (\<lambda>it. bID (Backup it)) (planOf ?bs) = map bID ?bs" by (simp add: planOf_def comp_def)
    hence "set (map fst ?z) = set (map bID ?bs)" by (simp add: rev_map [symmetric] planOf_sel del: set_map list.set_map)
    hence "fst ` set ?z = bID ` set bs" by (simp add: newestFirst_def)
    hence "map_of ?z ?p \<noteq> None" using k(3) by (simp add: map_of_eq_None_iff)
    then obtain j where "parentOf (planOf ?bs) i = Some j"
      using k(2) i bi by (auto simp: parentOf_def byID_def planOf_def len)
    note j = this parentOf_range [OF this] byID_range [OF this [unfolded parentOf_def]]
    have "Keep (plan ! j)" using r(3) [OF i(1)] k(1) i(2) j(1) by blast
    moreover have "bID (Backup (plan ! j)) = ?p" using j(2,3) bi i len by (simp add: planOf_def)
    moreover have "plan ! j \<in> set plan" using j(2) len by (simp add: planOf_sel)
    ultimately show ?thesis by (auto simp: KeepIDs_def intro: rev_image_eqI)
  qed
  ultimately show ?thesis by blast
qed

text \<open>Three backups for the witnesses: a full one, an incremental one on it, and an older full one.\<close>

definition demoBackup :: "string \<Rightarrow> string \<Rightarrow> gotime \<Rightarrow> bool \<Rightarrow> backup" where
  "demoBackup i par t prot =
     \<lparr>bID = i, bTargetID = ''t'', bStorageID = ''s'', bJobID = ''j'', bType = BackupTypeFull, bParentID = par, bManifestID = ''m'',
      bStartedAt = t, bEndedAt = t, bSizeBytes = 10, bChunkCount = 1, bProtected = prot\<rparr>"

definition demoBackups :: "backup list" where
  "demoBackups = [demoBackup ''new'' ''base'' 30 True, demoBackup ''base'' [] 20 False, demoBackup ''old'' [] 10 False]"

definition demoPolicy :: "retentionRule list \<Rightarrow> retentionPolicy" where
  "demoPolicy rules = \<lparr>rpID = ''p'', rpName = ''p'', rpRules = rules, rpCreatedAt = 1, rpUpdatedAt = 1\<rparr>"

definition demoGo :: goLib where "demoGo = \<lparr>ParseDuration = (\<lambda>s. None), Sprint = (\<lambda>v. [])\<rparr>"

lemma demo_order: "newestFirst demoBackups = demoBackups"
  by (simp add: newestFirst_def demoBackups_def demoBackup_def backupTime_def IsZero_def)

lemma demo_resolves: "\<exists>plan. Resolve demoGo 1 demoBackups (demoPolicy []) 40 = Inr plan"
  by (simp add: Resolve_def demoPolicy_def)

theorem Resolve_exact_witness:
  "\<exists>plan. Resolve demoGo 1 demoBackups (demoPolicy []) 40 = Inr plan \<and> Keep (plan ! 0) \<and> length plan = 3"
proof -
  obtain plan where plan: "Resolve demoGo 1 demoBackups (demoPolicy []) 40 = Inr plan" using demo_resolves by blast
  note e = Resolve_exact [OF plan, unfolded demo_order]
  have "kept demoGo 40 [] demoBackups 0" by (rule kept.protected) (simp_all add: demoBackups_def demoBackup_def)
  moreover have "length plan = 3" using arg_cong [OF conjunct1 [OF e], of length] by (simp add: demoBackups_def)
  ultimately show ?thesis using plan e by (auto simp: demoPolicy_def IsZero_def demoBackups_def)
qed

text \<open>C24. No policy breaks a chain: if \<open>Resolve\<close> keeps a backup whose parent is among the backups, the plan
  keeps a backup with the identifier of the parent; and protected backups are kept.\<close>

theorem Resolve_keeps_chains:
  assumes "Resolve G clock bs policy now = Inr plan" "it \<in> set plan"
  shows "(bProtected (Backup it) \<longrightarrow> Keep it) \<and> (Keep it \<longrightarrow> \<not> ID_IsZero (bParentID (Backup it)) \<longrightarrow>
    bParentID (Backup it) \<in> bID ` set bs \<longrightarrow> bParentID (Backup it) \<in> KeepIDs plan)"
  by (rule Resolve_chains [OF assms])

theorem Resolve_keeps_chains_witness:
  "\<exists>plan. Resolve demoGo 1 demoBackups (demoPolicy []) 40 = Inr plan \<and> ''base'' \<in> KeepIDs plan"
proof -
  obtain plan where plan: "Resolve demoGo 1 demoBackups (demoPolicy []) 40 = Inr plan" using demo_resolves by blast
  have m: "map Backup plan = demoBackups" using Resolve_plan(1) [OF plan] by (simp add: demo_order)
  have "plan \<noteq> []" using m by (auto simp: demoBackups_def)
  hence p: "plan ! 0 \<in> set plan" by simp
  have "Backup (plan ! 0) = demoBackups ! 0" using m \<open>plan \<noteq> []\<close> by (metis length_greater_0_conv nth_map)
  hence b: "Backup (plan ! 0) = demoBackup ''new'' ''base'' 30 True" by (simp add: demoBackups_def)
  show ?thesis using plan Resolve_keeps_chains [OF plan p] b
    by (simp add: demoBackup_def demoBackups_def ID_IsZero_def TrimSpace_def isSpace_def)
qed

end
