(* ===== verification/Cron.thy ===== *)
theory Cron
  imports Core_Types "HOL-Library.Word"
begin

text \<open>
  Cron expressions (\<open>internal/schedule/cron.go\<close>): \<open>ParseCron\<close> and \<open>Next\<close>. A field is a set of
  numbers below 64 in a 64-bit word. The location of the instant that \<open>Next\<close> is given is an
  argument. The loop of \<open>Next\<close> takes fuel and yields \<open>None\<close> while it still runs.
\<close>

section \<open>Sets of small numbers\<close>

type_synonym bitset = "64 word"

definition bs_has :: "bitset \<Rightarrow> int \<Rightarrow> bool" where
  "bs_has b n \<longleftrightarrow> and b (push_bit (nat n) 1) \<noteq> 0"

fun bs_nextLoop :: "nat \<Rightarrow> bitset \<Rightarrow> int \<Rightarrow> int \<Rightarrow> int option" where
  "bs_nextLoop 0 b i mx = None"
| "bs_nextLoop (Suc fuel) b i mx =
     (if mx < i then None else if bs_has b i then Some i else bs_nextLoop fuel b (i + 1) mx)"

definition bs_next :: "bitset \<Rightarrow> int \<Rightarrow> int \<Rightarrow> int option" where
  "bs_next b start mx = bs_nextLoop (nat (mx - start + 1)) b start mx"

section \<open>Parsing\<close>

datatype cron_error =
    ExpressionRequired
  | BadFieldCount nat
  | EmptyPart
  | InvalidStep string
  | InvalidValue string
  | InvalidRange string
  | OutsideRange int int
  | ShiftPanic
  | InField string cron_error
  | NotInitialized
  | NoMatchWithin5Years

record cron =
  cexpr :: string
  seconds :: bitset
  minutes :: bitset
  hours :: bitset
  dom' :: bitset
  months :: bitset
  dow :: bitset
  domAny :: bool
  dowAny :: bool

definition lowerChar :: "char \<Rightarrow> char" where
  "lowerChar c = (let n = of_char c :: nat in if 65 \<le> n \<and> n \<le> 90 then char_of (n + 32) else c)"

definition ToLower :: "string \<Rightarrow> string" where "ToLower s = map lowerChar s"

text \<open>\<open>strings.Fields\<close>: the maximal pieces without white space.\<close>

fun fieldsAcc :: "string \<Rightarrow> string \<Rightarrow> string list" where
  "fieldsAcc acc [] = (if acc = [] then [] else [rev acc])"
| "fieldsAcc acc (c # cs) =
     (if isSpace c then (if acc = [] then fieldsAcc [] cs else rev acc # fieldsAcc [] cs)
      else fieldsAcc (c # acc) cs)"

definition Fields :: "string \<Rightarrow> string list" where "Fields s = fieldsAcc [] s"

definition parseValue :: "(string \<times> int) list \<Rightarrow> string \<Rightarrow> cron_error + int" where
  "parseValue names s =
     (case map_of names (ToLower s) of Some n \<Rightarrow> Inr n | None \<Rightarrow>
      (case ParseInt s of None \<Rightarrow> Inl (InvalidValue s) | Some n \<Rightarrow> Inr n))"

definition splitStep :: "string \<Rightarrow> cron_error + string \<times> int" where
  "splitStep part =
     (case splitOn CHR ''/'' part of
        [x] \<Rightarrow> Inr (part, 1)
      | [base, st] \<Rightarrow> (case ParseInt st of None \<Rightarrow> Inl (InvalidStep st)
                       | Some n \<Rightarrow> if n \<le> 0 then Inl (InvalidStep st) else Inr (base, n))
      | _ \<Rightarrow> Inl (InvalidStep part))"

definition parseRange :: "string \<Rightarrow> int \<Rightarrow> int \<Rightarrow> (string \<times> int) list \<Rightarrow> cron_error + int \<times> int" where
  "parseRange part mn mx names =
     (if part = ''*'' \<or> part = ''?'' then Inr (mn, mx)
      else (case splitOn CHR ''-'' part of
              [x] \<Rightarrow> (case parseValue names x of Inl e \<Rightarrow> Inl e
                      | Inr v \<Rightarrow> if v < mn \<or> mx < v then Inl (OutsideRange v v) else Inr (v, v))
            | [x, y] \<Rightarrow> (case parseValue names x of Inl e \<Rightarrow> Inl e | Inr a \<Rightarrow>
                         (case parseValue names y of Inl e \<Rightarrow> Inl e | Inr b \<Rightarrow>
                           if a < mn \<or> mx < b \<or> b < a then Inl (OutsideRange a b) else Inr (a, b)))
            | _ \<Rightarrow> Inl (InvalidRange part)))"

text \<open>The loop that sets the bits. Its counter is a 64-bit integer, and a shift by a negative count
  panics. As the counter grows, as many rounds as the range has numbers, and one, are enough.\<close>

fun setBits :: "nat \<Rightarrow> int \<Rightarrow> int \<Rightarrow> int \<Rightarrow> bitset \<Rightarrow> cron_error + bitset" where
  "setBits 0 step i en out = Inr out"
| "setBits (Suc fuel) step i en out =
     (if en < i then Inr out
      else if i < 0 then Inl ShiftPanic
      else setBits fuel step (wrap64 (i + step)) en (or out (push_bit (nat i) 1)))"

fun parseParts :: "string list \<Rightarrow> int \<Rightarrow> int \<Rightarrow> (string \<times> int) list \<Rightarrow> bitset \<Rightarrow> cron_error + bitset" where
  "parseParts [] mn mx names out = Inr out"
| "parseParts (p # ps) mn mx names out =
     (let part = TrimSpace p in
      if part = [] then Inl EmptyPart
      else (case splitStep part of Inl e \<Rightarrow> Inl e | Inr (base, step) \<Rightarrow>
       (case parseRange base mn mx names of Inl e \<Rightarrow> Inl e | Inr (a, b) \<Rightarrow>
        (case setBits (nat (b - a) + 2) step a b out of Inl e \<Rightarrow> Inl e | Inr out' \<Rightarrow>
          parseParts ps mn mx names out'))))"

definition parseField :: "string \<Rightarrow> int \<Rightarrow> int \<Rightarrow> (string \<times> int) list \<Rightarrow> cron_error + bitset" where
  "parseField field mn mx names = parseParts (splitOn CHR '','' field) mn mx names 0"

fun anyPart :: "string list \<Rightarrow> bool" where
  "anyPart [] = False"
| "anyPart (p # ps) =
     (case splitStep (TrimSpace p) of
        Inl e \<Rightarrow> False
      | Inr (base, step) \<Rightarrow> if base = ''*'' \<or> base = ''?'' then True else anyPart ps)"

definition isAny :: "string \<Rightarrow> bool" where
  "isAny field = anyPart (splitOn CHR '','' field)"

definition monthNames :: "(string \<times> int) list" where
  "monthNames = [(''jan'', 1), (''feb'', 2), (''mar'', 3), (''apr'', 4), (''may'', 5), (''jun'', 6),
     (''jul'', 7), (''aug'', 8), (''sep'', 9), (''oct'', 10), (''nov'', 11), (''dec'', 12)]"

definition dayNames :: "(string \<times> int) list" where
  "dayNames = [(''sun'', 0), (''mon'', 1), (''tue'', 2), (''wed'', 3), (''thu'', 4), (''fri'', 5), (''sat'', 6)]"

definition cronMacro :: "string \<Rightarrow> string" where
  "cronMacro expr =
     (if expr = ''@hourly'' then ''0 * * * *''
      else if expr = ''@daily'' \<or> expr = ''@midnight'' then ''0 0 * * *''
      else if expr = ''@weekly'' then ''0 0 * * 0''
      else if expr = ''@monthly'' then ''0 0 1 * *''
      else if expr = ''@yearly'' \<or> expr = ''@annually'' then ''0 0 1 1 *''
      else expr)"

definition inField :: "string \<Rightarrow> cron_error + 'a \<Rightarrow> cron_error + 'a" where
  "inField nm r = (case r of Inl e \<Rightarrow> Inl (InField nm e) | Inr x \<Rightarrow> Inr x)"

definition ParseCron :: "string \<Rightarrow> cron_error + cron" where
  "ParseCron expr0 =
     (let expr1 = TrimSpace expr0 in
      if expr1 = [] then Inl ExpressionRequired
      else
       let expr = cronMacro expr1; fs = Fields expr in
       if length fs \<noteq> 5 \<and> length fs \<noteq> 6 then Inl (BadFieldCount (length fs))
       else let f = (if length fs = 5 then ''0'' # fs else fs) in
        (case inField ''seconds'' (parseField (f ! 0) 0 59 []) of Inl e \<Rightarrow> Inl e | Inr sec \<Rightarrow>
        (case inField ''minutes'' (parseField (f ! 1) 0 59 []) of Inl e \<Rightarrow> Inl e | Inr mi \<Rightarrow>
        (case inField ''hours'' (parseField (f ! 2) 0 23 []) of Inl e \<Rightarrow> Inl e | Inr ho \<Rightarrow>
        (case inField ''day-of-month'' (parseField (f ! 3) 1 31 []) of Inl e \<Rightarrow> Inl e | Inr dm \<Rightarrow>
        (case inField ''month'' (parseField (f ! 4) 1 12 monthNames) of Inl e \<Rightarrow> Inl e | Inr mo \<Rightarrow>
        (case inField ''day-of-week'' (parseField (f ! 5) 0 7 dayNames) of Inl e \<Rightarrow> Inl e | Inr dw \<Rightarrow>
          let dw' = (if bs_has dw 7 then and (or dw 1) (not (push_bit 7 1)) else dw) in
          Inr \<lparr>cexpr = expr, seconds = sec, minutes = mi, hours = ho, dom' = dm, months = mo, dow = dw',
               domAny = isAny (f ! 3), dowAny = isAny (f ! 5)\<rparr>)))))))"

section \<open>The next instant\<close>

definition dayMatches :: "cron \<Rightarrow> location \<Rightarrow> gotime \<Rightarrow> bool" where
  "dayMatches c loc t =
     (let domMatch = bs_has (dom' c) (MDay loc t); dowMatch = bs_has (dow c) (Weekday loc t) in
      if domAny c \<and> dowAny c then True
      else if domAny c then dowMatch
      else if dowAny c then domMatch
      else domMatch \<or> dowMatch)"

definition firstOfNextMonth :: "location \<Rightarrow> gotime \<Rightarrow> gotime" where
  "firstOfNextMonth loc t =
     (if Month loc t = 12 then Date (Year loc t + 1) 1 1 0 0 0 0 loc
      else Date (Year loc t) (Month loc t + 1) 1 0 0 0 0 loc)"

definition nextDay :: "location \<Rightarrow> gotime \<Rightarrow> gotime" where
  "nextDay loc t = Date (Year loc t) (Month loc t) (MDay loc t + 1) 0 0 0 0 loc"

text \<open>One round of the loop: the instant it found, or the instant to go on with.\<close>

definition cronRound :: "cron \<Rightarrow> location \<Rightarrow> gotime \<Rightarrow> gotime option" where
  "cronRound c loc t =
     (if \<not> bs_has (months c) (Month loc t) then Some (firstOfNextMonth loc t)
      else if \<not> dayMatches c loc t then Some (nextDay loc t)
      else if \<not> bs_has (hours c) (HourOf loc t) then
        (case bs_next (hours c) (HourOf loc t + 1) 23 of
           Some h \<Rightarrow> Some (Date (Year loc t) (Month loc t) (MDay loc t) h 0 0 0 loc)
         | None \<Rightarrow> Some (nextDay loc t))
      else if \<not> bs_has (minutes c) (MinuteOf loc t) then
        (case bs_next (minutes c) (MinuteOf loc t + 1) 59 of
           Some m \<Rightarrow> Some (Date (Year loc t) (Month loc t) (MDay loc t) (HourOf loc t) m 0 0 loc)
         | None \<Rightarrow> Some (Truncate (t + Hour) Hour))
      else if \<not> bs_has (seconds c) (SecondOf loc t) then
        (case bs_next (seconds c) (SecondOf loc t + 1) 59 of
           Some s \<Rightarrow> Some (Date (Year loc t) (Month loc t) (MDay loc t) (HourOf loc t) (MinuteOf loc t) s 0 loc)
         | None \<Rightarrow> Some (Truncate (t + Minute) Minute))
      else None)"

fun cronLoop :: "nat \<Rightarrow> cron \<Rightarrow> location \<Rightarrow> gotime \<Rightarrow> gotime \<Rightarrow> (cron_error + gotime) option" where
  "cronLoop 0 c loc deadline t = None"
| "cronLoop (Suc fuel) c loc deadline t =
     (if deadline < t then Some (Inl NoMatchWithin5Years)
      else (case cronRound c loc t of None \<Rightarrow> Some (Inr t) | Some t' \<Rightarrow> cronLoop fuel c loc deadline t'))"

definition cron_Next :: "nat \<Rightarrow> cron \<Rightarrow> location \<Rightarrow> gotime \<Rightarrow> (cron_error + gotime) option" where
  "cron_Next fuel c loc after =
     (if seconds c = 0 \<or> minutes c = 0 \<or> hours c = 0 \<or> dom' c = 0 \<or> months c = 0 \<or> dow c = 0
      then Some (Inl NotInitialized)
      else cronLoop fuel c loc (AddDate loc after 5 0 0) (Truncate (after + Second) Second))"

end
