(* ===== verification/Go_Format.thy ===== *)
theory Go_Format
  imports Core_Types
begin

text \<open>
  Formatting of numbers and dates: \<open>strconv.Itoa\<close>, numbers padded with zeros, and
  \<open>Time.Format\<close> with the layout \<open>2006-01-02\<close>.
\<close>

definition digitChar :: "nat \<Rightarrow> char" where "digitChar n = char_of (48 + n)"

fun natString :: "nat \<Rightarrow> string" where
  "natString n = (if n < 10 then [digitChar n] else natString (n div 10) @ [digitChar (n mod 10)])"

declare natString.simps [simp del]

definition Itoa :: "int \<Rightarrow> string" where
  "Itoa n = (if n < 0 then CHR ''-'' # natString (nat (- n)) else natString (nat n))"

definition padInt :: "nat \<Rightarrow> int \<Rightarrow> string" where
  "padInt w n =
     (let ds = natString (nat \<bar>n\<bar>); body = replicate (w - length ds) CHR ''0'' @ ds in
      if n < 0 then CHR ''-'' # body else body)"

definition formatDate :: "location \<Rightarrow> gotime \<Rightarrow> string" where
  "formatDate loc t = padInt 4 (Year loc t) @ ''-'' @ padInt 2 (Month loc t) @ ''-'' @ padInt 2 (MDay loc t)"

text \<open>\<open>Itoa\<close> is read back by \<open>ParseInt\<close>.\<close>

lemma digitValue_digitChar: "n < 10 \<Longrightarrow> digitValue (digitChar n) = Some (int n)"
proof -
  assume "n < 10"
  hence "n \<in> set [0..<10]" by simp
  moreover have "\<forall>n \<in> set [0..<10]. digitValue (digitChar n) = Some (int n)" by code_simp
  ultimately show ?thesis by blast
qed

lemma parseDigits_append: "parseDigits acc (xs @ ys) = (case parseDigits acc xs of None \<Rightarrow> None | Some n \<Rightarrow> parseDigits n ys)"
  by (induction acc xs rule: parseDigits.induct) (auto split: option.splits)

lemma parseDigits_natString: "parseDigits 0 (natString n) = Some (int n)"
proof (induction n rule: natString.induct)
  case (1 n)
  show ?case
  proof (cases "n < 10")
    case True
    thus ?thesis by (simp add: natString.simps [of n] digitValue_digitChar)
  next
    case False
    have "int (n div 10) * 10 + int (n mod 10) = int n" by (metis div_mod_decomp of_nat_add of_nat_mult of_nat_numeral)
    thus ?thesis using False 1 by (simp add: natString.simps [of n] parseDigits_append digitValue_digitChar)
  qed
qed

lemma natString_ne [simp]: "natString n \<noteq> []"
  by (simp add: natString.simps [of n])

lemma natString_digits: "c \<in> set (natString n) \<Longrightarrow> \<exists>k < 10. c = digitChar k"
proof (induction n rule: natString.induct)
  case (1 n)
  show ?case
  proof (cases "n < 10")
    case True
    thus ?thesis using 1(2) by (auto simp: natString.simps [of n])
  next
    case False
    hence "c \<in> set (natString (n div 10)) \<or> c = digitChar (n mod 10)" using 1(2) by (auto simp: natString.simps [of n])
    thus ?thesis using 1(1) [OF False] by (metis mod_less_divisor zero_less_numeral)
  qed
qed

lemma digitChar_sign: "k < 10 \<Longrightarrow> digitChar k \<noteq> CHR ''-'' \<and> digitChar k \<noteq> CHR ''+''"
proof -
  assume "k < 10"
  hence "k \<in> set [0..<10]" by simp
  moreover have "\<forall>k \<in> set [0..<10]. digitChar k \<noteq> CHR ''-'' \<and> digitChar k \<noteq> CHR ''+''" by code_simp
  ultimately show ?thesis by blast
qed

lemma ParseInt_Itoa:
  assumes "- (2 ^ 63) \<le> n" "n < 2 ^ 63"
  shows "ParseInt (Itoa n) = Some n"
proof (cases "n < 0")
  case True
  thus ?thesis using assms by (simp add: ParseInt_def Itoa_def Let_def parseDigits_natString)
next
  case False
  obtain c cs where c: "natString (nat n) = c # cs" by (meson natString_ne neq_Nil_conv)
  hence "c \<noteq> CHR ''-''" "c \<noteq> CHR ''+''" using natString_digits [of c "nat n"] digitChar_sign by auto
  thus ?thesis using False assms c parseDigits_natString [of "nat n"] by (simp add: ParseInt_def Itoa_def Let_def)
qed

end
