(* ===== verification/Schedule.thy ===== *)
theory Schedule
  imports Cron Chunk_Index Go_Format
begin

text \<open>
  The rest of \<open>internal/schedule\<close>: daily windows, the scheduler that turns schedules into due jobs, and the
  queue that runs one job per target at a time. The time zone database behind
  \<open>time.LoadLocation\<close> is a parameter.
\<close>

section \<open>Windows (window.go)\<close>

record window =
  wStart :: int
  wEnd :: int
  wZone :: location
  wRandom :: bool

datatype window_error =
    NotBetween
  | BadWindowRange string
  | BadClock string
  | BadClockNumber
  | ClockOutside string
  | LoadTimezone string
  | WindowEndNotAfterStart
  | NoWindowTime

definition parseClock :: "string \<Rightarrow> window_error + int" where
  "parseClock value =
     (case splitOn CHR '':'' value of
        [h, m] \<Rightarrow>
          (case ParseInt h of None \<Rightarrow> Inl BadClockNumber
           | Some hour \<Rightarrow>
             (case ParseInt m of None \<Rightarrow> Inl BadClockNumber
              | Some minute \<Rightarrow>
                  if hour < 0 \<or> 23 < hour \<or> minute < 0 \<or> 59 < minute then Inl (ClockOutside value)
                  else Inr (hour * Hour + minute * Minute)))
      | _ \<Rightarrow> Inl (BadClock value))"

definition parseWindowRange :: "string \<Rightarrow> window_error + int \<times> int" where
  "parseWindowRange value =
     (case splitOn CHR ''-'' value of
        [a, b] \<Rightarrow>
          (case parseClock a of Inl e \<Rightarrow> Inl e
           | Inr start \<Rightarrow>
             (case parseClock b of Inl e \<Rightarrow> Inl e
              | Inr end_ \<Rightarrow> Inr (start, end_)))
      | _ \<Rightarrow> Inl (BadWindowRange value))"

fun windowOptions :: "(string \<Rightarrow> location option) \<Rightarrow> string list \<Rightarrow> window \<Rightarrow> window_error + window" where
  "windowOptions LoadLocation [] w = Inr w"
| "windowOptions LoadLocation (field # fs) w =
     (if field = ''random'' then windowOptions LoadLocation fs (w\<lparr>wRandom := True\<rparr>)
      else (case LoadLocation field of None \<Rightarrow> Inl (LoadTimezone field)
            | Some loc \<Rightarrow> windowOptions LoadLocation fs (w\<lparr>wZone := loc\<rparr>)))"

definition ParseWindow :: "(string \<Rightarrow> location option) \<Rightarrow> string \<Rightarrow> window_error + window" where
  "ParseWindow LoadLocation expr =
     (let fields = Fields expr in
      if length fields < 2 \<or> hd fields \<noteq> ''@between'' then Inl NotBetween
      else (case parseWindowRange (fields ! 1) of Inl e \<Rightarrow> Inl e
            | Inr (start, end_) \<Rightarrow>
              (case windowOptions LoadLocation (drop 2 fields)
                      \<lparr>wStart = start, wEnd = end_, wZone = UTC, wRandom = False\<rparr> of
                 Inl e \<Rightarrow> Inl e
               | Inr w \<Rightarrow> if wEnd w \<le> wStart w then Inl WindowEndNotAfterStart else Inr w)))"

definition offsetFor :: "window \<Rightarrow> gotime \<Rightarrow> string \<Rightarrow> int" where
  "offsetFor w day stableKey =
     (let width = wEnd w - wStart w in
      if width \<le> 0 then 0
      else uint (fnv64a (bytes_of (stableKey @ '':'' @ formatDate (wZone w) day))) mod width)"

definition windowCandidate :: "window \<Rightarrow> gotime \<Rightarrow> string \<Rightarrow> int \<Rightarrow> gotime" where
  "windowCandidate w after stableKey i =
     (let z = wZone w; day = Date (Year z after) (Month z after) (MDay z after + i) 0 0 0 0 z in
      if wRandom w then day + (wStart w + offsetFor w day stableKey) else day + wStart w)"

fun windowLoop :: "window \<Rightarrow> gotime \<Rightarrow> string \<Rightarrow> int \<Rightarrow> nat \<Rightarrow> window_error + gotime" where
  "windowLoop w after stableKey i 0 = Inl NoWindowTime"
| "windowLoop w after stableKey i (Suc n) =
     (let candidate = windowCandidate w after stableKey i in
      if after < candidate then Inr candidate else windowLoop w after stableKey (i + 1) n)"

definition Window_Next :: "window \<Rightarrow> gotime \<Rightarrow> string \<Rightarrow> window_error + gotime" where
  "Window_Next w after stableKey = windowLoop w after stableKey 0 370"

section \<open>The scheduler (scheduler.go)\<close>

definition CatchUpSkip :: string where "CatchUpSkip = ''skip''"

definition CatchUpQueue :: string where "CatchUpQueue = ''queue''"

definition CatchUpRunOnce :: string where "CatchUpRunOnce = ''run_once''"

record scheduleState =
  ssSchedule :: schedule
  ssLastRun :: gotime
  ssNextRun :: gotime
  ssCatchUpPolicy :: string
  ssMaxCatchUp :: int

record dueJob =
  djScheduleID :: ident
  djTargetID :: ident
  djStorageID :: ident
  djType :: string
  djParentBackupID :: ident
  djHooks :: jobHooks
  djDueAt :: gotime
  djQueuedAt :: gotime

datatype sched_error =
    CronError cron_error
  | WindowError window_error
  | InSchedule ident sched_error
  | CatchUpExceeded ident int
  | NextNeverEnds

text \<open>\<open>Cron.Next\<close> as a closure: the times of a state are in one location. As many rounds as there are
  nanoseconds to the deadline are enough, since every round moves on; a search that is not over by
  then never ends.\<close>

definition nextRounds :: "location \<Rightarrow> gotime \<Rightarrow> nat" where
  "nextRounds loc after = nat (AddDate loc after 5 0 0 - after + 1) + 1"

definition nextFunc :: "(string \<Rightarrow> location option) \<Rightarrow> location \<Rightarrow> schedule \<Rightarrow> sched_error + (gotime \<Rightarrow> sched_error + gotime)" where
  "nextFunc LoadLocation loc s =
     (if HasPrefix (TrimSpace (sExpression s)) ''@between'' then
        (case ParseWindow LoadLocation (sExpression s) of Inl e \<Rightarrow> Inl (WindowError e)
         | Inr w \<Rightarrow>
             let stableKey = (if sID s = [] then sName s else sID s) in
             Inr (\<lambda>after. case Window_Next w after stableKey of Inl e \<Rightarrow> Inl (WindowError e) | Inr t \<Rightarrow> Inr t))
      else
        (case ParseCron (sExpression s) of Inl e \<Rightarrow> Inl (CronError e)
         | Inr c \<Rightarrow>
             Inr (\<lambda>after. case cron_Next (nextRounds loc after) c loc after of
                            None \<Rightarrow> Inl NextNeverEnds | Some (Inl e) \<Rightarrow> Inl (CronError e) | Some (Inr t) \<Rightarrow> Inr t)))"

definition mkDueJob :: "schedule \<Rightarrow> gotime \<Rightarrow> gotime \<Rightarrow> dueJob" where
  "mkDueJob s dueAt queuedAt =
     \<lparr>djScheduleID = sID s, djTargetID = sTargetID s, djStorageID = sStorageID s, djType = sBackupType s,
      djParentBackupID = [], djHooks = sHooks s, djDueAt = dueAt, djQueuedAt = queuedAt\<rparr>"

definition dueJobsForPolicy :: "scheduleState \<Rightarrow> gotime list \<Rightarrow> gotime \<Rightarrow> dueJob list" where
  "dueJobsForPolicy state dueTimes now =
     (if dueTimes = [] then []
      else
        let policy = (if ssCatchUpPolicy state = [] then CatchUpSkip else ssCatchUpPolicy state) in
        if policy = CatchUpQueue then map (\<lambda>dueAt. mkDueJob (ssSchedule state) dueAt now) dueTimes
        else if policy = CatchUpRunOnce then [mkDueJob (ssSchedule state) now now]
        else [mkDueJob (ssSchedule state) (last dueTimes) now])"

text \<open>The loop over the due times: it returns them with the first time after now.\<close>

function dueLoop :: "ident \<Rightarrow> (gotime \<Rightarrow> sched_error + gotime) \<Rightarrow> gotime \<Rightarrow> int \<Rightarrow> gotime list \<Rightarrow> gotime \<Rightarrow> sched_error + gotime list \<times> gotime" where
  "dueLoop i nextFn now limit dueTimes next =
     (if now < next then Inr (dueTimes, next)
      else
        let dueTimes' = dueTimes @ [next] in
        if limit < int (length dueTimes') then Inl (CatchUpExceeded i limit)
        else (case nextFn next of Inl e \<Rightarrow> Inl e | Inr next' \<Rightarrow> dueLoop i nextFn now limit dueTimes' next'))"
  by pat_completeness auto
termination
  by (relation "measure (\<lambda>(i, nextFn, now, limit, dueTimes, next). nat (limit - int (length dueTimes)))") auto

declare dueLoop.simps [simp del]

definition tickOne :: "(string \<Rightarrow> location option) \<Rightarrow> location \<Rightarrow> scheduleState \<Rightarrow> gotime \<Rightarrow> sched_error + scheduleState \<times> dueJob list" where
  "tickOne LoadLocation loc state now =
     (let s = ssSchedule state in
      if sPaused s then Inr (state, [])
      else (case nextFunc LoadLocation loc s of Inl e \<Rightarrow> Inl (InSchedule (sID s) e)
            | Inr nextFn \<Rightarrow>
              (case (if IsZero (ssNextRun state)
                     then nextFn (if \<not> IsZero (ssLastRun state) then ssLastRun state
                                  else if \<not> IsZero (sCreatedAt s) then sCreatedAt s else now)
                     else Inr (ssNextRun state)) of
                 Inl e \<Rightarrow> Inl e
               | Inr next \<Rightarrow>
                   if now < next then Inr (state\<lparr>ssNextRun := next\<rparr>, [])
                   else
                     let limit = (if ssMaxCatchUp state \<le> 0 then 1000 else ssMaxCatchUp state) in
                     (case dueLoop (sID s) nextFn now limit [] next of Inl e \<Rightarrow> Inl e
                      | Inr (dueTimes, next') \<Rightarrow>
                          let state' = state\<lparr>ssLastRun := last dueTimes, ssNextRun := next'\<rparr> in
                          Inr (state', dueJobsForPolicy state' dueTimes now)))))"

text \<open>\<open>Tick\<close> for a time that is not zero; a zero time stands for the clock.\<close>

fun tickAll :: "(string \<Rightarrow> location option) \<Rightarrow> location \<Rightarrow> scheduleState list \<Rightarrow> gotime \<Rightarrow> sched_error + dueJob list \<times> scheduleState list" where
  "tickAll LoadLocation loc [] now = Inr ([], [])"
| "tickAll LoadLocation loc (state # states) now =
     (case tickOne LoadLocation loc state now of Inl e \<Rightarrow> Inl e
      | Inr (nextState, due) \<Rightarrow>
        (case tickAll LoadLocation loc states now of Inl e \<Rightarrow> Inl e
         | Inr (jobs, updated) \<Rightarrow> Inr (due @ jobs, nextState # updated)))"

definition Tick :: "(string \<Rightarrow> location option) \<Rightarrow> location \<Rightarrow> gotime \<Rightarrow> scheduleState list \<Rightarrow> gotime \<Rightarrow> sched_error + dueJob list \<times> scheduleState list" where
  "Tick LoadLocation loc clock states now = tickAll LoadLocation loc states (if IsZero now then clock else now)"

section \<open>The queue of a target (queue.go)\<close>

record targetQueue =
  running :: "ident \<rightharpoonup> bool"
  queued :: "ident \<rightharpoonup> dueJob list"

definition NewTargetQueue :: targetQueue where
  "NewTargetQueue = \<lparr>running = Map.empty, queued = Map.empty\<rparr>"

definition isRunning :: "targetQueue \<Rightarrow> ident \<Rightarrow> bool" where
  "isRunning q t = (case running q t of None \<Rightarrow> False | Some b \<Rightarrow> b)"

definition queuedOf :: "targetQueue \<Rightarrow> ident \<Rightarrow> dueJob list" where
  "queuedOf q t = (case queued q t of None \<Rightarrow> [] | Some js \<Rightarrow> js)"

fun Enqueue :: "dueJob list \<Rightarrow> targetQueue \<Rightarrow> dueJob list \<times> targetQueue" where
  "Enqueue [] q = ([], q)"
| "Enqueue (job # jobs) q =
     (let t = djTargetID job in
      if \<not> isRunning q t then
        let (ready, q') = Enqueue jobs (q\<lparr>running := (running q)(t \<mapsto> True)\<rparr>) in (job # ready, q')
      else Enqueue jobs (q\<lparr>queued := (queued q)(t \<mapsto> queuedOf q t @ [job])\<rparr>))"

definition Complete :: "ident \<Rightarrow> targetQueue \<Rightarrow> dueJob option \<times> targetQueue" where
  "Complete t q =
     (case queuedOf q t of
        [] \<Rightarrow> (None, q\<lparr>running := (running q)(t := None), queued := (queued q)(t := None)\<rparr>)
      | next # rest \<Rightarrow>
          (Some next, q\<lparr>queued := (queued q)(t := (if rest = [] then None else Some rest)),
                        running := (running q)(t \<mapsto> True)\<rparr>))"

definition Pending :: "targetQueue \<Rightarrow> ident \<Rightarrow> nat" where
  "Pending q t = length (queuedOf q t)"

end
