(* ===== verification/Cron_Next.thy ===== *)
theory Cron_Next
  imports Cron
begin

text \<open>
  The loop of \<open>Next\<close> in a zone whose offset is a whole number of hours, as UTC is: every round
  moves to a later instant without passing one that matches, so that \<open>Next\<close> returns the first
  matching instant.
\<close>

section \<open>Units of time\<close>

lemma units: "0 < Second" "Minute = 60 * Second" "Hour = 60 * Minute" "Day = 24 * Hour" "0 < Minute" "0 < Hour" "0 < Day"
  by (simp_all add: Second_def Minute_def Hour_def Day_def)

lemma unit_dvd: "Second dvd Minute" "Minute dvd Hour" "Hour dvd Day" "Second dvd Hour" "Second dvd Day"
  by (simp_all add: Second_def Minute_def Hour_def Day_def)

lemma mult_div_le: "0 < b \<Longrightarrow> b * (x div b) \<le> x" for x b :: int
  by (metis div_mod_decomp_int le_add_same_cancel1 mult.commute pos_mod_sign)

lemma less_mult_div_Suc: "0 < b \<Longrightarrow> x < b * (x div b + 1)" for x b :: int
proof -
  assume "0 < b"
  hence "x mod b < b" "b * (x div b) + x mod b = x" by simp_all
  hence "x < b * (x div b) + b" by linarith
  thus ?thesis by (simp only: distrib_left mult_1_right)
qed

lemma div_lessI: "0 < b \<Longrightarrow> x < b * q \<Longrightarrow> x div b < q" for x b q :: int
  using mult_div_le [of b x] by (metis linorder_not_le mult_left_mono order.trans order_less_imp_le not_le)

lemma div_same: "b * q \<le> x \<Longrightarrow> x < b * (q + 1) \<Longrightarrow> x div b = q" for x b q :: int
  by (rule int_div_pos_eq [of _ _ _ "x - b * q"]) (simp_all add: distrib_left)

text \<open>The number of the smaller unit within the larger one.\<close>

lemma unit_eq: "x mod b' div b = (x - b' * (x div b')) div b" for x b b' :: int
  by (simp add: minus_mult_div_eq_mod)

lemma unit_mono:
  fixes x y b b' :: int
  assumes "0 < b" "x \<le> y" "y div b' = x div b'"
  shows "x mod b' div b \<le> y mod b' div b"
  unfolding unit_eq assms(3) by (rule zdiv_mono1) (use assms in simp_all)

lemma unit_less:
  fixes x y b b' :: int
  assumes "0 < b" "y div b' = x div b'" "y < b' * (x div b') + b * j"
  shows "y mod b' div b < j"
  unfolding unit_eq assms(2) by (rule div_lessI) (use assms in simp_all)

lemma unit_bound:
  fixes x b b' :: int
  assumes "0 < b" "b' = k * b" "0 < k"
  shows "0 \<le> x mod b' div b" "x mod b' div b < k"
proof -
  have b': "0 < b'" using assms by simp
  show "0 \<le> x mod b' div b" using assms(1) b' by (simp add: pos_imp_zdiv_nonneg_iff)
  show "x mod b' div b < k" using pos_mod_bound [OF b', of x] assms by (intro div_lessI) (simp_all add: mult.commute)
qed

lemma unit_sum:
  fixes x b b' :: int
  assumes "b dvd b'"
  shows "b' * (x div b') + b * (x mod b' div b) = b * (x div b)"
proof -
  have "b * (x mod b' div b) = x mod b' - x mod b' mod b" by (simp add: minus_mod_eq_mult_div)
  also have "x mod b' mod b = x mod b" by (rule mod_mod_cancel [OF assms])
  finally show ?thesis by (simp add: minus_mod_eq_mult_div [symmetric])
qed

section \<open>Searching a set\<close>

lemma bs_nextLoop_found:
  "bs_nextLoop fuel b i mx = Some j \<Longrightarrow> i \<le> j \<and> j \<le> mx \<and> bs_has b j \<and> (\<forall>k. i \<le> k \<and> k < j \<longrightarrow> \<not> bs_has b k)"
proof (induction fuel arbitrary: i)
  case (Suc fuel)
  show ?case
  proof (cases "bs_has b i")
    case True
    thus ?thesis using Suc.prems by (auto split: if_splits)
  next
    case False
    hence "bs_nextLoop fuel b (i + 1) mx = Some j" using Suc.prems by (simp split: if_splits)
    note IH = Suc.IH [OF this]
    have "\<not> bs_has b k" if "i \<le> k" "k < j" for k using IH False that by (cases "k = i") auto
    thus ?thesis using IH by auto
  qed
qed simp

lemma bs_nextLoop_none:
  "bs_nextLoop fuel b i mx = None \<Longrightarrow> mx - i < int fuel \<Longrightarrow> i \<le> k \<Longrightarrow> k \<le> mx \<Longrightarrow> \<not> bs_has b k"
proof (induction fuel arbitrary: i)
  case (Suc fuel)
  have i: "\<not> bs_has b i" "bs_nextLoop fuel b (i + 1) mx = None" using Suc.prems by (auto split: if_splits)
  show ?case
  proof (cases "k = i")
    case False
    thus ?thesis using Suc.IH [OF i(2)] Suc.prems by simp
  qed (use i in simp)
qed simp

lemma bs_next_found: "bs_next b i mx = Some j \<Longrightarrow> i \<le> j \<and> j \<le> mx \<and> bs_has b j \<and> (\<forall>k. i \<le> k \<and> k < j \<longrightarrow> \<not> bs_has b k)"
  unfolding bs_next_def by (rule bs_nextLoop_found)

lemma bs_next_none: "bs_next b i mx = None \<Longrightarrow> i \<le> k \<Longrightarrow> k \<le> mx \<Longrightarrow> \<not> bs_has b k"
  unfolding bs_next_def by (rule bs_nextLoop_none, assumption) auto

section \<open>Instants in a zone of whole hours\<close>

definition zone :: "int \<Rightarrow> location" where "zone off = (\<lambda>_. off)"

lemma zone_sel: "local (zone off) t = t + off"
  "dayNo (zone off) t = (t + off) div Day" "HourOf (zone off) t = (t + off) mod Day div Hour"
  "MinuteOf (zone off) t = (t + off) mod Hour div Minute" "SecondOf (zone off) t = (t + off) mod Minute div Second"
  by (simp_all add: local_def zone_def dayNo_def HourOf_def MinuteOf_def SecondOf_def)

lemma Date_zone: "Date y m d h mi s ns (zone off) = dateDays y m d * Day + h * Hour + mi * Minute + s * Second + ns - off"
  by (simp add: Date_def zone_def Let_def)

lemma nextDay_zone: "nextDay (zone off) t = Day * (dayNo (zone off) t + 1) - off"
  by (simp add: nextDay_def Date_zone Year_def Month_def MDay_def dateDays_parts mult.commute)

lemma Date_today: "Date (Year (zone off) t) (Month (zone off) t) (MDay (zone off) t) h mi s 0 (zone off)
    = Day * dayNo (zone off) t + Hour * h + Minute * mi + Second * s - off"
  using dateDays_parts [of "dayNo (zone off) t" 0]
  by (simp add: Date_zone Year_def Month_def MDay_def mult.commute)

text \<open>The first day after the month of a day; until then the month is the same.\<close>

definition monthEnd :: "int \<Rightarrow> int" where
  "monthEnd d = yearStart (yearOf d) + monthStart (isLeap (yearOf d)) (monthOf d + 1)"

lemma monthEnd_props:
  shows "d < monthEnd d" "d \<le> e \<Longrightarrow> e < monthEnd d \<Longrightarrow> monthOf e = monthOf d"
proof -
  let ?y = "yearOf d" let ?m = "monthOf d" let ?l = "isLeap (yearOf d)"
  obtain k where k: "d = yearStart ?y + k" "1 \<le> ?m" "?m \<le> 12" "monthStart ?l ?m \<le> k" "k < monthStart ?l (?m + 1)"
    using day_parts [of d] by metis
  show "d < monthEnd d" using k(1,5) by (simp add: monthEnd_def)
  assume e: "d \<le> e" "e < monthEnd d"
  let ?j = "e - yearStart ?y - monthStart ?l ?m"
  have "monthOf (yearStart ?y + monthStart ?l ?m + ?j) = ?m"
    by (rule parts_eq(2) [OF k(2,3)]) (use k e in \<open>simp_all add: monthEnd_def\<close>)
  thus "monthOf e = ?m" by simp
qed

lemma firstOfNextMonth_zone: "firstOfNextMonth (zone off) t = Day * monthEnd (dayNo (zone off) t) - off"
proof -
  let ?d = "dayNo (zone off) t" let ?y = "yearOf ?d" let ?m = "monthOf ?d"
  have m: "1 \<le> ?m" "?m \<le> 12" using day_parts [of ?d] by metis+
  show ?thesis
  proof (cases "?m = 12")
    case True
    have "dateDays (?y + 1) 1 1 = yearStart (?y + 1)" by (simp add: dateDays_def Let_def monthStart_ends)
    also have "\<dots> = monthEnd ?d" using True by (simp add: monthEnd_def yearStart_Suc yearLen_def monthStart_ends)
    finally show ?thesis using True by (simp add: firstOfNextMonth_def Month_def Year_def Date_zone mult.commute)
  next
    case False
    hence "?m div 12 = 0" "?m mod 12 = ?m" using m by simp_all
    hence "dateDays ?y (?m + 1) 1 = monthEnd ?d" by (simp add: dateDays_def Let_def monthEnd_def)
    thus ?thesis using False by (simp add: firstOfNextMonth_def Month_def Year_def Date_zone mult.commute)
  qed
qed

lemma Truncate_next:
  assumes "0 < b" "b dvd off"
  shows "Truncate (t + b) b = b * ((t + off) div b + 1) - off"
proof -
  have "(t + off) mod b = t mod b" using assms(2) by (simp add: mod_add_eq [symmetric] mod_eq_0_iff_dvd)
  hence "b * ((t + off) div b) = t + off - t mod b" by (simp add: minus_mod_eq_mult_div [symmetric])
  moreover have "(t + b) mod b = t mod b" by simp
  ultimately show ?thesis using assms(1) by (simp add: Truncate_def distrib_left)
qed

section \<open>One round\<close>

text \<open>The instants an expression names.\<close>

definition cron_matches :: "cron \<Rightarrow> location \<Rightarrow> gotime \<Rightarrow> bool" where
  "cron_matches c loc t \<longleftrightarrow> Second dvd t \<and> bs_has (months c) (Month loc t) \<and> dayMatches c loc t
     \<and> bs_has (hours c) (HourOf loc t) \<and> bs_has (minutes c) (MinuteOf loc t) \<and> bs_has (seconds c) (SecondOf loc t)"

definition skips :: "cron \<Rightarrow> location \<Rightarrow> gotime \<Rightarrow> gotime \<Rightarrow> bool" where
  "skips c loc t t' \<longleftrightarrow> t < t' \<and> Second dvd t' \<and> (\<forall>u. t \<le> u \<and> u < t' \<longrightarrow> \<not> cron_matches c loc u)"

lemma Second_dvd_jump:
  assumes "Hour dvd off" "Second dvd b"
  shows "Second dvd b * q - off" "Second dvd b * q + Second * j - off" "Second dvd b * q + Minute * j - off" "Second dvd b * q + Hour * j - off"
proof -
  have "Second dvd off" "Second dvd b * q" using assms unit_dvd(4) by (auto intro: dvd_trans)
  thus "Second dvd b * q - off" "Second dvd b * q + Second * j - off" "Second dvd b * q + Minute * j - off" "Second dvd b * q + Hour * j - off"
    using unit_dvd by simp_all
qed

text \<open>Moving to the end of the unit, or to the first number of its part that the set has.\<close>

lemma skip_unit:
  assumes off: "Hour dvd off" and b: "0 < b" "Second dvd b"
    and no: "\<And>u. t \<le> u \<Longrightarrow> (u + off) div b = (t + off) div b \<Longrightarrow> \<not> cron_matches c (zone off) u"
  shows "skips c (zone off) t (b * ((t + off) div b + 1) - off)"
  unfolding skips_def
proof (intro conjI allI impI)
  show "t < b * ((t + off) div b + 1) - off" using less_mult_div_Suc [OF b(1), of "t + off"] by simp
  show "Second dvd b * ((t + off) div b + 1) - off" by (rule Second_dvd_jump(1) [OF off b(2)])
  fix u assume u: "t \<le> u \<and> u < b * ((t + off) div b + 1) - off"
  have "(u + off) div b = (t + off) div b"
    by (rule div_same) (use u mult_div_le [OF b(1), of "t + off"] in simp_all)
  thus "\<not> cron_matches c (zone off) u" using no u by simp
qed

lemma skip_part:
  assumes off: "Hour dvd off" and b: "0 < b" "0 < b'" "Second dvd b'" "Second dvd b" "b' = k * b" and j: "j < k"
    and fnd: "(t + off) mod b' div b < j"
    and no: "\<And>u. t \<le> u \<Longrightarrow> (u + off) div b' = (t + off) div b' \<Longrightarrow> (t + off) mod b' div b \<le> (u + off) mod b' div b \<Longrightarrow>
      (u + off) mod b' div b < j \<Longrightarrow> \<not> cron_matches c (zone off) u"
  shows "skips c (zone off) t (b' * ((t + off) div b') + b * j - off)"
  unfolding skips_def
proof (intro conjI allI impI)
  let ?x = "t + off"
  have "?x mod b' < b * j"
    using fnd b(1) less_mult_div_Suc [OF b(1), of "?x mod b'"] mult_left_mono [of "?x mod b' div b + 1" j b] by linarith
  thus "t < b' * (?x div b') + b * j - off" using mult_div_mod_eq [of b' ?x] by linarith
  have "Second dvd off" "Second dvd b' * (?x div b')" "Second dvd b * j" using off b unit_dvd(4) by (auto intro: dvd_trans)
  thus "Second dvd b' * (?x div b') + b * j - off" by simp
  fix u assume u: "t \<le> u \<and> u < b' * (?x div b') + b * j - off"
  have "b * j \<le> b'" using j b(1,5) by (simp add: mult.commute)
  hence d: "(u + off) div b' = ?x div b'"
    by (intro div_same) (use u mult_div_le [OF b(2), of ?x] in \<open>simp_all add: distrib_left\<close>)
  have "?x mod b' div b \<le> (u + off) mod b' div b" by (rule unit_mono [OF b(1) _ d]) (use u in simp)
  moreover have "(u + off) mod b' div b < j" by (rule unit_less [OF b(1) d]) (use u in simp)
  ultimately show "\<not> cron_matches c (zone off) u" using no u d by blast
qed

lemma Month_cong: "dayNo loc u = dayNo loc t \<Longrightarrow> Month loc u = Month loc t"
  by (simp add: Month_def)

lemma dayMatches_cong: "dayNo loc u = dayNo loc t \<Longrightarrow> dayMatches c loc u = dayMatches c loc t"
  by (simp add: dayMatches_def MDay_def Weekday_def)

lemma round_month:
  assumes "Hour dvd off" "\<not> bs_has (months c) (Month (zone off) t)"
  shows "skips c (zone off) t (firstOfNextMonth (zone off) t)"
  unfolding skips_def firstOfNextMonth_zone
proof (intro conjI allI impI)
  let ?d = "dayNo (zone off) t"
  have "t + off < Day * (?d + 1)" using less_mult_div_Suc [OF units(7), of "t + off"] by (simp add: zone_sel)
  also have "\<dots> \<le> Day * monthEnd ?d" using monthEnd_props(1) [of ?d] units(7) by (simp add: mult_left_mono)
  finally show "t < Day * monthEnd ?d - off" by simp
  show "Second dvd Day * monthEnd ?d - off" by (rule Second_dvd_jump(1) [OF assms(1) unit_dvd(5)])
  fix u assume u: "t \<le> u \<and> u < Day * monthEnd ?d - off"
  have "?d \<le> dayNo (zone off) u" unfolding zone_sel by (rule zdiv_mono1) (use u units in simp_all)
  moreover have "dayNo (zone off) u < monthEnd ?d" unfolding zone_sel(2) [of off u] by (rule div_lessI) (use u units in simp_all)
  ultimately have "Month (zone off) u = Month (zone off) t" by (simp add: Month_def monthEnd_props(2))
  thus "\<not> cron_matches c (zone off) u" using assms(2) by (simp add: cron_matches_def)
qed

lemma round_day:
  assumes "Hour dvd off" "\<And>u. t \<le> u \<Longrightarrow> dayNo (zone off) u = dayNo (zone off) t \<Longrightarrow> \<not> cron_matches c (zone off) u"
  shows "skips c (zone off) t (nextDay (zone off) t)"
  unfolding nextDay_zone zone_sel
  by (rule skip_unit [OF assms(1) units(7) unit_dvd(5)]) (use assms(2) in \<open>simp add: zone_sel\<close>)

lemma round_hour:
  assumes off: "Hour dvd off" and no: "\<not> bs_has (hours c) (HourOf (zone off) t)"
  shows "skips c (zone off) t (case bs_next (hours c) (HourOf (zone off) t + 1) 23 of
      Some h \<Rightarrow> Date (Year (zone off) t) (Month (zone off) t) (MDay (zone off) t) h 0 0 0 (zone off)
    | None \<Rightarrow> nextDay (zone off) t)"
proof (cases "bs_next (hours c) (HourOf (zone off) t + 1) 23")
  case None
  have "\<not> cron_matches c (zone off) u" if u: "t \<le> u" "dayNo (zone off) u = dayNo (zone off) t" for u
  proof -
    have "HourOf (zone off) t \<le> HourOf (zone off) u" "HourOf (zone off) u < 24"
      using unit_mono [OF units(6), of "t + off" "u + off" Day] unit_bound(2) [OF units(6,4), of "u + off"] u
      by (simp_all add: zone_sel)
    hence "\<not> bs_has (hours c) (HourOf (zone off) u)"
      using no bs_next_none [OF None, of "HourOf (zone off) u"] by (cases "HourOf (zone off) u = HourOf (zone off) t") auto
    thus ?thesis by (simp add: cron_matches_def)
  qed
  thus ?thesis using None round_day [OF off] by simp
next
  case (Some h)
  note f = bs_next_found [OF Some]
  have "skips c (zone off) t (Day * ((t + off) div Day) + Hour * h - off)"
  proof (rule skip_part [OF off units(6,7) unit_dvd(5,4) units(4)])
    show "h < 24" "(t + off) mod Day div Hour < h" using f by (simp_all add: zone_sel)
    fix u assume u: "(t + off) mod Day div Hour \<le> (u + off) mod Day div Hour" "(u + off) mod Day div Hour < h"
    hence "\<not> bs_has (hours c) (HourOf (zone off) u)"
      using f no by (cases "HourOf (zone off) u = HourOf (zone off) t") (auto simp: zone_sel)
    thus "\<not> cron_matches c (zone off) u" by (simp add: cron_matches_def)
  qed
  thus ?thesis using Some by (simp add: Date_today zone_sel)
qed

lemma hour_start: "Day * dayNo (zone off) t + Hour * HourOf (zone off) t = Hour * ((t + off) div Hour)"
  by (simp add: zone_sel unit_sum [OF unit_dvd(3)])

lemma minute_start: "Day * dayNo (zone off) t + Hour * HourOf (zone off) t + Minute * MinuteOf (zone off) t = Minute * ((t + off) div Minute)"
  unfolding hour_start by (simp add: zone_sel unit_sum [OF unit_dvd(2)])

lemma round_minute:
  assumes off: "Hour dvd off" and no: "\<not> bs_has (minutes c) (MinuteOf (zone off) t)"
  shows "skips c (zone off) t (case bs_next (minutes c) (MinuteOf (zone off) t + 1) 59 of
      Some m \<Rightarrow> Date (Year (zone off) t) (Month (zone off) t) (MDay (zone off) t) (HourOf (zone off) t) m 0 0 (zone off)
    | None \<Rightarrow> Truncate (t + Hour) Hour)"
proof (cases "bs_next (minutes c) (MinuteOf (zone off) t + 1) 59")
  case None
  have "\<not> cron_matches c (zone off) u" if u: "t \<le> u" "(u + off) div Hour = (t + off) div Hour" for u
  proof -
    have "MinuteOf (zone off) t \<le> MinuteOf (zone off) u" "MinuteOf (zone off) u < 60"
      using unit_mono [OF units(5), of "t + off" "u + off" Hour] unit_bound(2) [OF units(5,3), of "u + off"] u
      by (simp_all add: zone_sel)
    hence "\<not> bs_has (minutes c) (MinuteOf (zone off) u)"
      using no bs_next_none [OF None, of "MinuteOf (zone off) u"] by (cases "MinuteOf (zone off) u = MinuteOf (zone off) t") auto
    thus ?thesis by (simp add: cron_matches_def)
  qed
  thus ?thesis using None skip_unit [OF off units(6) unit_dvd(4)] by (simp add: Truncate_next [OF units(6) off])
next
  case (Some m)
  note f = bs_next_found [OF Some]
  have "skips c (zone off) t (Hour * ((t + off) div Hour) + Minute * m - off)"
  proof (rule skip_part [OF off units(5,6) unit_dvd(4,1) units(3)])
    show "m < 60" "(t + off) mod Hour div Minute < m" using f by (simp_all add: zone_sel)
    fix u assume u: "(t + off) mod Hour div Minute \<le> (u + off) mod Hour div Minute" "(u + off) mod Hour div Minute < m"
    hence "\<not> bs_has (minutes c) (MinuteOf (zone off) u)"
      using f no by (cases "MinuteOf (zone off) u = MinuteOf (zone off) t") (auto simp: zone_sel)
    thus "\<not> cron_matches c (zone off) u" by (simp add: cron_matches_def)
  qed
  thus ?thesis using Some by (simp add: Date_today hour_start)
qed

lemma round_second:
  assumes off: "Hour dvd off" and no: "\<not> bs_has (seconds c) (SecondOf (zone off) t)"
  shows "skips c (zone off) t (case bs_next (seconds c) (SecondOf (zone off) t + 1) 59 of
      Some s \<Rightarrow> Date (Year (zone off) t) (Month (zone off) t) (MDay (zone off) t) (HourOf (zone off) t) (MinuteOf (zone off) t) s 0 (zone off)
    | None \<Rightarrow> Truncate (t + Minute) Minute)"
proof (cases "bs_next (seconds c) (SecondOf (zone off) t + 1) 59")
  case None
  have "\<not> cron_matches c (zone off) u" if u: "t \<le> u" "(u + off) div Minute = (t + off) div Minute" for u
  proof -
    have "SecondOf (zone off) t \<le> SecondOf (zone off) u" "SecondOf (zone off) u < 60"
      using unit_mono [OF units(1), of "t + off" "u + off" Minute] unit_bound(2) [OF units(1,2), of "u + off"] u
      by (simp_all add: zone_sel)
    hence "\<not> bs_has (seconds c) (SecondOf (zone off) u)"
      using no bs_next_none [OF None, of "SecondOf (zone off) u"] by (cases "SecondOf (zone off) u = SecondOf (zone off) t") auto
    thus ?thesis by (simp add: cron_matches_def)
  qed
  moreover have "Minute dvd off" using off unit_dvd(2) by (rule dvd_trans [rotated])
  ultimately show ?thesis using None skip_unit [OF off units(5) unit_dvd(1)] by (simp add: Truncate_next [OF units(5)])
next
  case (Some m)
  note f = bs_next_found [OF Some]
  have "skips c (zone off) t (Minute * ((t + off) div Minute) + Second * m - off)"
  proof (rule skip_part [OF off units(1,5) unit_dvd(1) dvd_refl units(2)])
    show "m < 60" "(t + off) mod Minute div Second < m" using f by (simp_all add: zone_sel)
    fix u assume u: "(t + off) mod Minute div Second \<le> (u + off) mod Minute div Second" "(u + off) mod Minute div Second < m"
    hence "\<not> bs_has (seconds c) (SecondOf (zone off) u)"
      using f no by (cases "SecondOf (zone off) u = SecondOf (zone off) t") (auto simp: zone_sel)
    thus "\<not> cron_matches c (zone off) u" by (simp add: cron_matches_def)
  qed
  thus ?thesis using Some by (simp add: Date_today minute_start)
qed

lemma cronRound_skips:
  assumes "Hour dvd off" "cronRound c (zone off) t = Some t'"
  shows "skips c (zone off) t t'"
proof -
  let ?z = "zone off"
  consider "\<not> bs_has (months c) (Month ?z t)" | "bs_has (months c) (Month ?z t)" "\<not> dayMatches c ?z t"
    | "bs_has (months c) (Month ?z t)" "dayMatches c ?z t" "\<not> bs_has (hours c) (HourOf ?z t)"
    | "bs_has (months c) (Month ?z t)" "dayMatches c ?z t" "bs_has (hours c) (HourOf ?z t)" "\<not> bs_has (minutes c) (MinuteOf ?z t)"
    | "bs_has (months c) (Month ?z t)" "dayMatches c ?z t" "bs_has (hours c) (HourOf ?z t)" "bs_has (minutes c) (MinuteOf ?z t)"
      "\<not> bs_has (seconds c) (SecondOf ?z t)"
    using assms(2) by (fastforce simp: cronRound_def)
  thus ?thesis
  proof cases
    case 1
    thus ?thesis using round_month [OF assms(1) 1] assms(2) by (simp add: cronRound_def)
  next
    case 2
    hence "\<not> cron_matches c ?z u" if "dayNo ?z u = dayNo ?z t" for u
      using dayMatches_cong [OF that, of c] by (simp add: cron_matches_def)
    hence "skips c ?z t (nextDay ?z t)" by (intro round_day [OF assms(1)])
    thus ?thesis using 2 assms(2) by (simp add: cronRound_def)
  next
    case 3
    thus ?thesis using round_hour [OF assms(1) 3(3)] assms(2) by (simp add: cronRound_def split: option.splits)
  next
    case 4
    thus ?thesis using round_minute [OF assms(1) 4(4)] assms(2) by (simp add: cronRound_def split: option.splits)
  next
    case 5
    thus ?thesis using round_second [OF assms(1) 5(5)] assms(2) by (simp add: cronRound_def split: option.splits)
  qed
qed

lemma cronRound_None:
  assumes "cronRound c (zone off) t = None" "Second dvd t"
  shows "cron_matches c (zone off) t"
  using assms by (auto simp: cronRound_def cron_matches_def split: if_splits option.splits)

section \<open>The loop\<close>

lemma cronLoop_first:
  assumes off: "Hour dvd off"
  shows "Second dvd t \<Longrightarrow> nat (deadline - t + 1) < fuel \<Longrightarrow>
    (\<exists>r. cronLoop fuel c (zone off) deadline t = Some (Inr r) \<and> t \<le> r \<and> r \<le> deadline \<and> cron_matches c (zone off) r
      \<and> (\<forall>u. t \<le> u \<and> u < r \<longrightarrow> \<not> cron_matches c (zone off) u))
    \<or> cronLoop fuel c (zone off) deadline t = Some (Inl NoMatchWithin5Years)
      \<and> (\<forall>u. t \<le> u \<and> u \<le> deadline \<longrightarrow> \<not> cron_matches c (zone off) u)"
proof (induction fuel arbitrary: t)
  case (Suc fuel)
  show ?case
  proof (cases "deadline < t")
    case False
    show ?thesis
    proof (cases "cronRound c (zone off) t")
      case None
      thus ?thesis using cronRound_None [OF None Suc.prems(1)] False by auto
    next
      case (Some t')
      note s = cronRound_skips [OF off Some]
      have t': "t < t'" "Second dvd t'" and sk: "\<And>u. t \<le> u \<Longrightarrow> u < t' \<Longrightarrow> \<not> cron_matches c (zone off) u"
        using s by (auto simp: skips_def)
      have "nat (deadline - t' + 1) < nat (deadline - t + 1)" using t'(1) False by auto
      hence "nat (deadline - t' + 1) < fuel" using Suc.prems(2) by linarith
      note IH = Suc.IH [OF t'(2) this]
      have e: "cronLoop (Suc fuel) c (zone off) deadline t = cronLoop fuel c (zone off) deadline t'" using False Some by simp
      have skip: "\<not> cron_matches c (zone off) u" if "t \<le> u" "t' \<le> u \<Longrightarrow> \<not> cron_matches c (zone off) u" for u
        using sk that by (cases "u < t'") auto
      from IH show ?thesis
      proof
        assume "\<exists>r. cronLoop fuel c (zone off) deadline t' = Some (Inr r) \<and> t' \<le> r \<and> r \<le> deadline \<and> cron_matches c (zone off) r
          \<and> (\<forall>u. t' \<le> u \<and> u < r \<longrightarrow> \<not> cron_matches c (zone off) u)"
        then obtain r where r: "cronLoop fuel c (zone off) deadline t' = Some (Inr r)" "t' \<le> r" "r \<le> deadline" "cron_matches c (zone off) r"
          "\<forall>u. t' \<le> u \<and> u < r \<longrightarrow> \<not> cron_matches c (zone off) u" by blast
        have "\<forall>u. t \<le> u \<and> u < r \<longrightarrow> \<not> cron_matches c (zone off) u" using skip r(5) by blast
        thus ?thesis using r(1-4) e t'(1) by (intro disjI1 exI [of _ r]) simp
      next
        assume n: "cronLoop fuel c (zone off) deadline t' = Some (Inl NoMatchWithin5Years)
          \<and> (\<forall>u. t' \<le> u \<and> u \<le> deadline \<longrightarrow> \<not> cron_matches c (zone off) u)"
        hence "\<forall>u. t \<le> u \<and> u \<le> deadline \<longrightarrow> \<not> cron_matches c (zone off) u" using skip by blast
        thus ?thesis using n e by simp
      qed
    qed
  qed auto
qed simp

definition cronSet :: "cron \<Rightarrow> bool" where
  "cronSet c \<longleftrightarrow> seconds c \<noteq> 0 \<and> minutes c \<noteq> 0 \<and> hours c \<noteq> 0 \<and> dom' c \<noteq> 0 \<and> months c \<noteq> 0 \<and> dow c \<noteq> 0"

lemma first_second: "t < u \<Longrightarrow> Second dvd u \<Longrightarrow> Truncate (t + Second) Second \<le> u"
proof -
  assume u: "t < u" "Second dvd u"
  then obtain k where k: "u = Second * k" by (auto elim: dvdE)
  have "t div Second < k" by (rule div_lessI) (use u k units in simp_all)
  hence "Second * (t div Second + 1) \<le> Second * k" using units(1) by (simp add: mult_left_mono)
  thus ?thesis using Truncate_next [of Second 0 t] units(1) k by simp
qed

lemma cron_Next_first:
  assumes off: "Hour dvd off" and c: "cronSet c" and fuel: "nat (AddDate (zone off) after 5 0 0 - after + 1) < fuel"
  shows "(\<exists>r. cron_Next fuel c (zone off) after = Some (Inr r) \<and> after < r \<and> cron_matches c (zone off) r
      \<and> (\<forall>u. after < u \<and> u < r \<longrightarrow> \<not> cron_matches c (zone off) u))
    \<or> cron_Next fuel c (zone off) after = Some (Inl NoMatchWithin5Years)
      \<and> (\<forall>u. after < u \<and> u \<le> AddDate (zone off) after 5 0 0 \<longrightarrow> \<not> cron_matches c (zone off) u)"
proof -
  let ?t = "Truncate (after + Second) Second" and ?dl = "AddDate (zone off) after 5 0 0"
  have t: "?t = Second * (after div Second + 1)" using Truncate_next [of Second 0 after] units(1) by simp
  have ta: "after < ?t" unfolding t by (rule less_mult_div_Suc [OF units(1)])
  have e: "cron_Next fuel c (zone off) after = cronLoop fuel c (zone off) ?dl ?t" using c by (simp add: cron_Next_def cronSet_def)
  have no: "\<not> cron_matches c (zone off) u" if "after < u" "?t \<le> u \<Longrightarrow> \<not> cron_matches c (zone off) u" for u
    using that first_second [of after u] by (auto simp: cron_matches_def)
  have "nat (?dl - ?t + 1) \<le> nat (?dl - after + 1)" using ta by (intro nat_mono) simp
  hence "nat (?dl - ?t + 1) < fuel" using fuel by linarith
  from cronLoop_first [OF off _ this] t have
    "(\<exists>r. cronLoop fuel c (zone off) ?dl ?t = Some (Inr r) \<and> ?t \<le> r \<and> r \<le> ?dl \<and> cron_matches c (zone off) r
      \<and> (\<forall>u. ?t \<le> u \<and> u < r \<longrightarrow> \<not> cron_matches c (zone off) u))
    \<or> cronLoop fuel c (zone off) ?dl ?t = Some (Inl NoMatchWithin5Years)
      \<and> (\<forall>u. ?t \<le> u \<and> u \<le> ?dl \<longrightarrow> \<not> cron_matches c (zone off) u)" by simp
  thus ?thesis
  proof
    assume "\<exists>r. cronLoop fuel c (zone off) ?dl ?t = Some (Inr r) \<and> ?t \<le> r \<and> r \<le> ?dl \<and> cron_matches c (zone off) r
      \<and> (\<forall>u. ?t \<le> u \<and> u < r \<longrightarrow> \<not> cron_matches c (zone off) u)"
    then obtain r where r: "cronLoop fuel c (zone off) ?dl ?t = Some (Inr r)" "?t \<le> r" "cron_matches c (zone off) r"
      "\<forall>u. ?t \<le> u \<and> u < r \<longrightarrow> \<not> cron_matches c (zone off) u" by blast
    have "\<forall>u. after < u \<and> u < r \<longrightarrow> \<not> cron_matches c (zone off) u" using no r(4) by blast
    thus ?thesis using r ta e by (intro disjI1 exI [of _ r]) simp
  next
    assume n: "cronLoop fuel c (zone off) ?dl ?t = Some (Inl NoMatchWithin5Years)
      \<and> (\<forall>u. ?t \<le> u \<and> u \<le> ?dl \<longrightarrow> \<not> cron_matches c (zone off) u)"
    hence "\<forall>u. after < u \<and> u \<le> ?dl \<longrightarrow> \<not> cron_matches c (zone off) u" using no by blast
    thus ?thesis using n e by simp
  qed
qed

end
