(* ===== verification/Cron_Props.thy ===== *)
theory Cron_Props
  imports Cron_Next
begin

text \<open>
  The properties of cron expressions: what \<open>ParseCron\<close> accepts, that \<open>Next\<close> finds the first
  matching instant, and the expressions and zones for which the result is not what they say.
\<close>

section \<open>Parsed fields\<close>

lemma bit_single64: "k < 64 \<Longrightarrow> bit (push_bit k 1 :: 64 word) n \<longleftrightarrow> n = k"
  by (auto simp: bit_exp_iff)

lemma bs_has_bit: "0 \<le> n \<Longrightarrow> n < 64 \<Longrightarrow> bs_has b n \<longleftrightarrow> bit b (nat n)"
  by (auto simp: bs_has_def bit_eq_iff [of "and b (push_bit (nat n) 1)" 0] bit_and_iff bit_single64 simp del: push_bit_of_1)

definition inRange :: "int \<Rightarrow> int \<Rightarrow> bitset \<Rightarrow> bool" where
  "inRange mn mx b \<longleftrightarrow> (\<forall>n. bit b n \<longrightarrow> mn \<le> int n \<and> int n \<le> mx)"

lemma wrap64_step:
  assumes "0 \<le> i" "i < 64" "0 < step" "step < 2 ^ 63" "0 \<le> wrap64 (i + step)"
  shows "wrap64 (i + step) = i + step"
proof (cases "i + step < 2 ^ 63")
  case True
  thus ?thesis using assms by (intro wrap64_id) simp_all
next
  case False
  hence "(i + step + 2 ^ 63) mod 2 ^ 64 = i + step + 2 ^ 63 - 2 ^ 64"
    by (intro int_mod_pos_eq [of _ _ 1]) (use assms in simp_all)
  thus ?thesis using assms by (simp add: wrap64_def)
qed

lemma setBits_props:
  assumes "0 \<le> mn" "mx < 64" "0 < step" "step < 2 ^ 63"
  shows "setBits fuel step i en out = Inr out' \<Longrightarrow> inRange mn mx out \<Longrightarrow> mn \<le> i \<Longrightarrow> en \<le> mx \<Longrightarrow>
    inRange mn mx out' \<and> (\<forall>n. bit out n \<longrightarrow> bit out' n) \<and> (0 < fuel \<and> i \<le> en \<longrightarrow> bit out' (nat i))"
proof (induction fuel arbitrary: i out)
  case (Suc fuel)
  show ?case
  proof (cases "en < i")
    case True
    thus ?thesis using Suc.prems by auto
  next
    case False
    let ?o = "or out (push_bit (nat i) 1)" let ?j = "wrap64 (i + step)"
    have i: "0 \<le> i" "i < 64" using False Suc.prems(3,4) assms by auto
    hence bo: "bit ?o n \<longleftrightarrow> bit out n \<or> n = nat i" for n
      using bit_single64 [of "nat i" n] by (simp add: bit_or_iff del: push_bit_of_1)
    have ir: "inRange mn mx ?o" using Suc.prems(2-4) bo i False by (auto simp: inRange_def)
    have e: "setBits fuel step ?j en ?o = Inr out'" using Suc.prems(1) False i by simp
    show ?thesis
    proof (cases "en < ?j \<or> fuel = 0")
      case True
      hence "out' = ?o" using e by (cases fuel) auto
      thus ?thesis using ir bo by simp
    next
      case nj: False
      hence "0 \<le> ?j" using e by (cases fuel) (auto split: if_splits)
      hence "mn \<le> ?j" using wrap64_step [OF i assms(3,4)] i Suc.prems(3) assms(3) by simp
      from Suc.IH [OF e ir this Suc.prems(4)] bo show ?thesis by auto
    qed
  qed
qed auto

lemma parseRange_range:
  assumes "parseRange part mn mx names = Inr (a, b)" "mn \<le> mx"
  shows "mn \<le> a" "a \<le> b" "b \<le> mx"
  using assms by (auto simp: parseRange_def split: if_splits list.splits sum.splits)

lemma ParseInt_range: "ParseInt s = Some n \<Longrightarrow> n < 2 ^ 63"
  by (auto simp: ParseInt_def Let_def split: if_splits option.splits)

lemma splitStep_pos: "splitStep part = Inr (base, step) \<Longrightarrow> 0 < step \<and> step < 2 ^ 63"
  using ParseInt_range by (auto simp: splitStep_def split: list.splits option.splits if_splits)

lemma parseParts_props:
  assumes r: "0 \<le> mn" "mn \<le> mx" "mx < 64"
  shows "parseParts ps mn mx names out = Inr out' \<Longrightarrow> inRange mn mx out \<Longrightarrow>
    inRange mn mx out' \<and> (\<forall>n. bit out n \<longrightarrow> bit out' n) \<and> (ps \<noteq> [] \<longrightarrow> (\<exists>n. bit out' n))"
proof (induction ps arbitrary: out)
  case (Cons p ps)
  obtain base step a b out1 where s: "splitStep (TrimSpace p) = Inr (base, step)" "parseRange base mn mx names = Inr (a, b)"
      "setBits (nat (b - a) + 2) step a b out = Inr out1" "parseParts ps mn mx names out1 = Inr out'"
    using Cons.prems(1) by (auto simp: Let_def split: if_splits sum.splits)
  note st = splitStep_pos [OF s(1)] and rg = parseRange_range [OF s(2) r(2)]
  have "inRange mn mx out1 \<and> (\<forall>n. bit out n \<longrightarrow> bit out1 n) \<and> bit out1 (nat a)"
    using setBits_props [OF r(1,3) _ _ s(3) Cons.prems(2) rg(1,3)] st rg(2) by auto
  thus ?case using Cons.IH [OF s(4)] by blast
qed auto

lemma parseField_props:
  assumes "parseField f mn mx names = Inr b" "0 \<le> mn" "mn \<le> mx" "mx < 64"
  shows "inRange mn mx b" "b \<noteq> 0"
proof -
  have "inRange mn mx 0" by (simp add: inRange_def)
  note p = parseParts_props [OF assms(2-4) assms(1) [unfolded parseField_def] this]
  show "inRange mn mx b" using p by simp
  have "\<exists>n. bit b n" using p by simp
  thus "b \<noteq> 0" by auto
qed

lemma inField_Inr: "inField nm r = Inr x \<longleftrightarrow> r = Inr x"
  by (auto simp: inField_def split: sum.splits)

lemma parsed_wf:
  assumes "ParseCron expr = Inr c"
  shows "cronSet c \<and> inRange 0 59 (seconds c) \<and> inRange 0 59 (minutes c) \<and> inRange 0 23 (hours c)
    \<and> inRange 1 31 (dom' c) \<and> inRange 1 12 (months c) \<and> inRange 0 6 (dow c)"
proof -
  obtain f0 f1 f2 f3 f4 f5 dw where f: "parseField f0 0 59 [] = Inr (seconds c)" "parseField f1 0 59 [] = Inr (minutes c)"
    "parseField f2 0 23 [] = Inr (hours c)" "parseField f3 1 31 [] = Inr (dom' c)"
    "parseField f4 1 12 monthNames = Inr (months c)" "parseField f5 0 7 dayNames = Inr dw"
    "dow c = (if bs_has dw 7 then and (or dw 1) (not (push_bit 7 1)) else dw)"
    using assms by (auto simp: ParseCron_def Let_def inField_Inr simp del: push_bit_of_1 split: if_splits sum.splits)
  note p = parseField_props [OF f(1)] parseField_props [OF f(2)] parseField_props [OF f(3)] parseField_props [OF f(4)]
    parseField_props [OF f(5)] parseField_props [OF f(6)]
  have d: "inRange 0 6 (dow c) \<and> dow c \<noteq> 0"
  proof (cases "bs_has dw 7")
    case True
    hence dow: "dow c = and (or dw 1) (not (push_bit 7 1))" using f(7) by simp
    have b: "bit (dow c) n \<longleftrightarrow> (bit dw n \<or> n = 0) \<and> n \<noteq> 7 \<and> n < 64" for n
      unfolding dow using bit_single64 [of 7 n] bit_imp_le_length [of dw n]
      by (auto simp: bit_and_iff bit_or_iff bit_not_iff bit_1_iff possible_bit_word simp del: push_bit_of_1)
    have "int n \<le> 6" if "bit (dow c) n" for n using that p(11) b [of n] by (auto simp: inRange_def)
    moreover have "bit (dow c) 0" using b by simp
    ultimately show ?thesis by (auto simp: inRange_def)
  next
    case False
    hence "n \<noteq> 7" if "bit dw n" for n using that bs_has_bit [of 7 dw] by auto
    hence "int n \<le> 6" if "bit dw n" for n using that p(11) by (fastforce simp: inRange_def)
    thus ?thesis using f(7) False p(12) by (auto simp: inRange_def)
  qed
  thus ?thesis using p by (simp add: cronSet_def)
qed

text \<open>Some expressions, as \<open>ParseCron\<close> reads them.\<close>

definition everySecondDay :: cron where
  "everySecondDay = \<lparr>cexpr = ''0 0 */2 * *'', seconds = 1, minutes = 1, hours = 1, dom' = 2863311530, months = 8190, dow = 127,
     domAny = True, dowAny = True\<rparr>"

definition hourly :: cron where
  "hourly = \<lparr>cexpr = ''0 * * * *'', seconds = 1, minutes = 1, hours = 16777215, dom' = 4294967294, months = 8190, dow = 127,
     domAny = True, dowAny = True\<rparr>"

lemma parse_everySecondDay: "ParseCron ''0 0 */2 * *'' = Inr everySecondDay"
  by code_simp

lemma parse_hourly: "ParseCron ''@hourly'' = Inr hourly"
  by code_simp

text \<open>C26. Every expression that \<open>ParseCron\<close> accepts is well-formed: each field is a non-empty set of numbers
  of its range, with Sunday as 0 only, so that \<open>Next\<close> never finds it uninitialised.\<close>

theorem ParseCron_wf:
  assumes "ParseCron expr = Inr c"
  shows "cronSet c \<and> inRange 0 59 (seconds c) \<and> inRange 0 59 (minutes c) \<and> inRange 0 23 (hours c)
    \<and> inRange 1 31 (dom' c) \<and> inRange 1 12 (months c) \<and> inRange 0 6 (dow c)"
  by (rule parsed_wf [OF assms])

theorem ParseCron_wf_witness:
  "ParseCron ''@hourly'' = Inr hourly \<and> cronSet hourly \<and> inRange 0 23 (hours hourly)"
  using ParseCron_wf [OF parse_hourly] parse_hourly by simp

section \<open>Next\<close>




text \<open>A day-of-month field with a step counts as any day: \<open>0 0 */2 * *\<close> names every day, although
  the 2nd of a month, for one, is not in the field.\<close>

theorem step_field_ignored:
  "\<exists>c. ParseCron ''0 0 */2 * *'' = Inr c \<and> \<not> bs_has (dom' c) 2 \<and> (\<forall>loc t. dayMatches c loc t)"
proof -
  have "\<not> bs_has (dom' everySecondDay) 2" by code_simp
  moreover have "dayMatches everySecondDay loc t" for loc t by (simp add: dayMatches_def everySecondDay_def)
  ultimately show ?thesis using parse_everySecondDay by blast
qed

text \<open>The largest step makes the counter of the field overflow, and the shift by the negative count panics:
  parsing such an expression does not return an error.\<close>

theorem ParseCron_panics:
  "ParseCron ''0 0 */9223372036854775807 * *'' = Inl (InField ''day-of-month'' ShiftPanic)"
  by code_simp

section \<open>Zones with half hours\<close>

lemma hourly_sets: "\<forall>m \<in> set [1..12]. bs_has (months hourly) m" "\<forall>h \<in> set [0..23]. bs_has (hours hourly) h"
  "\<not> bs_has (minutes hourly) 30" "bs_next (minutes hourly) 31 59 = None"
  by code_simp+

lemma hourly_round:
  assumes "MinuteOf loc t = 30"
  shows "cronRound hourly loc t = Some (Truncate (t + Hour) Hour)"
proof -
  have "1 \<le> Month loc t" "Month loc t \<le> 12" using day_parts [of "dayNo loc t"] by (metis Month_def)+
  hence "bs_has (months hourly) (Month loc t)" using hourly_sets(1) by simp
  moreover have "0 \<le> HourOf loc t" "HourOf loc t < 24"
    using unit_bound [OF units(6,4), of "local loc t"] by (simp_all add: HourOf_def)
  hence "bs_has (hours hourly) (HourOf loc t)" using hourly_sets(2) by simp
  moreover have "dayMatches hourly loc t" by (simp add: dayMatches_def hourly_def)
  ultimately show ?thesis using hourly_sets(3,4) assms by (simp add: cronRound_def)
qed

lemma half_hour: "0 \<le> 30 * Minute" "30 * Minute < Hour" "30 * Minute + Second < Hour" "0 \<le> 30 * Minute + Second" "(30 * Minute + Second) div Minute = 30"
  "30 * Minute + 30 * Minute = Hour"
  by code_simp+

lemma Truncate_hour:
  assumes "off mod Hour = 30 * Minute"
  shows "t < Truncate (t + Hour) Hour" "MinuteOf (zone off) (Truncate (t + Hour) Hour) = 30"
proof -
  let ?t = "Truncate (t + Hour) Hour"
  have e: "?t = Hour * (t div Hour + 1)" using Truncate_next [OF units(6), of 0 t] by simp
  show "t < ?t" unfolding e by (rule less_mult_div_Suc [OF units(6)])
  have "(?t + off) mod Hour = 30 * Minute" 
    by (rule int_mod_pos_eq [of _ _ "t div Hour + 1 + off div Hour"])
      (use e assms mult_div_mod_eq [of Hour off] half_hour in \<open>simp_all add: distrib_left\<close>)
  moreover have "30 * Minute div Minute = 30" by code_simp
  ultimately show "MinuteOf (zone off) ?t = 30" by (simp add: zone_sel)
qed

lemma hourly_loop:
  assumes "off mod Hour = 30 * Minute"
  shows "MinuteOf (zone off) t = 30 \<Longrightarrow> nat (deadline - t + 1) < fuel \<Longrightarrow>
    cronLoop fuel hourly (zone off) deadline t = Some (Inl NoMatchWithin5Years)"
proof (induction fuel arbitrary: t)
  case (Suc fuel)
  note h = Truncate_hour [OF assms, of t]
  show ?case
  proof (cases "deadline < t")
    case False
    hence "nat (deadline - Truncate (t + Hour) Hour + 1) < nat (deadline - t + 1)" using h(1) by auto
    hence "nat (deadline - Truncate (t + Hour) Hour + 1) < fuel" using Suc.prems(2) by linarith
    thus ?thesis using False hourly_round [OF Suc.prems(1)] Suc.IH [OF h(2)] by simp
  qed simp
qed simp

text \<open>In a zone that is half an hour off, \<open>Next\<close> goes from one full hour of UTC to the next and so
  passes over the full hours of the zone: it reports that \<open>@hourly\<close> names no instant in five years,
  although the next one is half an hour away.\<close>

theorem Next_misses_half_hour_zone:
  assumes "off mod Hour = 30 * Minute" "Hour dvd after" "nat (AddDate (zone off) after 5 0 0 - after + 1) < fuel"
  shows "cron_Next fuel hourly (zone off) after = Some (Inl NoMatchWithin5Years)
    \<and> cron_matches hourly (zone off) (after + 30 * Minute)"
proof -
  let ?t = "Truncate (after + Second) Second" and ?u = "after + 30 * Minute"
  obtain k where k: "after = Hour * k" using assms(2) by (auto elim: dvdE)
  have o: "off = Hour * (off div Hour) + 30 * Minute" using mult_div_mod_eq [of Hour off] assms(1) by simp
  have "Second dvd after" using assms(2) unit_dvd(4) by (rule dvd_trans [rotated])
  hence t: "?t = after + Second" using units(1) by (simp add: Truncate_def)
  have "(after + Second + off) mod Hour = 30 * Minute + Second"
    by (rule int_mod_pos_eq [of _ _ "k + off div Hour"]) (use o k half_hour in \<open>simp_all add: distrib_left\<close>)
  hence m: "MinuteOf (zone off) ?t = 30" unfolding t zone_sel by (simp add: half_hour)
  have "nat (AddDate (zone off) after 5 0 0 - ?t + 1) \<le> nat (AddDate (zone off) after 5 0 0 - after + 1)"
    using t units(1) by (intro nat_mono) simp
  hence "cronLoop fuel hourly (zone off) (AddDate (zone off) after 5 0 0) ?t = Some (Inl NoMatchWithin5Years)"
    using hourly_loop [OF assms(1) m] assms(3) by simp
  moreover have "cron_Next fuel hourly (zone off) after = cronLoop fuel hourly (zone off) (AddDate (zone off) after 5 0 0) ?t"
    by (simp add: cron_Next_def hourly_def)
  moreover have "cron_matches hourly (zone off) ?u"
  proof -
    have u: "(?u + off) mod Hour = 0"
      by (rule int_mod_pos_eq [of _ _ "k + off div Hour + 1"]) (use o k half_hour units(6) in \<open>simp_all add: distrib_left\<close>)
    have "(?u + off) mod Minute = (?u + off) mod Hour mod Minute" by (simp add: mod_mod_cancel unit_dvd)
    hence "MinuteOf (zone off) ?u = 0" "SecondOf (zone off) ?u = 0" using u by (simp_all add: zone_sel)
    moreover have "bs_has (minutes hourly) 0" "bs_has (seconds hourly) 0" by code_simp+
    moreover have "1 \<le> Month (zone off) ?u" "Month (zone off) ?u \<le> 12" using day_parts [of "dayNo (zone off) ?u"] by (metis Month_def)+
    moreover have "0 \<le> HourOf (zone off) ?u" "HourOf (zone off) ?u < 24"
      using unit_bound [OF units(6,4), of "local (zone off) ?u"] by (simp_all add: HourOf_def)
    moreover have "Second dvd ?u" using \<open>Second dvd after\<close> unit_dvd(1) by simp
    ultimately show ?thesis using hourly_sets(1,2) by (simp add: cron_matches_def dayMatches_def) (simp add: hourly_def)
  qed
  ultimately show ?thesis by simp
qed

theorem Next_misses_half_hour_zone_witness:
  "\<exists>fuel. cron_Next fuel hourly (zone (5 * Hour + 30 * Minute)) 0 = Some (Inl NoMatchWithin5Years)
    \<and> cron_matches hourly (zone (5 * Hour + 30 * Minute)) (30 * Minute)"
proof -
  have "(5 * Hour + 30 * Minute) mod Hour = 30 * Minute" by code_simp
  from Next_misses_half_hour_zone [OF this, of 0] show ?thesis by (auto simp: less_Suc_eq)
qed

end
