(* ===== verification/Schedule_Spec.thy ===== *)
theory Schedule_Spec
  imports Schedule Cron_Props
begin

text \<open>
  What a scheduler needs of the function that gives the next instant of a schedule, as a locale; the loop over the
  due times is proved correct there once, and cron expressions and windows are its instances.
\<close>

section \<open>Occurrences in order\<close>

definition firstAfter :: "(gotime \<Rightarrow> bool) \<Rightarrow> gotime \<Rightarrow> gotime \<Rightarrow> bool" where
  "firstAfter P x y \<longleftrightarrow> x < y \<and> P y \<and> (\<forall>u. x < u \<and> u < y \<longrightarrow> \<not> P u)"

definition between :: "(gotime \<Rightarrow> bool) \<Rightarrow> gotime \<Rightarrow> gotime \<Rightarrow> gotime list" where
  "between P x n = filter P [x + 1..n]"

lemma between_none: "firstAfter P x y \<Longrightarrow> n < y \<Longrightarrow> between P x n = []"
  by (auto simp: between_def firstAfter_def filter_empty_conv)

lemma between_split: "x \<le> m \<Longrightarrow> m \<le> n \<Longrightarrow> between P x n = between P x m @ between P m n"
  using upto_split2 [of "x + 1" m n] by (cases "x = m") (auto simp: between_def)

lemma between_first: "firstAfter P x y \<Longrightarrow> y \<le> n \<Longrightarrow> between P x n = y # between P y n"
proof -
  assume f: "firstAfter P x y" and n: "y \<le> n"
  have "between P x n = between P x y @ between P y n" using f n by (intro between_split) (auto simp: firstAfter_def)
  moreover have "between P x y = between P x (y - 1) @ [y]" using f upto_rec2 [of "x + 1" y] by (simp add: between_def firstAfter_def)
  ultimately show ?thesis using between_none [OF f, of "y - 1"] by simp
qed

lemma between_mono: "n \<le> n' \<Longrightarrow> length (between P x n) \<le> length (between P x n')"
proof (cases "x \<le> n")
  case True
  assume "n \<le> n'"
  thus ?thesis using between_split [OF True, of n' P] by simp
next
  case False
  thus ?thesis by (simp add: between_def)
qed

lemma firstAfter_later: "firstAfter P x y \<Longrightarrow> x \<le> n \<Longrightarrow> n < y \<Longrightarrow> firstAfter P n y"
  by (auto simp: firstAfter_def)

section \<open>The interface\<close>

locale occurrences =
  fixes P :: "gotime \<Rightarrow> bool" and nextFn :: "gotime \<Rightarrow> sched_error + gotime" and deadline :: "gotime \<Rightarrow> gotime"
  assumes next_first: "nextFn x = Inr y \<Longrightarrow> firstAfter P x y"
    and next_found: "x < u \<Longrightarrow> u \<le> deadline x \<Longrightarrow> P u \<Longrightarrow> \<exists>y. nextFn x = Inr y"
begin

lemma dueLoop_exact:
  assumes "dueLoop i nextFn now limit ds nxt = Inr (ds', n')" "firstAfter P x nxt" "x \<le> now"
  shows "ds' = ds @ between P x now \<and> firstAfter P now n'"
  using assms
proof (induction "nat (limit - int (length ds))" arbitrary: ds nxt x rule: less_induct)
  case less
  show ?case
  proof (cases "now < nxt")
    case True
    hence "ds' = ds" "n' = nxt" using less.prems(1) by (simp_all add: dueLoop.simps [of i])
    thus ?thesis using True less.prems by (simp add: between_none firstAfter_later)
  next
    case False
    then obtain y where y: "nextFn nxt = Inr y" "dueLoop i nextFn now limit (ds @ [nxt]) y = Inr (ds', n')"
      and l: "int (length ds) + 1 \<le> limit"
      using less.prems(1) by (auto simp: dueLoop.simps [of i nextFn now limit ds nxt] Let_def split: if_splits sum.splits)
    have "ds' = (ds @ [nxt]) @ between P nxt now \<and> firstAfter P now n'"
      by (rule less.hyps [OF _ y(2) next_first [OF y(1)]]) (use l False in auto)
    thus ?thesis using between_first [OF less.prems(2), of now] False by simp
  qed
qed

lemma dueLoop_ends:
  assumes "firstAfter P x nxt" "x \<le> now" "int (length ds) + int (length (between P x now)) \<le> limit"
    "\<forall>t. x < t \<and> t \<le> now \<longrightarrow> (\<exists>u. t < u \<and> u \<le> deadline t \<and> P u)"
  shows "\<exists>ds' n'. dueLoop i nextFn now limit ds nxt = Inr (ds', n')"
  using assms
proof (induction "nat (limit - int (length ds))" arbitrary: ds nxt x rule: less_induct)
  case less
  show ?case
  proof (cases "now < nxt")
    case False
    have xn: "x < nxt" using less.prems(1) by (simp add: firstAfter_def)
    obtain y where y: "nextFn nxt = Inr y" using less.prems(4) next_found xn False by (meson not_less)
    have b: "between P x now = nxt # between P nxt now" using between_first [OF less.prems(1)] False by simp
    have "\<exists>ds' n'. dueLoop i nextFn now limit (ds @ [nxt]) y = Inr (ds', n')"
      by (rule less.hyps [OF _ next_first [OF y]]) (use less.prems b False xn in auto)
    thus ?thesis using y False less.prems(3) b by (simp add: dueLoop.simps [of i nextFn now limit ds nxt])
  qed (simp add: dueLoop.simps [of i])
qed

lemma dueLoop_limit:
  "dueLoop i nextFn now limit ds nxt = Inr (ds', n') \<Longrightarrow> nxt \<le> now \<or> int (length ds) \<le> limit \<Longrightarrow> int (length ds') \<le> limit"
proof (induction "nat (limit - int (length ds))" arbitrary: ds nxt rule: less_induct)
  case less
  show ?case
  proof (cases "now < nxt")
    case True
    thus ?thesis using less.prems by (simp add: dueLoop.simps [of i])
  next
    case False
    then obtain y where y: "dueLoop i nextFn now limit (ds @ [nxt]) y = Inr (ds', n')" and l: "int (length ds) + 1 \<le> limit"
      using less.prems(1) by (auto simp: dueLoop.simps [of i nextFn now limit ds nxt] Let_def split: if_splits sum.splits)
    show ?thesis by (rule less.hyps [OF _ y]) (use l in auto)
  qed
qed

text \<open>A schedule with more occurrences than the limit is refused.\<close>

lemma dueLoop_exceeds:
  assumes "firstAfter P x nxt" "x \<le> now" "nxt \<le> now" "limit < int (length (between P x now))"
  shows "\<exists>e. dueLoop i nextFn now limit [] nxt = Inl e"
proof (cases "dueLoop i nextFn now limit [] nxt")
  case (Inr r)
  then obtain ds' n' where r: "dueLoop i nextFn now limit [] nxt = Inr (ds', n')" by (cases r) auto
  show ?thesis using dueLoop_exact [OF r assms(1,2)] dueLoop_limit [OF r] assms(3,4) by simp
qed simp

end

section \<open>Windows in a fixed zone\<close>

definition fixedZones :: "(string \<Rightarrow> int option) \<Rightarrow> string \<Rightarrow> location option" where
  "fixedZones f name = map_option zone (f name)"

text \<open>The instant of a day.\<close>

definition windowAt :: "window \<Rightarrow> string \<Rightarrow> int \<Rightarrow> gotime" where
  "windowAt w key d =
     (let day = Day * d - wZone w (Day * d) in day + wStart w + (if wRandom w then offsetFor w day key else 0))"

definition window_ok :: "window \<Rightarrow> bool" where
  "window_ok w \<longleftrightarrow> 0 \<le> wStart w \<and> wStart w < wEnd w \<and> wEnd w < Day"

lemma UTC_zone: "UTC = zone 0"
  by (simp add: UTC_def zone_def)

lemma parseClock_range: "parseClock v = Inr t \<Longrightarrow> 0 \<le> t \<and> t < Day"
  by (auto simp: parseClock_def Day_def Hour_def Minute_def Second_def split: list.splits option.splits if_splits)

lemma windowOptions_keeps:
  "windowOptions L fs w = Inr w' \<Longrightarrow> wStart w' = wStart w \<and> wEnd w' = wEnd w"
  by (induction L fs w rule: windowOptions.induct) (auto split: if_splits option.splits)

lemma windowOptions_zone:
  "windowOptions (fixedZones f) fs w = Inr w' \<Longrightarrow> wZone w = zone a \<Longrightarrow> \<exists>b. wZone w' = zone b"
  by (induction "fixedZones f" fs w arbitrary: a rule: windowOptions.induct)
    (auto simp: fixedZones_def split: if_splits option.splits)

lemma ParseWindow_parts:
  assumes "ParseWindow L expr = Inr w"
  obtains v a b fs where "parseWindowRange v = Inr (a, b)"
    "windowOptions L fs \<lparr>wStart = a, wEnd = b, wZone = UTC, wRandom = False\<rparr> = Inr w" "wStart w < wEnd w"
  using assms by (auto simp: ParseWindow_def Let_def split: if_splits sum.splits)

lemma ParseWindow_ok: "ParseWindow L expr = Inr w \<Longrightarrow> window_ok w"
proof -
  assume "ParseWindow L expr = Inr w"
  then obtain v a b fs where p: "parseWindowRange v = Inr (a, b)"
    "windowOptions L fs \<lparr>wStart = a, wEnd = b, wZone = UTC, wRandom = False\<rparr> = Inr w" "wStart w < wEnd w"
    by (rule ParseWindow_parts)
  have "0 \<le> a" "b < Day" using p(1) parseClock_range by (auto simp: parseWindowRange_def split: list.splits sum.splits)
  thus ?thesis using p(3) windowOptions_keeps [OF p(2)] by (simp add: window_ok_def)
qed

lemma ParseWindow_zone: "ParseWindow (fixedZones f) expr = Inr w \<Longrightarrow> \<exists>off. wZone w = zone off"
  by (erule ParseWindow_parts) (simp add: windowOptions_zone UTC_zone)

lemma windowAt_bounds:
  assumes "window_ok w"
  shows "Day * d - wZone w (Day * d) + wStart w \<le> windowAt w key d" "windowAt w key d < Day * d - wZone w (Day * d) + wEnd w"
  using assms by (simp_all add: windowAt_def window_ok_def offsetFor_def Let_def pos_mod_sign)
    (smt (verit, ccfv_threshold) pos_mod_bound)

lemma windowCandidate_at:
  assumes "wZone w = zone off"
  shows "windowCandidate w after key i = windowAt w key (dayNo (zone off) after + i)"
proof -
  have "Date (Year (zone off) after) (Month (zone off) after) (MDay (zone off) after + i) 0 0 0 0 (zone off)
    = Day * (dayNo (zone off) after + i) - off"
    by (simp add: Date_zone Year_def Month_def MDay_def dateDays_parts mult.commute)
  moreover have "zone off x = off" for x by (simp add: zone_def)
  ultimately show ?thesis by (simp only: windowCandidate_def windowAt_def Let_def assms) simp
qed

lemma windowAt_day:
  assumes "window_ok w" "wZone w = zone off"
  shows "dayNo (zone off) (windowAt w key d) = d"
  unfolding zone_sel
  by (rule div_same) (use windowAt_bounds(1) [OF assms(1), of d key] windowAt_bounds(2) [OF assms(1), of key d] assms in \<open>simp_all add: zone_def window_ok_def distrib_left\<close>)

theorem Window_Next_windowAt:
  assumes ok: "window_ok w" and z: "wZone w = zone off"
  shows "\<exists>d. Window_Next w after key = Inr (windowAt w key d) \<and> after < windowAt w key d \<and> (\<forall>e < d. windowAt w key e \<le> after)
    \<and> d \<le> dayNo (zone off) after + 1"
proof -
  let ?d = "dayNo (zone off) after"
  have zo: "zone off x = off" for x by (simp add: zone_def)
  have D: "Day * ?d \<le> after + off" "after + off < Day * (?d + 1)"
    using mult_div_le [OF units(7), of "after + off"] less_mult_div_Suc [OF units(7), of "after + off"] by (simp_all add: zone_sel)
  have before: "windowAt w key e \<le> after" if "e < ?d" for e
  proof -
    have "Day * (e + 1) \<le> Day * ?d" using that units(7) by simp
    thus ?thesis using windowAt_bounds(2) [OF ok, of key e] ok z zo D(1) by (simp add: window_ok_def distrib_left)
  qed
  have next1: "after < windowAt w key (?d + 1)"
    using windowAt_bounds(1) [OF ok, of "?d + 1" key] ok z zo D(2) by (simp add: window_ok_def)
  have W: "Window_Next w after key = (if after < windowAt w key ?d then Inr (windowAt w key ?d) else Inr (windowAt w key (?d + 1)))"
    unfolding Window_Next_def using next1
    by (simp add: windowCandidate_at [OF z] Let_def numeral_eq_Suc)
  show ?thesis
  proof (cases "after < windowAt w key ?d")
    case True
    thus ?thesis using W before by (intro exI [of _ ?d]) simp
  next
    case False
    have "windowAt w key e \<le> after" if "e < ?d + 1" for e using before [of e] False that by (cases "e = ?d") auto
    thus ?thesis using W next1 False by (intro exI [of _ "?d + 1"]) auto
  qed
qed

section \<open>Schedules\<close>

definition stableKey :: "schedule \<Rightarrow> string" where
  "stableKey s = (if sID s = [] then sName s else sID s)"

definition occurs :: "(string \<Rightarrow> location option) \<Rightarrow> location \<Rightarrow> schedule \<Rightarrow> gotime \<Rightarrow> bool" where
  "occurs L loc s u =
     (if HasPrefix (TrimSpace (sExpression s)) ''@between'' then
        (case ParseWindow L (sExpression s) of Inl e \<Rightarrow> False | Inr w \<Rightarrow> u = windowAt w (stableKey s) (dayNo (wZone w) u))
      else (case ParseCron (sExpression s) of Inl e \<Rightarrow> False | Inr c \<Rightarrow> cron_matches c loc u))"

definition nextOf :: "(string \<Rightarrow> location option) \<Rightarrow> location \<Rightarrow> schedule \<Rightarrow> gotime \<Rightarrow> sched_error + gotime" where
  "nextOf L loc s after = (case nextFunc L loc s of Inl e \<Rightarrow> Inl (InSchedule (sID s) e) | Inr nextFn \<Rightarrow> nextFn after)"

lemma nextOf_cron_first:
  assumes off: "Hour dvd off" and c: "ParseCron (sExpression s) = Inr c" and b: "\<not> HasPrefix (TrimSpace (sExpression s)) ''@between''"
  shows "nextOf L (zone off) s x = Inr y \<Longrightarrow> firstAfter (cron_matches c (zone off)) x y"
    and "x < u \<Longrightarrow> u \<le> AddDate (zone off) x 5 0 0 \<Longrightarrow> cron_matches c (zone off) u \<Longrightarrow> \<exists>y. nextOf L (zone off) s x = Inr y"
proof -
  have cs: "cronSet c" using parsed_wf [OF c] by blast
  have n: "nextOf L (zone off) s x = (case cron_Next (nextRounds (zone off) x) c (zone off) x of
      None \<Rightarrow> Inl NextNeverEnds | Some (Inl e) \<Rightarrow> Inl (CronError e) | Some (Inr t) \<Rightarrow> Inr t)"
    using c b by (simp add: nextOf_def nextFunc_def)
  have "nat (AddDate (zone off) x 5 0 0 - x + 1) < nextRounds (zone off) x" by (simp add: nextRounds_def)
  note f = cron_Next_first [OF off cs this]
  show "nextOf L (zone off) s x = Inr y \<Longrightarrow> firstAfter (cron_matches c (zone off)) x y"
    using f n by (auto simp: firstAfter_def)
  show "x < u \<Longrightarrow> u \<le> AddDate (zone off) x 5 0 0 \<Longrightarrow> cron_matches c (zone off) u \<Longrightarrow> \<exists>y. nextOf L (zone off) s x = Inr y"
    using f n by auto
qed

lemma nextOf_window_first:
  assumes w: "ParseWindow (fixedZones f) (sExpression s) = Inr w" and b: "HasPrefix (TrimSpace (sExpression s)) ''@between''"
  shows "\<exists>y. nextOf (fixedZones f) loc s x = Inr y \<and> firstAfter (\<lambda>u. u = windowAt w (stableKey s) (dayNo (wZone w) u)) x y"
proof -
  note ok = ParseWindow_ok [OF w]
  obtain off where z: "wZone w = zone off" using ParseWindow_zone [OF w] by blast
  let ?P = "\<lambda>u. u = windowAt w (stableKey s) (dayNo (wZone w) u)"
  obtain d where d: "Window_Next w x (stableKey s) = Inr (windowAt w (stableKey s) d)" "x < windowAt w (stableKey s) d"
    "\<forall>e < d. windowAt w (stableKey s) e \<le> x" using Window_Next_windowAt [OF ok z, of x "stableKey s"] by blast
  let ?y = "windowAt w (stableKey s) d"
  have n: "nextOf (fixedZones f) loc s x = Inr ?y"
    using w b d(1) by (simp add: nextOf_def nextFunc_def stableKey_def Let_def)
  have "\<not> ?P u" if u: "x < u" "u < ?y" for u
  proof
    assume p: "?P u"
    have "dayNo (zone off) u \<le> dayNo (zone off) ?y" using u(2) units(7) by (simp add: zone_sel zdiv_mono1)
    hence "dayNo (wZone w) u < d \<or> dayNo (wZone w) u = d" using windowAt_day [OF ok z] z by auto
    thus False using p u d(3) by fastforce
  qed
  hence "firstAfter ?P x ?y" using d(2) windowAt_day [OF ok z] z by (simp add: firstAfter_def)
  thus ?thesis using n by blast
qed

interpretation sc: occurrences "occurs (fixedZones f) (zone (Hour * k)) s" "nextOf (fixedZones f) (zone (Hour * k)) s"
  "\<lambda>x. AddDate (zone (Hour * k)) x 5 0 0" for f k s
proof
  let ?z = "zone (Hour * k)"
  fix x y u
  have h: "Hour dvd Hour * k" by simp
  show "nextOf (fixedZones f) ?z s x = Inr y \<Longrightarrow> firstAfter (occurs (fixedZones f) ?z s) x y"
  proof (cases "HasPrefix (TrimSpace (sExpression s)) ''@between''")
    case True
    assume n: "nextOf (fixedZones f) ?z s x = Inr y"
    then obtain w where w: "ParseWindow (fixedZones f) (sExpression s) = Inr w"
      using True by (auto simp: nextOf_def nextFunc_def split: sum.splits)
    have "occurs (fixedZones f) ?z s = (\<lambda>u. u = windowAt w (stableKey s) (dayNo (wZone w) u))"
      using True w by (simp add: occurs_def fun_eq_iff)
    thus ?thesis using nextOf_window_first [OF w True, of ?z x] n by auto
  next
    case False
    assume n: "nextOf (fixedZones f) ?z s x = Inr y"
    then obtain c where c: "ParseCron (sExpression s) = Inr c"
      using False by (auto simp: nextOf_def nextFunc_def split: sum.splits)
    have "occurs (fixedZones f) ?z s = cron_matches c ?z" using False c by (simp add: occurs_def fun_eq_iff)
    thus ?thesis using nextOf_cron_first(1) [OF h c False n] by simp
  qed
  show "x < u \<Longrightarrow> u \<le> AddDate ?z x 5 0 0 \<Longrightarrow> occurs (fixedZones f) ?z s u \<Longrightarrow> \<exists>y. nextOf (fixedZones f) ?z s x = Inr y"
  proof (cases "HasPrefix (TrimSpace (sExpression s)) ''@between''")
    case True
    assume "occurs (fixedZones f) ?z s u"
    then obtain w where w: "ParseWindow (fixedZones f) (sExpression s) = Inr w"
      using True by (auto simp: occurs_def split: sum.splits)
    thus ?thesis using nextOf_window_first [OF w True, of ?z x] by blast
  next
    case False
    assume u: "x < u" "u \<le> AddDate ?z x 5 0 0" and o: "occurs (fixedZones f) ?z s u"
    obtain c where c: "ParseCron (sExpression s) = Inr c" "cron_matches c ?z u"
      using o False by (auto simp: occurs_def split: sum.splits)
    show ?thesis by (rule nextOf_cron_first(2) [OF h c(1) False u c(2)])
  qed
qed

end
