(* ===== verification/Schedule_Props.thy ===== *)
theory Schedule_Props
  imports Schedule_Spec
begin

text \<open>
  The properties of the scheduler: windows, ticks and the queue of a target.
\<close>

section \<open>Windows\<close>

lemma Window_Next_same:
  assumes "window_ok w" "wZone w = zone off" "Window_Next w after key = Inr t" "after \<le> x" "x < t"
  shows "Window_Next w x key = Inr t"
proof -
  obtain d where d: "t = windowAt w key d" "\<forall>e < d. windowAt w key e \<le> after"
    using Window_Next_windowAt [OF assms(1,2), of after key] assms(3) by auto
  obtain d' where d': "Window_Next w x key = Inr (windowAt w key d')" "x < windowAt w key d'" "\<forall>e < d'. windowAt w key e \<le> x"
    using Window_Next_windowAt [OF assms(1,2), of x key] by blast
  have "d' = d" using d d' assms(4,5) by (metis linorder_neqE not_less order.trans)
  thus ?thesis using d(1) d'(1) by simp
qed

text \<open>C29. In a zone with a fixed offset, \<open>Next\<close> of every parsed window returns an instant after the given one
  and at most two days later whose local time of day is in the window; asked again at any moment before
  that instant it returns the same one, also when the instants are random.\<close>

theorem Window_Next_in_window:
  assumes "ParseWindow (fixedZones f) expr = Inr w"
  shows "\<exists>t. Window_Next w after key = Inr t \<and> after < t \<and> t < after + 2 * Day
    \<and> wStart w \<le> local (wZone w) t mod Day \<and> local (wZone w) t mod Day < wEnd w \<and> wEnd w < Day
    \<and> (\<forall>x. after \<le> x \<and> x < t \<longrightarrow> Window_Next w x key = Inr t)"
proof -
  note ok = ParseWindow_ok [OF assms]
  obtain off where z: "wZone w = zone off" using ParseWindow_zone [OF assms] by blast
  obtain d where d: "Window_Next w after key = Inr (windowAt w key d)" "after < windowAt w key d" "d \<le> dayNo (zone off) after + 1"
    using Window_Next_windowAt [OF ok z, of after key] by blast
  let ?t = "windowAt w key d"
  have b: "Day * d + wStart w \<le> ?t + off" "?t + off < Day * d + wEnd w"
    using windowAt_bounds(1) [OF ok, of d key] windowAt_bounds(2) [OF ok, of key d] z by (simp_all add: zone_def)
  have "?t + off = Day * d + (?t + off - Day * d)" by simp
  hence "local (wZone w) ?t mod Day = ?t + off - Day * d"
    unfolding z zone_sel by (rule int_mod_pos_eq) (use b ok in \<open>simp_all add: window_ok_def\<close>)
  moreover have "?t < after + 2 * Day"
  proof -
    have "Day * d \<le> Day * (dayNo (zone off) after + 1)" using d(3) units(7) by (intro mult_left_mono) simp_all
    moreover have "Day * dayNo (zone off) after \<le> after + off" using mult_div_le [OF units(7), of "after + off"] by (simp add: zone_sel)
    ultimately show ?thesis using b(2) ok by (simp add: window_ok_def distrib_left)
  qed
  ultimately show ?thesis using d(1,2) b ok Window_Next_same [OF ok z d(1)]
    by (intro exI [of _ ?t]) (simp add: window_ok_def)
qed

definition nightly :: string where "nightly = ''@between 02:00-04:00 UTC random''"

definition utcOnly :: "string \<Rightarrow> int option" where "utcOnly name = (if name = ''UTC'' then Some 0 else None)"

lemma parse_nightly: "ParseWindow (fixedZones utcOnly) nightly
  = Inr \<lparr>wStart = 2 * Hour, wEnd = 4 * Hour, wZone = zone 0, wRandom = True\<rparr>"
proof -
  have "Fields nightly = [''@between'', ''02:00-04:00'', ''UTC'', ''random'']" by code_simp
  moreover have "parseWindowRange ''02:00-04:00'' = Inr (2 * Hour, 4 * Hour)" by code_simp
  ultimately show ?thesis using units(6) by (simp add: ParseWindow_def Let_def fixedZones_def utcOnly_def UTC_zone numeral_eq_Suc)
qed

theorem Window_Next_in_window_witness:
  "\<exists>w t. ParseWindow (fixedZones utcOnly) nightly = Inr w \<and> Window_Next w 0 ''db'' = Inr t \<and> 2 * Hour \<le> t mod Day \<and> t mod Day < 4 * Hour"
  using Window_Next_in_window [OF parse_nightly, of 0 "''db''"] parse_nightly by (auto simp: local_def zone_def)

section \<open>Ticks\<close>

definition seed :: "scheduleState \<Rightarrow> gotime" where
  "seed state = (if \<not> IsZero (ssLastRun state) then ssLastRun state else sCreatedAt (ssSchedule state))"

definition maxRuns :: "scheduleState \<Rightarrow> int" where
  "maxRuns state = (if ssMaxCatchUp state \<le> 0 then 1000 else ssMaxCatchUp state)"

text \<open>The state has handed out all occurrences up to \<open>l\<close> and none after it.\<close>

definition cursor :: "(gotime \<Rightarrow> bool) \<Rightarrow> scheduleState \<Rightarrow> gotime \<Rightarrow> bool" where
  "cursor P state l \<longleftrightarrow>
     (if IsZero (ssNextRun state) then l = seed state \<and> \<not> IsZero l else firstAfter P l (ssNextRun state))"



lemma nextFunc_nextOf: "nextFunc L loc s = Inr fn \<Longrightarrow> nextOf L loc s = fn"
  by (simp add: nextOf_def fun_eq_iff)

lemma tickOne_next:
  assumes P: "P = occurs (fixedZones f) (zone (Hour * k)) (ssSchedule state)"
    and act: "\<not> sPaused (ssSchedule state)" and cur: "cursor P state l"
    and fn: "nextFunc (fixedZones f) (zone (Hour * k)) (ssSchedule state) = Inr fn" and ok: "IsZero (ssNextRun state) \<longrightarrow> fn l = Inr y"
  obtains nxt where "firstAfter P l nxt"
    "tickOne (fixedZones f) (zone (Hour * k)) state now =
      (if now < nxt then Inr (state\<lparr>ssNextRun := nxt\<rparr>, [])
       else (case dueLoop (sID (ssSchedule state)) fn now (maxRuns state) [] nxt of Inl e \<Rightarrow> Inl e
             | Inr (dueTimes, next') \<Rightarrow>
                 let state' = state\<lparr>ssLastRun := last dueTimes, ssNextRun := next'\<rparr> in
                 Inr (state', dueJobsForPolicy state' dueTimes now)))"
proof (cases "IsZero (ssNextRun state)")
  case True
  hence "firstAfter P l y" using ok nextFunc_nextOf [OF fn] sc.next_first unfolding P by blast
  moreover have "fn (if \<not> IsZero (ssLastRun state) then ssLastRun state
             else if \<not> IsZero (sCreatedAt (ssSchedule state)) then sCreatedAt (ssSchedule state) else now) = Inr y"
    using True cur ok by (auto simp: cursor_def seed_def)
  ultimately show ?thesis using that True act fn by (simp add: tickOne_def Let_def maxRuns_def)
next
  case False
  hence "firstAfter P l (ssNextRun state)" using cur by (simp add: cursor_def)
  from that [OF this] False act fn show ?thesis by (simp add: tickOne_def Let_def maxRuns_def)
qed





text \<open>The schedule \<open>@hourly\<close> in UTC.\<close>

lemma hourly_zero:
  assumes "0 \<le> m" "m < 60"
  shows "bs_has (minutes hourly) m = (m = 0)" "bs_has (seconds hourly) m = (m = 0)"
  using assms by (simp_all add: bs_has_bit hourly_def bit_1_iff)

lemma zero_part: "0 < b \<Longrightarrow> b dvd b' \<Longrightarrow> b dvd t \<Longrightarrow> t mod b' div b = 0 \<Longrightarrow> b' dvd t" for b b' t :: int
proof -
  assume b: "0 < b" "b dvd b'" "b dvd t" and z: "t mod b' div b = 0"
  then obtain n q where e: "b' = b * n" "t = b * q" by (auto elim!: dvdE)
  have "t mod b' = b * (q mod n)" unfolding e by simp
  hence "q mod n = 0" using z b(1) by simp
  thus "b' dvd t" unfolding e by (simp add: mod_eq_0_iff_dvd)
qed

lemma hourly_occurs: "cron_matches hourly (zone 0) t \<longleftrightarrow> Hour dvd t"
proof
  assume m: "cron_matches hourly (zone 0) t"
  have "0 \<le> SecondOf (zone 0) t" "SecondOf (zone 0) t < 60" "0 \<le> MinuteOf (zone 0) t" "MinuteOf (zone 0) t < 60"
    using unit_bound [OF units(1,2), of t] unit_bound [OF units(5,3), of t] by (simp_all add: zone_sel)
  hence z: "SecondOf (zone 0) t = 0" "MinuteOf (zone 0) t = 0" "Second dvd t" using m by (simp_all add: cron_matches_def hourly_zero)
  have "Minute dvd t" by (rule zero_part [OF units(1) unit_dvd(1) z(3) z(1) [unfolded zone_sel add_0_right]])
  thus "Hour dvd t" by (rule zero_part [OF units(5) unit_dvd(2) _ z(2) [unfolded zone_sel add_0_right]])
next
  assume "Hour dvd t"
  hence d: "Hour dvd t" "Minute dvd t" "Second dvd t"
    using dvd_trans [OF unit_dvd(2)] dvd_trans [OF unit_dvd(4)] by blast+
  have "1 \<le> Month (zone 0) t" "Month (zone 0) t \<le> 12" using day_parts [of "dayNo (zone 0) t"] by (metis Month_def)+
  hence "bs_has (months hourly) (Month (zone 0) t)" using hourly_sets(1) by simp
  moreover have "0 \<le> HourOf (zone 0) t" "HourOf (zone 0) t < 24"
    using unit_bound [OF units(6,4), of t] by (simp_all add: zone_sel)
  hence "bs_has (hours hourly) (HourOf (zone 0) t)" using hourly_sets(2) by simp
  moreover have "dayMatches hourly (zone 0) t" by (simp add: dayMatches_def hourly_def)
  moreover have "bs_has (minutes hourly) 0" "bs_has (seconds hourly) 0" by (simp_all add: hourly_zero)
  moreover have "SecondOf (zone 0) t = 0" "MinuteOf (zone 0) t = 0"
    using d(1,2) unfolding zone_sel add_0_right by (simp_all only: dvd_eq_mod_eq_0 div_0)
  ultimately show "cron_matches hourly (zone 0) t" using d(3) by (simp add: cron_matches_def)
qed

lemma hourly_first: "firstAfter (\<lambda>t. Hour dvd t) (Hour * j) (Hour * (j + 1))"
proof -
  have "\<not> Hour dvd u" if "Hour * j < u" "u < Hour * (j + 1)" for u
    using that units(6) by (auto simp: dvd_def)
  thus ?thesis using units(6) by (simp add: firstAfter_def)
qed

lemma hourly_between: "between (\<lambda>t. Hour dvd t) (Hour * j) (Hour * (j + int n)) = map (\<lambda>i. Hour * (j + int i)) [1..<Suc n]"
proof (induction n)
  case (Suc n)
  let ?a = "Hour * j" let ?b = "Hour * (j + int n)" let ?c = "Hour * (j + int n + 1)"
  have "between (\<lambda>t. Hour dvd t) ?a ?c = between (\<lambda>t. Hour dvd t) ?a ?b @ between (\<lambda>t. Hour dvd t) ?b ?c"
    by (rule between_split) (use units(6) in simp_all)
  moreover have "between (\<lambda>t. Hour dvd t) ?b ?c = [?c]"
    using between_first [OF hourly_first [of "j + int n"] order.refl] by (simp add: between_def)
  moreover have "?c = Hour * (j + int (Suc n))" by (simp add: add.assoc)
  ultimately show ?case using Suc by simp
qed (simp add: between_def)




definition hourlySchedule :: schedule where
  "hourlySchedule = \<lparr>sID = ''s'', sName = ''s'', sTargetID = ''t'', sStorageID = ''b'', sBackupType = BackupTypeFull,
     sExpression = ''@hourly'', sRetentionPolicy = [], sHooks = \<lparr>PreBackup = [], OnFailure = []\<rparr>, sPaused = False,
     sCreatedAt = Hour, sUpdatedAt = Hour, sLabels = []\<rparr>"

definition hourlyState :: "string \<Rightarrow> scheduleState" where
  "hourlyState policy = \<lparr>ssSchedule = hourlySchedule, ssLastRun = 0, ssNextRun = 0, ssCatchUpPolicy = policy, ssMaxCatchUp = 0\<rparr>"

lemma hourly_schedule_occurs: "occurs L (zone (Hour * 0)) hourlySchedule = (\<lambda>t. Hour dvd t)"
proof -
  have "\<not> HasPrefix (TrimSpace ''@hourly'') ''@between''" by code_simp
  moreover have "sExpression hourlySchedule = ''@hourly''" by (simp add: hourlySchedule_def)
  ultimately show ?thesis using parse_hourly hourly_occurs by (simp add: occurs_def fun_eq_iff)
qed

lemma hourly_cursor: "cursor P (hourlyState policy) Hour" "\<not> sPaused (ssSchedule (hourlyState policy))"
  "ssSchedule (hourlyState policy) = hourlySchedule" "maxRuns (hourlyState policy) = 1000" "ssCatchUpPolicy (hourlyState policy) = policy"
  using units(6) by (simp_all add: cursor_def seed_def hourlyState_def hourlySchedule_def IsZero_def maxRuns_def)

lemma hourly_count: "between (\<lambda>t. Hour dvd t) Hour (Hour * (1 + int n)) = map (\<lambda>i. Hour * (1 + int i)) [1..<Suc n]"
  using hourly_between [of 1 n] by simp



lemma tickOne_exceeds:
  assumes P: "P = occurs (fixedZones f) (zone (Hour * k)) (ssSchedule state)"
    and act: "\<not> sPaused (ssSchedule state)" and cur: "cursor P state l" and l: "l \<le> now" and lim: "maxRuns state < int (length (between P l now))"
  shows "\<exists>e. tickOne (fixedZones f) (zone (Hour * k)) state now = Inl e"
proof (cases "nextFunc (fixedZones f) (zone (Hour * k)) (ssSchedule state)")
  case (Inl e)
  thus ?thesis using act by (simp add: tickOne_def Let_def)
next
  case (Inr fn)
  show ?thesis
  proof (cases "IsZero (ssNextRun state) \<and> (\<exists>e. fn l = Inl e)")
    case True
    hence "fn (if \<not> IsZero (ssLastRun state) then ssLastRun state
        else if \<not> IsZero (sCreatedAt (ssSchedule state)) then sCreatedAt (ssSchedule state) else now) = fn l"
      using cur by (auto simp: cursor_def seed_def)
    thus ?thesis using True act Inr by (auto simp: tickOne_def Let_def)
  next
    case False
    then obtain y where y: "IsZero (ssNextRun state) \<longrightarrow> fn l = Inr y" by (cases "fn l") auto
    obtain nxt where n: "firstAfter P l nxt" and T: "tickOne (fixedZones f) (zone (Hour * k)) state now =
      (if now < nxt then Inr (state\<lparr>ssNextRun := nxt\<rparr>, [])
       else (case dueLoop (sID (ssSchedule state)) fn now (maxRuns state) [] nxt of Inl e \<Rightarrow> Inl e
             | Inr (dueTimes, next') \<Rightarrow>
                 let state' = state\<lparr>ssLastRun := last dueTimes, ssNextRun := next'\<rparr> in
                 Inr (state', dueJobsForPolicy state' dueTimes now)))"
      by (rule tickOne_next [OF P act cur Inr y])
    have "0 < maxRuns state" by (simp add: maxRuns_def)
    hence le: "\<not> now < nxt" using between_none [OF n, of now] lim by auto
    have "\<exists>e. dueLoop (sID (ssSchedule state)) fn now (maxRuns state) [] nxt = Inl e"
      using sc.dueLoop_exceeds [OF n [unfolded P] l, of "maxRuns state" "sID (ssSchedule state)"] lim le P nextFunc_nextOf [OF Inr] by simp
    thus ?thesis using T le by auto
  qed
qed

lemma tickAll_error: "state \<in> set states \<Longrightarrow> tickOne L loc state now = Inl e \<Longrightarrow> \<exists>e'. tickAll L loc states now = Inl e'"
  by (induction states) (auto split: sum.splits)

text \<open>C28. One schedule that has missed more runs than its limit stops them all: \<open>Tick\<close> returns an error for the
  whole list of schedules, then and at every later time, since no state moves on. This is so under every
  catch-up policy, also under the one that runs only the latest occurrence.\<close>

theorem Tick_stops_at_limit:
  assumes "state \<in> set states" "\<not> sPaused (ssSchedule state)"
    "cursor (occurs (fixedZones f) (zone (Hour * k)) (ssSchedule state)) state l" "l \<le> now" "0 < now"
    "maxRuns state < int (length (between (occurs (fixedZones f) (zone (Hour * k)) (ssSchedule state)) l now))" "now \<le> now'"
  shows "\<exists>e. Tick (fixedZones f) (zone (Hour * k)) clock states now' = Inl e"
proof -
  have "maxRuns state < int (length (between (occurs (fixedZones f) (zone (Hour * k)) (ssSchedule state)) l now'))"
    using between_mono [OF assms(7), of "occurs (fixedZones f) (zone (Hour * k)) (ssSchedule state)" l] assms(6) by simp
  hence "\<exists>e. tickOne (fixedZones f) (zone (Hour * k)) state now' = Inl e"
    using tickOne_exceeds [OF refl assms(2,3)] assms(4,7) by simp
  thus ?thesis using tickAll_error [OF assms(1)] assms(5,7) by (auto simp: Tick_def IsZero_def)
qed

theorem Tick_stops_at_limit_witness:
  "\<exists>e. Tick (fixedZones utcOnly) (zone (Hour * 0)) 0 [hourlyState CatchUpSkip] (Hour * 2000) = Inl e"
proof -
  let ?n = "Hour * (1 + int 1001)"
  have "int (length (between (\<lambda>t. Hour dvd t) Hour ?n)) = 1001" unfolding hourly_count by simp
  thus ?thesis
    using Tick_stops_at_limit [of "hourlyState CatchUpSkip" "[hourlyState CatchUpSkip]" utcOnly 0 Hour ?n "Hour * 2000", unfolded hourly_cursor hourly_schedule_occurs]
      hourly_cursor units(6) by auto
qed

section \<open>Windows across a clock change\<close>

lemma Window_Next_today: "after < windowCandidate w after key 0 \<Longrightarrow> Window_Next w after key = Inr (windowCandidate w after key 0)"
proof -
  assume "after < windowCandidate w after key 0"
  hence "windowLoop w after key 0 (Suc n) = Inr (windowCandidate w after key 0)" for n by (simp only: windowLoop.simps Let_def if_True)
  moreover have "(370 :: nat) = Suc 369" by simp
  ultimately show ?thesis by (simp only: Window_Next_def)
qed

definition autumn :: "int \<Rightarrow> location" where
  "autumn d t = (if t < Day * d + Hour then 2 * Hour else Hour)"

text \<open>On the day on which the clocks go back, a window opens an hour early by the clock of its zone: \<open>Next\<close>
  adds the start of the window to the midnight of the day, and for a window from 04:00 to 05:00 it returns an instant
  at which the local clock reads 03:00.\<close>

theorem Window_early_after_clock_change:
  "\<exists>w. ParseWindow (\<lambda>_. Some (autumn d)) ''@between 04:00-05:00 Europe/Berlin'' = Inr w \<and> wStart w = 4 * Hour
    \<and> Window_Next w (Day * d - 2 * Hour) key = Inr (Day * d + 2 * Hour)
    \<and> local (wZone w) (Day * d + 2 * Hour) mod Day = 3 * Hour"
proof -
  let ?w = "\<lparr>wStart = 4 * Hour, wEnd = 5 * Hour, wZone = autumn d, wRandom = False\<rparr>" and ?t = "Day * d - 2 * Hour"
  have F: "Fields ''@between 04:00-05:00 Europe/Berlin'' = [''@between'', ''04:00-05:00'', ''Europe/Berlin'']" by code_simp
  have R: "parseWindowRange ''04:00-05:00'' = Inr (4 * Hour, 5 * Hour)" by code_simp
  have p: "ParseWindow (\<lambda>_. Some (autumn d)) ''@between 04:00-05:00 Europe/Berlin'' = Inr ?w"
    using F R units(6) by (simp add: ParseWindow_def Let_def numeral_eq_Suc)
  have H: "0 < Hour" "3 * Hour < Day" by code_simp+
  have "local (autumn d) ?t = Day * d" using H(1) by (simp add: local_def autumn_def)
  hence D: "dayNo (autumn d) ?t = d" using units(7) by (simp add: dayNo_def)
  have "Date (Year (autumn d) ?t) (Month (autumn d) ?t) (MDay (autumn d) ?t) 0 0 0 0 (autumn d) = ?t"
    unfolding Year_def Month_def MDay_def D Date_def Let_def dateDays_parts [of d 0, simplified]
    using H(1) by (simp add: autumn_def mult.commute [of d])
  hence "windowCandidate ?w ?t key 0 = Day * d + 2 * Hour" by (simp add: windowCandidate_def Let_def)
  hence "Window_Next ?w ?t key = Inr (Day * d + 2 * Hour)" using H Window_Next_today [of ?t ?w key] by simp
  moreover have "local (autumn d) (Day * d + 2 * Hour) mod Day = 3 * Hour"
    by (rule int_mod_pos_eq [of _ _ d]) (use H in \<open>simp_all add: local_def autumn_def\<close>)
  ultimately show ?thesis using p by simp
qed

section \<open>The queue of a target\<close>

text \<open>The specification: every target has the list of its unfinished jobs, of which the first one runs.\<close>

fun specEnqueue :: "dueJob list \<Rightarrow> (ident \<Rightarrow> dueJob list) \<Rightarrow> dueJob list \<times> (ident \<Rightarrow> dueJob list)" where
  "specEnqueue [] u = ([], u)"
| "specEnqueue (job # jobs) u =
     (let t = djTargetID job; (ready, u') = specEnqueue jobs (u(t := u t @ [job])) in
      (if u t = [] then job # ready else ready, u'))"

definition specComplete :: "ident \<Rightarrow> (ident \<Rightarrow> dueJob list) \<Rightarrow> dueJob option \<times> (ident \<Rightarrow> dueJob list)" where
  "specComplete t u = (case tl (u t) of [] \<Rightarrow> None | job # _ \<Rightarrow> Some job, u(t := tl (u t)))"

datatype queueOp = Submit "dueJob list" | Finish ident

fun queueRun :: "(dueJob list \<Rightarrow> 'q \<Rightarrow> dueJob list \<times> 'q) \<Rightarrow> (ident \<Rightarrow> 'q \<Rightarrow> dueJob option \<times> 'q) \<Rightarrow> queueOp list \<Rightarrow> 'q \<Rightarrow> dueJob list list \<times> 'q" where
  "queueRun enq fin [] q = ([], q)"
| "queueRun enq fin (Submit jobs # ops) q =
     (let (ready, q') = enq jobs q; (outs, q'') = queueRun enq fin ops q' in (ready # outs, q''))"
| "queueRun enq fin (Finish t # ops) q =
     (let (next, q') = fin t q; (outs, q'') = queueRun enq fin ops q' in ((case next of None \<Rightarrow> [] | Some j \<Rightarrow> [j]) # outs, q''))"

locale job_queue =
  fixes enq :: "dueJob list \<Rightarrow> 'q \<Rightarrow> dueJob list \<times> 'q" and fin :: "ident \<Rightarrow> 'q \<Rightarrow> dueJob option \<times> 'q"
    and rel :: "'q \<Rightarrow> (ident \<Rightarrow> dueJob list) \<Rightarrow> bool"
  assumes enq_sim: "rel q u \<Longrightarrow> fst (enq jobs q) = fst (specEnqueue jobs u) \<and> rel (snd (enq jobs q)) (snd (specEnqueue jobs u))"
    and fin_sim: "rel q u \<Longrightarrow> fst (fin t q) = fst (specComplete t u) \<and> rel (snd (fin t q)) (snd (specComplete t u))"
begin

lemma run_sim:
  "rel q u \<Longrightarrow> fst (queueRun enq fin ops q) = fst (queueRun specEnqueue specComplete ops u)
    \<and> rel (snd (queueRun enq fin ops q)) (snd (queueRun specEnqueue specComplete ops u))"
proof (induction ops arbitrary: q u)
  case (Cons x ops)
  show ?case
  proof (cases x)
    case (Submit jobs)
    thus ?thesis using enq_sim [OF Cons.prems, of jobs] Cons.IH [of "snd (enq jobs q)" "snd (specEnqueue jobs u)"]
      by (simp add: split_beta Let_def)
  next
    case (Finish t)
    thus ?thesis using fin_sim [OF Cons.prems, of t] Cons.IH [of "snd (fin t q)" "snd (specComplete t u)"]
      by (simp add: split_beta Let_def)
  qed
qed simp

end

definition queueRel :: "targetQueue \<Rightarrow> (ident \<Rightarrow> dueJob list) \<Rightarrow> bool" where
  "queueRel q u \<longleftrightarrow> (\<forall>t. isRunning q t = (u t \<noteq> []) \<and> queuedOf q t = tl (u t))"

lemma queueRel_enq: "queueRel q u \<Longrightarrow> fst (Enqueue jobs q) = fst (specEnqueue jobs u) \<and> queueRel (snd (Enqueue jobs q)) (snd (specEnqueue jobs u))"
proof (induction jobs q arbitrary: u rule: Enqueue.induct)
  case (2 job jobs q)
  let ?t = "djTargetID job" let ?u = "u(?t := u ?t @ [job])"
  note r = 2(3)
  have e: "isRunning q ?t = (u ?t \<noteq> [])" using r by (simp add: queueRel_def)
  show ?case
  proof (cases "isRunning q ?t")
    case True
    let ?q = "q\<lparr>queued := (queued q)(?t \<mapsto> queuedOf q ?t @ [job])\<rparr>"
    have "queueRel ?q ?u" using r True by (auto simp: queueRel_def isRunning_def queuedOf_def)
    from 2(2) [OF refl _ this] show ?thesis using True e by (simp add: Let_def split_beta fun_upd_def)
  next
    case False
    let ?q = "q\<lparr>running := (running q)(?t \<mapsto> True)\<rparr>"
    have "queueRel ?q ?u" using r False by (auto simp: queueRel_def isRunning_def queuedOf_def)
    from 2(1) [OF refl False this] show ?thesis using False e by (simp add: Let_def split_beta fun_upd_def)
  qed
qed simp

lemma queueRel_fin: "queueRel q u \<Longrightarrow> fst (Complete t q) = fst (specComplete t u) \<and> queueRel (snd (Complete t q)) (snd (specComplete t u))"
proof -
  assume r: "queueRel q u"
  hence q: "queuedOf q t = tl (u t)" by (simp add: queueRel_def)
  show ?thesis
  proof (cases "tl (u t)")
    case Nil
    thus ?thesis using r q by (auto simp: Complete_def specComplete_def queueRel_def isRunning_def queuedOf_def)
  next
    case (Cons j js)
    thus ?thesis using r q by (auto simp: Complete_def specComplete_def queueRel_def isRunning_def queuedOf_def)
  qed
qed

interpretation tq: job_queue Enqueue Complete queueRel
  by unfold_locales (rule queueRel_enq, assumption, rule queueRel_fin, assumption)

text \<open>C30. The queue runs the jobs of every target one at a time and in the order of their submission: over any sequence of
  submissions and completions it starts the same jobs at the same moments as the specification in which every target has the list
  of its unfinished jobs and the first of them runs, and it reports those behind the first as pending.\<close>

theorem TargetQueue_refines:
  "fst (queueRun Enqueue Complete ops NewTargetQueue) = fst (queueRun specEnqueue specComplete ops (\<lambda>_. []))
    \<and> Pending (snd (queueRun Enqueue Complete ops NewTargetQueue)) t
      = length (tl (snd (queueRun specEnqueue specComplete ops (\<lambda>_. [])) t))"
proof -
  have "queueRel NewTargetQueue (\<lambda>_. [])" by (simp add: queueRel_def NewTargetQueue_def isRunning_def queuedOf_def)
  from tq.run_sim [OF this, of ops] show ?thesis by (simp add: queueRel_def Pending_def)
qed

end
