(* ===== verification/Server_Types.thy ===== *)
theory Server_Types
  imports Core_Types
begin

text \<open>
  The records of \<open>internal/core/types.go\<close> that the control plane stores: jobs with their reports and
  evidence, targets, storages, users, notification rules, tokens and audit events. A pointer field is an
  option, a map with string keys an association list.
\<close>

section \<open>Names\<close>

definition TargetDriverPostgres :: string where "TargetDriverPostgres = ''postgres''"

definition TargetDriverMySQL :: string where "TargetDriverMySQL = ''mysql''"

definition TargetDriverMongoDB :: string where "TargetDriverMongoDB = ''mongodb''"

definition TargetDriverRedis :: string where "TargetDriverRedis = ''redis''"

definition StorageKindLocal :: string where "StorageKindLocal = ''local''"

definition StorageKindS3 :: string where "StorageKindS3 = ''s3''"

definition StorageKindSFTP :: string where "StorageKindSFTP = ''sftp''"

definition StorageKindAzure :: string where "StorageKindAzure = ''azure''"

definition StorageKindGCS :: string where "StorageKindGCS = ''gcs''"

definition JobStatusQueued :: string where "JobStatusQueued = ''queued''"

definition JobStatusRunning :: string where "JobStatusRunning = ''running''"

definition JobStatusFinalizing :: string where "JobStatusFinalizing = ''finalizing''"

definition JobStatusSucceeded :: string where "JobStatusSucceeded = ''succeeded''"

definition JobStatusFailed :: string where "JobStatusFailed = ''failed''"

definition JobStatusCanceled :: string where "JobStatusCanceled = ''canceled''"

definition JobOperationBackup :: string where "JobOperationBackup = ''backup''"

definition JobOperationRestore :: string where "JobOperationRestore = ''restore''"

definition JobOperationVerify :: string where "JobOperationVerify = ''verify''"

definition RoleAdmin :: string where "RoleAdmin = ''admin''"

definition RoleOperator :: string where "RoleOperator = ''operator''"

definition RoleViewer :: string where "RoleViewer = ''viewer''"

lemmas jobStatus_defs = JobStatusQueued_def JobStatusRunning_def JobStatusFinalizing_def JobStatusSucceeded_def
  JobStatusFailed_def JobStatusCanceled_def

section \<open>New identifiers\<close>

text \<open>\<open>Time.UnixMilli\<close>: milliseconds since 1970, which is 719162 days after year 1.\<close>

definition UnixMilli :: "gotime \<Rightarrow> int" where
  "UnixMilli t = (t - 719162 * Day) div 1000000"

definition NewID :: "gotime \<Rightarrow> bytes option \<Rightarrow> ident option" where
  "NewID now entropy = newID (UnixMilli now) entropy"

section \<open>Reports and evidence\<close>

record failureEvidence =
  feOperation :: string
  feStage :: string
  feMessage :: string
  feBackupID :: ident
  feTargetID :: ident
  feStorageID :: ident
  feManifestIDs :: "ident list"
  feAt :: gotime

record restoreReport =
  reBackupID :: ident
  reTargetID :: ident
  reManifestIDs :: "ident list"
  reObjects :: int
  reChunks :: int
  reStoredBytes :: int
  reRestoredBytes :: int
  reDryRun :: bool

record verificationReport =
  veBackupID :: ident
  veLevel :: string
  veManifestIDs :: "ident list"
  veObjects :: int
  veChunks :: int
  veVerifiedChunks :: int
  veStoredBytes :: int
  veRestoredBytes :: int

record restoreEvidence =
  evOperation :: string
  evStatus :: string
  evBackupID :: ident
  evTargetID :: ident
  evStorageID :: ident
  evManifestIDs :: "ident list"
  evRestoreAt :: gotime
  evDryRun :: bool
  evReplaceExisting :: bool
  evQueuedAt :: gotime
  evStartedAt :: gotime
  evEndedAt :: gotime
  evError :: string
  evReport :: "restoreReport option"
  evFailure :: "failureEvidence option"

record evidenceArtifact =
  eaID :: ident
  eaJobID :: ident
  eaKind :: string
  eaSHA256 :: string
  eaCreatedAt :: gotime
  eaRestore :: "restoreEvidence option"

section \<open>Jobs\<close>

record job =
  jID :: ident
  jOperation :: string
  jScheduleID :: ident
  jTargetID :: ident
  jStorageID :: ident
  jType :: string
  jAgentID :: string
  jParentBackupID :: ident
  jRestoreBackupID :: ident
  jRestoreManifestID :: ident
  jRestoreManifestIDs :: "ident list"
  jRestoreTargetID :: ident
  jRestoreAt :: gotime
  jRestoreDryRun :: bool
  jRestoreReplaceExisting :: bool
  jRestoreReport :: "restoreReport option"
  jFailureEvidence :: "failureEvidence option"
  jEvidenceArtifact :: "evidenceArtifact option"
  jVerifyBackupID :: ident
  jVerifyManifestID :: ident
  jVerifyManifestIDs :: "ident list"
  jVerifyLevel :: string
  jVerifyReport :: "verificationReport option"
  jHooks :: jobHooks
  jStatus :: string
  jQueuedAt :: gotime
  jStartedAt :: gotime
  jEndedAt :: gotime
  jError :: string

text \<open>The job with every field at its zero value.\<close>

definition zeroJob :: job where
  "zeroJob = \<lparr>jID = [], jOperation = [], jScheduleID = [], jTargetID = [], jStorageID = [], jType = [], jAgentID = [],
     jParentBackupID = [], jRestoreBackupID = [], jRestoreManifestID = [], jRestoreManifestIDs = [], jRestoreTargetID = [],
     jRestoreAt = 0, jRestoreDryRun = False, jRestoreReplaceExisting = False, jRestoreReport = None, jFailureEvidence = None,
     jEvidenceArtifact = None, jVerifyBackupID = [], jVerifyManifestID = [], jVerifyManifestIDs = [], jVerifyLevel = [],
     jVerifyReport = None, jHooks = \<lparr>PreBackup = [], OnFailure = []\<rparr>, jStatus = [], jQueuedAt = 0, jStartedAt = 0,
     jEndedAt = 0, jError = []\<rparr>"

section \<open>Other resources\<close>

record target =
  tgID :: ident
  tgName :: string
  tgDriver :: string
  tgEndpoint :: string
  tgDatabase :: string
  tgOptions :: "(string \<times> anyval) list"
  tgCreatedAt :: gotime
  tgUpdatedAt :: gotime
  tgLabels :: "(string \<times> string) list"

record storage =
  stID :: ident
  stName :: string
  stKind :: string
  stURI :: string
  stOptions :: "(string \<times> anyval) list"
  stCreatedAt :: gotime
  stUpdatedAt :: gotime
  stLabels :: "(string \<times> string) list"

record user =
  usID :: ident
  usEmail :: string
  usDisplayName :: string
  usRole :: string
  usTOTPEnforced :: bool
  usCreatedAt :: gotime
  usUpdatedAt :: gotime

record auditEvent =
  aeSeq :: nat
  aeID :: ident
  aeActorID :: ident
  aeAction :: string
  aeResourceType :: string
  aeResourceID :: ident
  aeMetadata :: "(string \<times> anyval) list"
  aeOccurredAt :: gotime
  aePrevHash :: string
  aeHash :: string

record token =
  toID :: ident
  toUserID :: ident
  toName :: string
  toScopes :: "string list"
  toExpiresAt :: gotime
  toCreatedAt :: gotime
  toRevokedAt :: gotime

end
