(* ===== verification/Store.thy ===== *)
theory Store
  imports Bucket Server_Types Envelope
begin

text \<open>
  Records in buckets of the embedded database: the helpers \<open>saveJSON\<close>, \<open>getJSON\<close>, \<open>listJSON\<close> and
  \<open>deleteKey\<close> of \<open>internal/server/resource_store.go\<close>, which every store of the control plane uses.
  The JSON encoding of a record type is a parameter.

  Shown here: the rows of a bucket, that a transaction which puts one row changes exactly this row of
  this bucket, and what the helpers return in terms of the rows.
\<close>

section \<open>Encodings and errors\<close>

record 'a codec =
  Marshal :: "'a \<Rightarrow> bytes option"
  Unmarshal :: "bytes \<Rightarrow> 'a option"

text \<open>What an encoder writes, its decoder reads back.\<close>

definition codec_ok :: "'a codec \<Rightarrow> bool" where
  "codec_ok C \<longleftrightarrow> (\<forall>r data. Marshal C r = Some data \<longrightarrow> Unmarshal C data = Some r)"

datatype server_error =
    KVError kv_error
  | JSONError
  | Invalid string
  | NotFound string ident
  | WrongStatus ident string
  | NotTerminal string
  | NoEntropy
  | SchedError
  | HTTPError int string
  | HTTPCause int server_error
  | CipherError env_error
  | Panicked

fun mapE :: "('a \<Rightarrow> 'e + 'b) \<Rightarrow> 'a list \<Rightarrow> 'e + 'b list" where
  "mapE f [] = Inr []"
| "mapE f (x # xs) = (case f x of Inl e \<Rightarrow> Inl e | Inr y \<Rightarrow> (case mapE f xs of Inl e \<Rightarrow> Inl e | Inr ys \<Rightarrow> Inr (y # ys)))"

section \<open>The helpers\<close>

definition liftKV :: "kv_error + 'a \<Rightarrow> server_error + 'a" where
  "liftKV r = (case r of Inl e \<Rightarrow> Inl (KVError e) | Inr x \<Rightarrow> Inr x)"

definition bucketPutTx :: "bytes \<Rightarrow> bytes \<Rightarrow> bytes \<Rightarrow> tx \<Rightarrow> (pager, kv_error, unit) op" where
  "bucketPutTx nm k data t p = (case Tx_Bucket t nm of Inl e \<Rightarrow> (Inl e, p) | Inr b \<Rightarrow> Bucket_Put b k data p)"

definition saveJSON :: "'a codec \<Rightarrow> bytes \<Rightarrow> bytes \<Rightarrow> 'a \<Rightarrow> (kvdb, server_error, unit) op" where
  "saveJSON C nm k r db =
     (if k = [] then (Inl (Invalid ''key is required''), db)
      else (case Marshal C r of None \<Rightarrow> (Inl JSONError, db)
            | Some data \<Rightarrow> (case Update (bucketPutTx nm k data) db of (x, db') \<Rightarrow> (liftKV x, db'))))"

definition getRaw :: "bytes \<Rightarrow> bytes \<Rightarrow> kvdb \<Rightarrow> server_error + bytes option" where
  "getRaw nm k db = liftKV (View (\<lambda>t p. case Tx_Bucket t nm of Inl e \<Rightarrow> Inl e | Inr b \<Rightarrow> Bucket_Get b k p) db)"

definition getJSON :: "'a codec \<Rightarrow> bytes \<Rightarrow> bytes \<Rightarrow> kvdb \<Rightarrow> server_error + 'a option" where
  "getJSON C nm k db =
     (if k = [] then Inl (Invalid ''key is required'')
      else (case getRaw nm k db of Inl e \<Rightarrow> Inl e | Inr None \<Rightarrow> Inr None
            | Inr (Some data) \<Rightarrow> (case Unmarshal C data of None \<Rightarrow> Inl JSONError | Some r \<Rightarrow> Inr (Some r))))"

text \<open>The loop of \<open>listJSON\<close>, with the callback.\<close>

fun listLoop :: "(bytes \<Rightarrow> server_error + 'a) \<Rightarrow> bucket \<Rightarrow> nat \<Rightarrow> pager \<Rightarrow> iter \<Rightarrow> server_error + 'a list" where
  "listLoop fn b rounds p it =
     (if BucketIterator_Valid b it then
        (case fn (BucketIterator_Value b it) of Inl e \<Rightarrow> Inl e
         | Inr x \<Rightarrow>
           (case rounds of 0 \<Rightarrow> Inl (KVError OutOfFuel) | Suc r \<Rightarrow>
            (case listLoop fn b r p (BucketIterator_Next p it) of Inl e \<Rightarrow> Inl e | Inr xs \<Rightarrow> Inr (x # xs))))
      else (case itErr it of Some e \<Rightarrow> Inl (KVError e) | None \<Rightarrow> Inr []))"

declare listLoop.simps [simp del]

definition listJSON :: "bytes \<Rightarrow> (bytes \<Rightarrow> server_error + 'a) \<Rightarrow> kvdb \<Rightarrow> server_error + 'a list" where
  "listJSON nm fn db =
     (if dbClosed db then Inl (KVError DatabaseClosed)
      else
        let t = \<lparr>txRoot = dbRoot db, txWritable = False\<rparr>; p = dbPager db in
        (case Tx_Bucket t nm of Inl e \<Rightarrow> Inl (KVError e)
         | Inr b \<Rightarrow>
           (case Bucket_Scan b [1] None p of Inl e \<Rightarrow> Inl (KVError e)
            | Inr it \<Rightarrow> listLoop fn b (PageCount p * PageSize) p it)))"

definition decode :: "'a codec \<Rightarrow> bytes \<Rightarrow> server_error + 'a" where
  "decode C data = (case Unmarshal C data of None \<Rightarrow> Inl JSONError | Some r \<Rightarrow> Inr r)"

definition deleteKey :: "bytes \<Rightarrow> bytes \<Rightarrow> (kvdb, server_error, unit) op" where
  "deleteKey nm k db =
     (if k = [] then (Inl (Invalid ''key is required''), db)
      else (case Update (\<lambda>t p. case Tx_Bucket t nm of Inl e \<Rightarrow> (Inl e, p) | Inr b \<Rightarrow> Bucket_Delete b k p) db of
              (x, db') \<Rightarrow> (liftKV x, db')))"

section \<open>Rows\<close>

definition rows :: "bytes \<Rightarrow> (bytes \<times> bytes) list \<Rightarrow> (bytes \<times> bytes) list" where
  "rows nm kv = map (\<lambda>x. (drop (length nm + 1) (fst x), snd x)) (filter (\<lambda>x. take (length nm + 1) (fst x) = nm @ [0]) kv)"

lemma take_prefix_iff: "take (length nm + 1) x = nm @ [0] \<longleftrightarrow> (\<exists>k. x = nm @ 0 # k)"
  by (metis append.assoc append_Cons append_Nil append_eq_conv_conj append_take_drop_id length_append_singleton Suc_eq_plus1)

lemma bytes_less_append: "(p @ x :: bytes) < p @ y \<longleftrightarrow> x < y"
  by (induction p) simp_all

lemma map_of_rows: "map_of (rows nm kv) k = map_of kv (nm @ 0 # k)"
proof (induction kv)
  case (Cons x xs)
  show ?case
  proof (cases "take (length nm + 1) (fst x) = nm @ [0]")
    case True
    then obtain l where "fst x = nm @ 0 # l" using take_prefix_iff by blast
    thus ?thesis using Cons by (cases x) (simp add: rows_def)
  next
    case False
    hence "fst x \<noteq> nm @ 0 # k" using take_prefix_iff by blast
    thus ?thesis using Cons False by (cases x) (simp add: rows_def)
  qed
qed (simp add: rows_def)

lemma rows_sorted: "kv_sorted kv \<Longrightarrow> kv_sorted (rows nm kv)"
proof (induction kv)
  case (Cons x xs)
  show ?case
  proof (cases "take (length nm + 1) (fst x) = nm @ [0]")
    case True
    then obtain l where l: "fst x = nm @ 0 # l" using take_prefix_iff by blast
    have "l < fst y" if y: "y \<in> set (rows nm xs)" for y
    proof -
      obtain z where z: "z \<in> set xs" "take (length nm + 1) (fst z) = nm @ [0]" "fst y = drop (length nm + 1) (fst z)"
        using y by (auto simp: rows_def)
      then obtain m where m: "fst z = nm @ 0 # m" using take_prefix_iff by blast
      have "fst x < fst z" using Cons.prems z(1) by (simp add: kv_simps)
      thus ?thesis using z(3) l m by (simp add: bytes_less_append)
    qed
    moreover have "rows nm (x # xs) = (l, snd x) # rows nm xs" using True l by (simp add: rows_def)
    ultimately show ?thesis using Cons by (simp add: kv_simps)
  next
    case False
    thus ?thesis using Cons by (simp add: rows_def kv_simps)
  qed
qed (simp add: rows_def kv_simps)

text \<open>Sorted pairs are determined by the map they give.\<close>

lemma kv_sorted_set_eq:
  "kv_sorted xs \<Longrightarrow> kv_sorted ys \<Longrightarrow> map_of xs = map_of ys \<Longrightarrow> xs = ys"
proof -
  assume s: "kv_sorted xs" "kv_sorted ys" and m: "map_of xs = map_of ys"
  have d: "distinct (map fst xs)" "distinct (map fst ys)" using s strict_sorted_iff unfolding kv_sorted_def by blast+
  have "set xs = set ys" using m d by (metis map_of_inject_set)
  moreover have "sorted (map fst xs)" "sorted (map fst ys)" using s strict_sorted_iff unfolding kv_sorted_def by blast+
  moreover have "inj_on fst (set xs \<union> set ys)" using d(1) calculation(1) by (simp add: distinct_map)
  ultimately show "xs = ys" using d map_sorted_distinct_set_unique [of fst xs ys] by blast
qed

lemma rows_upd:
  assumes "kv_sorted kv" "label nm" "label nm'"
  shows "rows nm' (kv_upd (nm @ 0 # k) v kv) = (if nm' = nm then kv_upd k v (rows nm kv) else rows nm' kv)"
proof (rule kv_sorted_set_eq)
  show "kv_sorted (rows nm' (kv_upd (nm @ 0 # k) v kv))" by (intro rows_sorted kv_sorted_kv_upd assms)
  show "kv_sorted (if nm' = nm then kv_upd k v (rows nm kv) else rows nm' kv)"
    using assms(1) by (simp add: rows_sorted kv_sorted_kv_upd)
  have "nm' @ 0 # l = nm @ 0 # k \<longleftrightarrow> nm' = nm \<and> l = k" for l using label_split [OF assms(3,2)] by auto
  thus "map_of (rows nm' (kv_upd (nm @ 0 # k) v kv)) = map_of (if nm' = nm then kv_upd k v (rows nm kv) else rows nm' kv)"
    using assms(1) by (auto simp: map_of_rows map_of_kv_upd rows_sorted fun_eq_iff)
qed

lemma rows_snoc:
  assumes "kv_sorted xs" "\<forall>x \<in> set xs. fst x < k"
  shows "kv_upd k v xs = xs @ [(k, v)]"
proof -
  have "takeWhile (\<lambda>p. fst p < k) xs = xs" "dropWhile (\<lambda>p. fst p \<le> k) xs = []" using assms(2) by (auto simp: less_imp_le)
  thus ?thesis by (simp add: kv_upd_def)
qed

section \<open>Transactions\<close>

text \<open>What a transaction function keeps of the page file when it succeeds.\<close>

definition txn_post :: "pager \<Rightarrow> ptree \<Rightarrow> pager \<Rightarrow> ptree \<Rightarrow> bool" where
  "txn_post p t q t' \<longleftrightarrow> tree_in q t' \<and> tid t' = tid t \<and> RootPage q = RootPage p \<and> disk_limit q = disk_limit p
     \<and> (linked (leaves t) 0 \<longrightarrow> linked (leaves t') 0)"

lemma txn_post_trans: "txn_post p t q t' \<Longrightarrow> txn_post q t' r t'' \<Longrightarrow> txn_post p t r t''"
  by (auto simp: txn_post_def)

lemma Tx_Bucket_label: "label nm \<Longrightarrow> Tx_Bucket t nm = Inr \<lparr>bTx = t, bPrefix = nm @ [0]\<rparr>"
  by (simp add: Tx_Bucket_def label_def bucketPrefix_def bucketSeparator_def)

lemma Bucket_Put_txn:
  assumes "tree_in p t" "txRoot (bTx b) = tid t" "Bucket_Put b k v p = (Inr u, q)"
  obtains t' where "txn_post p t q t'" "kvs t' = kv_upd (bPrefix b @ k) v (kvs t)" "label k"
proof -
  obtain t' where t': "tree_in q t'" "tid t' = tid t" "kvs t' = kv_upd (bPrefix b @ k) v (kvs t)" "label k"
    "linked (leaves t) 0 \<longrightarrow> linked (leaves t') 0" by (rule Bucket_Put_in [OF assms])
  have "BTree_Put pagerStore (PageCount p) (tid t) (bPrefix b @ k) v p = (Inr u, q)"
    using assms(2,3) by (auto simp: Bucket_Put_def Bucket_key_def Tx_Put_def split: if_splits)
  hence "RootPage q = RootPage p" "disk_limit q = disk_limit p"
    using keepsD [OF pagerStore_keeps(1)] keepsD [OF pagerStore_keeps(2)] by metis+
  thus thesis using t' that by (simp add: txn_post_def)
qed

lemma Update_txn:
  assumes "db_ok db t" "Update fn db = (Inr x, db')"
    and post: "\<And>q. fn \<lparr>txRoot = dbRoot db, txWritable = True\<rparr> (dbPager db) = (Inr x, q) \<Longrightarrow> \<exists>t'. txn_post (dbPager db) t q t' \<and> Q t'"
  obtains t' where "db_ok db' t'" "Q t'" "linked (leaves t) 0 \<longrightarrow> linked (leaves t') 0"
    "disk_limit (dbPager db') = disk_limit (dbPager db)"
proof -
  note d = db_okD [OF assms(1)]
  obtain y q where run: "fn \<lparr>txRoot = dbRoot db, txWritable = True\<rparr> (dbPager db) = (y, q)" by fastforce
  have y: "y = Inr x"
  proof (cases y)
    case (Inl e)
    thus ?thesis using run d(6) assms(2) by (auto simp: Update_def Let_def split: prod.splits sum.splits)
  next
    case (Inr z)
    thus ?thesis using run d(6) assms(2) by (auto simp: Update_def Let_def split: prod.splits sum.splits)
  qed
  then obtain t' where t': "txn_post (dbPager db) t q t'" "Q t'" using post run by blast
  hence "pager_inv q" by (simp add: txn_post_def tree_in_def)
  hence "db' = db\<lparr>dbPager := q, dbWal := None\<rparr>" using Update_commit [of db fn x q] d(6) run y assms(2) by simp
  thus thesis using t' d by (intro that [of t']) (auto simp: db_ok_def txn_post_def)
qed

lemma bucketPutTx_post:
  assumes "tree_in p t" "txRoot x = tid t" "label nm" "bucketPutTx nm k data x p = (Inr u, q)"
  obtains t' where "txn_post p t q t'" "kvs t' = kv_upd (nm @ 0 # k) data (kvs t)" "label k"
proof -
  have "Bucket_Put \<lparr>bTx = x, bPrefix = nm @ [0]\<rparr> k data p = (Inr u, q)"
    using assms(4) by (simp add: bucketPutTx_def Tx_Bucket_label [OF assms(3)])
  from Bucket_Put_txn [OF assms(1) _ this] assms(2) that show thesis by auto
qed

section \<open>The helpers on the rows of a bucket\<close>

definition db_kv :: "kvdb \<Rightarrow> (bytes \<times> bytes) list \<Rightarrow> bool" where
  "db_kv db kv \<longleftrightarrow> (\<exists>t. db_ok db t \<and> linked (leaves t) 0 \<and> kvs t = kv)"

lemma db_kv_sorted: "db_kv db kv \<Longrightarrow> kv_sorted kv"
  using db_okD(1) root_ok_sorted by (fastforce simp: db_kv_def tree_in_def)

lemma Update_kv:
  assumes "db_kv db kv" "Update fn db = (Inr x, db')"
    and post: "\<And>t q. tree_in (dbPager db) t \<Longrightarrow> tid t = dbRoot db \<Longrightarrow> kvs t = kv \<Longrightarrow>
      fn \<lparr>txRoot = dbRoot db, txWritable = True\<rparr> (dbPager db) = (Inr x, q) \<Longrightarrow> \<exists>t'. txn_post (dbPager db) t q t' \<and> Q (kvs t')"
  obtains kv' where "db_kv db' kv'" "Q kv'"
proof -
  obtain t where t: "db_ok db t" "linked (leaves t) 0" "kvs t = kv" using assms(1) by (auto simp: db_kv_def)
  obtain t' where "db_ok db' t'" "Q (kvs t')" "linked (leaves t) 0 \<longrightarrow> linked (leaves t') 0"
      "disk_limit (dbPager db') = disk_limit (dbPager db)"
    by (rule Update_txn [OF t(1) assms(2), of "\<lambda>t'. Q (kvs t')"]) (use post db_okD [OF t(1)] t(3) in blast)+
  thus thesis using t(2) that by (auto simp: db_kv_def)
qed

lemma saveJSON_kv:
  assumes "db_kv db kv" "label nm" "saveJSON C nm k r db = (Inr u, db')"
  obtains data where "Marshal C r = Some data" "label k" "db_kv db' (kv_upd (nm @ 0 # k) data kv)"
proof -
  obtain data where data: "Marshal C r = Some data" "Update (bucketPutTx nm k data) db = (Inr u, db')"
    using assms(3) by (auto simp: saveJSON_def liftKV_def split: if_splits option.splits prod.splits sum.splits)
  obtain kv' where "db_kv db' kv'" "kv' = kv_upd (nm @ 0 # k) data kv \<and> label k"
  proof (rule Update_kv [OF assms(1) data(2)])
    fix t q assume t: "tree_in (dbPager db) t" "tid t = dbRoot db" "kvs t = kv"
      "bucketPutTx nm k data \<lparr>txRoot = dbRoot db, txWritable = True\<rparr> (dbPager db) = (Inr u, q)"
    show "\<exists>t'. txn_post (dbPager db) t q t' \<and> (kvs t' = kv_upd (nm @ 0 # k) data kv \<and> label k)"
      by (rule bucketPutTx_post [OF t(1) _ assms(2) t(4)]) (use t(2,3) in auto)
  qed
  thus thesis using data(1) that by blast
qed

lemma getRaw_kv:
  assumes "db_kv db kv" "label nm"
  shows "getRaw nm k db = (if label k then Inr (map_of (rows nm kv) k) else Inl (KVError InvalidBucketKey))"
proof -
  obtain t where t: "db_ok db t" "kvs t = kv" using assms(1) by (auto simp: db_kv_def)
  note d = db_okD [OF t(1)]
  have "Bucket_Get \<lparr>bTx = \<lparr>txRoot = dbRoot db, txWritable = False\<rparr>, bPrefix = nm @ [0]\<rparr> k (dbPager db)
      = (if label k then Inr (map_of kv (nm @ 0 # k)) else Inl InvalidBucketKey)"
    using Bucket_Get_in [OF d(1)] d(3) t(2) by simp
  thus ?thesis using d(6) by (simp add: getRaw_def View_def Tx_Bucket_label [OF assms(2)] map_of_rows liftKV_def)
qed

lemma listLoop_collect:
  "bucketCollect b r p it = Inr xs \<Longrightarrow> listLoop fn b r p it = mapE fn (map snd xs)"
proof (induction xs arbitrary: r it)
  case Nil
  thus ?case by (auto simp: bucketCollect.simps [of b r p it] listLoop.simps [of fn b r p it] split: if_splits nat.splits sum.splits option.splits)
next
  case (Cons x xs)
  then obtain r' where r: "BucketIterator_Valid b it" "r = Suc r'" "x = (BucketIterator_Key b it, BucketIterator_Value b it)"
      "bucketCollect b r' p (BucketIterator_Next p it) = Inr xs"
    by (auto simp: bucketCollect.simps [of b r p it] split: if_splits nat.splits sum.splits option.splits)
  have "listLoop fn b r p it = (case fn (snd x) of Inl e \<Rightarrow> Inl e
      | Inr y \<Rightarrow> (case listLoop fn b r' p (BucketIterator_Next p it) of Inl e \<Rightarrow> Inl e | Inr ys \<Rightarrow> Inr (y # ys)))"
    by (subst listLoop.simps) (cases "fn (BucketIterator_Value b it)"; simp add: r(1-3))
  thus ?case unfolding Cons.IH [OF r(4)] by simp
qed

lemma listJSON_kv:
  assumes "db_kv db kv" "label nm" "\<forall>x \<in> set (rows nm kv). label (fst x)"
  shows "listJSON nm fn db = mapE fn (map snd (rows nm kv))"
proof -
  obtain t where t: "db_ok db t" "linked (leaves t) 0" "kvs t = kv" using assms(1) by (auto simp: db_kv_def)
  note d = db_okD [OF t(1)]
  let ?b = "\<lparr>bTx = \<lparr>txRoot = dbRoot db, txWritable = False\<rparr>, bPrefix = nm @ [0]\<rparr>" let ?p = "dbPager db"
  have one: "label [1]" by (simp add: label_def)
  have above: "nm @ [0, 1] \<le> fst x" if x: "x \<in> set kv" "take (length nm + 1) (fst x) = nm @ [0]" for x
  proof -
    obtain k where k: "fst x = nm @ 0 # k" using x(2) take_prefix_iff by blast
    have "(k, snd x) \<in> set (rows nm kv)" using x k by (force simp: rows_def)
    hence "label k" using assms(3) by auto
    then obtain c cs where c: "k = c # cs" "c \<noteq> 0" by (cases k) (auto simp: label_def)
    hence "1 \<le> c" by (simp add: word_le_nat_alt Suc_le_eq unat_gt_0)
    hence "[1] \<le> k" unfolding c(1) by (cases "c = 1") auto
    hence "\<not> k < [1]" by (simp add: not_less)
    hence "\<not> nm @ 0 # k < nm @ 0 # [1]" by (simp add: bytes_less_append)
    thus ?thesis unfolding k by (simp add: not_less)
  qed
  have "filter (\<lambda>x. bPrefix ?b @ [1] \<le> fst x \<and> in_bucket ?b x) (kvs t) = filter (\<lambda>x. take (length nm + 1) (fst x) = nm @ [0]) kv"
    unfolding t(3) by (rule filter_cong) (use above in auto)
  hence "Bucket_scanAll ?b [1] None ?p = Inr (rows nm kv)"
    using Bucket_scanAll_in [OF d(1) t(2) _ one, of ?b] d(3) by (simp add: rows_def)
  then obtain it where it: "Bucket_Scan ?b [1] None ?p = Inr it" "bucketCollect ?b (PageCount ?p * PageSize) ?p it = Inr (rows nm kv)"
    by (auto simp: Bucket_scanAll_def split: sum.splits)
  show ?thesis using d(6) it(1) listLoop_collect [OF it(2), of fn]
    by (simp add: listJSON_def Let_def Tx_Bucket_label [OF assms(2)])
qed

section \<open>A database of one leaf\<close>

definition leaf_costs :: "(bytes \<times> bytes) list \<Rightarrow> nat" where
  "leaf_costs es = costs (leafEntries es)"

lemma Put_leaf_fits:
  assumes "tree_in p (PLeaf i n es)" "k \<noteq> []" "leaf_costs (kv_upd k v es) \<le> 4080"
  obtains q where "BTree_Put pagerStore (PageCount p) i k v p = (Inr (), q)" "tree_in q (PLeaf i n (kv_upd k v es))"
    "RootPage q = RootPage p"
proof -
  let ?T = "PLeaf i n (kv_upd k v es)"
  have p: "pager_inv p" "root_ok (live p) (PLeaf i n es)" "stored pagerStore p (PLeaf i n es)"
    using assms(1) by (simp_all add: tree_in_def)
  have es: "kv_sorted es" "\<forall>p \<in> set es. fst p \<noteq> []" "i \<in> live p" "n < 2 ^ 64" using p(2) by (simp_all add: root_ok_def)
  have T: "root_ok (live p) ?T" "forest_ok (live p) [?T]"
    using p(2) es assms(2) by (auto simp: root_ok_def forest_ok_def kv_sorted_kv_upd set_kv_upd)
  have fits: "nodeFits (nodeOf ?T)" using assms(3) by (simp add: nodeFits_costs leaf_costs_def)
  have n: "node_ok (nodeOf ?T)" using nodeOf_ok [OF T(2)] ps.lv_bounds [OF p(1)] fits by blast
  have run: "BTree_Put pagerStore (PageCount p) i k v p = writeNode (nodeOf ?T) p"
    using p(3) fits insert_leafEntries [OF es(1), of k v] assms(2)
    by (simp add: BTree_Put_def bindE_def splitRootLeaf_def Let_def)
  obtain q where q: "writeNode (nodeOf ?T) p = (Inr (), q)" "pager_inv q" "live q = live p" "pager_room q = pager_room p"
      "readNodeOp pagerStore q i = Inr (nodeOf ?T)"
    using ps.write_fits [OF p(1) _ n fits] T(2) by (auto simp: forest_ok_def)
  have "RootPage q = RootPage p" using q(1) by (auto simp: writeNode_def split: sum.splits prod.splits if_splits)
  moreover have "tree_in q ?T" using q T fits by (simp add: tree_in_def)
  ultimately show thesis using that run q by metis
qed

lemma Bucket_Put_leaf:
  assumes "tree_in p (PLeaf i n es)" "label k" "leaf_costs (kv_upd (nm @ 0 # k) v es) \<le> 4080"
  obtains q where "Bucket_Put \<lparr>bTx = \<lparr>txRoot = i, txWritable = True\<rparr>, bPrefix = nm @ [0]\<rparr> k v p = (Inr (), q)"
    "tree_in q (PLeaf i n (kv_upd (nm @ 0 # k) v es))" "RootPage q = RootPage p"
proof -
  obtain q where q: "BTree_Put pagerStore (PageCount p) i (nm @ 0 # k) v p = (Inr (), q)" "tree_in q (PLeaf i n (kv_upd (nm @ 0 # k) v es))"
    "RootPage q = RootPage p" by (rule Put_leaf_fits [OF assms(1) _ assms(3)]) simp_all
  thus thesis using that assms(2) by (simp add: Bucket_Put_def Bucket_key_def label_def Tx_Put_def)
qed

lemma saveJSON_leaf:
  assumes "db_ok db (PLeaf i n es)" "label nm" "label k" "Marshal C r = Some data" "leaf_costs (kv_upd (nm @ 0 # k) data es) \<le> 4080"
  obtains db' where "saveJSON C nm k r db = (Inr (), db')" "db_ok db' (PLeaf i n (kv_upd (nm @ 0 # k) data es))"
proof -
  note d = db_okD [OF assms(1)]
  obtain q where q: "Bucket_Put \<lparr>bTx = \<lparr>txRoot = i, txWritable = True\<rparr>, bPrefix = nm @ [0]\<rparr> k data (dbPager db) = (Inr (), q)"
    "tree_in q (PLeaf i n (kv_upd (nm @ 0 # k) data es))" "RootPage q = RootPage (dbPager db)"
    by (rule Bucket_Put_leaf [OF d(1) assms(3,5)])
  have i: "dbRoot db = i" using d(3) by simp
  have "pager_inv q" using q(2) by (simp add: tree_in_def)
  hence "Update (bucketPutTx nm k data) db = (Inr (), db\<lparr>dbPager := q, dbWal := None\<rparr>)"
    using d(6) q(1) i by (simp add: Update_commit bucketPutTx_def Tx_Bucket_label [OF assms(2)])
  hence "saveJSON C nm k r db = (Inr (), db\<lparr>dbPager := q, dbWal := None\<rparr>)"
    using assms(3,4) by (simp add: saveJSON_def liftKV_def label_def)
  moreover have "db_ok (db\<lparr>dbPager := q, dbWal := None\<rparr>) (PLeaf i n (kv_upd (nm @ 0 # k) data es))"
    using q d i by (simp add: db_ok_def)
  ultimately show thesis using that by blast
qed

lemma leaf_kv: "db_ok db (PLeaf i 0 es) \<Longrightarrow> db_kv db es"
  by (auto simp: db_kv_def intro!: exI [of _ "PLeaf i 0 es"])

end
