(* ===== verification/Audit_Log.thy ===== *)
theory Audit_Log
  imports Store Go_Format
begin

text \<open>
  The audit log (\<open>internal/audit/log.go\<close>): events in a bucket of the embedded database under their
  zero-padded sequence numbers, each with the hash of the one before it. The JSON encoding of events and
  BLAKE3 are parameters.
\<close>

definition eventsBucket :: bytes where "eventsBucket = bytes_of ''audit_events''"

definition metaBucket :: bytes where "metaBucket = bytes_of ''audit_meta''"

definition seqKey :: bytes where "seqKey = bytes_of ''last_seq''"

definition hashKey :: bytes where "hashKey = bytes_of ''last_hash''"

definition seqBytes :: "nat \<Rightarrow> bytes" where "seqBytes seq = putBE 8 seq"

definition seqKeyBytes :: "nat \<Rightarrow> bytes" where "seqKeyBytes seq = bytes_of (padInt 20 (int seq))"

definition hashEvent :: "auditEvent codec \<Rightarrow> (bytes \<Rightarrow> bytes) \<Rightarrow> auditEvent \<Rightarrow> string option" where
  "hashEvent C H event =
     (case Marshal C (event\<lparr>aeHash := []\<rparr>) of None \<Rightarrow> None | Some data \<Rightarrow> Some (hexEncode (H data)))"

definition readSeq :: "bucket \<Rightarrow> pager \<Rightarrow> kv_error + nat" where
  "readSeq b p =
     (case Bucket_Get b seqKey p of Inl e \<Rightarrow> Inl e | Inr None \<Rightarrow> Inr 0
      | Inr (Some data) \<Rightarrow>
          if length data \<noteq> 8 then Inl (CallbackError ''invalid audit sequence metadata'') else Inr (getBE data))"

definition readHash :: "bucket \<Rightarrow> pager \<Rightarrow> kv_error + string" where
  "readHash b p =
     (case Bucket_Get b hashKey p of Inl e \<Rightarrow> Inl e | Inr None \<Rightarrow> Inr [] | Inr (Some data) \<Rightarrow> Inr (str_of data))"

text \<open>The transaction of \<open>Append\<close>; it returns the event with its number and hashes.\<close>

definition appendTx :: "auditEvent codec \<Rightarrow> (bytes \<Rightarrow> bytes) \<Rightarrow> auditEvent \<Rightarrow> tx \<Rightarrow> (pager, kv_error, auditEvent) op" where
  "appendTx C H event t p =
     (case Tx_Bucket t metaBucket of Inl e \<Rightarrow> (Inl e, p) | Inr meta \<Rightarrow>
      (case Tx_Bucket t eventsBucket of Inl e \<Rightarrow> (Inl e, p) | Inr events \<Rightarrow>
       (case readSeq meta p of Inl e \<Rightarrow> (Inl e, p) | Inr lastSeq \<Rightarrow>
        (case readHash meta p of Inl e \<Rightarrow> (Inl e, p) | Inr lastHash \<Rightarrow>
         let event1 = event\<lparr>aeSeq := (lastSeq + 1) mod 2 ^ 64, aePrevHash := lastHash\<rparr> in
         (case hashEvent C H event1 of None \<Rightarrow> (Inl (CallbackError ''marshal''), p) | Some h \<Rightarrow>
          let event2 = event1\<lparr>aeHash := h\<rparr> in
          (case Marshal C event2 of None \<Rightarrow> (Inl (CallbackError ''marshal''), p) | Some data \<Rightarrow>
           bindE (Bucket_Put events (seqKeyBytes (aeSeq event2)) data) (\<lambda>_.
           bindE (Bucket_Put meta seqKey (seqBytes (aeSeq event2))) (\<lambda>_.
           bindE (Bucket_Put meta hashKey (bytes_of (aeHash event2))) (\<lambda>_.
           returnE event2))) p))))))"

definition Audit_Append :: "auditEvent codec \<Rightarrow> (bytes \<Rightarrow> bytes) \<Rightarrow> bool \<Rightarrow> gotime \<Rightarrow> bytes option \<Rightarrow> auditEvent \<Rightarrow> (kvdb, server_error, auditEvent) op" where
  "Audit_Append C H ctxDone clock entropy event db =
     (if ctxDone then (Inl (Invalid ''context canceled''), db)
      else if aeAction event = [] then (Inl (Invalid ''audit action is required''), db)
      else if aeResourceType event = [] then (Inl (Invalid ''audit resource type is required''), db)
      else
        let now = (if IsZero (aeOccurredAt event) then clock else aeOccurredAt event) in
        (case (if ID_IsZero (aeID event) then NewID clock entropy else Some (aeID event)) of
           None \<Rightarrow> (Inl NoEntropy, db)
         | Some i \<Rightarrow>
             (case Update (appendTx C H (event\<lparr>aeID := i, aeOccurredAt := now\<rparr>)) db of (x, db') \<Rightarrow> (liftKV x, db'))))"

text \<open>The loop of \<open>List\<close>: the limit counts from the events collected so far.\<close>

fun auditLoop :: "auditEvent codec \<Rightarrow> bucket \<Rightarrow> int \<Rightarrow> int \<Rightarrow> nat \<Rightarrow> pager \<Rightarrow> iter \<Rightarrow> server_error + auditEvent list" where
  "auditLoop C b limit n rounds p it =
     (if BucketIterator_Valid b it then
        (case Unmarshal C (BucketIterator_Value b it) of None \<Rightarrow> Inl JSONError
         | Some event \<Rightarrow>
           if 0 < limit \<and> limit \<le> n + 1 then (case itErr it of Some e \<Rightarrow> Inl (KVError e) | None \<Rightarrow> Inr [event])
           else
             (case rounds of 0 \<Rightarrow> Inl (KVError OutOfFuel) | Suc r \<Rightarrow>
              (case auditLoop C b limit (n + 1) r p (BucketIterator_Next p it) of
                 Inl e \<Rightarrow> Inl e | Inr events \<Rightarrow> Inr (event # events))))
      else (case itErr it of Some e \<Rightarrow> Inl (KVError e) | None \<Rightarrow> Inr []))"

declare auditLoop.simps [simp del]

definition Audit_List :: "auditEvent codec \<Rightarrow> bool \<Rightarrow> int \<Rightarrow> kvdb \<Rightarrow> server_error + auditEvent list" where
  "Audit_List C ctxDone limit db =
     (if ctxDone then Inl (Invalid ''context canceled'')
      else if dbClosed db then Inl (KVError DatabaseClosed)
      else
        let t = \<lparr>txRoot = dbRoot db, txWritable = False\<rparr>; p = dbPager db in
        (case Tx_Bucket t eventsBucket of Inl e \<Rightarrow> Inl (KVError e)
         | Inr b \<Rightarrow>
           (case Bucket_Scan b [1] None p of Inl e \<Rightarrow> Inl (KVError e)
            | Inr it \<Rightarrow> auditLoop C b limit 0 (PageCount p * PageSize) p it)))"

datatype verify_error =
    SequenceGap nat nat
  | PreviousHashMismatch nat
  | HashMismatch nat
  | VerifyEncoding
  | VerifyList server_error

fun verifyLoop :: "auditEvent codec \<Rightarrow> (bytes \<Rightarrow> bytes) \<Rightarrow> nat \<Rightarrow> string \<Rightarrow> auditEvent list \<Rightarrow> verify_error + unit" where
  "verifyLoop C H i previousHash [] = Inr ()"
| "verifyLoop C H i previousHash (event # events) =
     (if aeSeq event \<noteq> i + 1 then Inl (SequenceGap (i + 1) (aeSeq event))
      else if aePrevHash event \<noteq> previousHash then Inl (PreviousHashMismatch (aeSeq event))
      else (case hashEvent C H event of None \<Rightarrow> Inl VerifyEncoding
            | Some h \<Rightarrow> if aeHash event \<noteq> h then Inl (HashMismatch (aeSeq event))
                        else verifyLoop C H (i + 1) (aeHash event) events))"

definition Audit_Verify :: "auditEvent codec \<Rightarrow> (bytes \<Rightarrow> bytes) \<Rightarrow> bool \<Rightarrow> kvdb \<Rightarrow> verify_error + unit" where
  "Audit_Verify C H ctxDone db =
     (case Audit_List C ctxDone 0 db of Inl e \<Rightarrow> Inl (VerifyList e) | Inr events \<Rightarrow> verifyLoop C H 0 [] events)"

section \<open>Keys in the order of the numbers\<close>

fun digitsW :: "nat \<Rightarrow> nat \<Rightarrow> string" where
  "digitsW 0 n = []"
| "digitsW (Suc w) n = digitsW w (n div 10) @ [digitChar (n mod 10)]"

lemma length_digitsW [simp]: "length (digitsW w n) = w"
  by (induction w arbitrary: n) simp_all

lemma digitsW_pad: "n < 10 ^ w \<Longrightarrow> 0 < w \<Longrightarrow> digitsW w n = replicate (w - length (natString n)) CHR ''0'' @ natString n"
proof (induction w arbitrary: n)
  case (Suc w)
  have z: "digitChar 0 = CHR ''0''" by code_simp
  show ?case
  proof (cases "n < 10")
    case True
    have "digitsW v 0 = replicate v CHR ''0''" for v
      by (induction v) (simp_all add: z replicate_append_same)
    thus ?thesis using True by (simp add: natString.simps [of n])
  next
    case False
    have w: "0 < w" using Suc.prems False by (cases w) simp_all
    have "n div 10 < 10 ^ w" using Suc.prems(1) by (simp add: less_mult_imp_div_less mult.commute)
    thus ?thesis using Suc.IH [OF _ w] False by (simp add: natString.simps [of n])
  qed
qed simp

lemma padInt_digitsW: "n < 10 ^ w \<Longrightarrow> 0 < w \<Longrightarrow> padInt w (int n) = digitsW w n"
  by (simp add: padInt_def Let_def digitsW_pad)

lemma bytes_of_append: "bytes_of (xs @ ys) = bytes_of xs @ bytes_of ys"
  by (simp add: bytes_of_def)

lemma bytes_less_extend: "length xs = length ys \<Longrightarrow> (xs :: bytes) < ys \<Longrightarrow> xs @ a < ys @ b"
  by (induction xs ys rule: list_induct2) auto

lemma digitChar_bytes: "k < 10 \<Longrightarrow> bytes_of [digitChar k] = [of_nat (48 + k)]"
  by (simp add: bytes_of_def digitChar_def)

lemma digitByte_unat: "k < 10 \<Longrightarrow> unat (of_nat (48 + k) :: byte) = 48 + k"
  by (simp add: unat_of_nat del: of_nat_add)

lemma digitChar_less: "a < b \<Longrightarrow> b < 10 \<Longrightarrow> bytes_of [digitChar a] < bytes_of [digitChar b]"
  using digitByte_unat [of a] digitByte_unat [of b] by (simp add: digitChar_bytes word_less_nat_alt del: of_nat_add)

lemma digitsW_less: "n < m \<Longrightarrow> m < 10 ^ w \<Longrightarrow> bytes_of (digitsW w n) < bytes_of (digitsW w m)"
proof (induction w arbitrary: n m)
  case (Suc w)
  have m: "m div 10 < 10 ^ w" using Suc.prems(2) by (simp add: less_mult_imp_div_less mult.commute)
  consider "n div 10 < m div 10" | "n div 10 = m div 10" "n mod 10 < m mod 10"
    using Suc.prems(1) by (metis div_le_mono div_mod_decomp le_neq_implies_less less_imp_le nat_add_left_cancel_less)
  thus ?case
  proof cases
    case 1
    from Suc.IH [OF this m] show ?thesis by (simp add: bytes_of_append bytes_less_extend)
  next
    case 2
    thus ?thesis using digitChar_less [of "n mod 10" "m mod 10"] by (simp add: bytes_of_append bytes_less_append)
  qed
qed simp

lemma seqKeyBytes_less: "n < m \<Longrightarrow> m < 2 ^ 64 \<Longrightarrow> seqKeyBytes n < seqKeyBytes m"
  using digitsW_less [of n m 20] by (simp add: seqKeyBytes_def padInt_digitsW)

lemma digitsW_chars: "c \<in> set (digitsW w n) \<Longrightarrow> \<exists>k < 10. c = digitChar k"
  by (induction w arbitrary: n) (auto, metis mod_less_divisor zero_less_numeral)

lemma digitChar_byte: "k < 10 \<Longrightarrow> 0 \<notin> set (bytes_of [digitChar k])"
  using digitByte_unat [of k] by (auto simp: digitChar_bytes simp del: of_nat_add)

lemma seqKeyBytes_label: "n < 2 ^ 64 \<Longrightarrow> label (seqKeyBytes n)"
proof -
  assume "n < 2 ^ 64"
  hence e: "seqKeyBytes n = bytes_of (digitsW 20 n)" by (simp add: seqKeyBytes_def padInt_digitsW)
  have "0 \<notin> set (bytes_of (digitsW 20 n))"
  proof
    assume "0 \<in> set (bytes_of (digitsW 20 n))"
    then obtain c where "c \<in> set (digitsW 20 n)" "0 \<in> set (bytes_of [c])" by (auto simp: bytes_of_def)
    thus False using digitsW_chars digitChar_byte by blast
  qed
  moreover have "bytes_of (digitsW 20 n) \<noteq> []" by (simp add: bytes_of_def) (metis length_digitsW list.size(3) zero_neq_numeral)
  ultimately show ?thesis by (simp add: e label_def)
qed

lemma bucket_labels: "label eventsBucket" "label metaBucket" "label seqKey" "label hashKey" "eventsBucket \<noteq> metaBucket" "seqKey \<noteq> hashKey"
proof -
  have "0 \<notin> set eventsBucket" "0 \<notin> set metaBucket" "0 \<notin> set seqKey" "0 \<notin> set hashKey" "eventsBucket \<noteq> []" "metaBucket \<noteq> []"
    "seqKey \<noteq> []" "hashKey \<noteq> []" "eventsBucket \<noteq> metaBucket" "seqKey \<noteq> hashKey" by code_simp+
  thus "label eventsBucket" "label metaBucket" "label seqKey" "label hashKey" "eventsBucket \<noteq> metaBucket" "seqKey \<noteq> hashKey"
    by (simp_all add: label_def)
qed

section \<open>The chain\<close>

text \<open>What the encoding does to an event: metadata come back as what the decoder makes of them, with the same
  encoding; the other fields come back as they were.\<close>

definition json_stable :: "auditEvent codec \<Rightarrow> bool" where
  "json_stable C \<longleftrightarrow> (\<forall>e data. Marshal C e = Some data \<longrightarrow>
     (\<exists>m. Unmarshal C data = Some (e\<lparr>aeMetadata := m\<rparr>)
        \<and> (\<forall>h. Marshal C (e\<lparr>aeMetadata := m, aeHash := h\<rparr>) = Marshal C (e\<lparr>aeHash := h\<rparr>))))"

definition linkAt :: "auditEvent codec \<Rightarrow> (bytes \<Rightarrow> bytes) \<Rightarrow> auditEvent list \<Rightarrow> nat \<Rightarrow> bool" where
  "linkAt C H es i \<longleftrightarrow> aeSeq (es ! i) = i + 1
     \<and> aePrevHash (es ! i) = (if i = 0 then [] else aeHash (es ! (i - 1))) \<and> hashEvent C H (es ! i) = Some (aeHash (es ! i))"

definition chained :: "auditEvent codec \<Rightarrow> (bytes \<Rightarrow> bytes) \<Rightarrow> auditEvent list \<Rightarrow> bool" where
  "chained C H es \<longleftrightarrow> (\<forall>i < length es. linkAt C H es i)"

definition lastHash :: "auditEvent list \<Rightarrow> string" where
  "lastHash es = (if es = [] then [] else aeHash (last es))"

lemma chained_snoc:
  "chained C H (es @ [e]) \<longleftrightarrow> chained C H es \<and> aeSeq e = length es + 1 \<and> aePrevHash e = lastHash es \<and> hashEvent C H e = Some (aeHash e)"
proof -
  have "linkAt C H (es @ [e]) i = linkAt C H es i" if "i < length es" for i
    using that less_imp_diff_less [OF that, of 1] by (simp add: linkAt_def nth_append)
  moreover have "linkAt C H (es @ [e]) (length es) \<longleftrightarrow> aeSeq e = length es + 1 \<and> aePrevHash e = lastHash es \<and> hashEvent C H e = Some (aeHash e)"
    by (cases es rule: rev_cases) (simp_all add: linkAt_def lastHash_def nth_append)
  ultimately show ?thesis by (auto simp: chained_def All_less_Suc)
qed

lemma verifyLoop_snoc:
  "verifyLoop C H i prev (es @ [e]) = Inr () \<longleftrightarrow> verifyLoop C H i prev es = Inr () \<and> aeSeq e = i + length es + 1
    \<and> aePrevHash e = (if es = [] then prev else aeHash (last es)) \<and> hashEvent C H e = Some (aeHash e)"
  by (induction C H i prev es rule: verifyLoop.induct) (auto split: option.splits if_splits)

lemma verifyLoop_chained: "verifyLoop C H 0 [] es = Inr () \<longleftrightarrow> chained C H es"
proof (induction es rule: rev_induct)
  case (snoc e es)
  thus ?case by (simp add: verifyLoop_snoc chained_snoc lastHash_def)
qed (simp add: chained_def)

end
