(* ===== verification/Audit_Props.thy ===== *)
theory Audit_Props
  imports Audit_Log KV_Props
begin

text \<open>
  The properties of the audit log: what \<open>Append\<close> writes, \<open>Verify\<close> accepts; an accepted log is determined by
  its last hash, unless the hash function collides; removed last events go unnoticed.
\<close>

section \<open>The rows of a log\<close>

definition eventRow :: "auditEvent codec \<Rightarrow> auditEvent \<Rightarrow> bytes \<times> bytes" where
  "eventRow C e = (seqKeyBytes (aeSeq e), the (Marshal C e))"

definition log_rows :: "auditEvent codec \<Rightarrow> (bytes \<Rightarrow> bytes) \<Rightarrow> (bytes \<times> bytes) list \<Rightarrow> auditEvent list \<Rightarrow> bool" where
  "log_rows C H kv es \<longleftrightarrow> rows eventsBucket kv = map (eventRow C) es \<and> (\<forall>e \<in> set es. Marshal C e \<noteq> None)
     \<and> chained C H es \<and> length es < 2 ^ 64"

definition log_meta :: "(bytes \<times> bytes) list \<Rightarrow> auditEvent list \<Rightarrow> bool" where
  "log_meta kv es \<longleftrightarrow>
     map_of (rows metaBucket kv) seqKey = (if es = [] then None else Some (seqBytes (length es)))
     \<and> map_of (rows metaBucket kv) hashKey = (if es = [] then None else Some (bytes_of (lastHash es)))"

lemma chained_seq: "chained C H es \<Longrightarrow> e \<in> set es \<Longrightarrow> aeSeq e \<le> length es"
  by (auto simp: chained_def linkAt_def in_set_conv_nth)

lemma log_rows_label: "log_rows C H kv es \<Longrightarrow> \<forall>x \<in> set (rows eventsBucket kv). label (fst x)"
  using chained_seq [of C H es] by (fastforce simp: log_rows_def eventRow_def intro: seqKeyBytes_label)

section \<open>Appending\<close>

lemma readMeta_log:
  assumes "tree_in p t" "txRoot x = tid t" "log_meta (kvs t) es" "length es < 2 ^ 64"
  shows "readSeq \<lparr>bTx = x, bPrefix = metaBucket @ [0]\<rparr> p = Inr (length es)"
    "readHash \<lparr>bTx = x, bPrefix = metaBucket @ [0]\<rparr> p = Inr (lastHash es)"
proof -
  let ?b = "\<lparr>bTx = x, bPrefix = metaBucket @ [0]\<rparr>"
  have g: "Bucket_Get ?b k p = (if label k then Inr (map_of (rows metaBucket (kvs t)) k) else Inl InvalidBucketKey)" for k
    using Bucket_Get_in [OF assms(1), of ?b k] assms(2) by (simp add: map_of_rows)
  have "length (seqBytes (length es)) = 8" "getBE (seqBytes (length es)) = length es"
    using assms(4) by (simp_all add: seqBytes_def putBE_def getBE_def getLE_putLE_small)
  thus "readSeq ?b p = Inr (length es)" using assms(3) by (simp add: readSeq_def g bucket_labels log_meta_def)
  show "readHash ?b p = Inr (lastHash es)" using assms(3) by (simp add: readHash_def g bucket_labels log_meta_def lastHash_def)
qed

lemma appendTx_post:
  assumes "tree_in p t" "txRoot x = tid t" "log_meta (kvs t) es" "length es + 1 < 2 ^ 64" "appendTx C H event x p = (Inr e, q)"
  obtains t' data where "txn_post p t q t'" "Marshal C e = Some data" "hashEvent C H e = Some (aeHash e)"
    "aeSeq e = length es + 1" "aePrevHash e = lastHash es"
    "kvs t' = kv_upd (metaBucket @ 0 # hashKey) (bytes_of (aeHash e)) (kv_upd (metaBucket @ 0 # seqKey) (seqBytes (length es + 1))
       (kv_upd (eventsBucket @ 0 # seqKeyBytes (length es + 1)) data (kvs t)))"
proof -
  let ?m = "\<lparr>bTx = x, bPrefix = metaBucket @ [0]\<rparr>" and ?v = "\<lparr>bTx = x, bPrefix = eventsBucket @ [0]\<rparr>"
  let ?e1 = "event\<lparr>aeSeq := length es + 1, aePrevHash := lastHash es\<rparr>"
  have len: "length es < 2 ^ 64" "(length es + 1) mod 2 ^ 64 = length es + 1" using assms(4) by simp_all
  note rd = readMeta_log [OF assms(1-3) len(1)]
  obtain h data where h: "hashEvent C H ?e1 = Some h" "Marshal C (?e1\<lparr>aeHash := h\<rparr>) = Some data" and
    run: "bindE (Bucket_Put ?v (seqKeyBytes (length es + 1)) data) (\<lambda>_. bindE (Bucket_Put ?m seqKey (seqBytes (length es + 1)))
      (\<lambda>_. bindE (Bucket_Put ?m hashKey (bytes_of h)) (\<lambda>_. returnE (?e1\<lparr>aeHash := h\<rparr>)))) p = (Inr e, q)"
    using assms(5) len(2) by (auto simp: appendTx_def Tx_Bucket_label bucket_labels rd Let_def split: option.splits)
  obtain p1 p2 u1 u2 u3 where r: "Bucket_Put ?v (seqKeyBytes (length es + 1)) data p = (Inr u1, p1)"
    "Bucket_Put ?m seqKey (seqBytes (length es + 1)) p1 = (Inr u2, p2)" "Bucket_Put ?m hashKey (bytes_of h) p2 = (Inr u3, q)"
    and e: "e = ?e1\<lparr>aeHash := h\<rparr>" using run by (auto simp: returnE_def elim!: bindE_InrE)
  obtain t1 where t1: "txn_post p t p1 t1" "kvs t1 = kv_upd (bPrefix ?v @ seqKeyBytes (length es + 1)) data (kvs t)" "label (seqKeyBytes (length es + 1))"
    by (rule Bucket_Put_txn [OF assms(1) _ r(1)]) (use assms(2) in simp)
  have i1: "tree_in p1 t1" "txRoot (bTx ?m) = tid t1" using t1(1) assms(2) by (simp_all add: txn_post_def)
  obtain t2 where t2: "txn_post p1 t1 p2 t2" "kvs t2 = kv_upd (bPrefix ?m @ seqKey) (seqBytes (length es + 1)) (kvs t1)" "label seqKey"
    by (rule Bucket_Put_txn [OF i1 r(2)])
  have i2: "tree_in p2 t2" "txRoot (bTx ?m) = tid t2" using t2(1) i1(2) by (simp_all add: txn_post_def)
  obtain t3 where t3: "txn_post p2 t2 q t3" "kvs t3 = kv_upd (bPrefix ?m @ hashKey) (bytes_of h) (kvs t2)" "label hashKey"
    by (rule Bucket_Put_txn [OF i2 r(3)])
  have he: "hashEvent C H e = Some (aeHash e)" using h(1) e by (simp add: hashEvent_def)
  show thesis
    by (rule that [of t3 data]) (use txn_post_trans [OF txn_post_trans [OF t1(1) t2(1)] t3(1)] t1(2) t2(2) t3(2) h(2) e he in simp_all)
qed

lemma log_upd:
  assumes so: "kv_sorted kv" and l: "log_rows C H kv es" and len: "length es + 1 < 2 ^ 64"
    and e: "Marshal C e = Some data" "hashEvent C H e = Some (aeHash e)" "aeSeq e = length es + 1" "aePrevHash e = lastHash es"
    and kv': "kv' = kv_upd (metaBucket @ 0 # hashKey) (bytes_of (aeHash e)) (kv_upd (metaBucket @ 0 # seqKey) (seqBytes (length es + 1))
       (kv_upd (eventsBucket @ 0 # seqKeyBytes (length es + 1)) data kv))"
  shows "log_rows C H kv' (es @ [e])" "log_meta kv' (es @ [e])"
proof -
  let ?k = "seqKeyBytes (length es + 1)"
  note u = rows_upd [OF _ bucket_labels(1,1)] rows_upd [OF _ bucket_labels(1,2)] rows_upd [OF _ bucket_labels(2,1)] rows_upd [OF _ bucket_labels(2,2)]
  have s: "kv_sorted (kv_upd k v kv)" "kv_sorted (kv_upd k' v' (kv_upd k v kv))" for k v k' v' using so by (simp_all add: kv_sorted_kv_upd)
  have "fst x < ?k" if x: "x \<in> set (rows eventsBucket kv)" for x
  proof -
    obtain y where "y \<in> set es" "x = eventRow C y" using x l by (auto simp: log_rows_def)
    thus ?thesis using chained_seq [of C H es y] l len by (simp add: log_rows_def eventRow_def seqKeyBytes_less)
  qed
  hence "kv_upd ?k data (rows eventsBucket kv) = rows eventsBucket kv @ [(?k, data)]"
    by (intro rows_snoc rows_sorted so) blast
  hence "rows eventsBucket kv' = rows eventsBucket kv @ [(?k, data)]"
    using bucket_labels(5) by (simp add: kv' u so s)
  thus "log_rows C H kv' (es @ [e])" using l e len by (simp add: log_rows_def chained_snoc eventRow_def)
  have "rows metaBucket kv' = kv_upd hashKey (bytes_of (aeHash e)) (kv_upd seqKey (seqBytes (length es + 1)) (rows metaBucket kv))"
    using bucket_labels(5) by (simp add: kv' u so s)
  thus "log_meta kv' (es @ [e])" using bucket_labels(6) rows_sorted [OF so]
    by (simp add: log_meta_def map_of_kv_upd kv_sorted_kv_upd lastHash_def)
qed

lemma Append_log:
  assumes "db_kv db kv" "log_rows C H kv es" "log_meta kv es" "length es + 1 < 2 ^ 64"
    "Audit_Append C H ctx clock entropy event db = (Inr e, db')"
  obtains kv' where "db_kv db' kv'" "log_rows C H kv' (es @ [e])" "log_meta kv' (es @ [e])"
proof -
  obtain ev where run: "Update (appendTx C H ev) db = (Inr e, db')"
    using assms(5) by (auto simp: Audit_Append_def Let_def liftKV_def split: if_splits option.splits prod.splits sum.splits)
  obtain kv' where "db_kv db' kv'" "log_rows C H kv' (es @ [e]) \<and> log_meta kv' (es @ [e])"
  proof (rule Update_kv [OF assms(1) run])
    fix t q assume t: "tree_in (dbPager db) t" "tid t = dbRoot db" "kvs t = kv"
      "appendTx C H ev \<lparr>txRoot = dbRoot db, txWritable = True\<rparr> (dbPager db) = (Inr e, q)"
    obtain t' data where p: "txn_post (dbPager db) t q t'" "Marshal C e = Some data" "hashEvent C H e = Some (aeHash e)"
        "aeSeq e = length es + 1" "aePrevHash e = lastHash es"
        "kvs t' = kv_upd (metaBucket @ 0 # hashKey) (bytes_of (aeHash e)) (kv_upd (metaBucket @ 0 # seqKey) (seqBytes (length es + 1))
           (kv_upd (eventsBucket @ 0 # seqKeyBytes (length es + 1)) data (kvs t)))"
      by (rule appendTx_post [OF t(1) _ _ assms(4) t(4)]) (use t(2,3) assms(3) in simp_all)
    show "\<exists>t'. txn_post (dbPager db) t q t' \<and> (log_rows C H (kvs t') (es @ [e]) \<and> log_meta (kvs t') (es @ [e]))"
      using log_upd [OF db_kv_sorted [OF assms(1)] assms(2,4) p(2-5) p(6) [unfolded t(3)]] p(1) by blast
  qed
  thus thesis using that by blast
qed

section \<open>Listing and verifying\<close>

lemma auditLoop_listLoop: "auditLoop C b 0 n r p it = listLoop (decode C) b r p it"
proof (induction r arbitrary: n it)
  case 0
  have v: "decode C (BucketIterator_Value b it) = (case Unmarshal C (BucketIterator_Value b it) of None \<Rightarrow> Inl JSONError | Some r \<Rightarrow> Inr r)"
    by (rule decode_def)
  show ?case by (subst auditLoop.simps, subst listLoop.simps, subst v) (cases "Unmarshal C (BucketIterator_Value b it)"; simp)
next
  case (Suc r)
  have v: "decode C (BucketIterator_Value b it) = (case Unmarshal C (BucketIterator_Value b it) of None \<Rightarrow> Inl JSONError | Some r \<Rightarrow> Inr r)"
    by (rule decode_def)
  show ?case by (subst auditLoop.simps, subst listLoop.simps, subst v) (cases "Unmarshal C (BucketIterator_Value b it)"; simp add: Suc)
qed

definition decoded :: "auditEvent codec \<Rightarrow> auditEvent \<Rightarrow> auditEvent" where
  "decoded C e = the (Unmarshal C (the (Marshal C e)))"

lemma decoded_stable:
  assumes "json_stable C" "Marshal C e \<noteq> None"
  shows "decode C (the (Marshal C e)) = Inr (decoded C e)" "(decoded C e)\<lparr>aeMetadata := []\<rparr> = e\<lparr>aeMetadata := []\<rparr>"
    "hashEvent C H (decoded C e) = hashEvent C H e"
proof -
  obtain data where d: "Marshal C e = Some data" using assms(2) by blast
  then obtain m where m: "Unmarshal C data = Some (e\<lparr>aeMetadata := m\<rparr>)"
    "\<forall>h. Marshal C (e\<lparr>aeMetadata := m, aeHash := h\<rparr>) = Marshal C (e\<lparr>aeHash := h\<rparr>)" using assms(1) [unfolded json_stable_def] by blast
  have e: "decoded C e = e\<lparr>aeMetadata := m\<rparr>" using d m(1) by (simp add: decoded_def)
  show "decode C (the (Marshal C e)) = Inr (decoded C e)" using d m(1) by (simp add: decode_def decoded_def)
  show "(decoded C e)\<lparr>aeMetadata := []\<rparr> = e\<lparr>aeMetadata := []\<rparr>" by (simp add: e)
  show "hashEvent C H (decoded C e) = hashEvent C H e" using m(2) by (simp add: e hashEvent_def)
qed

lemma mapE_decoded:
  assumes "json_stable C" "\<forall>e \<in> set es. Marshal C e \<noteq> None"
  shows "mapE (decode C) (map snd (map (eventRow C) es)) = Inr (map (decoded C) es)"
  using assms(2) by (induction es) (simp_all add: eventRow_def decoded_stable(1) [OF assms(1)])

lemma plain_fields: "x\<lparr>aeMetadata := []\<rparr> = y\<lparr>aeMetadata := []\<rparr> \<Longrightarrow> aeSeq x = aeSeq y \<and> aePrevHash x = aePrevHash y \<and> aeHash x = aeHash y"
  by (metis (no_types, lifting) auditEvent.select_convs(1,9,10) auditEvent.surjective auditEvent.update_convs(7))

lemma chained_decoded:
  assumes "json_stable C" "\<forall>e \<in> set es. Marshal C e \<noteq> None"
  shows "chained C H (map (decoded C) es) = chained C H es"
proof -
  have "linkAt C H (map (decoded C) es) i = linkAt C H es i" if i: "i < length es" for i
  proof -
    have p: "aeSeq (decoded C (es ! j)) = aeSeq (es ! j)" "aePrevHash (decoded C (es ! j)) = aePrevHash (es ! j)"
        "aeHash (decoded C (es ! j)) = aeHash (es ! j)" "hashEvent C H (decoded C (es ! j)) = hashEvent C H (es ! j)" if "j < length es" for j
      using plain_fields [OF decoded_stable(2) [OF assms(1)]] decoded_stable(3) [OF assms(1)] assms(2) nth_mem [OF that] by blast+
    show ?thesis using p [OF i] p [OF less_imp_diff_less [OF i, of 1]] i less_imp_diff_less [OF i, of 1] by (simp add: linkAt_def)
  qed
  thus ?thesis by (simp add: chained_def)
qed

lemma List_log:
  assumes "db_kv db kv" "log_rows C H kv es" "json_stable C"
  shows "Audit_List C False 0 db = Inr (map (decoded C) es)"
proof -
  have "Audit_List C False 0 db = listJSON eventsBucket (decode C) db"
    unfolding Audit_List_def listJSON_def auditLoop_listLoop by simp
  also have "\<dots> = mapE (decode C) (map snd (rows eventsBucket kv))"
    by (rule listJSON_kv [OF assms(1) bucket_labels(1) log_rows_label [OF assms(2)]])
  also have "\<dots> = Inr (map (decoded C) es)" using assms(2) mapE_decoded [OF assms(3), of es] by (simp add: log_rows_def)
  finally show ?thesis .
qed

lemma Verify_log:
  assumes "db_kv db kv" "log_rows C H kv es" "json_stable C"
  shows "Audit_Verify C H False db = Inr ()"
  using List_log [OF assms] chained_decoded [OF assms(3), of es H] assms(2)
  by (simp add: Audit_Verify_def verifyLoop_chained log_rows_def)


text \<open>A small log: one event, an encoding that knows it with and without its hash.\<close>

definition demoEvent :: auditEvent where
  "demoEvent = \<lparr>aeSeq = 1, aeID = ''e'', aeActorID = [], aeAction = ''job.claimed'', aeResourceType = ''job'', aeResourceID = ''j'',
     aeMetadata = [], aeOccurredAt = 1, aePrevHash = [], aeHash = []\<rparr>"

definition demoCodec :: "auditEvent codec" where
  "demoCodec = \<lparr>Marshal = (\<lambda>e. if e = demoEvent then Some [1] else if e = demoEvent\<lparr>aeHash := ''07''\<rparr> then Some [2] else None),
     Unmarshal = (\<lambda>data. if data = [1] then Some demoEvent else if data = [2] then Some (demoEvent\<lparr>aeHash := ''07''\<rparr>) else None)\<rparr>"

definition demoHash :: "bytes \<Rightarrow> bytes" where "demoHash data = [7]"

lemma codec_ok_stable: "codec_ok C \<Longrightarrow> json_stable C"
  unfolding json_stable_def codec_ok_def by (metis auditEvent.surjective auditEvent.update_convs(7))

lemma demo_stable: "json_stable demoCodec"
  by (rule codec_ok_stable) (auto simp: codec_ok_def demoCodec_def demoEvent_def split: if_splits)

lemma demo_hash: "hashEvent demoCodec demoHash demoEvent = Some ''07''"
  by (simp add: hashEvent_def demoCodec_def demoEvent_def demoHash_def) code_simp

abbreviation demoKV1 :: "(bytes \<times> bytes) list" where
  "demoKV1 \<equiv> kv_upd (eventsBucket @ 0 # seqKeyBytes 1) [2] []"

abbreviation demoKV2 :: "(bytes \<times> bytes) list" where
  "demoKV2 \<equiv> kv_upd (metaBucket @ 0 # seqKey) (seqBytes 1) demoKV1"

abbreviation demoKV3 :: "(bytes \<times> bytes) list" where
  "demoKV3 \<equiv> kv_upd (metaBucket @ 0 # hashKey) (bytes_of ''07'') demoKV2"

lemma demo_costs: "leaf_costs demoKV1 \<le> 4080" "leaf_costs demoKV2 \<le> 4080" "leaf_costs demoKV3 \<le> 4080"
  by code_simp+

lemma demo_append:
  obtains db db' where "db_kv db []" "Audit_Append demoCodec demoHash False 1 None demoEvent db = (Inr (demoEvent\<lparr>aeHash := ''07''\<rparr>), db')"
proof -
  obtain db where db: "db_ok db (PLeaf 1 0 [])" by (metis example_db)
  note d = db_okD [OF db]
  let ?x = "\<lparr>txRoot = 1, txWritable = True\<rparr>" let ?e = "demoEvent\<lparr>aeHash := ''07''\<rparr>"
  let ?m = "\<lparr>bTx = ?x, bPrefix = metaBucket @ [0]\<rparr>" and ?v = "\<lparr>bTx = ?x, bPrefix = eventsBucket @ [0]\<rparr>"
  obtain p1 where p1: "Bucket_Put ?v (seqKeyBytes 1) [2] (dbPager db) = (Inr (), p1)" "tree_in p1 (PLeaf 1 0 demoKV1)" "RootPage p1 = RootPage (dbPager db)"
    by (rule Bucket_Put_leaf [OF d(1) _ demo_costs(1)]) (simp_all add: seqKeyBytes_label)
  obtain p2 where p2: "Bucket_Put ?m seqKey (seqBytes 1) p1 = (Inr (), p2)" "tree_in p2 (PLeaf 1 0 demoKV2)" "RootPage p2 = RootPage p1"
    by (rule Bucket_Put_leaf [OF p1(2) bucket_labels(3) demo_costs(2)])
  obtain p3 where p3: "Bucket_Put ?m hashKey (bytes_of ''07'') p2 = (Inr (), p3)" "tree_in p3 (PLeaf 1 0 demoKV3)" "RootPage p3 = RootPage p2"
    by (rule Bucket_Put_leaf [OF p2(2) bucket_labels(4) demo_costs(3)])
  have "log_meta (kvs (PLeaf 1 0 [])) []" by (simp add: log_meta_def rows_def)
  note rd = readMeta_log [OF d(1) _ this, of ?x]
  have M: "Marshal demoCodec ?e = Some [2]" by (simp add: demoCodec_def demoEvent_def)
  have same: "demoEvent\<lparr>aeSeq := 1, aePrevHash := []\<rparr> = demoEvent" by (simp add: demoEvent_def)
  have "appendTx demoCodec demoHash demoEvent ?x (dbPager db) = (Inr ?e, p3)"
    using rd p1(1) p2(1) p3(1) M demo_hash same
    by (simp add: appendTx_def Tx_Bucket_label bucket_labels lastHash_def Let_def bindE_def returnE_def demoEvent_def)
  moreover have "pager_inv p3" using p3(2) by (simp add: tree_in_def)
  moreover have "dbRoot db = 1" using d(3) by simp
  ultimately have "Update (appendTx demoCodec demoHash demoEvent) db = (Inr ?e, db\<lparr>dbPager := p3, dbWal := None\<rparr>)"
    using d(6) by (simp add: Update_commit)
  moreover have "demoEvent\<lparr>aeID := aeID demoEvent, aeOccurredAt := aeOccurredAt demoEvent\<rparr> = demoEvent" by simp
  moreover have "\<not> ID_IsZero ''e''" by code_simp
  ultimately have "Audit_Append demoCodec demoHash False 1 None demoEvent db = (Inr ?e, db\<lparr>dbPager := p3, dbWal := None\<rparr>)"
    by (simp add: Audit_Append_def Let_def liftKV_def IsZero_def demoEvent_def)
  thus thesis using that leaf_kv [OF db] by blast
qed


section \<open>Tampering\<close>

definition encodings :: "auditEvent codec \<Rightarrow> auditEvent list \<Rightarrow> bytes set" where
  "encodings C es = {x. \<exists>e \<in> set es. Marshal C (e\<lparr>aeHash := []\<rparr>) = Some x}"

lemma same_encoding:
  assumes "json_stable C" "Marshal C (a\<lparr>aeHash := []\<rparr>) = Some d" "Marshal C (b\<lparr>aeHash := []\<rparr>) = Some d" "aeHash a = aeHash b"
  shows "a\<lparr>aeMetadata := []\<rparr> = b\<lparr>aeMetadata := []\<rparr>"
proof -
  obtain m n where "Unmarshal C d = Some (a\<lparr>aeHash := [], aeMetadata := m\<rparr>)" "Unmarshal C d = Some (b\<lparr>aeHash := [], aeMetadata := n\<rparr>)"
    using assms(1) [unfolded json_stable_def] assms(2,3) by blast
  hence e: "a\<lparr>aeHash := [], aeMetadata := m\<rparr> = b\<lparr>aeHash := [], aeMetadata := n\<rparr>" by simp
  show ?thesis using e assms(4) by (cases a; cases b) simp
qed

lemma chained_same:
  assumes st: "json_stable C"
  shows "chained C H xs \<Longrightarrow> chained C H ys \<Longrightarrow> xs \<noteq> [] \<Longrightarrow> ys \<noteq> [] \<Longrightarrow> lastHash xs = lastHash ys \<Longrightarrow>
    (\<exists>x \<in> encodings C xs. \<exists>y \<in> encodings C ys. x \<noteq> y \<and> H x = H y)
    \<or> map (\<lambda>e. (Marshal C (e\<lparr>aeHash := []\<rparr>), e\<lparr>aeMetadata := []\<rparr>)) xs = map (\<lambda>e. (Marshal C (e\<lparr>aeHash := []\<rparr>), e\<lparr>aeMetadata := []\<rparr>)) ys"
proof (induction xs arbitrary: ys rule: rev_induct)
  case (snoc a xs)
  then obtain b zs where ys: "ys = zs @ [b]" by (metis rev_exhaust)
  have a: "chained C H xs" "aeSeq a = length xs + 1" "aePrevHash a = lastHash xs" "hashEvent C H a = Some (aeHash a)"
    using snoc.prems(1) by (simp_all add: chained_snoc)
  have b: "chained C H zs" "aeSeq b = length zs + 1" "aePrevHash b = lastHash zs" "hashEvent C H b = Some (aeHash b)"
    using snoc.prems(2) ys by (simp_all add: chained_snoc)
  have h: "aeHash a = aeHash b" using snoc.prems(5) ys by (simp add: lastHash_def)
  obtain x y where x: "Marshal C (a\<lparr>aeHash := []\<rparr>) = Some x" "aeHash a = hexEncode (H x)" and
    y: "Marshal C (b\<lparr>aeHash := []\<rparr>) = Some y" "aeHash b = hexEncode (H y)"
    using a(4) b(4) by (auto simp: hashEvent_def split: option.splits)
  have H: "H x = H y" using x(2) y(2) h by (metis hexDecode_Encode option.inject)
  have i: "x \<in> encodings C (xs @ [a])" "y \<in> encodings C ys" using x(1) y(1) ys by (auto simp: encodings_def)
  show ?case
  proof (cases "x = y")
    case True
    have p: "a\<lparr>aeMetadata := []\<rparr> = b\<lparr>aeMetadata := []\<rparr>" by (rule same_encoding [OF st x(1) _ h]) (use y(1) True in simp)
    hence f: "length xs = length zs" "lastHash xs = lastHash zs" using plain_fields [OF p] a b by simp_all
    show ?thesis
    proof (cases "xs = []")
      case True
      thus ?thesis using f(1) ys p x(1) y(1) \<open>x = y\<close> by simp
    next
      case False
      hence "zs \<noteq> []" using f(1) by auto
      from snoc.IH [OF a(1) b(1) False this f(2)] show ?thesis using ys p x(1) y(1) \<open>x = y\<close> by (auto simp: encodings_def)
    qed
  next
    case False
    thus ?thesis using H i by blast
  qed
qed simp

text \<open>C32. The last hash of an accepted log determines the log: if \<open>Verify\<close> accepts two databases whose last events
  have the same hash, then their events agree in number, in every field and in the encoding of the metadata, or two of their
  encodings are a collision of the hash function.\<close>

theorem Verify_tamper_evident:
  assumes "json_stable C" "Audit_Verify C H False db1 = Inr ()" "Audit_List C False 0 db1 = Inr es1"
    "Audit_Verify C H False db2 = Inr ()" "Audit_List C False 0 db2 = Inr es2" "es1 \<noteq> []" "es2 \<noteq> []" "lastHash es1 = lastHash es2"
  shows "(\<exists>x \<in> encodings C es1. \<exists>y \<in> encodings C es2. x \<noteq> y \<and> H x = H y)
    \<or> map (\<lambda>e. (Marshal C (e\<lparr>aeHash := []\<rparr>), e\<lparr>aeMetadata := []\<rparr>)) es1 = map (\<lambda>e. (Marshal C (e\<lparr>aeHash := []\<rparr>), e\<lparr>aeMetadata := []\<rparr>)) es2"
proof (rule chained_same [OF assms(1) _ _ assms(6-8)])
  show "chained C H es1" "chained C H es2" using assms(2-5) by (simp_all add: Audit_Verify_def verifyLoop_chained)
qed

theorem Verify_tamper_evident_witness:
  "\<exists>db1 db2 es1 es2. Audit_Verify demoCodec demoHash False db1 = Inr () \<and> Audit_List demoCodec False 0 db1 = Inr es1
    \<and> Audit_Verify demoCodec demoHash False db2 = Inr () \<and> Audit_List demoCodec False 0 db2 = Inr es2
    \<and> es1 \<noteq> [] \<and> es2 \<noteq> [] \<and> lastHash es1 = lastHash es2
    \<and> ((\<exists>x \<in> encodings demoCodec es1. \<exists>y \<in> encodings demoCodec es2. x \<noteq> y \<and> demoHash x = demoHash y)
      \<or> map (\<lambda>e. (Marshal demoCodec (e\<lparr>aeHash := []\<rparr>), e\<lparr>aeMetadata := []\<rparr>)) es1
        = map (\<lambda>e. (Marshal demoCodec (e\<lparr>aeHash := []\<rparr>), e\<lparr>aeMetadata := []\<rparr>)) es2)"
proof -
  obtain db0 db where db: "db_kv db0 []" "Audit_Append demoCodec demoHash False 1 None demoEvent db0 = (Inr (demoEvent\<lparr>aeHash := ''07''\<rparr>), db)"
    by (rule demo_append)
  have l: "log_rows demoCodec demoHash [] []" "log_meta [] []" by (simp_all add: log_rows_def log_meta_def rows_def chained_def)
  obtain kv' where kv': "db_kv db kv'" "log_rows demoCodec demoHash kv' ([] @ [demoEvent\<lparr>aeHash := ''07''\<rparr>])"
    using Append_log [OF db(1) l _ db(2)] by auto
  note V = Verify_log [OF kv' demo_stable] and L = List_log [OF kv' demo_stable]
  have ne: "map (decoded demoCodec) ([] @ [demoEvent\<lparr>aeHash := ''07''\<rparr>]) \<noteq> []" by simp
  from Verify_tamper_evident [OF demo_stable V L V L ne ne refl] V L ne show ?thesis by blast
qed

text \<open>C33. Removing the last events goes unnoticed: a database whose metadata count the events \<open>es\<close> and whose log holds only
  the first of them verifies, since the number and the hash of the last event are stored and never compared.\<close>

theorem Verify_misses_truncation:
  assumes "db_kv db kv" "json_stable C" "log_meta kv es" "n < length es" "log_rows C H kv (take n es)"
  shows "Audit_Verify C H False db = Inr () \<and> (\<exists>listed. Audit_List C False 0 db = Inr listed \<and> length listed < length es)
    \<and> getRaw metaBucket seqKey db = Inr (Some (seqBytes (length es)))"
proof -
  have "getRaw metaBucket seqKey db = Inr (map_of (rows metaBucket kv) seqKey)"
    using getRaw_kv [OF assms(1) bucket_labels(2)] bucket_labels(3) by simp
  moreover have "es \<noteq> []" using assms(4) by auto
  ultimately show ?thesis using Verify_log [OF assms(1,5,2)] List_log [OF assms(1,5,2)] assms(3,4) by (simp add: log_meta_def)
qed

theorem Verify_misses_truncation_witness:
  "\<exists>db. Audit_Verify demoCodec demoHash False db = Inr () \<and> Audit_List demoCodec False 0 db = Inr []
    \<and> getRaw metaBucket seqKey db = Inr (Some (seqBytes 1))"
proof -
  let ?raw = "\<lparr>Marshal = Some, Unmarshal = Some\<rparr> :: bytes codec" and ?es = "[demoEvent\<lparr>aeHash := ''07''\<rparr>]"
  let ?kv1 = "kv_upd (metaBucket @ 0 # seqKey) (seqBytes 1) []" let ?kv2 = "kv_upd (metaBucket @ 0 # hashKey) (bytes_of ''07'') ?kv1"
  have c: "leaf_costs ?kv1 \<le> 4080" "leaf_costs ?kv2 \<le> 4080" by code_simp+
  obtain db0 where db0: "db_ok db0 (PLeaf 1 0 [])" by (metis example_db)
  obtain db1 where db1: "db_ok db1 (PLeaf 1 0 ?kv1)"
    by (rule saveJSON_leaf [OF db0 bucket_labels(2,3), of ?raw "seqBytes 1"]) (use c in simp_all)
  obtain db2 where db2: "db_ok db2 (PLeaf 1 0 ?kv2)"
    by (rule saveJSON_leaf [OF db1 bucket_labels(2,4), of ?raw "bytes_of ''07''"]) (use c in simp_all)
  have s: "kv_sorted []" "kv_sorted ?kv1" by (simp_all add: kv_simps)
  have r: "rows eventsBucket ?kv2 = []"
    using rows_upd [OF s(2) bucket_labels(2,1)] rows_upd [OF s(1) bucket_labels(2,1)] bucket_labels(5) by (simp add: rows_def)
  have "rows metaBucket ?kv2 = kv_upd hashKey (bytes_of ''07'') (kv_upd seqKey (seqBytes 1) [])"
    using rows_upd [OF s(2) bucket_labels(2,2)] rows_upd [OF s(1) bucket_labels(2,2)] by (simp add: rows_def)
  hence m: "log_meta ?kv2 ?es" using bucket_labels(6)
    by (simp add: log_meta_def map_of_kv_upd kv_sorted_kv_upd kv_simps lastHash_def)
  have z: "log_rows demoCodec demoHash ?kv2 (take 0 ?es)" using r by (simp add: log_rows_def chained_def)
  have "0 < length ?es" by simp
  from Verify_misses_truncation [OF leaf_kv [OF db2] demo_stable m this z] show ?thesis by auto
qed

end
