(* ===== verification/Go_Base64.thy ===== *)
theory Go_Base64
  imports Go_Strings
begin

text \<open>
  Unpadded base64 as \<open>encoding/base64\<close> has it (\<open>RawStdEncoding\<close>, \<open>RawURLEncoding\<close>): three bytes to four
  letters, with two or three letters for a rest of one or two bytes. The decoder skips line breaks and, being not
  strict, ignores the unused bits of the last letter.

  Shown here: decoding inverts encoding, and the letters an encoding is made of.
\<close>

definition b64Upper :: string where "b64Upper = ''ABCDEFGHIJKLMNOPQRSTUVWXYZabcdefghijklmnopqrstuvwxyz0123456789''"

definition stdAlphabet :: string where "stdAlphabet = b64Upper @ ''+/''"

definition urlAlphabet :: string where "urlAlphabet = b64Upper @ ''-_''"

fun b64Encode :: "string \<Rightarrow> bytes \<Rightarrow> string" where
  "b64Encode A [] = []"
| "b64Encode A [a] = [A ! (unat a div 4), A ! (unat a mod 4 * 16)]"
| "b64Encode A [a, b] = [A ! (unat a div 4), A ! (unat a mod 4 * 16 + unat b div 16), A ! (unat b mod 16 * 4)]"
| "b64Encode A (a # b # c # bs) =
     [A ! (unat a div 4), A ! (unat a mod 4 * 16 + unat b div 16), A ! (unat b mod 16 * 4 + unat c div 64), A ! (unat c mod 64)]
     @ b64Encode A bs"

fun letterIndex :: "string \<Rightarrow> char \<Rightarrow> nat option" where
  "letterIndex [] c = None"
| "letterIndex (x # xs) c = (if x = c then Some 0 else map_option Suc (letterIndex xs c))"

fun letterIndexes :: "string \<Rightarrow> string \<Rightarrow> nat list option" where
  "letterIndexes A [] = Some []"
| "letterIndexes A (c # cs) =
     (case letterIndex A c of None \<Rightarrow> None
      | Some n \<Rightarrow> (case letterIndexes A cs of None \<Rightarrow> None | Some ns \<Rightarrow> Some (n # ns)))"

fun sextets :: "nat list \<Rightarrow> bytes option" where
  "sextets [] = Some []"
| "sextets [p] = None"
| "sextets [p, q] = Some [of_nat (p * 4 + q div 16)]"
| "sextets [p, q, r] = Some [of_nat (p * 4 + q div 16), of_nat (q mod 16 * 16 + r div 4)]"
| "sextets (p # q # r # s # ns) =
     (case sextets ns of None \<Rightarrow> None
      | Some bs \<Rightarrow> Some (of_nat (p * 4 + q div 16) # of_nat (q mod 16 * 16 + r div 4) # of_nat (r mod 4 * 64 + s) # bs))"

definition b64Decode :: "string \<Rightarrow> string \<Rightarrow> bytes option" where
  "b64Decode A s =
     (case letterIndexes A (filter (\<lambda>c. c \<noteq> CHR 0x0A \<and> c \<noteq> CHR 0x0D) s) of None \<Rightarrow> None | Some ns \<Rightarrow> sextets ns)"

section \<open>Decoding inverts encoding\<close>

definition alphabet64 :: "string \<Rightarrow> bool" where
  "alphabet64 A \<longleftrightarrow> length A = 64 \<and> distinct A \<and> CHR 0x0A \<notin> set A \<and> CHR 0x0D \<notin> set A"

lemma alphabets: "alphabet64 stdAlphabet" "alphabet64 urlAlphabet"
  by code_simp+

lemma letterIndex_nth: "distinct A \<Longrightarrow> n < length A \<Longrightarrow> letterIndex A (A ! n) = Some n"
proof (induction A arbitrary: n)
  case (Cons x xs)
  thus ?case by (cases n) auto
qed simp

lemma byte_lt: "unat (a :: byte) < 256"
  using unsigned_less [of a] by simp

lemma b64_indexes:
  "unat (a :: byte) div 4 < 64" "unat a mod 4 * 16 < 64" "unat a mod 4 * 16 + unat (b :: byte) div 16 < 64" "unat b mod 16 * 4 < 64"
  "unat b mod 16 * 4 + unat (c :: byte) div 64 < 64" "unat c mod 64 < 64"
  using byte_lt [of a] byte_lt [of b] byte_lt [of c] by linarith+

fun sextetsOf :: "bytes \<Rightarrow> nat list" where
  "sextetsOf [] = []"
| "sextetsOf [a] = [unat a div 4, unat a mod 4 * 16]"
| "sextetsOf [a, b] = [unat a div 4, unat a mod 4 * 16 + unat b div 16, unat b mod 16 * 4]"
| "sextetsOf (a # b # c # bs) =
     [unat a div 4, unat a mod 4 * 16 + unat b div 16, unat b mod 16 * 4 + unat c div 64, unat c mod 64] @ sextetsOf bs"

lemma b64Encode_sextets: "b64Encode A bs = map (\<lambda>n. A ! n) (sextetsOf bs)"
  by (induction bs rule: sextetsOf.induct) simp_all

lemma sextetsOf_bound: "n \<in> set (sextetsOf bs) \<Longrightarrow> n < 64"
  by (induction bs rule: sextetsOf.induct) (auto simp: b64_indexes)

lemma sextet_bytes:
  fixes a b c :: byte
  shows "(of_nat (unat a div 4 * 4 + unat a mod 4 * 16 div 16) :: byte) = a"
    "(of_nat (unat a div 4 * 4 + (unat a mod 4 * 16 + unat b div 16) div 16) :: byte) = a"
    "(of_nat ((unat a mod 4 * 16 + unat b div 16) mod 16 * 16 + unat b mod 16 * 4 div 4) :: byte) = b"
    "(of_nat ((unat a mod 4 * 16 + unat b div 16) mod 16 * 16 + (unat b mod 16 * 4 + unat c div 64) div 4) :: byte) = b"
    "(of_nat ((unat b mod 16 * 4 + unat c div 64) mod 4 * 64 + unat c mod 64) :: byte) = c"
proof -
  have "unat b div 16 < 16" "unat c div 64 < 4" using byte_lt [of b] byte_lt [of c] by linarith+
  hence "unat a div 4 * 4 + unat a mod 4 * 16 div 16 = unat a"
    "unat a div 4 * 4 + (unat a mod 4 * 16 + unat b div 16) div 16 = unat a"
    "(unat a mod 4 * 16 + unat b div 16) mod 16 * 16 + unat b mod 16 * 4 div 4 = unat b"
    "(unat a mod 4 * 16 + unat b div 16) mod 16 * 16 + (unat b mod 16 * 4 + unat c div 64) div 4 = unat b"
    "(unat b mod 16 * 4 + unat c div 64) mod 4 * 64 + unat c mod 64 = unat c"
    by simp_all
  thus "(of_nat (unat a div 4 * 4 + unat a mod 4 * 16 div 16) :: byte) = a"
    "(of_nat (unat a div 4 * 4 + (unat a mod 4 * 16 + unat b div 16) div 16) :: byte) = a"
    "(of_nat ((unat a mod 4 * 16 + unat b div 16) mod 16 * 16 + unat b mod 16 * 4 div 4) :: byte) = b"
    "(of_nat ((unat a mod 4 * 16 + unat b div 16) mod 16 * 16 + (unat b mod 16 * 4 + unat c div 64) div 4) :: byte) = b"
    "(of_nat ((unat b mod 16 * 4 + unat c div 64) mod 4 * 64 + unat c mod 64) :: byte) = c"
    by (simp_all only: of_nat_unat ucast_id)
qed

lemma sextets_sextetsOf: "sextets (sextetsOf bs) = Some bs"
  by (induction bs rule: sextetsOf.induct) (simp_all only: sextetsOf.simps sextets.simps append.simps sextet_bytes option.case)

lemma letterIndexes_map: "distinct A \<Longrightarrow> (\<forall>n \<in> set ns. n < length A) \<Longrightarrow> letterIndexes A (map (\<lambda>n. A ! n) ns) = Some ns"
  by (induction ns) (simp_all add: letterIndex_nth)

lemma b64Encode_chars: "alphabet64 A \<Longrightarrow> set (b64Encode A bs) \<subseteq> set A"
  using sextetsOf_bound by (auto simp: b64Encode_sextets alphabet64_def)

lemma b64Decode_Encode: "alphabet64 A \<Longrightarrow> b64Decode A (b64Encode A bs) = Some bs"
proof -
  assume A: "alphabet64 A"
  have "filter (\<lambda>c. c \<noteq> CHR 0x0A \<and> c \<noteq> CHR 0x0D) (b64Encode A bs) = b64Encode A bs"
    using b64Encode_chars [OF A, of bs] A by (intro filter_True) (auto simp: alphabet64_def)
  moreover have "letterIndexes A (b64Encode A bs) = Some (sextetsOf bs)"
    unfolding b64Encode_sextets using A sextetsOf_bound by (intro letterIndexes_map) (auto simp: alphabet64_def)
  ultimately show ?thesis by (simp add: b64Decode_def sextets_sextetsOf)
qed

end
