(* ===== verification/Resource_Secret.thy ===== *)
theory Resource_Secret
  imports Store Go_Base64
begin

text \<open>
  Secrets in the options of targets and storages (\<open>internal/server/resource_secret.go\<close>) and the key derivation
  they use (\<open>internal/crypto/kdf.go\<close>). Argon2id, SHA-256, the authenticated cipher and the JSON encoding of a
  value are parameters. A map from option names to values is an association list in the order of the names; the
  structure \<open>encryptedOptionValue\<close> inside such a map is the JSON object that it is written as.

  Shown here: revealing inverts protecting, and what protecting does to the value of every option.
\<close>

section \<open>Strings\<close>

definition lowerChar :: "char \<Rightarrow> char" where
  "lowerChar c = (if 65 \<le> (of_char c :: nat) \<and> (of_char c :: nat) \<le> 90 then char_of (of_char c + 32 :: nat) else c)"

definition ToLower :: "string \<Rightarrow> string" where "ToLower s = map lowerChar s"

definition Contains :: "string \<Rightarrow> string \<Rightarrow> bool" where
  "Contains s sub \<longleftrightarrow> list_ex (\<lambda>i. take (length sub) (drop i s) = sub) [0..<Suc (length s)]"

section \<open>Key derivation\<close>

record kdfParams =
  kdfTime :: nat
  kdfMemory :: nat
  kdfThreads :: nat
  kdfKeyLen :: nat

type_synonym argon2id = "bytes \<Rightarrow> bytes \<Rightarrow> nat \<Rightarrow> nat \<Rightarrow> nat \<Rightarrow> nat \<Rightarrow> bytes"

definition derivedKeySize :: nat where "derivedKeySize = 32"

definition DefaultKDFParams :: kdfParams where
  "DefaultKDFParams = \<lparr>kdfTime = 3, kdfMemory = 64 * 1024, kdfThreads = 4, kdfKeyLen = derivedKeySize\<rparr>"

definition DeriveKeyWithParams :: "argon2id \<Rightarrow> bytes \<Rightarrow> bytes \<Rightarrow> kdfParams \<Rightarrow> server_error + bytes" where
  "DeriveKeyWithParams IDKey passphrase salt params =
     (if passphrase = [] then Inl (Invalid ''passphrase is required'')
      else if length salt < 16 then Inl (Invalid ''salt must be at least 16 bytes'')
      else if kdfTime params = 0 then Inl (Invalid ''argon2id time cost must be greater than zero'')
      else if kdfMemory params = 0 then Inl (Invalid ''argon2id memory cost must be greater than zero'')
      else if kdfThreads params = 0 then Inl (Invalid ''argon2id threads must be greater than zero'')
      else
        let keyLen = (if kdfKeyLen params = 0 then derivedKeySize else kdfKeyLen params) in
        Inr (IDKey passphrase salt (kdfTime params) (kdfMemory params) (kdfThreads params) keyLen))"

definition DeriveKey :: "argon2id \<Rightarrow> bytes \<Rightarrow> bytes \<Rightarrow> server_error + bytes" where
  "DeriveKey IDKey passphrase salt = DeriveKeyWithParams IDKey passphrase salt DefaultKDFParams"

section \<open>The protector\<close>

type_synonym options = "(string \<times> anyval) list"

definition encryptedOptionMarker :: string where "encryptedOptionMarker = ''kronos-state-secret:v1''"

record encryptedOptionValue =
  eoMarker :: string
  eoAlgorithm :: string
  eoNonce :: string
  eoCiphertext :: string

definition NewStateSecretProtector :: "(bytes \<Rightarrow> bytes) \<Rightarrow> argon2id \<Rightarrow> (bytes \<Rightarrow> aead) \<Rightarrow> string \<Rightarrow> server_error + cipher" where
  "NewStateSecretProtector sha256 IDKey gcm passphrase =
     (let passphrase' = TrimSpace passphrase in
      if passphrase' = [] then Inl (Invalid ''state secret passphrase is required'')
      else
        let salt = sha256 (bytes_of ''kronos-state-secret-protector-v1'') in
        (case DeriveKey IDKey (bytes_of passphrase') salt of Inl e \<Rightarrow> Inl e
         | Inr key \<Rightarrow> (case NewAES256GCM gcm key of Inl e \<Rightarrow> Inl (CipherError e) | Inr c \<Rightarrow> Inr c)))"

text \<open>\<open>json.Marshal\<close> refuses what is no number; nothing else that an option can hold.\<close>

primrec jsonEncodable :: "anyval \<Rightarrow> bool" where
  "jsonEncodable VNil = True"
| "jsonEncodable (VBool b) = True"
| "jsonEncodable (VInt n) = True"
| "jsonEncodable (VFloat m e) = True"
| "jsonEncodable VNaN = False"
| "jsonEncodable (VString s) = True"
| "jsonEncodable (VDuration d) = True"
| "jsonEncodable (VTime t) = True"
| "jsonEncodable (VList vs) = list_all id (map jsonEncodable vs)"
| "jsonEncodable (VMap m) = list_all snd (map (map_prod id jsonEncodable) m)"
| "jsonEncodable (VOther n) = True"

text \<open>Decoding an object into the structure: a member sets the field of its name, in any case; null sets nothing; a value
  that is no string is an error. A later member overrides an earlier one.\<close>

fun decodeFields :: "options \<Rightarrow> encryptedOptionValue \<Rightarrow> encryptedOptionValue option" where
  "decodeFields [] r = Some r"
| "decodeFields ((key, v) # m) r =
     (let name = ToLower key in
      if name \<noteq> ''_kronos_secret'' \<and> name \<noteq> ''algorithm'' \<and> name \<noteq> ''nonce'' \<and> name \<noteq> ''ciphertext'' \<or> v = VNil then decodeFields m r
      else (case v of
              VString s \<Rightarrow> decodeFields m
                (if name = ''_kronos_secret'' then r\<lparr>eoMarker := s\<rparr> else if name = ''algorithm'' then r\<lparr>eoAlgorithm := s\<rparr>
                 else if name = ''nonce'' then r\<lparr>eoNonce := s\<rparr> else r\<lparr>eoCiphertext := s\<rparr>)
            | _ \<Rightarrow> None))"

definition encryptedOptionFromAny :: "anyval \<Rightarrow> encryptedOptionValue option" where
  "encryptedOptionFromAny value =
     (case value of
        VMap m \<Rightarrow>
          if \<not> jsonEncodable value then None
          else (case decodeFields m \<lparr>eoMarker = [], eoAlgorithm = [], eoNonce = [], eoCiphertext = []\<rparr> of
                  None \<Rightarrow> None | Some r \<Rightarrow> if eoMarker r \<noteq> encryptedOptionMarker then None else Some r)
      | _ \<Rightarrow> None)"

definition isEncryptedOptionValue :: "anyval \<Rightarrow> bool" where
  "isEncryptedOptionValue value \<longleftrightarrow>
     (case encryptedOptionFromAny value of None \<Rightarrow> False | Some r \<Rightarrow> eoMarker r = encryptedOptionMarker)"

definition sensitiveOptionKey :: "string \<Rightarrow> bool" where
  "sensitiveOptionKey key \<longleftrightarrow>
     list_ex (Contains (ToLower key)) [''password'', ''secret'', ''token'', ''passphrase'', ''credential'', ''private_key'', ''access_key'',
       ''session_key'', ''encryption_key'', ''api_key'', ''apikey'']"

definition encryptedObject :: "encryptedOptionValue \<Rightarrow> anyval" where
  "encryptedObject r = VMap [(''_kronos_secret'', VString (eoMarker r)), (''algorithm'', VString (eoAlgorithm r)),
     (''ciphertext'', VString (eoCiphertext r)), (''nonce'', VString (eoNonce r))]"

definition protectValue :: "anyval codec \<Rightarrow> cipher \<Rightarrow> bytes option \<Rightarrow> string \<Rightarrow> anyval \<Rightarrow> server_error + anyval" where
  "protectValue V c random key value =
     (case Marshal V value of None \<Rightarrow> Inl JSONError
      | Some plaintext \<Rightarrow>
        (case NewNonce c random of Inl e \<Rightarrow> Inl (CipherError e)
         | Inr nonce \<Rightarrow>
           (case Cipher_Seal c nonce plaintext (bytes_of key) of Inl e \<Rightarrow> Inl (CipherError e)
            | Inr ciphertext \<Rightarrow>
              Inr (encryptedObject \<lparr>eoMarker = encryptedOptionMarker, eoAlgorithm = cipherAlgorithm c,
                     eoNonce = b64Encode stdAlphabet nonce, eoCiphertext = b64Encode stdAlphabet ciphertext\<rparr>))))"

definition revealValue :: "anyval codec \<Rightarrow> cipher \<Rightarrow> string \<Rightarrow> anyval \<Rightarrow> server_error + anyval" where
  "revealValue V c key value =
     (case encryptedOptionFromAny value of None \<Rightarrow> Inl (Invalid ''not encrypted option'')
      | Some r \<Rightarrow>
        if eoAlgorithm r \<noteq> AlgorithmAES256GCM then Inl (Invalid ''unsupported encrypted option algorithm'')
        else (case b64Decode stdAlphabet (eoNonce r) of None \<Rightarrow> Inl (Invalid ''decode encrypted option nonce'')
              | Some nonce \<Rightarrow>
                (case b64Decode stdAlphabet (eoCiphertext r) of None \<Rightarrow> Inl (Invalid ''decode encrypted option ciphertext'')
                 | Some ciphertext \<Rightarrow>
                   (case Cipher_Open c nonce ciphertext (bytes_of key) of Inl e \<Rightarrow> Inl (CipherError e)
                    | Inr plaintext \<Rightarrow> decode V plaintext))))"

text \<open>For every key, \<open>random\<close> is what the random source yields when the value of the key is sealed. No protector is
  \<open>None\<close>.\<close>

definition protectOption :: "anyval codec \<Rightarrow> cipher option \<Rightarrow> (string \<Rightarrow> bytes option) \<Rightarrow> string \<times> anyval \<Rightarrow> server_error + string \<times> anyval" where
  "protectOption V p random x =
     (case x of (key, value) \<Rightarrow>
      if \<not> sensitiveOptionKey key then Inr (key, value)
      else if isEncryptedOptionValue value then Inr (key, value)
      else (case p of None \<Rightarrow> Inr (key, value)
            | Some c \<Rightarrow> (case protectValue V c (random key) key value of Inl e \<Rightarrow> Inl e | Inr y \<Rightarrow> Inr (key, y))))"

definition protectOptions :: "anyval codec \<Rightarrow> cipher option \<Rightarrow> (string \<Rightarrow> bytes option) \<Rightarrow> options \<Rightarrow> server_error + options" where
  "protectOptions V p random opts = (if opts = [] then Inr opts else mapE (protectOption V p random) opts)"

definition revealOption :: "anyval codec \<Rightarrow> cipher option \<Rightarrow> string \<times> anyval \<Rightarrow> server_error + string \<times> anyval" where
  "revealOption V p x =
     (case x of (key, value) \<Rightarrow>
      if \<not> isEncryptedOptionValue value then Inr (key, value)
      else (case p of None \<Rightarrow> Inl (Invalid ''state secret protector is required to read encrypted option'')
            | Some c \<Rightarrow> (case revealValue V c key value of Inl e \<Rightarrow> Inl e | Inr y \<Rightarrow> Inr (key, y))))"

definition revealOptions :: "anyval codec \<Rightarrow> cipher option \<Rightarrow> options \<Rightarrow> server_error + options" where
  "revealOptions V p opts = (if opts = [] then Inr opts else mapE (revealOption V p) opts)"

section \<open>Revealing inverts protecting\<close>

text \<open>Values that JSON gives back as they were: no integers, which come back as floating point numbers, and floating point
  numbers and objects in their one normal form.\<close>

primrec jsonStable :: "anyval \<Rightarrow> bool" where
  "jsonStable VNil = True"
| "jsonStable (VBool b) = True"
| "jsonStable (VInt n) = False"
| "jsonStable (VFloat m e) = (odd m \<or> m = 0 \<and> e = 0)"
| "jsonStable VNaN = False"
| "jsonStable (VString s) = True"
| "jsonStable (VDuration d) = False"
| "jsonStable (VTime t) = False"
| "jsonStable (VList vs) = list_all id (map jsonStable vs)"
| "jsonStable (VMap m) = (kv_sorted m \<and> list_all snd (map (map_prod id jsonStable) m))"
| "jsonStable (VOther n) = False"

definition codec_on :: "('a \<Rightarrow> bool) \<Rightarrow> 'a codec \<Rightarrow> bool" where
  "codec_on P C \<longleftrightarrow> (\<forall>r data. P r \<longrightarrow> Marshal C r = Some data \<longrightarrow> Unmarshal C data = Some r)"

definition secret_cipher :: "cipher \<Rightarrow> bool" where
  "secret_cipher c \<longleftrightarrow> cipherAlgorithm c = AlgorithmAES256GCM \<and> aead_opens (cipherAead c)"

lemma NewAES256GCM_secret: "NewAES256GCM gcm key = Inr c \<Longrightarrow> aead_opens (gcm key) \<Longrightarrow> secret_cipher c"
  by (auto simp: NewAES256GCM_def secret_cipher_def split: if_splits)

lemma fieldNames: "ToLower ''_kronos_secret'' = ''_kronos_secret''" "ToLower ''algorithm'' = ''algorithm''" "ToLower ''nonce'' = ''nonce''"
  "ToLower ''ciphertext'' = ''ciphertext''"
  by code_simp+

lemma encryptedObject_back:
  "encryptedOptionFromAny (encryptedObject r) = (if eoMarker r = encryptedOptionMarker then Some r else None)"
  by (simp add: encryptedObject_def encryptedOptionFromAny_def fieldNames Let_def)

lemma encryptedObject_stable: "jsonStable (encryptedObject r)"
proof -
  have "kv_sorted [(''_kronos_secret'', VString (eoMarker r)), (''algorithm'', VString (eoAlgorithm r)),
     (''ciphertext'', VString (eoCiphertext r)), (''nonce'', VString (eoNonce r))]"
    by (simp add: kv_sorted_def less_char_def)
  thus ?thesis by (simp add: encryptedObject_def)
qed

lemma protectValue_sealed: "protectValue V c random key value = Inr y \<Longrightarrow> isEncryptedOptionValue y \<and> jsonStable y"
  by (auto simp: protectValue_def isEncryptedOptionValue_def encryptedObject_back encryptedObject_stable split: option.splits sum.splits)

lemma NewNonce_length: "NewNonce c random = Inr nonce \<Longrightarrow> length nonce = NonceSize c"
  by (auto simp: NewNonce_def split: option.splits if_splits)

lemma revealValue_protectValue:
  assumes "secret_cipher c" "codec_on P V" "P value" "protectValue V c random key value = Inr y"
  shows "revealValue V c key y = Inr value"
proof -
  obtain plaintext nonce where p: "Marshal V value = Some plaintext" "NewNonce c random = Inr nonce"
    "y = encryptedObject \<lparr>eoMarker = encryptedOptionMarker, eoAlgorithm = cipherAlgorithm c, eoNonce = b64Encode stdAlphabet nonce,
      eoCiphertext = b64Encode stdAlphabet (aeadSeal (cipherAead c) nonce plaintext (bytes_of key))\<rparr>"
    using assms(4) by (auto simp: protectValue_def Cipher_Seal_def split: option.splits sum.splits if_splits)
  have l: "length nonce = NonceSize c" by (rule NewNonce_length [OF p(2)])
  hence "aeadOpen (cipherAead c) nonce (aeadSeal (cipherAead c) nonce plaintext (bytes_of key)) (bytes_of key) = Some plaintext"
    using assms(1) by (simp add: secret_cipher_def aead_opens_def NonceSize_def)
  moreover have "Unmarshal V plaintext = Some value" using assms(2,3) p(1) by (auto simp: codec_on_def)
  ultimately show ?thesis using assms(1) l
    by (simp add: p(3) revealValue_def encryptedObject_back b64Decode_Encode alphabets secret_cipher_def Cipher_Open_def decode_def)
qed

text \<open>What protecting does, value by value.\<close>

definition protectedAs :: "string \<times> anyval \<Rightarrow> string \<times> anyval \<Rightarrow> bool" where
  "protectedAs x y \<longleftrightarrow> fst y = fst x \<and> (if sensitiveOptionKey (fst x) then isEncryptedOptionValue (snd y) else snd y = snd x)"

lemma protectOption_as:
  "protectOption V (Some c) random x = Inr y \<Longrightarrow> protectedAs x y \<and> (jsonStable (snd x) \<longrightarrow> jsonStable (snd y))"
  by (cases x) (auto simp: protectOption_def protectedAs_def dest: protectValue_sealed split: if_splits sum.splits)

lemma revealOption_protectOption:
  assumes "secret_cipher c" "codec_on P V" "P (snd x)" "\<not> isEncryptedOptionValue (snd x)" "protectOption V (Some c) random x = Inr y"
  shows "revealOption V (Some c) y = Inr x"
proof (cases x)
  case (Pair key v)
  show ?thesis
  proof (cases "sensitiveOptionKey key")
    case True
    then obtain z where "protectValue V c (random key) key v = Inr z" "y = (key, z)"
      using assms(4,5) Pair by (auto simp: protectOption_def split: if_splits sum.splits)
    thus ?thesis using revealValue_protectValue [OF assms(1,2)] protectValue_sealed assms(3) Pair by (fastforce simp: revealOption_def)
  next
    case False
    thus ?thesis using assms(4,5) Pair by (auto simp: protectOption_def revealOption_def)
  qed
qed

lemma mapE_inverse:
  "mapE f xs = Inr ys \<Longrightarrow> (\<And>x y. x \<in> set xs \<Longrightarrow> f x = Inr y \<Longrightarrow> g y = Inr x) \<Longrightarrow> mapE g ys = Inr xs"
proof (induction xs arbitrary: ys)
  case (Cons x xs)
  then obtain z zs where z: "f x = Inr z" "mapE f xs = Inr zs" "ys = z # zs" by (auto split: sum.splits)
  moreover have "g z = Inr x" "mapE g zs = Inr xs" using Cons z by auto
  ultimately show ?case by simp
qed simp

lemma mapE_rel: "mapE f xs = Inr ys \<Longrightarrow> (\<And>x y. x \<in> set xs \<Longrightarrow> f x = Inr y \<Longrightarrow> R x y) \<Longrightarrow> list_all2 R xs ys"
  by (induction xs arbitrary: ys) (auto split: sum.splits)

lemma protectOptions_mapE: "protectOptions V p random opts = mapE (protectOption V p random) opts"
  by (simp add: protectOptions_def)

lemma revealOptions_mapE: "revealOptions V p opts = mapE (revealOption V p) opts"
  by (simp add: revealOptions_def)

lemma revealOptions_protectOptions:
  assumes "secret_cipher c" "codec_on P V" "\<forall>x \<in> set opts. P (snd x) \<and> \<not> isEncryptedOptionValue (snd x)"
    "protectOptions V (Some c) random opts = Inr opts'"
  shows "revealOptions V (Some c) opts' = Inr opts"
  unfolding revealOptions_mapE
  by (rule mapE_inverse [OF assms(4) [unfolded protectOptions_mapE]]) (use assms(3) revealOption_protectOption [OF assms(1,2)] in blast)

lemma protectOptions_as:
  assumes "protectOptions V (Some c) random opts = Inr opts'"
  shows "list_all2 (\<lambda>x y. protectedAs x y \<and> (jsonStable (snd x) \<longrightarrow> jsonStable (snd y))) opts opts'"
  by (rule mapE_rel [OF assms [unfolded protectOptions_mapE]]) (rule protectOption_as)

lemma protectOptions_stable:
  assumes "protectOptions V (Some c) random opts = Inr opts'" "jsonStable (VMap opts)"
  shows "jsonStable (VMap opts')"
proof -
  note a = protectOptions_as [OF assms(1)]
  have "map fst opts' = map fst opts" using a by (induction rule: list_all2_induct) (simp_all add: protectedAs_def)
  moreover have "list_all jsonStable (map snd opts) \<Longrightarrow> list_all jsonStable (map snd opts')"
    using a by (induction rule: list_all2_induct) simp_all
  moreover have "list_all snd (map (map_prod id jsonStable) m) = list_all jsonStable (map snd m)" for m
    by (induction m) auto
  ultimately show ?thesis using assms(2) unfolding jsonStable.simps kv_sorted_def by metis
qed

end
