(* ===== verification/Resource_Store.thy ===== *)
theory Resource_Store
  imports Resource_Secret Schedule
begin

text \<open>
  The stores of the control plane for targets, storages, schedules, backups, users and retention policies, with the
  validation of what is saved (\<open>internal/server/resource_store.go\<close>). \<open>net/url.Parse\<close>, the time zone database and
  the JSON encodings are parameters.

  Shown here: what is read back after a save, in every store.
\<close>

section \<open>Validation\<close>

definition idChar :: "char \<Rightarrow> bool" where
  "idChar c \<longleftrightarrow> (let n = of_char c :: nat in 97 \<le> n \<and> n \<le> 122 \<or> 65 \<le> n \<and> n \<le> 90 \<or> 48 \<le> n \<and> n \<le> 57) \<or> c \<in> set ''-_.:/''"

definition validateResourceID :: "string \<Rightarrow> ident \<Rightarrow> server_error + unit" where
  "validateResourceID lbl i =
     (let value = TrimSpace i in
      if value = [] then Inl (Invalid (lbl @ '' is required''))
      else if value \<noteq> i then Inl (Invalid (lbl @ '' must not contain leading or trailing whitespace''))
      else if 128 < length value then Inl (Invalid (lbl @ '' must be at most 128 characters''))
      else if list_all idChar value then Inr ()
      else Inl (Invalid (lbl @ '' contains invalid character'')))"

definition hasControlChars :: "string \<Rightarrow> bool" where
  "hasControlChars value \<longleftrightarrow> list_ex (\<lambda>c. (of_char c :: nat) < 0x20 \<or> (of_char c :: nat) = 0x7f) value"

definition validTargetDriver :: "string \<Rightarrow> bool" where
  "validTargetDriver d \<longleftrightarrow> d \<in> set [TargetDriverPostgres, TargetDriverMySQL, TargetDriverMongoDB, TargetDriverRedis]"

definition validStorageKind :: "string \<Rightarrow> bool" where
  "validStorageKind k \<longleftrightarrow> k \<in> set [StorageKindLocal, StorageKindS3, StorageKindSFTP, StorageKindAzure, StorageKindGCS]"

definition validBackupType :: "string \<Rightarrow> bool" where
  "validBackupType t \<longleftrightarrow> t \<in> set [BackupTypeFull, BackupTypeIncremental, BackupTypeDifferential, BackupTypeStream, BackupTypeSchema]"

definition validRetentionRuleKind :: "string \<Rightarrow> bool" where
  "validRetentionRuleKind kind \<longleftrightarrow> TrimSpace kind \<in> set [''count'', ''time'', ''size'', ''gfs'']"

definition validRole :: "string \<Rightarrow> bool" where
  "validRole role \<longleftrightarrow> role \<in> set [RoleAdmin, RoleOperator, RoleViewer]"

definition targetOptionKeys :: "string list" where
  "targetOptionKeys = [''authSource'', ''auth_source'', ''connection_test_collection'', ''database'', ''dsn'', ''dump_set_gtid_purged'',
     ''globals'', ''host'', ''includeGlobals'', ''include_globals'', ''native'', ''native_protocol'', ''password'', ''port'', ''protocol'',
     ''set_gtid_purged'', ''ssl'', ''sslmode'', ''tls'', ''uri'', ''user'', ''username'']"

definition storageOptionKeys :: "string list" where
  "storageOptionKeys = [''accessKey'', ''access_key'', ''aws_access_key_id'', ''aws_secret_access_key'', ''account'', ''accountKey'',
     ''accountName'', ''account_key'', ''account_name'', ''accessToken'', ''access_token'', ''apiKey'', ''api_key'', ''aws_session_token'',
     ''bearerToken'', ''bearer_token'', ''bucket'', ''container'', ''credentials'', ''credentials_provider'', ''endpoint'',
     ''force_path_style'', ''imds_endpoint'', ''region'', ''secretKey'', ''secret_key'', ''sas'', ''sasToken'', ''sas_token'',
     ''sessionToken'', ''session_token'', ''agent_socket'', ''insecure_ignore_host_key'', ''knownHosts'', ''known_hosts'', ''passphrase'',
     ''password'', ''privateKey'', ''privateKeyPassphrase'', ''private_key'', ''private_key_passphrase'', ''private_key_path'',
     ''ssh_agent_socket'', ''prefix'', ''user'', ''username'']"

fun scalarValue :: "anyval \<Rightarrow> bool" where
  "scalarValue (VMap m) = False"
| "scalarValue (VTime t) = False"
| "scalarValue (VList vs) = False"
| "scalarValue (VDuration d) = False"
| "scalarValue (VOther n) = False"
| "scalarValue _ = True"

definition validateOptionValues :: "string \<Rightarrow> options \<Rightarrow> server_error + unit" where
  "validateOptionValues lbl opts = (if list_all (\<lambda>x. scalarValue (snd x)) opts then Inr () else Inl (Invalid (lbl @ '' must be a scalar value'')))"

definition validateOptions :: "string \<Rightarrow> options \<Rightarrow> string list \<Rightarrow> server_error + unit" where
  "validateOptions lbl opts allowed =
     (if \<not> list_all (\<lambda>x. fst x \<in> set allowed) opts then Inl (Invalid (lbl @ '' option is not supported''))
      else validateOptionValues (lbl @ '' option'') opts)"

text \<open>What \<open>url.Parse\<close> gives of a URL, as far as it is used.\<close>

record urlParts =
  urlScheme :: string
  urlHost :: string
  urlPath :: string

definition TrimSlashes :: "string \<Rightarrow> string" where
  "TrimSlashes s = rev (dropWhile (\<lambda>c. c = CHR ''/'') (rev (dropWhile (\<lambda>c. c = CHR ''/'') s)))"

definition validateStorageURI :: "(string \<Rightarrow> urlParts option) \<Rightarrow> string \<Rightarrow> string \<Rightarrow> server_error + unit" where
  "validateStorageURI ParseURL kind raw =
     (if hasControlChars raw then Inl (Invalid ''storage uri contains control characters'')
      else (case ParseURL raw of None \<Rightarrow> Inl (Invalid ''storage uri'')
            | Some u \<Rightarrow>
              if kind = StorageKindLocal then
                (if urlScheme u = [] then Inr ()
                 else if urlScheme u \<noteq> ''file'' then Inl (Invalid ''local storage uri must use file scheme'')
                 else if urlHost u \<noteq> [] then Inl (Invalid ''local storage uri must not include a host'')
                 else if urlPath u = [] then Inl (Invalid ''local storage uri path is required'')
                 else Inr ())
              else if kind = StorageKindS3 then
                (if urlScheme u \<noteq> ''s3'' then Inl (Invalid ''s3 storage uri must use s3 scheme'')
                 else if urlHost u = [] then Inl (Invalid ''s3 storage uri bucket is required'')
                 else Inr ())
              else if kind = StorageKindSFTP then
                (if urlScheme u \<noteq> ''sftp'' then Inl (Invalid ''sftp storage uri must use sftp scheme'')
                 else if urlHost u = [] then Inl (Invalid ''sftp storage uri host is required'')
                 else Inr ())
              else if kind = StorageKindAzure then
                (if urlScheme u \<noteq> ''azure'' \<and> urlScheme u \<noteq> ''azblob'' then Inl (Invalid ''azure storage uri must use azure or azblob scheme'')
                 else if urlHost u = [] then Inl (Invalid ''azure storage uri account is required'')
                 else if TrimSlashes (urlPath u) = [] then Inl (Invalid ''azure storage uri container is required'')
                 else Inr ())
              else if kind = StorageKindGCS then
                (if urlScheme u \<noteq> ''gcs'' \<and> urlScheme u \<noteq> ''gs'' then Inl (Invalid ''gcs storage uri must use gcs or gs scheme'')
                 else if urlHost u = [] then Inl (Invalid ''gcs storage uri bucket is required'')
                 else Inr ())
              else Inr ()))"

text \<open>Checks one after the other; the first error is the result.\<close>

fun firstError :: "(server_error + unit) list \<Rightarrow> server_error + unit" where
  "firstError [] = Inr ()"
| "firstError (Inl e # cs) = Inl e"
| "firstError (Inr _ # cs) = firstError cs"

definition check :: "bool \<Rightarrow> string \<Rightarrow> server_error + unit" where
  "check ok msg = (if ok then Inr () else Inl (Invalid msg))"

definition validateTarget :: "target \<Rightarrow> server_error + unit" where
  "validateTarget t = firstError
     [check (\<not> ID_IsZero (tgID t)) ''target id is required'',
      validateResourceID ''target id'' (tgID t),
      check (tgName t \<noteq> []) ''target name is required'',
      check (tgDriver t \<noteq> []) ''target driver is required'',
      check (validTargetDriver (tgDriver t)) ''target driver is not supported'',
      check (tgEndpoint t \<noteq> []) ''target endpoint is required'',
      check (\<not> hasControlChars (tgEndpoint t)) ''target endpoint contains control characters'',
      validateOptions ''target'' (tgOptions t) targetOptionKeys]"

definition validateStorage :: "(string \<Rightarrow> urlParts option) \<Rightarrow> storage \<Rightarrow> server_error + unit" where
  "validateStorage ParseURL s = firstError
     [check (\<not> ID_IsZero (stID s)) ''storage id is required'',
      validateResourceID ''storage id'' (stID s),
      check (stName s \<noteq> []) ''storage name is required'',
      check (stKind s \<noteq> []) ''storage kind is required'',
      check (validStorageKind (stKind s)) ''storage kind is not supported'',
      check (stURI s \<noteq> []) ''storage uri is required'',
      validateStorageURI ParseURL (stKind s) (stURI s),
      validateOptions ''storage'' (stOptions s) storageOptionKeys]"

definition validateExpression :: "(string \<Rightarrow> location option) \<Rightarrow> string \<Rightarrow> server_error + unit" where
  "validateExpression LoadLocation expr =
     (case ParseCron expr of Inr c \<Rightarrow> Inr ()
      | Inl ShiftPanic \<Rightarrow> Inl Panicked
      | Inl e \<Rightarrow> (case ParseWindow LoadLocation expr of Inr w \<Rightarrow> Inr () | Inl e' \<Rightarrow> Inl (Invalid ''schedule expression'')))"

definition validateSchedule :: "(string \<Rightarrow> location option) \<Rightarrow> schedule \<Rightarrow> server_error + unit" where
  "validateSchedule LoadLocation s = firstError
     [check (\<not> ID_IsZero (sID s)) ''schedule id is required'',
      validateResourceID ''schedule id'' (sID s),
      check (sName s \<noteq> []) ''schedule name is required'',
      check (\<not> ID_IsZero (sTargetID s)) ''schedule target id is required'',
      validateResourceID ''schedule target id'' (sTargetID s),
      check (\<not> ID_IsZero (sStorageID s)) ''schedule storage id is required'',
      validateResourceID ''schedule storage id'' (sStorageID s),
      check (sBackupType s \<noteq> []) ''schedule backup type is required'',
      check (validBackupType (sBackupType s)) ''schedule backup type is not supported'',
      check (sExpression s \<noteq> []) ''schedule expression is required'',
      validateExpression LoadLocation (sExpression s)]"

definition validateBackup :: "backup \<Rightarrow> server_error + unit" where
  "validateBackup b = firstError
     [check (\<not> ID_IsZero (bID b)) ''backup id is required'',
      validateResourceID ''backup id'' (bID b),
      check (\<not> ID_IsZero (bTargetID b)) ''backup target id is required'',
      validateResourceID ''backup target id'' (bTargetID b),
      check (\<not> ID_IsZero (bStorageID b)) ''backup storage id is required'',
      validateResourceID ''backup storage id'' (bStorageID b),
      check (\<not> ID_IsZero (bJobID b)) ''backup job id is required'',
      validateResourceID ''backup job id'' (bJobID b),
      check (bType b \<noteq> []) ''backup type is required'',
      check (validBackupType (bType b)) ''backup type is not supported'',
      check (\<not> ID_IsZero (bManifestID b)) ''backup manifest id is required'',
      validateResourceID ''backup manifest id'' (bManifestID b),
      check (\<not> IsZero (bEndedAt b)) ''backup ended_at is required'']"

definition validateUser :: "user \<Rightarrow> server_error + unit" where
  "validateUser u = firstError
     [check (\<not> ID_IsZero (usID u)) ''user id is required'',
      validateResourceID ''user id'' (usID u),
      check (usEmail u \<noteq> []) ''user email is required'',
      check (usDisplayName u \<noteq> []) ''user display name is required'',
      check (validRole (usRole u)) ''invalid user role'',
      check (\<not> usTOTPEnforced u) ''user totp_enforced is not supported by token-only auth'']"

definition validateRule :: "retentionRule \<Rightarrow> server_error + unit" where
  "validateRule rule = firstError
     [check (rrKind rule \<noteq> []) ''retention policy rule kind is required'',
      check (validRetentionRuleKind (rrKind rule)) ''retention policy rule kind is not supported'',
      validateOptionValues ''retention policy rule'' (rrParams rule)]"

definition validateRetentionPolicy :: "retentionPolicy \<Rightarrow> server_error + unit" where
  "validateRetentionPolicy p = firstError
     ([check (\<not> ID_IsZero (rpID p)) ''retention policy id is required'',
       validateResourceID ''retention policy id'' (rpID p),
       check (rpName p \<noteq> []) ''retention policy name is required'',
       check (rpRules p \<noteq> []) ''retention policy rules are required'']
      @ map validateRule (rpRules p))"

section \<open>The stores\<close>

definition targetsBucket :: bytes where "targetsBucket = bytes_of ''targets''"

definition storagesBucket :: bytes where "storagesBucket = bytes_of ''storages''"

definition schedulesBucket :: bytes where "schedulesBucket = bytes_of ''schedules''"

definition backupsBucket :: bytes where "backupsBucket = bytes_of ''backups''"

definition usersBucket :: bytes where "usersBucket = bytes_of ''users''"

definition policiesBucket :: bytes where "policiesBucket = bytes_of ''retention_policies''"

text \<open>Targets and storages keep the secrets of their options sealed.\<close>

definition TargetStore_Save :: "target codec \<Rightarrow> anyval codec \<Rightarrow> cipher option \<Rightarrow> (string \<Rightarrow> bytes option) \<Rightarrow> target \<Rightarrow> (kvdb, server_error, unit) op" where
  "TargetStore_Save T V p random t db =
     (case validateTarget t of Inl e \<Rightarrow> (Inl e, db)
      | Inr _ \<Rightarrow>
        (case protectOptions V p random (tgOptions t) of Inl e \<Rightarrow> (Inl e, db)
         | Inr opts \<Rightarrow> saveJSON T targetsBucket (bytes_of (tgID t)) (t\<lparr>tgOptions := opts\<rparr>) db))"

definition revealTarget :: "anyval codec \<Rightarrow> cipher option \<Rightarrow> target \<Rightarrow> server_error + target" where
  "revealTarget V p t = (case revealOptions V p (tgOptions t) of Inl e \<Rightarrow> Inl e | Inr opts \<Rightarrow> Inr (t\<lparr>tgOptions := opts\<rparr>))"

definition TargetStore_Get :: "target codec \<Rightarrow> anyval codec \<Rightarrow> cipher option \<Rightarrow> ident \<Rightarrow> kvdb \<Rightarrow> server_error + target option" where
  "TargetStore_Get T V p i db =
     (case getJSON T targetsBucket (bytes_of i) db of Inl e \<Rightarrow> Inl e | Inr None \<Rightarrow> Inr None
      | Inr (Some t) \<Rightarrow> (case revealTarget V p t of Inl e \<Rightarrow> Inl e | Inr t' \<Rightarrow> Inr (Some t')))"

definition TargetStore_List :: "target codec \<Rightarrow> anyval codec \<Rightarrow> cipher option \<Rightarrow> kvdb \<Rightarrow> server_error + target list" where
  "TargetStore_List T V p db =
     (case listJSON targetsBucket (\<lambda>data. case decode T data of Inl e \<Rightarrow> Inl e | Inr t \<Rightarrow> revealTarget V p t) db of
        Inl e \<Rightarrow> Inl e | Inr ts \<Rightarrow> Inr (sort_key tgName (sort_key tgID ts)))"

definition TargetStore_Delete :: "ident \<Rightarrow> (kvdb, server_error, unit) op" where
  "TargetStore_Delete i = deleteKey targetsBucket (bytes_of i)"

definition StorageStore_Save :: "(string \<Rightarrow> urlParts option) \<Rightarrow> storage codec \<Rightarrow> anyval codec \<Rightarrow> cipher option \<Rightarrow> (string \<Rightarrow> bytes option) \<Rightarrow> storage
    \<Rightarrow> (kvdb, server_error, unit) op" where
  "StorageStore_Save ParseURL S V p random s db =
     (case validateStorage ParseURL s of Inl e \<Rightarrow> (Inl e, db)
      | Inr _ \<Rightarrow>
        (case protectOptions V p random (stOptions s) of Inl e \<Rightarrow> (Inl e, db)
         | Inr opts \<Rightarrow> saveJSON S storagesBucket (bytes_of (stID s)) (s\<lparr>stOptions := opts\<rparr>) db))"

definition revealStorage :: "anyval codec \<Rightarrow> cipher option \<Rightarrow> storage \<Rightarrow> server_error + storage" where
  "revealStorage V p s = (case revealOptions V p (stOptions s) of Inl e \<Rightarrow> Inl e | Inr opts \<Rightarrow> Inr (s\<lparr>stOptions := opts\<rparr>))"

definition StorageStore_Get :: "storage codec \<Rightarrow> anyval codec \<Rightarrow> cipher option \<Rightarrow> ident \<Rightarrow> kvdb \<Rightarrow> server_error + storage option" where
  "StorageStore_Get S V p i db =
     (case getJSON S storagesBucket (bytes_of i) db of Inl e \<Rightarrow> Inl e | Inr None \<Rightarrow> Inr None
      | Inr (Some s) \<Rightarrow> (case revealStorage V p s of Inl e \<Rightarrow> Inl e | Inr s' \<Rightarrow> Inr (Some s')))"

definition StorageStore_List :: "storage codec \<Rightarrow> anyval codec \<Rightarrow> cipher option \<Rightarrow> kvdb \<Rightarrow> server_error + storage list" where
  "StorageStore_List S V p db =
     (case listJSON storagesBucket (\<lambda>data. case decode S data of Inl e \<Rightarrow> Inl e | Inr s \<Rightarrow> revealStorage V p s) db of
        Inl e \<Rightarrow> Inl e | Inr ss \<Rightarrow> Inr (sort_key stName (sort_key stID ss)))"

definition StorageStore_Delete :: "ident \<Rightarrow> (kvdb, server_error, unit) op" where
  "StorageStore_Delete i = deleteKey storagesBucket (bytes_of i)"

definition ScheduleStore_Save :: "(string \<Rightarrow> location option) \<Rightarrow> schedule codec \<Rightarrow> schedule \<Rightarrow> (kvdb, server_error, unit) op" where
  "ScheduleStore_Save LoadLocation S s db =
     (case validateSchedule LoadLocation s of Inl e \<Rightarrow> (Inl e, db) | Inr _ \<Rightarrow> saveJSON S schedulesBucket (bytes_of (sID s)) s db)"

definition ScheduleStore_Get :: "schedule codec \<Rightarrow> ident \<Rightarrow> kvdb \<Rightarrow> server_error + schedule option" where
  "ScheduleStore_Get S i db = getJSON S schedulesBucket (bytes_of i) db"

definition ScheduleStore_List :: "schedule codec \<Rightarrow> kvdb \<Rightarrow> server_error + schedule list" where
  "ScheduleStore_List S db =
     (case listJSON schedulesBucket (decode S) db of Inl e \<Rightarrow> Inl e | Inr ss \<Rightarrow> Inr (sort_key sName (sort_key sID ss)))"

definition ScheduleStore_Delete :: "ident \<Rightarrow> (kvdb, server_error, unit) op" where
  "ScheduleStore_Delete i = deleteKey schedulesBucket (bytes_of i)"

definition BackupStore_Save :: "backup codec \<Rightarrow> backup \<Rightarrow> (kvdb, server_error, unit) op" where
  "BackupStore_Save B b db =
     (case validateBackup b of Inl e \<Rightarrow> (Inl e, db) | Inr _ \<Rightarrow> saveJSON B backupsBucket (bytes_of (bID b)) b db)"

definition BackupStore_Get :: "backup codec \<Rightarrow> ident \<Rightarrow> kvdb \<Rightarrow> server_error + backup option" where
  "BackupStore_Get B i db = getJSON B backupsBucket (bytes_of i) db"

text \<open>Newest first, then by identifier.\<close>

definition BackupStore_List :: "backup codec \<Rightarrow> kvdb \<Rightarrow> server_error + backup list" where
  "BackupStore_List B db =
     (case listJSON backupsBucket (decode B) db of Inl e \<Rightarrow> Inl e | Inr bs \<Rightarrow> Inr (sort_key (\<lambda>b. - bEndedAt b) (sort_key bID bs)))"

definition BackupStore_Protect :: "backup codec \<Rightarrow> ident \<Rightarrow> bool \<Rightarrow> (kvdb, server_error, backup) op" where
  "BackupStore_Protect B i prot db =
     (case BackupStore_Get B i db of Inl e \<Rightarrow> (Inl e, db)
      | Inr None \<Rightarrow> (Inl (NotFound ''protect backup'' i), db)
      | Inr (Some b) \<Rightarrow>
          let b' = b\<lparr>bProtected := prot\<rparr> in
          (case BackupStore_Save B b' db of (Inl e, db') \<Rightarrow> (Inl e, db') | (Inr _, db') \<Rightarrow> (Inr b', db')))"

definition BackupStore_Delete :: "ident \<Rightarrow> (kvdb, server_error, unit) op" where
  "BackupStore_Delete i = deleteKey backupsBucket (bytes_of i)"

definition UserStore_Save :: "user codec \<Rightarrow> user \<Rightarrow> (kvdb, server_error, unit) op" where
  "UserStore_Save U u db =
     (case validateUser u of Inl e \<Rightarrow> (Inl e, db) | Inr _ \<Rightarrow> saveJSON U usersBucket (bytes_of (usID u)) u db)"

definition UserStore_Get :: "user codec \<Rightarrow> ident \<Rightarrow> kvdb \<Rightarrow> server_error + user option" where
  "UserStore_Get U i db = getJSON U usersBucket (bytes_of i) db"

definition UserStore_List :: "user codec \<Rightarrow> kvdb \<Rightarrow> server_error + user list" where
  "UserStore_List U db =
     (case listJSON usersBucket (decode U) db of Inl e \<Rightarrow> Inl e | Inr us \<Rightarrow> Inr (sort_key usEmail (sort_key usID us)))"

definition UserStore_Grant :: "user codec \<Rightarrow> gotime \<Rightarrow> ident \<Rightarrow> string \<Rightarrow> gotime \<Rightarrow> (kvdb, server_error, user) op" where
  "UserStore_Grant U clock i role now db =
     (if \<not> validRole role then (Inl (Invalid ''invalid role''), db)
      else (case UserStore_Get U i db of Inl e \<Rightarrow> (Inl e, db)
            | Inr None \<Rightarrow> (Inl (NotFound ''grant user role'' i), db)
            | Inr (Some u) \<Rightarrow>
                let u' = u\<lparr>usRole := role, usUpdatedAt := (if IsZero now then clock else now)\<rparr> in
                (case UserStore_Save U u' db of (Inl e, db') \<Rightarrow> (Inl e, db') | (Inr _, db') \<Rightarrow> (Inr u', db'))))"

definition UserStore_Delete :: "ident \<Rightarrow> (kvdb, server_error, unit) op" where
  "UserStore_Delete i = deleteKey usersBucket (bytes_of i)"

definition RetentionPolicyStore_Save :: "retentionPolicy codec \<Rightarrow> retentionPolicy \<Rightarrow> (kvdb, server_error, unit) op" where
  "RetentionPolicyStore_Save R p db =
     (case validateRetentionPolicy p of Inl e \<Rightarrow> (Inl e, db) | Inr _ \<Rightarrow> saveJSON R policiesBucket (bytes_of (rpID p)) p db)"

definition RetentionPolicyStore_Get :: "retentionPolicy codec \<Rightarrow> ident \<Rightarrow> kvdb \<Rightarrow> server_error + retentionPolicy option" where
  "RetentionPolicyStore_Get R i db = getJSON R policiesBucket (bytes_of i) db"

definition RetentionPolicyStore_List :: "retentionPolicy codec \<Rightarrow> kvdb \<Rightarrow> server_error + retentionPolicy list" where
  "RetentionPolicyStore_List R db =
     (case listJSON policiesBucket (decode R) db of Inl e \<Rightarrow> Inl e | Inr ps \<Rightarrow> Inr (sort_key rpName (sort_key rpID ps)))"

definition RetentionPolicyStore_Delete :: "ident \<Rightarrow> (kvdb, server_error, unit) op" where
  "RetentionPolicyStore_Delete i = deleteKey policiesBucket (bytes_of i)"

end
