(* ===== verification/Job_Store.thy ===== *)
theory Job_Store
  imports Store Schedule
begin

text \<open>
  Jobs in the control plane: the stores of jobs and of evidence (\<open>internal/server/job_store.go\<close>) over the embedded
  database, and the orchestrator (\<open>internal/server/orchestrator.go\<close>) that takes jobs through their states.

  Shown here: what the operations of the store do to the set of jobs of a database.
\<close>

section \<open>The store of jobs\<close>

definition jobsBucket :: bytes where "jobsBucket = bytes_of ''jobs''"

definition evidenceArtifactsBucket :: bytes where "evidenceArtifactsBucket = bytes_of ''evidence_artifacts''"

definition evidenceArtifactsJobBucket :: bytes where "evidenceArtifactsJobBucket = bytes_of ''evidence_artifacts_by_job''"

definition JobStore_Save :: "job codec \<Rightarrow> job \<Rightarrow> (kvdb, server_error, unit) op" where
  "JobStore_Save J j db =
     (if ID_IsZero (jID j) then (Inl (Invalid ''job id is required''), db)
      else (case Marshal J j of None \<Rightarrow> (Inl JSONError, db)
            | Some data \<Rightarrow>
                (case Update (bucketPutTx jobsBucket (bytes_of (jID j)) data) db of (x, db') \<Rightarrow> (liftKV x, db'))))"

definition JobStore_Get :: "job codec \<Rightarrow> ident \<Rightarrow> kvdb \<Rightarrow> server_error + job option" where
  "JobStore_Get J i db =
     (if ID_IsZero i then Inl (Invalid ''job id is required'')
      else (case getRaw jobsBucket (bytes_of i) db of Inl e \<Rightarrow> Inl e | Inr None \<Rightarrow> Inr None
            | Inr (Some data) \<Rightarrow> (case decode J data of Inl e \<Rightarrow> Inl e | Inr j \<Rightarrow> Inr (Some j))))"

definition JobStore_Delete :: "ident \<Rightarrow> (kvdb, server_error, unit) op" where
  "JobStore_Delete i db =
     (if ID_IsZero i then (Inl (Invalid ''job id is required''), db)
      else (case Update (\<lambda>t p. case Tx_Bucket t jobsBucket of Inl e \<Rightarrow> (Inl e, p) | Inr b \<Rightarrow> Bucket_Delete b (bytes_of i) p) db of
              (x, db') \<Rightarrow> (liftKV x, db')))"

text \<open>By queued time, then identifier.\<close>

definition sortJobs :: "job list \<Rightarrow> job list" where
  "sortJobs js = sort_key jQueuedAt (sort_key jID js)"

definition JobStore_List :: "job codec \<Rightarrow> kvdb \<Rightarrow> server_error + job list" where
  "JobStore_List J db = (case listJSON jobsBucket (decode J) db of Inl e \<Rightarrow> Inl e | Inr js \<Rightarrow> Inr (sortJobs js))"

definition jobActive :: "job \<Rightarrow> bool" where
  "jobActive j \<longleftrightarrow> jStatus j = JobStatusRunning \<or> jStatus j = JobStatusFinalizing"

text \<open>The loop of \<open>FailActive\<close>: on an error it stops with the jobs saved so far.\<close>

fun failLoop :: "job codec \<Rightarrow> gotime \<Rightarrow> string \<Rightarrow> job list \<Rightarrow> nat \<Rightarrow> kvdb \<Rightarrow> (server_error option \<times> nat) \<times> kvdb" where
  "failLoop J now reason [] changed db = ((None, changed), db)"
| "failLoop J now reason (j # js) changed db =
     (if \<not> jobActive j then failLoop J now reason js changed db
      else (case JobStore_Save J (j\<lparr>jStatus := JobStatusFailed, jEndedAt := now, jError := reason\<rparr>) db of
              (Inl e, db') \<Rightarrow> ((Some e, changed), db')
            | (Inr _, db') \<Rightarrow> failLoop J now reason js (changed + 1) db'))"

definition FailActive :: "job codec \<Rightarrow> gotime \<Rightarrow> gotime \<Rightarrow> string \<Rightarrow> kvdb \<Rightarrow> (server_error option \<times> nat) \<times> kvdb" where
  "FailActive J clock now reason db =
     (let now' = (if IsZero now then clock else now); reason' = (if reason = [] then ''server_lost'' else reason) in
      case JobStore_List J db of Inl e \<Rightarrow> ((Some e, 0), db) | Inr js \<Rightarrow> failLoop J now' reason' js 0 db)"

section \<open>The store of evidence\<close>

definition EvidenceStore_Save :: "evidenceArtifact codec \<Rightarrow> evidenceArtifact \<Rightarrow> (kvdb, server_error, unit) op" where
  "EvidenceStore_Save E a db =
     (if ID_IsZero (eaID a) then (Inl (Invalid ''evidence artifact id is required''), db)
      else if ID_IsZero (eaJobID a) then (Inl (Invalid ''evidence artifact job id is required''), db)
      else (case Marshal E a of None \<Rightarrow> (Inl JSONError, db)
            | Some data \<Rightarrow>
                (case Update (\<lambda>t p. case Tx_Bucket t evidenceArtifactsBucket of Inl e \<Rightarrow> (Inl e, p) | Inr artifacts \<Rightarrow>
                         (case Tx_Bucket t evidenceArtifactsJobBucket of Inl e \<Rightarrow> (Inl e, p) | Inr byJob \<Rightarrow>
                          bindE (Bucket_Put artifacts (bytes_of (eaID a)) data) (\<lambda>_.
                            Bucket_Put byJob (bytes_of (eaJobID a)) (bytes_of (eaID a))) p)) db of
                   (x, db') \<Rightarrow> (liftKV x, db'))))"

definition EvidenceStore_Get :: "evidenceArtifact codec \<Rightarrow> ident \<Rightarrow> kvdb \<Rightarrow> server_error + evidenceArtifact option" where
  "EvidenceStore_Get E i db =
     (if ID_IsZero i then Inl (Invalid ''evidence artifact id is required'')
      else (case getRaw evidenceArtifactsBucket (bytes_of i) db of Inl e \<Rightarrow> Inl e | Inr None \<Rightarrow> Inr None
            | Inr (Some data) \<Rightarrow> (case decode E data of Inl e \<Rightarrow> Inl e | Inr a \<Rightarrow> Inr (Some a))))"

definition EvidenceStore_GetByJobID :: "evidenceArtifact codec \<Rightarrow> ident \<Rightarrow> kvdb \<Rightarrow> server_error + evidenceArtifact option" where
  "EvidenceStore_GetByJobID E jobID db =
     (if ID_IsZero jobID then Inl (Invalid ''job id is required'')
      else (case getRaw evidenceArtifactsJobBucket (bytes_of jobID) db of Inl e \<Rightarrow> Inl e | Inr None \<Rightarrow> Inr None
            | Inr (Some data) \<Rightarrow> EvidenceStore_Get E (str_of data) db))"

section \<open>The orchestrator\<close>

text \<open>For every item, the reading of the clock and the entropy that its identifier takes.\<close>

fun EnqueueDue :: "job codec \<Rightarrow> (gotime \<times> bytes option) list \<Rightarrow> dueJob list \<Rightarrow> kvdb \<Rightarrow> (server_error option \<times> job list) \<times> kvdb" where
  "EnqueueDue J env [] db = ((None, []), db)"
| "EnqueueDue J [] (item # due) db = ((Some NoEntropy, []), db)"
| "EnqueueDue J ((clock, entropy) # env) (item # due) db =
     (case NewID clock entropy of None \<Rightarrow> ((Some NoEntropy, []), db)
      | Some i \<Rightarrow>
          let queuedAt = (if IsZero (djQueuedAt item) then clock else djQueuedAt item);
              j = zeroJob\<lparr>jID := i, jOperation := JobOperationBackup, jScheduleID := djScheduleID item, jTargetID := djTargetID item,
                    jStorageID := djStorageID item, jType := djType item, jParentBackupID := djParentBackupID item,
                    jHooks := djHooks item, jStatus := JobStatusQueued, jQueuedAt := queuedAt\<rparr> in
          (case JobStore_Save J j db of
             (Inl e, db') \<Rightarrow> ((Some e, []), db')
           | (Inr _, db') \<Rightarrow> (case EnqueueDue J env due db' of ((e, js), db'') \<Rightarrow> ((e, j # js), db''))))"

definition StartOnAgent :: "job codec \<Rightarrow> gotime \<Rightarrow> ident \<Rightarrow> string \<Rightarrow> (kvdb, server_error, job) op" where
  "StartOnAgent J clock i agentID db =
     (case JobStore_Get J i db of Inl e \<Rightarrow> (Inl e, db)
      | Inr None \<Rightarrow> (Inl (NotFound ''start job'' i), db)
      | Inr (Some j) \<Rightarrow>
          if jStatus j \<noteq> JobStatusQueued then (Inl (WrongStatus i (jStatus j)), db)
          else
            let j' = j\<lparr>jStatus := JobStatusRunning, jStartedAt := clock, jAgentID := agentID\<rparr> in
            (case JobStore_Save J j' db of (Inl e, db') \<Rightarrow> (Inl e, db') | (Inr _, db') \<Rightarrow> (Inr j', db')))"

definition terminalJobStatus :: "string \<Rightarrow> bool" where
  "terminalJobStatus s \<longleftrightarrow> s = JobStatusSucceeded \<or> s = JobStatusFailed \<or> s = JobStatusCanceled"

definition Finish :: "job codec \<Rightarrow> gotime \<Rightarrow> ident \<Rightarrow> string \<Rightarrow> string \<Rightarrow> (kvdb, server_error, job) op" where
  "Finish J clock i status message db =
     (if status \<noteq> JobStatusSucceeded \<and> status \<noteq> JobStatusFailed \<and> status \<noteq> JobStatusCanceled then (Inl (NotTerminal status), db)
      else (case JobStore_Get J i db of Inl e \<Rightarrow> (Inl e, db)
            | Inr None \<Rightarrow> (Inl (NotFound ''finish job'' i), db)
            | Inr (Some j) \<Rightarrow>
                if terminalJobStatus (jStatus j) then (Inl (WrongStatus i (jStatus j)), db)
                else
                  let j' = j\<lparr>jStatus := status, jEndedAt := clock, jError := message\<rparr> in
                  (case JobStore_Save J j' db of (Inl e, db') \<Rightarrow> (Inl e, db') | (Inr _, db') \<Rightarrow> (Inr j', db'))))"

definition Retry :: "job codec \<Rightarrow> gotime \<Rightarrow> ident \<Rightarrow> (kvdb, server_error, job) op" where
  "Retry J clock i db =
     (case JobStore_Get J i db of Inl e \<Rightarrow> (Inl e, db)
      | Inr None \<Rightarrow> (Inl (NotFound ''retry job'' i), db)
      | Inr (Some j) \<Rightarrow>
          if jStatus j \<noteq> JobStatusFailed \<and> jStatus j \<noteq> JobStatusCanceled then (Inl (WrongStatus i (jStatus j)), db)
          else
            let j' = j\<lparr>jStatus := JobStatusQueued, jQueuedAt := clock, jStartedAt := 0, jEndedAt := 0, jError := [], jAgentID := []\<rparr> in
            (case JobStore_Save J j' db of (Inl e, db') \<Rightarrow> (Inl e, db') | (Inr _, db') \<Rightarrow> (Inr j', db')))"

section \<open>The jobs of a database\<close>

definition jobOf :: "job codec \<Rightarrow> bytes \<Rightarrow> job" where
  "jobOf J data = the (Unmarshal J data)"

definition job_row :: "job codec \<Rightarrow> bytes \<times> bytes \<Rightarrow> bool" where
  "job_row J x \<longleftrightarrow> (\<exists>j. Unmarshal J (snd x) = Some j \<and> fst x = bytes_of (jID j) \<and> label (fst x) \<and> \<not> ID_IsZero (jID j))"

text \<open>The database holds exactly the jobs of the list, each under its identifier.\<close>

definition jobs_in :: "job codec \<Rightarrow> kvdb \<Rightarrow> job list \<Rightarrow> bool" where
  "jobs_in J db js \<longleftrightarrow> (\<exists>kv. db_kv db kv \<and> (\<forall>x \<in> set (rows jobsBucket kv). job_row J x)
     \<and> js = map (\<lambda>x. jobOf J (snd x)) (rows jobsBucket kv))"

lemma jobsBucket_label: "label jobsBucket"
proof -
  have "0 \<notin> set jobsBucket" "jobsBucket \<noteq> []" by code_simp+
  thus ?thesis by (simp add: label_def)
qed

lemma job_rowD: "job_row J x \<Longrightarrow> Unmarshal J (snd x) = Some (jobOf J (snd x)) \<and> fst x = bytes_of (jID (jobOf J (snd x))) \<and> label (fst x)
    \<and> \<not> ID_IsZero (jID (jobOf J (snd x)))"
  by (auto simp: job_row_def jobOf_def)

lemma jobs_in_distinct:
  assumes "jobs_in J db js" "a \<in> set js" "b \<in> set js" "jID a = jID b"
  shows "a = b"
proof -
  obtain kv where kv: "db_kv db kv" "\<forall>x \<in> set (rows jobsBucket kv). job_row J x" "js = map (\<lambda>x. jobOf J (snd x)) (rows jobsBucket kv)"
    using assms(1) by (auto simp: jobs_in_def)
  obtain x y where x: "x \<in> set (rows jobsBucket kv)" "a = jobOf J (snd x)" and y: "y \<in> set (rows jobsBucket kv)" "b = jobOf J (snd y)"
    using assms(2,3) kv(3) by auto
  have "fst x = fst y" using kv(2) x y assms(4) job_rowD by metis
  moreover have "kv_sorted (rows jobsBucket kv)" by (rule rows_sorted [OF db_kv_sorted [OF kv(1)]])
  ultimately have "snd x = snd y" using x(1) y(1) kv_sorted_fst_inj by (metis option.inject prod.collapse)
  thus ?thesis using x(2) y(2) by simp
qed

lemma List_jobs:
  assumes "jobs_in J db js"
  shows "JobStore_List J db = Inr (sortJobs js)"
proof -
  obtain kv where kv: "db_kv db kv" "\<forall>x \<in> set (rows jobsBucket kv). job_row J x" "js = map (\<lambda>x. jobOf J (snd x)) (rows jobsBucket kv)"
    using assms by (auto simp: jobs_in_def)
  have "mapE (decode J) (map snd xs) = Inr (map (\<lambda>x. jobOf J (snd x)) xs)" if "\<forall>x \<in> set xs. job_row J x" for xs
    using that by (induction xs) (auto simp: decode_def dest!: job_rowD)
  hence "mapE (decode J) (map snd (rows jobsBucket kv)) = Inr js" using kv(2,3) by simp
  moreover have "\<forall>x \<in> set (rows jobsBucket kv). label (fst x)" using kv(2) job_rowD by blast
  ultimately show ?thesis using listJSON_kv [OF kv(1) jobsBucket_label, of "decode J"] by (simp add: JobStore_List_def)
qed

lemma set_sortJobs [simp]: "set (sortJobs js) = set js"
  by (simp add: sortJobs_def)

lemma Get_jobs:
  assumes "jobs_in J db js" "JobStore_Get J i db = Inr (Some j)"
  shows "j \<in> set js" "jID j = i"
proof -
  obtain kv where kv: "db_kv db kv" "\<forall>x \<in> set (rows jobsBucket kv). job_row J x" "js = map (\<lambda>x. jobOf J (snd x)) (rows jobsBucket kv)"
    using assms(1) by (auto simp: jobs_in_def)
  obtain data where d: "map_of (rows jobsBucket kv) (bytes_of i) = Some data" "Unmarshal J data = Some j"
    using assms(2) getRaw_kv [OF kv(1) jobsBucket_label]
    by (auto simp: JobStore_Get_def decode_def split: if_splits sum.splits option.splits)
  have x: "(bytes_of i, data) \<in> set (rows jobsBucket kv)" using d(1) by (rule map_of_SomeD)
  have "jobOf J data = j" using d(2) by (simp add: jobOf_def)
  moreover have "bytes_of i = bytes_of (jID (jobOf J data))" using kv(2) x job_rowD by fastforce
  ultimately show "j \<in> set js" "jID j = i" using x kv(3) by (auto simp: bytes_of_inj intro: rev_image_eqI)
qed

lemma Get_jobs_found:
  assumes "jobs_in J db js" "j \<in> set js"
  shows "JobStore_Get J (jID j) db = Inr (Some j)"
proof -
  obtain kv where kv: "db_kv db kv" "\<forall>x \<in> set (rows jobsBucket kv). job_row J x" "js = map (\<lambda>x. jobOf J (snd x)) (rows jobsBucket kv)"
    using assms(1) by (auto simp: jobs_in_def)
  obtain x where x: "x \<in> set (rows jobsBucket kv)" "j = jobOf J (snd x)" using assms(2) kv(3) by auto
  have r: "Unmarshal J (snd x) = Some j" "fst x = bytes_of (jID j)" "label (fst x)" "\<not> ID_IsZero (jID j)" using kv(2) x job_rowD by metis+
  have "distinct (map fst (rows jobsBucket kv))" using rows_sorted [OF db_kv_sorted [OF kv(1)]] strict_sorted_iff by (auto simp: kv_sorted_def)
  hence "map_of (rows jobsBucket kv) (fst x) = Some (snd x)" using x(1) by (simp add: map_of_eq_Some_iff)
  thus ?thesis using getRaw_kv [OF kv(1) jobsBucket_label, of "bytes_of (jID j)"] r by (simp add: JobStore_Get_def decode_def)
qed

lemma Save_jobs:
  assumes "codec_ok J" "jobs_in J db js" "JobStore_Save J j db = (Inr u, db')"
  obtains js' where "jobs_in J db' js'" "set js' = insert j {x \<in> set js. jID x \<noteq> jID j}"
proof -
  obtain kv where kv: "db_kv db kv" "\<forall>x \<in> set (rows jobsBucket kv). job_row J x" "js = map (\<lambda>x. jobOf J (snd x)) (rows jobsBucket kv)"
    using assms(2) by (auto simp: jobs_in_def)
  let ?k = "bytes_of (jID j)"
  have z: "\<not> ID_IsZero (jID j)" using assms(3) by (auto simp: JobStore_Save_def split: if_splits)
  hence "?k \<noteq> []" by (auto simp: ID_IsZero_def TrimSpace_def bytes_of_def)
  hence "saveJSON J jobsBucket ?k j db = (Inr u, db')" using assms(3) z by (simp add: saveJSON_def JobStore_Save_def)
  then obtain data where d: "Marshal J j = Some data" "label ?k" "db_kv db' (kv_upd (jobsBucket @ 0 # ?k) data kv)"
    by (rule saveJSON_kv [OF kv(1) jobsBucket_label])
  let ?rows = "rows jobsBucket kv" and ?rows' = "rows jobsBucket (kv_upd (jobsBucket @ 0 # ?k) data kv)"
  have so: "kv_sorted kv" by (rule db_kv_sorted [OF kv(1)])
  have r': "?rows' = kv_upd ?k data ?rows" using rows_upd [OF so jobsBucket_label jobsBucket_label] by simp
  have s: "set ?rows' = insert (?k, data) {x \<in> set ?rows. fst x \<noteq> ?k}" unfolding r' by (rule set_kv_upd [OF rows_sorted [OF so]])
  have u: "Unmarshal J data = Some j" using assms(1) d(1) by (simp add: codec_ok_def)
  hence n: "job_row J (?k, data)" "jobOf J data = j" using d(2) z by (auto simp: job_row_def jobOf_def)
  have "\<forall>x \<in> set ?rows'. job_row J x" using s n(1) kv(2) by auto
  hence "jobs_in J db' (map (\<lambda>x. jobOf J (snd x)) ?rows')" using d(3) by (auto simp: jobs_in_def)
  moreover have "set (map (\<lambda>x. jobOf J (snd x)) ?rows') = insert j {x \<in> set js. jID x \<noteq> jID j}"
  proof -
    have "fst x = ?k \<longleftrightarrow> jID (jobOf J (snd x)) = jID j" if "x \<in> set ?rows" for x using kv(2) that job_rowD bytes_of_inj by metis
    hence "(\<lambda>x. jobOf J (snd x)) ` {x \<in> set ?rows. fst x \<noteq> ?k} = {x \<in> set js. jID x \<noteq> jID j}" using kv(3) by auto
    thus ?thesis using s n(2) by simp
  qed
  ultimately show thesis using that by blast
qed

end
