(* ===== verification/Record_Store.thy ===== *)
theory Record_Store
  imports Resource_Store Job_Store
begin

text \<open>
  What the stores of the control plane have in common: the interface of a store of records with identifiers, and
  the stores of \<open>Resource_Store\<close> and \<open>Job_Store\<close> as instances of it.

  Shown here: after a save the record is read back and every other record is as before; after any sequence of saves a
  record reads as the last one saved; a save in one bucket leaves the others alone.
\<close>

section \<open>Reading back\<close>

definition db_fine :: "kvdb \<Rightarrow> bool" where
  "db_fine db \<longleftrightarrow> (\<exists>kv. db_kv db kv)"

lemma codec_on_ok: "codec_ok C \<Longrightarrow> codec_on P C"
  by (auto simp: codec_ok_def codec_on_def)

lemma getJSON_kv:
  assumes "db_kv db kv" "label nm"
  shows "getJSON C nm k db = (if k = [] then Inl (Invalid ''key is required'') else if \<not> label k then Inl (KVError InvalidBucketKey)
     else (case map_of (rows nm kv) k of None \<Rightarrow> Inr None | Some data \<Rightarrow> (case Unmarshal C data of None \<Rightarrow> Inl JSONError | Some r \<Rightarrow> Inr (Some r))))"
  using getRaw_kv [OF assms, of k] by (auto simp: getJSON_def split: option.splits)

lemma saveJSON_getJSON:
  assumes "db_fine db" "label nm" "codec_on P C" "P r" "saveJSON C nm (bytes_of i) r db = (Inr u, db')"
  shows "db_fine db'" "getJSON C nm (bytes_of j) db' = (if j = i then Inr (Some r) else getJSON C nm (bytes_of j) db)"
proof -
  obtain kv where kv: "db_kv db kv" using assms(1) by (auto simp: db_fine_def)
  obtain data where d: "Marshal C r = Some data" "label (bytes_of i)" "db_kv db' (kv_upd (nm @ 0 # bytes_of i) data kv)"
    by (rule saveJSON_kv [OF kv assms(2,5)])
  thus "db_fine db'" by (auto simp: db_fine_def)
  have u: "Unmarshal C data = Some r" using assms(3,4) d(1) by (auto simp: codec_on_def)
  have so: "kv_sorted kv" by (rule db_kv_sorted [OF kv])
  have "map_of (rows nm (kv_upd (nm @ 0 # bytes_of i) data kv)) (bytes_of j)
      = (if j = i then Some data else map_of (rows nm kv) (bytes_of j))"
    using rows_upd [OF so assms(2,2)] map_of_kv_upd [OF rows_sorted [OF so]] by (simp add: bytes_of_inj)
  thus "getJSON C nm (bytes_of j) db' = (if j = i then Inr (Some r) else getJSON C nm (bytes_of j) db)"
    unfolding getJSON_kv [OF d(3) assms(2)] getJSON_kv [OF kv assms(2)] using d(2) u by (auto simp: label_def)
qed

lemma saveJSON_other_bucket:
  assumes "db_fine db" "label nm" "label nm'" "nm' \<noteq> nm" "saveJSON C nm k r db = (Inr u, db')"
  shows "getJSON C' nm' k' db' = getJSON C' nm' k' db"
proof -
  obtain kv where kv: "db_kv db kv" using assms(1) by (auto simp: db_fine_def)
  obtain data where d: "db_kv db' (kv_upd (nm @ 0 # k) data kv)" by (rule saveJSON_kv [OF kv assms(2,5)])
  have "rows nm' (kv_upd (nm @ 0 # k) data kv) = rows nm' kv" using rows_upd [OF db_kv_sorted [OF kv] assms(2,3)] assms(4) by simp
  thus ?thesis unfolding getJSON_kv [OF d(1) assms(3)] getJSON_kv [OF kv assms(3)] by simp
qed

text \<open>An encoding of finitely many records, by a table.\<close>

definition tableCodec :: "('a \<times> bytes) list \<Rightarrow> 'a codec" where
  "tableCodec tb = \<lparr>Marshal = map_of tb, Unmarshal = map_of (map prod.swap tb)\<rparr>"

lemma tableCodec_ok: "distinct (map snd tb) \<Longrightarrow> codec_ok (tableCodec tb)"
  by (auto simp: codec_ok_def tableCodec_def map_of_eq_Some_iff comp_def dest!: map_of_SomeD intro!: rev_image_eqI)

section \<open>The interface\<close>

text \<open>The laws of a store: a save of an admissible record keeps the database sound and changes what is read under the
  identifier of the record, and nothing else.\<close>

locale record_store =
  fixes sv :: "'r \<Rightarrow> (kvdb, server_error, unit) op"
    and gt :: "ident \<Rightarrow> kvdb \<Rightarrow> server_error + 'r option"
    and key :: "'r \<Rightarrow> ident"
    and adm :: "'r \<Rightarrow> bool"
  assumes save_sound: "db_fine db \<Longrightarrow> adm r \<Longrightarrow> sv r db = (Inr u, db') \<Longrightarrow> db_fine db'"
    and get_save: "db_fine db \<Longrightarrow> adm r \<Longrightarrow> sv r db = (Inr u, db') \<Longrightarrow> gt i db' = (if i = key r then Inr (Some r) else gt i db)"
begin

text \<open>Saves one after the other, up to the first error.\<close>

primrec saveAll :: "'r list \<Rightarrow> (kvdb, server_error, unit) op" where
  "saveAll [] db = (Inr (), db)"
| "saveAll (r # rs) db = (case sv r db of (Inl e, db') \<Rightarrow> (Inl e, db') | (Inr _, db') \<Rightarrow> saveAll rs db')"

lemma last_save_wins:
  assumes "db_fine db" "\<forall>r \<in> set rs. adm r" "saveAll rs db = (Inr u, db')"
  shows "db_fine db' \<and> gt i db' = (case find (\<lambda>r. key r = i) (rev rs) of None \<Rightarrow> gt i db | Some r \<Rightarrow> Inr (Some r))"
  using assms
proof (induction rs arbitrary: db)
  case (Cons r rs)
  obtain v db1 where s: "sv r db = (Inr v, db1)" "saveAll rs db1 = (Inr u, db')" using Cons.prems(3)
    by (auto split: prod.splits sum.splits)
  have 1: "db_fine db1" "gt i db1 = (if i = key r then Inr (Some r) else gt i db)"
    using save_sound [OF Cons.prems(1) _ s(1)] get_save [OF Cons.prems(1) _ s(1)] Cons.prems(2) by simp_all
  have "find P (xs @ [y]) = (case find P xs of None \<Rightarrow> if P y then Some y else None | Some x \<Rightarrow> Some x)" for P xs and y :: 'r
    by (induction xs) auto
  thus ?case using Cons.IH [OF 1(1) _ s(2)] Cons.prems(2) 1(2) by (auto split: option.splits)
qed simp

text \<open>Reading a record, changing it and saving it, as the operations that change one field do.\<close>

lemma change_one:
  assumes "db_fine db" "gt i db = Inr (Some r)" "adm (f r)" "key (f r) = i" "sv (f r) db = (Inr u, db')"
  shows "gt j db' = (if j = i then Inr (Some (f r)) else gt j db)"
  using get_save [OF assms(1,3,5)] assms(4) by auto

end

section \<open>The stores\<close>

lemma resource_labels: "label targetsBucket" "label storagesBucket" "label schedulesBucket" "label backupsBucket" "label usersBucket"
  "label policiesBucket"
proof -
  have "list_all (\<lambda>b. 0 \<notin> set b \<and> b \<noteq> []) [targetsBucket, storagesBucket, schedulesBucket, backupsBucket, usersBucket, policiesBucket]"
    by code_simp
  thus "label targetsBucket" "label storagesBucket" "label schedulesBucket" "label backupsBucket" "label usersBucket"
    "label policiesBucket" by (simp_all add: label_def)
qed

text \<open>A store that saves as JSON and has no other way to read than by key.\<close>

lemma record_storeI:
  assumes "label nm" "\<And>r db u db'. sv r db = (Inr u, db') \<Longrightarrow> saveJSON C nm (bytes_of (key r)) r db = (Inr u, db')"
    "\<And>i db. gt i db = getJSON C nm (bytes_of i) db"
  shows "record_store sv gt key (\<lambda>_. codec_ok C)"
proof
  fix db r u db' i
  assume d: "db_fine db" "codec_ok C" and s: "sv r db = (Inr u, db')"
  note g = saveJSON_getJSON [OF d(1) assms(1) codec_on_ok [OF d(2), where P = "\<lambda>_. True"] TrueI assms(2) [OF s]]
  show "db_fine db'" by (rule g(1))
  show "gt i db' = (if i = key r then Inr (Some r) else gt i db)" using g(2) assms(3) by simp
qed

interpretation bst: record_store "BackupStore_Save B" "BackupStore_Get B" bID "\<lambda>_. codec_ok B"
  by (rule record_storeI [OF resource_labels(4)]) (auto simp: BackupStore_Save_def BackupStore_Get_def split: sum.splits)

interpretation ust: record_store "UserStore_Save U" "UserStore_Get U" usID "\<lambda>_. codec_ok U"
  by (rule record_storeI [OF resource_labels(5)]) (auto simp: UserStore_Save_def UserStore_Get_def split: sum.splits)

interpretation sst: record_store "ScheduleStore_Save LoadLocation S" "ScheduleStore_Get S" sID "\<lambda>_. codec_ok S"
  by (rule record_storeI [OF resource_labels(3)]) (auto simp: ScheduleStore_Save_def ScheduleStore_Get_def split: sum.splits)

text \<open>A job is read under its identifier only, which is not blank.\<close>

lemma ID_not_zero: "\<not> ID_IsZero i \<Longrightarrow> bytes_of i \<noteq> []"
  by (auto simp: ID_IsZero_def TrimSpace_def bytes_of_def)

lemma JobStore_saveJSON: "JobStore_Save J j db = (Inr u, db') \<Longrightarrow> saveJSON J jobsBucket (bytes_of (jID j)) j db = (Inr u, db')"
  using ID_not_zero [of "jID j"] by (auto simp: JobStore_Save_def saveJSON_def split: if_splits)

lemma JobStore_getJSON: "JobStore_Get J i db = (if ID_IsZero i then Inl (Invalid ''job id is required'') else getJSON J jobsBucket (bytes_of i) db)"
  using ID_not_zero [of i] by (auto simp: JobStore_Get_def getJSON_def decode_def split: sum.splits option.splits)

interpretation jst: record_store "JobStore_Save J" "JobStore_Get J" jID "\<lambda>_. codec_ok J"
proof unfold_locales
  fix db r u db' i
  assume d: "db_fine db" "codec_ok J" and s: "JobStore_Save J r db = (Inr u, db')"
  note g = saveJSON_getJSON [OF d(1) jobsBucket_label codec_on_ok [OF d(2), where P = "\<lambda>_. True"] _ JobStore_saveJSON [OF s]]
  show "db_fine db'" by (rule g(1)) simp
  have "\<not> ID_IsZero (jID r)" using s by (auto simp: JobStore_Save_def split: if_splits)
  thus "JobStore_Get J i db' = (if i = jID r then Inr (Some r) else JobStore_Get J i db)" using g(2) by (auto simp: JobStore_getJSON)
qed

text \<open>Targets and storages, with a protector: their options are kept sealed and given back revealed.\<close>

definition secret_codecs :: "('r \<Rightarrow> options) \<Rightarrow> 'r codec \<Rightarrow> anyval codec \<Rightarrow> cipher \<Rightarrow> 'r \<Rightarrow> bool" where
  "secret_codecs opts C V c r \<longleftrightarrow> codec_on (\<lambda>r. jsonStable (VMap (opts r))) C \<and> codec_on jsonStable V \<and> secret_cipher c \<and> jsonStable (VMap (opts r))"

lemma firstError_Inr: "firstError cs = Inr () \<longleftrightarrow> (\<forall>x \<in> set cs. x = Inr ())"
proof (induction cs)
  case (Cons x cs)
  thus ?case by (cases x) auto
qed simp

lemma scalar_not_encrypted: "scalarValue v \<Longrightarrow> \<not> isEncryptedOptionValue v"
  by (cases v) (auto simp: isEncryptedOptionValue_def encryptedOptionFromAny_def)

lemma validateOptions_scalar: "validateOptions lbl opts allowed = Inr () \<Longrightarrow> \<forall>x \<in> set opts. scalarValue (snd x)"
  by (auto simp: validateOptions_def validateOptionValues_def list_all_iff split: if_splits)

lemma stable_options: "jsonStable (VMap opts) \<Longrightarrow> x \<in> set opts \<Longrightarrow> jsonStable (snd x)"
  by (auto simp: list_all_iff)

lemma reveal_protected:
  assumes "codec_on jsonStable V" "secret_cipher c" "jsonStable (VMap opts)" "\<forall>x \<in> set opts. scalarValue (snd x)"
    "protectOptions V (Some c) random opts = Inr opts'"
  shows "revealOptions V (Some c) opts' = Inr opts"
  using revealOptions_protectOptions [OF assms(2,1) _ assms(5)] stable_options [OF assms(3)] assms(4) scalar_not_encrypted by blast

lemma TargetStore_Save_steps:
  assumes "TargetStore_Save T V p random t db = (Inr u, db')"
  obtains opts where "protectOptions V p random (tgOptions t) = Inr opts" "\<forall>x \<in> set (tgOptions t). scalarValue (snd x)"
    "saveJSON T targetsBucket (bytes_of (tgID t)) (t\<lparr>tgOptions := opts\<rparr>) db = (Inr u, db')"
proof -
  obtain v opts where o: "validateTarget t = Inr v" "protectOptions V p random (tgOptions t) = Inr opts"
      "saveJSON T targetsBucket (bytes_of (tgID t)) (t\<lparr>tgOptions := opts\<rparr>) db = (Inr u, db')"
    using assms by (auto simp: TargetStore_Save_def split: sum.splits)
  have "validateOptions ''target'' (tgOptions t) targetOptionKeys = Inr ()" using o(1) by (simp add: validateTarget_def firstError_Inr)
  thus thesis using that [OF o(2) validateOptions_scalar o(3)] by simp
qed

interpretation tst: record_store "TargetStore_Save T V (Some c) random" "TargetStore_Get T V (Some c)" tgID "secret_codecs tgOptions T V c"
proof unfold_locales
  fix db t u db' i
  assume d: "db_fine db" "secret_codecs tgOptions T V c t" "TargetStore_Save T V (Some c) random t db = (Inr u, db')"
  obtain opts where o: "protectOptions V (Some c) random (tgOptions t) = Inr opts" "\<forall>x \<in> set (tgOptions t). scalarValue (snd x)"
      "saveJSON T targetsBucket (bytes_of (tgID t)) (t\<lparr>tgOptions := opts\<rparr>) db = (Inr u, db')" by (rule TargetStore_Save_steps [OF d(3)])
  have c: "codec_on (\<lambda>t. jsonStable (VMap (tgOptions t))) T" "codec_on jsonStable V" "secret_cipher c" "jsonStable (VMap (tgOptions t))"
    using d(2) by (simp_all add: secret_codecs_def del: jsonStable.simps)
  have P: "jsonStable (VMap (tgOptions (t\<lparr>tgOptions := opts\<rparr>)))"
    using protectOptions_stable [OF o(1) c(4)] by (simp del: jsonStable.simps)
  have g: "db_fine db'" "getJSON T targetsBucket (bytes_of i) db' = (if i = tgID t then Inr (Some (t\<lparr>tgOptions := opts\<rparr>)) else getJSON T targetsBucket (bytes_of i) db)"
    using saveJSON_getJSON [OF d(1) resource_labels(1) c(1) P o(3)] by blast+
  show "db_fine db'" by (rule g(1))
  have "revealTarget V (Some c) (t\<lparr>tgOptions := opts\<rparr>) = Inr t"
    using reveal_protected [OF c(2-4) o(2,1)] by (simp add: revealTarget_def)
  thus "TargetStore_Get T V (Some c) i db' = (if i = tgID t then Inr (Some t) else TargetStore_Get T V (Some c) i db)"
    using g(2) by (simp add: TargetStore_Get_def)
qed

lemma StorageStore_Save_steps:
  assumes "StorageStore_Save ParseURL S V p random s db = (Inr u, db')"
  obtains opts where "protectOptions V p random (stOptions s) = Inr opts" "\<forall>x \<in> set (stOptions s). scalarValue (snd x)"
    "saveJSON S storagesBucket (bytes_of (stID s)) (s\<lparr>stOptions := opts\<rparr>) db = (Inr u, db')"
proof -
  obtain v opts where o: "validateStorage ParseURL s = Inr v" "protectOptions V p random (stOptions s) = Inr opts"
      "saveJSON S storagesBucket (bytes_of (stID s)) (s\<lparr>stOptions := opts\<rparr>) db = (Inr u, db')"
    using assms by (auto simp: StorageStore_Save_def split: sum.splits)
  have "validateOptions ''storage'' (stOptions s) storageOptionKeys = Inr ()" using o(1) by (simp add: validateStorage_def firstError_Inr)
  thus thesis using that [OF o(2) validateOptions_scalar o(3)] by simp
qed

interpretation ost: record_store "StorageStore_Save ParseURL S V (Some c) random" "StorageStore_Get S V (Some c)" stID "secret_codecs stOptions S V c"
proof unfold_locales
  fix db s u db' i
  assume d: "db_fine db" "secret_codecs stOptions S V c s" "StorageStore_Save ParseURL S V (Some c) random s db = (Inr u, db')"
  obtain opts where o: "protectOptions V (Some c) random (stOptions s) = Inr opts" "\<forall>x \<in> set (stOptions s). scalarValue (snd x)"
      "saveJSON S storagesBucket (bytes_of (stID s)) (s\<lparr>stOptions := opts\<rparr>) db = (Inr u, db')" by (rule StorageStore_Save_steps [OF d(3)])
  have c: "codec_on (\<lambda>s. jsonStable (VMap (stOptions s))) S" "codec_on jsonStable V" "secret_cipher c" "jsonStable (VMap (stOptions s))"
    using d(2) by (simp_all add: secret_codecs_def del: jsonStable.simps)
  have P: "jsonStable (VMap (stOptions (s\<lparr>stOptions := opts\<rparr>)))"
    using protectOptions_stable [OF o(1) c(4)] by (simp del: jsonStable.simps)
  have g: "db_fine db'" "getJSON S storagesBucket (bytes_of i) db' = (if i = stID s then Inr (Some (s\<lparr>stOptions := opts\<rparr>)) else getJSON S storagesBucket (bytes_of i) db)"
    using saveJSON_getJSON [OF d(1) resource_labels(2) c(1) P o(3)] by blast+
  show "db_fine db'" by (rule g(1))
  have "revealStorage V (Some c) (s\<lparr>stOptions := opts\<rparr>) = Inr s"
    using reveal_protected [OF c(2-4) o(2,1)] by (simp add: revealStorage_def)
  thus "StorageStore_Get S V (Some c) i db' = (if i = stID s then Inr (Some s) else StorageStore_Get S V (Some c) i db)"
    using g(2) by (simp add: StorageStore_Get_def)
qed

end
