(* ===== verification/Token_Store.thy ===== *)
theory Token_Store
  imports Record_Store Go_Format
begin

text \<open>
  API tokens (\<open>internal/server/token_store.go\<close>) and the authorisation of requests by them
  (\<open>requireScope\<close>, \<open>bearerToken\<close> and \<open>tokenAllowsScope\<close> of \<open>cmd/kronos/server.go\<close>). A bearer secret is
  \<open>kro_\<close>, the identifier of the token, \<open>_\<close> and 32 random bytes in base64; the store keeps its SHA-256, which is
  a parameter.
\<close>

section \<open>Scopes and roles\<close>

definition HasSuffix :: "string \<Rightarrow> string \<Rightarrow> bool" where
  "HasSuffix s suffix \<longleftrightarrow> length suffix \<le> length s \<and> drop (length s - length suffix) s = suffix"

text \<open>Whether one scope grants the required one.\<close>

definition scopeGrants :: "string \<Rightarrow> string \<Rightarrow> bool" where
  "scopeGrants required scope \<longleftrightarrow>
     (let sc = TrimSpace scope in
      sc \<noteq> [] \<and> (sc = ''*'' \<or> sc = ''admin:*'' \<or> sc = required \<or> HasSuffix sc '':*'' \<and> HasPrefix required (butlast sc)))"

definition scopeSetAllows :: "string list \<Rightarrow> string \<Rightarrow> bool" where
  "scopeSetAllows scopes required \<longleftrightarrow> required = [] \<or> list_ex (scopeGrants required) scopes"

definition roleScopes :: "string \<Rightarrow> string list" where
  "roleScopes role =
     (if role = RoleAdmin then [''admin:*'']
      else if role = RoleOperator then [''agent:read'', ''audit:read'', ''backup:*'', ''job:*'', ''metrics:read'', ''notification:*'', ''restore:*'',
        ''retention:*'', ''schedule:read'', ''storage:read'', ''target:read'']
      else if role = RoleViewer then [''agent:read'', ''audit:read'', ''backup:read'', ''job:read'', ''metrics:read'', ''notification:read'',
        ''restore:read'', ''retention:read'', ''schedule:read'', ''storage:read'', ''target:read'']
      else [])"

definition RoleAllowsScope :: "string \<Rightarrow> string \<Rightarrow> bool" where
  "RoleAllowsScope role required \<longleftrightarrow>
     (if role = RoleAdmin then scopeSetAllows [''admin:*''] required
      else if role = RoleOperator then scopeSetAllows [''agent:read'', ''audit:read'', ''backup:*'', ''job:*'', ''metrics:read'', ''notification:*'',
        ''restore:*'', ''retention:*'', ''schedule:read'', ''storage:read'', ''target:read''] required
      else if role = RoleViewer then scopeSetAllows [''agent:read'', ''audit:read'', ''backup:read'', ''job:read'', ''metrics:read'',
        ''notification:read'', ''restore:read'', ''retention:read'', ''schedule:read'', ''storage:read'', ''target:read''] required
      else False)"

fun dropSeen :: "string list \<Rightarrow> string list \<Rightarrow> string list" where
  "dropSeen seen [] = []"
| "dropSeen seen (scope # scopes) =
     (let sc = TrimSpace scope in
      if sc = [] \<or> sc \<in> set seen then dropSeen seen scopes else sc # dropSeen (sc # seen) scopes)"

definition normalizeScopes :: "string list \<Rightarrow> string list" where
  "normalizeScopes scopes = sort (dropSeen [] scopes)"

section \<open>Secrets\<close>

text \<open>\<open>random\<close> is what the random source yields.\<close>

definition generateTokenSecret :: "bytes option \<Rightarrow> ident \<Rightarrow> server_error + string" where
  "generateTokenSecret random i =
     (case random of None \<Rightarrow> Inl NoEntropy
      | Some bs \<Rightarrow> if length bs < 32 then Inl NoEntropy else Inr (''kro_'' @ i @ ''_'' @ b64Encode urlAlphabet (take 32 bs)))"

definition Cut :: "string \<Rightarrow> char \<Rightarrow> (string \<times> string) option" where
  "Cut s c = (if c \<in> set s then Some (takeWhile (\<lambda>x. x \<noteq> c) s, tl (dropWhile (\<lambda>x. x \<noteq> c) s)) else None)"

definition parseTokenID :: "string \<Rightarrow> ident option" where
  "parseTokenID secret =
     (if \<not> HasPrefix secret ''kro_'' then None
      else (case Cut (drop 4 secret) CHR ''_'' of None \<Rightarrow> None | Some (i, _) \<Rightarrow> if i = [] then None else Some i))"

definition hashTokenSecret :: "(bytes \<Rightarrow> bytes) \<Rightarrow> string \<Rightarrow> string" where
  "hashTokenSecret sha256 secret = hexEncode (sha256 (bytes_of secret))"

section \<open>The store\<close>

definition tokensBucket :: bytes where "tokensBucket = bytes_of ''tokens''"

record apiTokenRecord =
  atToken :: token
  atSecretHash :: string

text \<open>The environment of a creation: the time, and the random bytes for the identifier and for the secret.\<close>

definition TokenStore_Create :: "(bytes \<Rightarrow> bytes) \<Rightarrow> apiTokenRecord codec \<Rightarrow> gotime \<Rightarrow> bytes option \<Rightarrow> bytes option
    \<Rightarrow> string \<Rightarrow> ident \<Rightarrow> string list \<Rightarrow> gotime \<Rightarrow> (kvdb, server_error, token \<times> string) op" where
  "TokenStore_Create sha256 A clock entropy random name userID scopes expiresAt db =
     (if name = [] then (Inl (Invalid ''token name is required''), db)
      else if ID_IsZero userID then (Inl (Invalid ''token user id is required''), db)
      else
        let scopes' = normalizeScopes scopes in
        if scopes' = [] then (Inl (Invalid ''at least one token scope is required''), db)
        else if \<not> IsZero expiresAt \<and> \<not> clock < expiresAt then (Inl (Invalid ''token expires_at must be in the future''), db)
        else (case NewID clock entropy of None \<Rightarrow> (Inl NoEntropy, db)
              | Some i \<Rightarrow>
                (case generateTokenSecret random i of Inl e \<Rightarrow> (Inl e, db)
                 | Inr secret \<Rightarrow>
                     let t = \<lparr>toID = i, toUserID = userID, toName = name, toScopes = scopes', toExpiresAt = expiresAt, toCreatedAt = clock, toRevokedAt = 0\<rparr> in
                     (case saveJSON A tokensBucket (bytes_of i) \<lparr>atToken = t, atSecretHash = hashTokenSecret sha256 secret\<rparr> db of
                        (Inl e, db') \<Rightarrow> (Inl e, db') | (Inr _, db') \<Rightarrow> (Inr (t, secret), db')))))"

definition TokenStore_List :: "apiTokenRecord codec \<Rightarrow> kvdb \<Rightarrow> server_error + token list" where
  "TokenStore_List A db =
     (case listJSON tokensBucket (decode A) db of Inl e \<Rightarrow> Inl e
      | Inr rs \<Rightarrow> Inr (sort_key (\<lambda>t. - toCreatedAt t) (sort_key toID (map atToken rs))))"

definition TokenStore_Get :: "apiTokenRecord codec \<Rightarrow> ident \<Rightarrow> kvdb \<Rightarrow> server_error + token option" where
  "TokenStore_Get A i db = (case getJSON A tokensBucket (bytes_of i) db of Inl e \<Rightarrow> Inl e | Inr r \<Rightarrow> Inr (map_option atToken r))"

definition TokenStore_Revoke :: "apiTokenRecord codec \<Rightarrow> gotime \<Rightarrow> ident \<Rightarrow> (kvdb, server_error, token) op" where
  "TokenStore_Revoke A clock i db =
     (case getJSON A tokensBucket (bytes_of i) db of Inl e \<Rightarrow> (Inl e, db)
      | Inr None \<Rightarrow> (Inl (NotFound ''revoke token'' i), db)
      | Inr (Some r) \<Rightarrow>
          if IsZero (toRevokedAt (atToken r)) then
            let t = (atToken r)\<lparr>toRevokedAt := clock\<rparr> in
            (case saveJSON A tokensBucket (bytes_of i) (r\<lparr>atToken := t\<rparr>) db of (Inl e, db') \<Rightarrow> (Inl e, db') | (Inr _, db') \<Rightarrow> (Inr t, db'))
          else (Inr (atToken r), db))"

definition tokenExpired :: "gotime \<Rightarrow> token \<Rightarrow> bool" where
  "tokenExpired now t \<longleftrightarrow> \<not> IsZero (toExpiresAt t) \<and> \<not> now < toExpiresAt t"

definition TokenStore_Inactive :: "apiTokenRecord codec \<Rightarrow> gotime \<Rightarrow> kvdb \<Rightarrow> server_error + token list" where
  "TokenStore_Inactive A clock db =
     (case TokenStore_List A db of Inl e \<Rightarrow> Inl e
      | Inr ts \<Rightarrow> Inr (filter (\<lambda>t. \<not> (IsZero (toRevokedAt t) \<and> \<not> tokenExpired clock t)) ts))"

fun pruneLoop :: "token list \<Rightarrow> kvdb \<Rightarrow> (server_error option \<times> token list) \<times> kvdb" where
  "pruneLoop [] db = ((None, []), db)"
| "pruneLoop (t # ts) db =
     (case deleteKey tokensBucket (bytes_of (toID t)) db of
        (Inl e, db') \<Rightarrow> ((Some e, []), db')
      | (Inr _, db') \<Rightarrow> (case pruneLoop ts db' of ((e, deleted), db'') \<Rightarrow> ((e, t # deleted), db'')))"

definition PruneInactive :: "apiTokenRecord codec \<Rightarrow> gotime \<Rightarrow> kvdb \<Rightarrow> (server_error option \<times> token list) \<times> kvdb" where
  "PruneInactive A clock db =
     (case TokenStore_Inactive A clock db of Inl e \<Rightarrow> ((Some e, []), db) | Inr ts \<Rightarrow> pruneLoop ts db)"

definition TokenStore_Verify :: "(bytes \<Rightarrow> bytes) \<Rightarrow> apiTokenRecord codec \<Rightarrow> gotime \<Rightarrow> string \<Rightarrow> kvdb \<Rightarrow> server_error + token option" where
  "TokenStore_Verify sha256 A clock secret db =
     (case parseTokenID secret of None \<Rightarrow> Inr None
      | Some i \<Rightarrow>
        (case getJSON A tokensBucket (bytes_of i) db of Inl e \<Rightarrow> Inl e | Inr None \<Rightarrow> Inr None
         | Inr (Some r) \<Rightarrow>
             if atSecretHash r \<noteq> hashTokenSecret sha256 secret then Inr None
             else if \<not> IsZero (toRevokedAt (atToken r)) \<or> tokenExpired clock (atToken r) then Inr None
             else Inr (Some (atToken r))))"

text \<open>Whether the user exists, and whether the role allows the scope.\<close>

definition UserAllowsScope :: "user codec \<Rightarrow> ident \<Rightarrow> string \<Rightarrow> kvdb \<Rightarrow> server_error + bool \<times> bool" where
  "UserAllowsScope U userID required db =
     (if ID_IsZero userID then Inr (False, False)
      else (case getJSON U usersBucket (bytes_of userID) db of Inl e \<Rightarrow> Inl e | Inr None \<Rightarrow> Inr (False, False)
            | Inr (Some u) \<Rightarrow> Inr (True, RoleAllowsScope (usRole u) required)))"

section \<open>Authorisation of requests\<close>

text \<open>The parts of a request that authorisation and the audit log read: the headers, and what the context carries. Without
  \<open>withAuthPolicy\<close> the context has no policy.\<close>

record request =
  rqAuthorization :: string
  rqActor :: string
  rqAgentID :: string
  rqRequestIDHeader :: string
  rqContextID :: "string option"
  rqNoAuth :: "bool option"
  rqDone :: bool

definition EqualFold :: "string \<Rightarrow> string \<Rightarrow> bool" where
  "EqualFold a b \<longleftrightarrow> ToLower a = ToLower b"

definition bearerToken :: "request \<Rightarrow> string option" where
  "bearerToken r =
     (let header = TrimSpace (rqAuthorization r) in
      if header = [] then None
      else (case Cut header CHR '' '' of None \<Rightarrow> None
            | Some (scheme, v) \<Rightarrow> if \<not> EqualFold scheme ''Bearer'' \<or> TrimSpace v = [] then None else Some (TrimSpace v)))"

definition allowInsecureNoAuth :: "request \<Rightarrow> bool" where
  "allowInsecureNoAuth r = (case rqNoAuth r of None \<Rightarrow> True | Some b \<Rightarrow> b)"

definition tokenAllowsScope :: "token \<Rightarrow> string \<Rightarrow> bool" where
  "tokenAllowsScope t required \<longleftrightarrow> required = [] \<or> list_ex (scopeGrants required) (toScopes t)"

text \<open>The request to go on with, or the status and the message of the refusal. No store is \<open>None\<close>.\<close>

definition requireScope :: "(bytes \<Rightarrow> bytes) \<Rightarrow> (apiTokenRecord codec \<times> user codec) option \<Rightarrow> gotime \<Rightarrow> request \<Rightarrow> string \<Rightarrow> kvdb
    \<Rightarrow> server_error + request" where
  "requireScope sha256 store clock r scope db =
     (if TrimSpace (rqAuthorization r) = [] then
        (if allowInsecureNoAuth r then Inr r else Inl (HTTPError 401 ''authorization required''))
      else (case bearerToken r of None \<Rightarrow> Inl (HTTPError 401 ''invalid bearer token'')
            | Some secret \<Rightarrow>
              (case store of None \<Rightarrow> Inl (HTTPError 503 ''token store is not configured'')
               | Some (A, U) \<Rightarrow>
                 (case TokenStore_Verify sha256 A clock secret db of
                    Inl e \<Rightarrow> Inl (HTTPError 500 ''verify token'')
                  | Inr None \<Rightarrow> Inl (HTTPError 401 ''invalid bearer token'')
                  | Inr (Some t) \<Rightarrow>
                    if \<not> tokenAllowsScope t scope then Inl (HTTPError 403 ''insufficient scope'')
                    else (case UserAllowsScope U (toUserID t) scope db of
                            Inl e \<Rightarrow> Inl (HTTPError 500 ''verify token user'')
                          | Inr (exists, allowed) \<Rightarrow>
                              if \<not> exists then Inl (HTTPError 401 ''invalid bearer token'')
                              else if \<not> allowed then Inl (HTTPError 403 ''insufficient role'')
                              else Inr (if rqActor r = [] \<and> \<not> ID_IsZero (toUserID t) then r\<lparr>rqActor := toUserID t\<rparr> else r))))))"

end
