(* ===== verification/Token_Props.thy ===== *)
theory Token_Props
  imports Token_Store KV_Props
begin

text \<open>
  The properties of API tokens: a created token is accepted until it expires, and no other secret is unless the hash
  collides; a revoked token is refused whatever happens to the store afterwards.
\<close>

section \<open>The store of tokens\<close>

lemma tokensBucket_label: "label tokensBucket" "usersBucket \<noteq> tokensBucket"
proof -
  have "0 \<notin> set tokensBucket" "tokensBucket \<noteq> []" "usersBucket \<noteq> tokensBucket" by code_simp+
  thus "label tokensBucket" "usersBucket \<noteq> tokensBucket" by (simp_all add: label_def)
qed

lemma save_token:
  assumes "db_fine db" "codec_ok A" "saveJSON A tokensBucket (bytes_of j) r db = (Inr u, db')"
  shows "db_fine db'" "getJSON A tokensBucket (bytes_of i) db' = (if i = j then Inr (Some r) else getJSON A tokensBucket (bytes_of i) db)"
  using saveJSON_getJSON [OF assms(1) tokensBucket_label(1) codec_on_ok [OF assms(2), where P = "\<lambda>_. True"] TrueI assms(3)] by simp_all

lemma NewID_chars: "NewID clock entropy = Some i \<Longrightarrow> CHR ''_'' \<notin> set i \<and> i \<noteq> []"
proof -
  assume "NewID clock entropy = Some i"
  then obtain b where "i = formatUUID b" by (auto simp: NewID_def newID_def Let_def split: option.splits if_splits)
  moreover have "CHR ''_'' \<notin> set (hexEncode x)" for x using hexEncode_chars [of "CHR ''_''" x] by (auto simp: hexDigits_def)
  ultimately show ?thesis by (auto simp: formatUUID_def)
qed

lemma parseTokenID_generate:
  assumes "CHR ''_'' \<notin> set i" "i \<noteq> []" "generateTokenSecret random i = Inr secret"
  shows "parseTokenID secret = Some i"
proof -
  obtain x where s: "secret = ''kro_'' @ i @ ''_'' @ x" using assms(3) by (auto simp: generateTokenSecret_def split: option.splits if_splits)
  have "takeWhile (\<lambda>c. c \<noteq> CHR ''_'') (i @ CHR ''_'' # x) = i" using assms(1) by (subst takeWhile_append2) auto
  thus ?thesis using assms(2) by (simp add: s parseTokenID_def HasPrefix_def Cut_def)
qed

lemma Create_steps:
  assumes "TokenStore_Create sha256 A clock entropy random name userID scopes expiresAt db = (Inr (t, secret), db')"
  shows "toRevokedAt t = 0" "toExpiresAt t = expiresAt" "toScopes t = normalizeScopes scopes" "toUserID t = userID"
    "parseTokenID secret = Some (toID t)"
    "saveJSON A tokensBucket (bytes_of (toID t)) \<lparr>atToken = t, atSecretHash = hashTokenSecret sha256 secret\<rparr> db = (Inr (), db')"
proof -
  obtain i where i: "NewID clock entropy = Some i" "generateTokenSecret random i = Inr secret" "toID t = i"
    using assms by (auto simp: TokenStore_Create_def Let_def split: if_splits option.splits sum.splits prod.splits)
  show "parseTokenID secret = Some (toID t)" using parseTokenID_generate [OF _ _ i(2)] NewID_chars [OF i(1)] i(3) by simp
  show "toRevokedAt t = 0" "toExpiresAt t = expiresAt" "toScopes t = normalizeScopes scopes" "toUserID t = userID"
    "saveJSON A tokensBucket (bytes_of (toID t)) \<lparr>atToken = t, atSecretHash = hashTokenSecret sha256 secret\<rparr> db = (Inr (), db')"
    using assms by (auto simp: TokenStore_Create_def Let_def split: if_splits option.splits sum.splits prod.splits)
qed

text \<open>C34. A token that \<open>Create\<close> returned is accepted with its secret at every time before it expires, and is the one that
  \<open>Get\<close> returns. Any other secret that is accepted for it has the same SHA-256.\<close>

theorem created_token_accepted:
  assumes "db_fine db" "codec_ok A"
    "TokenStore_Create sha256 A clock entropy random name userID scopes expiresAt db = (Inr (t, secret), db')"
  shows "TokenStore_Verify sha256 A now secret db' = Inr (if expiresAt \<noteq> 0 \<and> expiresAt \<le> now then None else Some t)
    \<and> TokenStore_Get A (toID t) db' = Inr (Some t) \<and> toScopes t = normalizeScopes scopes
    \<and> (\<forall>s. TokenStore_Verify sha256 A now s db' = Inr (Some t) \<longrightarrow> parseTokenID s = Some (toID t) \<longrightarrow> sha256 (bytes_of s) = sha256 (bytes_of secret))"
proof -
  let ?r = "\<lparr>atToken = t, atSecretHash = hashTokenSecret sha256 secret\<rparr>"
  note c = Create_steps [OF assms(3)]
  have g: "getJSON A tokensBucket (bytes_of (toID t)) db' = Inr (Some ?r)"
    using save_token(2) [OF assms(1,2) c(6)] by simp
  have "TokenStore_Verify sha256 A now secret db' = Inr (if expiresAt \<noteq> 0 \<and> expiresAt \<le> now then None else Some t)"
    using g c(1,2,5) by (auto simp: TokenStore_Verify_def tokenExpired_def IsZero_def)
  moreover have "TokenStore_Verify sha256 A now s db' = Inr (Some t) \<longrightarrow> parseTokenID s = Some (toID t) \<longrightarrow> sha256 (bytes_of s) = sha256 (bytes_of secret)" for s
    using g by (auto simp: TokenStore_Verify_def hashTokenSecret_def split: if_splits)
  ultimately show ?thesis using g c(3) by (simp add: TokenStore_Get_def)
qed

definition demoClock :: gotime where "demoClock = 719162 * Day"

definition demoToken :: token where
  "demoToken = \<lparr>toID = ''00000000-0000-7000-8000-000000000000'', toUserID = ''u'', toName = ''ci'', toScopes = [''backup:read''], toExpiresAt = 0,
     toCreatedAt = demoClock, toRevokedAt = 0\<rparr>"

definition demoSecret :: string where "demoSecret = ''kro_00000000-0000-7000-8000-000000000000_'' @ replicate 43 CHR ''A''"

definition demoSHA :: "bytes \<Rightarrow> bytes" where "demoSHA = (\<lambda>_. [7])"

definition demoRecord :: apiTokenRecord where "demoRecord = \<lparr>atToken = demoToken, atSecretHash = ''07''\<rparr>"

definition demoTokens :: "apiTokenRecord codec" where
  "demoTokens = tableCodec [(demoRecord, [1]), (demoRecord\<lparr>atToken := demoToken\<lparr>toRevokedAt := 5\<rparr>\<rparr>, [2])]"

definition demoCreate :: "(kvdb, server_error, token \<times> string) op" where
  "demoCreate = TokenStore_Create demoSHA demoTokens demoClock (Some (replicate 16 0)) (Some (replicate 32 0)) ''ci'' ''u'' [''backup:read''] 0"

lemma demoTokens_ok: "codec_ok demoTokens"
  unfolding demoTokens_def by (rule tableCodec_ok) simp

lemma demoTokens_Marshal: "Marshal demoTokens demoRecord = Some [1]" "Marshal demoTokens (demoRecord\<lparr>atToken := demoToken\<lparr>toRevokedAt := 5\<rparr>\<rparr>) = Some [2]"
  by (simp_all add: demoTokens_def tableCodec_def demoRecord_def demoToken_def)

lemma demo_label: "label (bytes_of (toID demoToken))"
proof -
  have "0 \<notin> set (bytes_of (toID demoToken))" "bytes_of (toID demoToken) \<noteq> []" by code_simp+
  thus ?thesis by (simp add: label_def)
qed

lemma demo_created:
  obtains db db' where "db_fine db" "demoCreate db = (Inr (demoToken, demoSecret), db')"
    "db_ok db' (PLeaf 1 0 (kv_upd (tokensBucket @ 0 # bytes_of (toID demoToken)) [1] []))"
proof -
  obtain db where db: "db_ok db (PLeaf 1 0 [])" by (metis example_db)
  have c: "leaf_costs (kv_upd (tokensBucket @ 0 # bytes_of (toID demoToken)) [1] []) \<le> 4080" by code_simp
  obtain db' where db': "saveJSON demoTokens tokensBucket (bytes_of (toID demoToken)) demoRecord db = (Inr (), db')"
      "db_ok db' (PLeaf 1 0 (kv_upd (tokensBucket @ 0 # bytes_of (toID demoToken)) [1] []))"
    by (rule saveJSON_leaf [OF db tokensBucket_label(1) demo_label demoTokens_Marshal(1) c])
  have "NewID demoClock (Some (replicate 16 0)) = Some (toID demoToken)" "normalizeScopes [''backup:read''] = [''backup:read'']"
    "generateTokenSecret (Some (replicate 32 0)) (toID demoToken) = Inr demoSecret" "hashTokenSecret demoSHA demoSecret = ''07''" "\<not> ID_IsZero ''u''"
    by code_simp+
  hence "demoCreate db = (Inr (demoToken, demoSecret), db')"
    using db'(1) by (simp add: demoCreate_def TokenStore_Create_def demoRecord_def IsZero_def Let_def demoToken_def)
  thus thesis using that db'(2) leaf_kv [OF db] by (auto simp: db_fine_def)
qed

theorem created_token_accepted_witness:
  "\<exists>db db'. demoCreate db = (Inr (demoToken, demoSecret), db') \<and> TokenStore_Verify demoSHA demoTokens 9 demoSecret db' = Inr (Some demoToken)"
proof -
  obtain db db' where d: "db_fine db" "demoCreate db = (Inr (demoToken, demoSecret), db')" by (rule demo_created)
  from created_token_accepted [OF d(1) demoTokens_ok d(2) [unfolded demoCreate_def], of 9] d(2) show ?thesis by auto
qed

section \<open>Revocation\<close>

text \<open>What else happens to the database of tokens and users: tokens with new identifiers are created, tokens are revoked, users
  are saved.\<close>

inductive token_step :: "(bytes \<Rightarrow> bytes) \<Rightarrow> apiTokenRecord codec \<Rightarrow> user codec \<Rightarrow> kvdb \<Rightarrow> kvdb \<Rightarrow> bool"
  for sha256 A U where
  create: "TokenStore_Create sha256 A clock entropy random name userID scopes expiresAt db = (Inr (t, secret), db') \<Longrightarrow>
     getJSON A tokensBucket (bytes_of (toID t)) db = Inr None \<Longrightarrow> token_step sha256 A U db db'"
| revoke: "TokenStore_Revoke A clock i db = (Inr t, db') \<Longrightarrow> token_step sha256 A U db db'"
| user: "UserStore_Save U u db = (Inr (), db') \<Longrightarrow> token_step sha256 A U db db'"

definition revoked :: "apiTokenRecord codec \<Rightarrow> ident \<Rightarrow> kvdb \<Rightarrow> bool" where
  "revoked A i db \<longleftrightarrow> db_fine db \<and> (\<exists>r. getJSON A tokensBucket (bytes_of i) db = Inr (Some r) \<and> toRevokedAt (atToken r) \<noteq> 0)"

lemma Revoke_steps:
  assumes "TokenStore_Revoke A clock i db = (Inr t, db')"
  obtains r where "getJSON A tokensBucket (bytes_of i) db = Inr (Some r)" "toRevokedAt (atToken r) \<noteq> 0" "db' = db"
  | r where "getJSON A tokensBucket (bytes_of i) db = Inr (Some r)" "toRevokedAt (atToken r) = 0"
      "saveJSON A tokensBucket (bytes_of i) (r\<lparr>atToken := (atToken r)\<lparr>toRevokedAt := clock\<rparr>\<rparr>) db = (Inr (), db')"
  using assms by (auto simp: TokenStore_Revoke_def IsZero_def Let_def split: sum.splits option.splits if_splits prod.splits)

lemma Revoke_revokes:
  assumes "db_fine db" "codec_ok A" "clock \<noteq> 0" "TokenStore_Revoke A clock i db = (Inr t, db')"
  shows "revoked A i db'"
  using assms(4)
proof (cases rule: Revoke_steps)
  case (2 r)
  show ?thesis using save_token [OF assms(1,2) 2(3)] assms(3) by (simp add: revoked_def)
qed (use assms(1) in \<open>auto simp: revoked_def\<close>)

lemma token_step_revoked:
  assumes "codec_ok A" "codec_ok U" "token_step sha256 A U db db'" "revoked A i db"
  shows "revoked A i db'"
  using assms(3)
proof cases
  case (create clock entropy random name userID scopes expiresAt t secret)
  have f: "db_fine db" "toID t \<noteq> i" using create(2) assms(4) by (auto simp: revoked_def)
  thus ?thesis using save_token [OF f(1) assms(1) Create_steps(6) [OF create(1)]] assms(4) by (auto simp: revoked_def)
next
  case (revoke clock j t)
  from this show ?thesis
  proof (cases rule: Revoke_steps)
    case (2 r)
    have f: "db_fine db" "j \<noteq> i" using 2(1,2) assms(4) by (auto simp: revoked_def)
    thus ?thesis using save_token [OF f(1) assms(1) 2(3)] assms(4) by (auto simp: revoked_def)
  qed (use assms(4) in simp)
next
  case (user u)
  have f: "db_fine db" using assms(4) by (simp add: revoked_def)
  have s: "saveJSON U usersBucket (bytes_of (usID u)) u db = (Inr (), db')" using user by (auto simp: UserStore_Save_def split: sum.splits)
  show ?thesis
    using saveJSON_other_bucket [OF f resource_labels(5) tokensBucket_label(1) tokensBucket_label(2) [symmetric] s, of A "bytes_of i"]
      ust.save_sound [OF f assms(2) user] assms(4) by (simp add: revoked_def)
qed

text \<open>C35. Revocation is final: once \<open>Revoke\<close> has returned, every request whose bearer secret names the token is refused as
  unauthorised, for every scope and at every time, whatever tokens are created or revoked and whatever users are saved
  in between.\<close>

theorem revoked_token_refused:
  assumes "db_fine db" "codec_ok A" "codec_ok U" "clock \<noteq> 0" "TokenStore_Revoke A clock i db = (Inr t, db1)"
    "(token_step sha256 A U)\<^sup>*\<^sup>* db1 db2" "bearerToken r = Some secret" "parseTokenID secret = Some i"
  shows "requireScope sha256 (Some (A, U)) now r scope db2 = Inl (HTTPError 401 ''invalid bearer token'')"
proof -
  have "revoked A i db2" using assms(6) Revoke_revokes [OF assms(1,2,4,5)]
    by (induction rule: rtranclp_induct) (use token_step_revoked [OF assms(2,3)] in blast)+
  then obtain x where "getJSON A tokensBucket (bytes_of i) db2 = Inr (Some x)" "toRevokedAt (atToken x) \<noteq> 0" by (auto simp: revoked_def)
  hence "TokenStore_Verify sha256 A now secret db2 = Inr None" using assms(8) by (simp add: TokenStore_Verify_def IsZero_def)
  moreover have "TrimSpace (rqAuthorization r) \<noteq> []" using assms(7) by (auto simp: bearerToken_def Let_def)
  ultimately show ?thesis using assms(7) by (simp add: requireScope_def)
qed

definition demoUsers :: "user codec" where "demoUsers = tableCodec []"

definition demoRequest :: request where
  "demoRequest = \<lparr>rqAuthorization = ''Bearer '' @ demoSecret, rqActor = [], rqAgentID = [], rqRequestIDHeader = [], rqContextID = None, rqNoAuth = Some False, rqDone = False\<rparr>"

theorem revoked_token_refused_witness:
  "\<exists>db db1 t. TokenStore_Revoke demoTokens 5 (toID demoToken) db = (Inr t, db1)
    \<and> requireScope demoSHA (Some (demoTokens, demoUsers)) 9 demoRequest ''backup:read'' db1 = Inl (HTTPError 401 ''invalid bearer token'')"
proof -
  let ?k = "bytes_of (toID demoToken)" let ?kv = "kv_upd (tokensBucket @ 0 # ?k) [1] []"
  obtain db0 db where d: "db_fine db0" "demoCreate db0 = (Inr (demoToken, demoSecret), db)" "db_ok db (PLeaf 1 0 ?kv)" by (rule demo_created)
  have f: "db_fine db" using leaf_kv [OF d(3)] by (auto simp: db_fine_def)
  have g: "getJSON demoTokens tokensBucket ?k db = Inr (Some demoRecord)"
    using save_token(2) [OF d(1) demoTokens_ok Create_steps(6) [OF d(2) [unfolded demoCreate_def]], of "toID demoToken"]
    by (simp add: demoRecord_def hashTokenSecret_def demoSHA_def) (code_simp)
  have c: "leaf_costs (kv_upd (tokensBucket @ 0 # ?k) [2] ?kv) \<le> 4080" by code_simp
  obtain db1 where db1: "saveJSON demoTokens tokensBucket ?k (demoRecord\<lparr>atToken := demoToken\<lparr>toRevokedAt := 5\<rparr>\<rparr>) db = (Inr (), db1)"
    by (rule saveJSON_leaf [OF d(3) tokensBucket_label(1) demo_label demoTokens_Marshal(2) c])
  hence r: "TokenStore_Revoke demoTokens 5 (toID demoToken) db = (Inr (demoToken\<lparr>toRevokedAt := 5\<rparr>), db1)"
    using g by (simp add: TokenStore_Revoke_def demoRecord_def demoToken_def IsZero_def)
  have b: "bearerToken demoRequest = Some demoSecret" "parseTokenID demoSecret = Some (toID demoToken)" by code_simp+
  have "codec_ok demoUsers" unfolding demoUsers_def by (rule tableCodec_ok) simp
  from revoked_token_refused [OF f demoTokens_ok this _ r rtranclp.rtrancl_refl b, of demoSHA 9 "''backup:read''"] r show ?thesis by fastforce
qed

end
