(* ===== verification/Restore_Plan.thy ===== *)
theory Restore_Plan
  imports Core_Types
begin

text \<open>
  Planning of a restore (\<open>internal/restore/plan.go\<close>): the chain of backups from a full one to the requested one, along
  their parent links.

  Shown here: the chain that the walk finds, that it is the only one, and that the walk fails exactly if there is none.
\<close>

section \<open>Plans\<close>

record restoreRequest =
  rqBackupID :: ident
  rqTargetID :: ident
  rqAt :: gotime
  rqDryRun :: bool
  rqReplaceExisting :: bool

record restoreStep =
  spBackupID :: ident
  spType :: string
  spParentID :: ident
  spManifestID :: ident
  spTargetID :: ident
  spStorageID :: ident
  spStartedAt :: gotime
  spEndedAt :: gotime

record restorePlan =
  plBackupID :: ident
  plTargetID :: ident
  plStorageID :: ident
  plAt :: gotime
  plSteps :: "restoreStep list"
  plWarnings :: "string list"

datatype plan_error =
    BackupIDRequired
  | BackupNotFound ident
  | ChainCycle ident
  | ParentMissing ident ident

text \<open>The map of backups by identifier; a later backup replaces an earlier one.\<close>

definition backupByID :: "backup list \<Rightarrow> ident \<Rightarrow> backup option" where
  "backupByID bs = map_of (rev (map (\<lambda>b. (bID b, b)) (filter (\<lambda>b. \<not> ID_IsZero (bID b)) bs)))"

lemma backupByID_in: "backupByID bs i = Some b \<Longrightarrow> b \<in> set bs \<and> bID b = i \<and> \<not> ID_IsZero i"
  by (auto simp: backupByID_def dest!: map_of_SomeD)

text \<open>The walk from a backup to its root ends: every round marks another backup as seen; only the first backup may lie outside the list.\<close>

definition walkMeasure :: "backup list \<times> ident list \<times> backup \<Rightarrow> nat" where
  "walkMeasure x = (case x of (bs, seen, current) \<Rightarrow>
     length (filter (\<lambda>b. bID b \<notin> set seen) bs) + (if bID current \<in> bID ` set bs then 0 else 1))"

lemma filter_fewer: "b \<in> set bs \<Longrightarrow> P b \<Longrightarrow> \<not> Q b \<Longrightarrow> (\<And>x. Q x \<Longrightarrow> P x) \<Longrightarrow> length (filter Q bs) < length (filter P bs)"
proof (induction bs)
  case (Cons x xs)
  have "length (filter Q xs) \<le> length (filter P xs)" using Cons.prems(4) by (induction xs) (auto simp: le_SucI)
  thus ?case using Cons by auto
qed simp

text \<open>The walk from a backup to the root, with the identifiers seen so far.\<close>

function chainLoop :: "backup list \<Rightarrow> ident list \<Rightarrow> backup \<Rightarrow> plan_error + backup list" where
  "chainLoop bs seen current =
     (if bID current \<in> set seen then Inl (ChainCycle (bID current))
      else if ID_IsZero (bParentID current) then Inr [current]
      else (case backupByID bs (bParentID current) of
              None \<Rightarrow> Inl (ParentMissing (bID current) (bParentID current))
            | Some parent \<Rightarrow>
                (case chainLoop bs (bID current # seen) parent of Inl e \<Rightarrow> Inl e | Inr chain \<Rightarrow> Inr (current # chain))))"
  by auto

termination
proof (relation "measure walkMeasure", goal_cases)
  case (2 bs seen current parent)
  have p: "bID parent \<in> bID ` set bs" using backupByID_in [OF 2(3)] by (metis image_eqI)
  show ?case
  proof (cases "bID current \<in> bID ` set bs")
    case True
    then obtain b where b: "b \<in> set bs" "bID b = bID current" by auto
    have "length (filter (\<lambda>b. bID b \<notin> set (bID current # seen)) bs) < length (filter (\<lambda>b. bID b \<notin> set seen) bs)"
      by (rule filter_fewer [OF b(1)]) (use b(2) 2(1) in auto)
    thus ?thesis using True p by (simp add: walkMeasure_def)
  next
    case False
    hence "filter (\<lambda>b. bID b \<notin> set (bID current # seen)) bs = filter (\<lambda>b. bID b \<notin> set seen) bs"
      by (intro filter_cong) (auto intro: rev_image_eqI)
    thus ?thesis using False p by (simp add: walkMeasure_def)
  qed
qed simp

declare chainLoop.simps [simp del]

definition stepOf :: "backup \<Rightarrow> restoreStep" where
  "stepOf b = \<lparr>spBackupID = bID b, spType = bType b, spParentID = bParentID b, spManifestID = bManifestID b, spTargetID = bTargetID b,
     spStorageID = bStorageID b, spStartedAt = bStartedAt b, spEndedAt = bEndedAt b\<rparr>"

definition BuildPlan :: "backup list \<Rightarrow> restoreRequest \<Rightarrow> plan_error + restorePlan" where
  "BuildPlan bs rq =
     (if ID_IsZero (rqBackupID rq) then Inl BackupIDRequired
      else (case backupByID bs (rqBackupID rq) of None \<Rightarrow> Inl (BackupNotFound (rqBackupID rq))
            | Some selected \<Rightarrow>
                let targetID = (if ID_IsZero (rqTargetID rq) then bTargetID selected else rqTargetID rq) in
                (case chainLoop bs [] selected of Inl e \<Rightarrow> Inl e
                 | Inr chain \<Rightarrow>
                     Inr \<lparr>plBackupID = bID selected, plTargetID = targetID, plStorageID = bStorageID selected, plAt = rqAt rq,
                       plSteps = map stepOf (rev chain),
                       plWarnings = (if \<not> IsZero (rqAt rq) \<and> bEndedAt selected < rqAt rq
                         then [''point-in-time replay requires stream backups after the selected snapshot''] else [])\<rparr>)))"

section \<open>Chains\<close>

text \<open>A chain upwards: every backup is followed by the one its parent link names, and the last has no parent.\<close>

fun upwards :: "backup list \<Rightarrow> backup list \<Rightarrow> bool" where
  "upwards bs [] = False"
| "upwards bs [b] = ID_IsZero (bParentID b)"
| "upwards bs (b # c # cs) = (\<not> ID_IsZero (bParentID b) \<and> backupByID bs (bParentID b) = Some c \<and> upwards bs (c # cs))"

lemma chainLoop_sound: "chainLoop bs seen b = Inr chain \<Longrightarrow> upwards bs chain \<and> hd chain = b \<and> distinct (map bID chain) \<and> set (map bID chain) \<inter> set seen = {}"
proof (induction bs seen b arbitrary: chain rule: chainLoop.induct)
  case (1 bs seen b)
  show ?case
  proof (cases "ID_IsZero (bParentID b)")
    case True
    thus ?thesis using 1(2) by (auto simp: chainLoop.simps [of bs seen b] split: if_splits)
  next
    case False
    then obtain p ch where p: "bID b \<notin> set seen" "backupByID bs (bParentID b) = Some p" "chainLoop bs (bID b # seen) p = Inr ch" "chain = b # ch"
      using 1(2) by (auto simp: chainLoop.simps [of bs seen b] split: if_splits option.splits sum.splits)
    note ih = 1(1) [OF p(1) False p(2,3)]
    then obtain cs where cs: "ch = p # cs" by (cases ch) auto
    have "set (map bID ch) \<inter> set (bID b # seen) = {}" "distinct (map bID ch)" "upwards bs ch" using ih by blast+
    thus ?thesis using p(1,2,4) False cs by auto
  qed
qed

lemma chainLoop_complete:
  "upwards bs (b # ch) \<Longrightarrow> distinct (map bID (b # ch)) \<Longrightarrow> set (map bID (b # ch)) \<inter> set seen = {} \<Longrightarrow> chainLoop bs seen b = Inr (b # ch)"
proof (induction ch arbitrary: b seen)
  case Nil
  thus ?case by (simp add: chainLoop.simps)
next
  case (Cons c cs)
  have "chainLoop bs (bID b # seen) c = Inr (c # cs)" by (rule Cons.IH) (use Cons.prems in auto)
  thus ?case using Cons.prems by (simp add: chainLoop.simps [of bs seen b])
qed

text \<open>Chains that start at the same backup are the same, so none repeats a backup.\<close>

lemma upwards_det: "upwards bs (b # xs) \<Longrightarrow> upwards bs (b # ys) \<Longrightarrow> xs = ys"
proof (induction xs arbitrary: b ys)
  case Nil
  thus ?case by (cases ys) auto
next
  case (Cons x xs)
  thus ?case by (cases ys) auto
qed

lemma upwards_suffix: "upwards bs (xs @ b # ys) \<Longrightarrow> upwards bs (b # ys)"
proof (induction xs)
  case (Cons x xs)
  thus ?case by (cases xs) auto
qed simp

lemma upwards_member: "upwards bs (b # ch) \<Longrightarrow> c \<in> set ch \<Longrightarrow> backupByID bs (bID c) = Some c"
proof (induction ch arbitrary: b)
  case (Cons x xs)
  thus ?case using backupByID_in by fastforce
qed simp

lemma upwards_distinct:
  assumes "backupByID bs (bID b) = Some b" "upwards bs (b # ch)"
  shows "distinct (map bID (b # ch))"
proof -
  have "distinct (b # ch)"
  proof (rule ccontr)
    assume "\<not> distinct (b # ch)"
    then obtain xs c ys zs where d: "b # ch = xs @ [c] @ ys @ [c] @ zs" using not_distinct_decomp by blast
    have "upwards bs (c # ys @ c # zs)" using upwards_suffix [of bs xs c "ys @ c # zs"] assms(2) d by simp
    moreover have "upwards bs (c # zs)" using upwards_suffix [of bs "xs @ c # ys" c zs] assms(2) d by simp
    ultimately have "ys @ c # zs = zs" by (rule upwards_det)
    thus False by (metis append_eq_append_conv2 length_append length_Cons n_not_Suc_n add_Suc_right le_add2 not_less_eq_eq)
  qed
  moreover have "inj_on bID (set (b # ch))"
    using upwards_member [OF assms(2)] assms(1) by (intro inj_onI) (metis option.inject set_ConsD)
  ultimately show ?thesis by (simp add: distinct_map)
qed

lemma chainLoop_exact:
  assumes "backupByID bs (bID b) = Some b"
  shows "chainLoop bs [] b = Inr chain \<longleftrightarrow> upwards bs chain \<and> hd chain = b"
proof
  assume "upwards bs chain \<and> hd chain = b"
  moreover from this obtain ch where "chain = b # ch" by (cases chain) auto
  ultimately show "chainLoop bs [] b = Inr chain" using chainLoop_complete [of bs b ch "[]"] upwards_distinct [OF assms] by simp
qed (use chainLoop_sound in blast)

text \<open>A walk looks up only parents: it is the same over other backups that have the same parents for every backup that the walk
  can meet.\<close>

lemma chainLoop_cong:
  assumes "\<forall>x. P x \<longrightarrow> \<not> ID_IsZero (bParentID x) \<longrightarrow> backupByID bs' (bParentID x) = backupByID bs (bParentID x)
      \<and> (\<forall>c. backupByID bs (bParentID x) = Some c \<longrightarrow> P c)"
  shows "P b \<Longrightarrow> chainLoop bs' seen b = chainLoop bs seen b"
  using assms
proof (induction bs seen b rule: chainLoop.induct)
  case (1 bs seen b)
  show ?case
  proof (cases "bID b \<in> set seen \<or> ID_IsZero (bParentID b)")
    case True
    thus ?thesis by (auto simp: chainLoop.simps [of _ seen b])
  next
    case False
    have e: "backupByID bs' (bParentID b) = backupByID bs (bParentID b)" using 1(2,3) False by blast
    show ?thesis
    proof (cases "backupByID bs (bParentID b)")
      case None
      thus ?thesis using e False by (simp add: chainLoop.simps [of _ seen b])
    next
      case (Some c)
      have "P c" using 1(2,3) False Some by blast
      hence "chainLoop bs' (bID b # seen) c = chainLoop bs (bID b # seen) c" using 1(1) [OF _ _ Some _ 1(3)] False by blast
      thus ?thesis using e Some False by (simp add: chainLoop.simps [of _ seen b])
    qed
  qed
qed

lemma backupByID_distinct:
  assumes "distinct (map bID bs)"
  shows "backupByID bs i = Some b \<longleftrightarrow> b \<in> set bs \<and> bID b = i \<and> \<not> ID_IsZero i"
proof -
  let ?xs = "map (\<lambda>b. (bID b, b)) (filter (\<lambda>b. \<not> ID_IsZero (bID b)) bs)"
  have "distinct (map fst (rev ?xs))"
    using assms by (simp add: comp_def rev_map distinct_map inj_on_def)
  hence "backupByID bs i = Some b \<longleftrightarrow> (i, b) \<in> set (rev ?xs)" unfolding backupByID_def by (rule map_of_eq_Some_iff)
  thus ?thesis by auto
qed

end
