(* ===== verification/Restore_Props.thy ===== *)
theory Restore_Props
  imports Restore_Plan Retention_Props
begin

text \<open>
  The properties of restore plans, and how they compose with retention: a plan is exactly the chain of parents of the
  requested backup, and what retention keeps can be restored as before.
\<close>

section \<open>Plans are chains\<close>

text \<open>C38. \<open>BuildPlan\<close> succeeds for an existing backup exactly if the parent links lead from it to a backup without a parent. The
  steps of the plan are then the backups on this way, the root first and the requested backup last, none of them twice, and
  they are the only way.\<close>

theorem BuildPlan_exact:
  assumes "backupByID bs (rqBackupID rq) = Some b"
  shows "((\<exists>plan. BuildPlan bs rq = Inr plan) \<longleftrightarrow> (\<exists>chain. upwards bs chain \<and> hd chain = b))
    \<and> (\<forall>plan chain. BuildPlan bs rq = Inr plan \<longrightarrow> upwards bs chain \<longrightarrow> hd chain = b \<longrightarrow>
         plSteps plan = map stepOf (rev chain) \<and> distinct (map spBackupID (plSteps plan)))"
proof -
  note b = backupByID_in [OF assms]
  have s: "backupByID bs (bID b) = Some b" using assms b by simp
  have p: "BuildPlan bs rq = Inr plan \<Longrightarrow> \<exists>ch. chainLoop bs [] b = Inr ch \<and> plSteps plan = map stepOf (rev ch)" for plan
    using assms b by (auto simp: BuildPlan_def Let_def split: sum.splits)
  have q: "chainLoop bs [] b = Inr ch \<Longrightarrow> \<exists>plan. BuildPlan bs rq = Inr plan" for ch
    using assms b by (auto simp: BuildPlan_def Let_def)
  have d: "upwards bs ch \<Longrightarrow> hd ch = b \<Longrightarrow> distinct (map bID ch)" for ch
    using chainLoop_sound [of bs "[]" b ch] chainLoop_exact [OF s] by blast
  have "map spBackupID (map stepOf (rev ch)) = rev (map bID ch)" for ch by (simp add: stepOf_def rev_map comp_def)
  thus ?thesis using p q d chainLoop_exact [OF s] by (metis distinct_rev sum.inject(2))
qed

definition demoRestore :: restoreRequest where
  "demoRestore = \<lparr>rqBackupID = ''new'', rqTargetID = [], rqAt = 0, rqDryRun = False, rqReplaceExisting = False\<rparr>"

lemma demo_lookup: "backupByID demoBackups (rqBackupID demoRestore) = Some (demoBackup ''new'' ''base'' 30 True)"
  by code_simp

lemma demo_plan: "\<exists>plan. BuildPlan demoBackups demoRestore = Inr plan"
proof -
  have "chainLoop demoBackups [] (demoBackup ''new'' ''base'' 30 True) = Inr [demoBackup ''new'' ''base'' 30 True, demoBackup ''base'' [] 20 False]"
    by (rule chainLoop_complete) code_simp+
  moreover have "\<not> ID_IsZero (rqBackupID demoRestore)" by code_simp
  ultimately show ?thesis by (simp add: BuildPlan_def demo_lookup)
qed

theorem BuildPlan_exact_witness:
  "\<exists>plan. BuildPlan demoBackups demoRestore = Inr plan \<and> map spBackupID (plSteps plan) = [''base'', ''new'']"
proof -
  let ?ch = "[demoBackup ''new'' ''base'' 30 True, demoBackup ''base'' [] 20 False]"
  have u: "upwards demoBackups ?ch" by code_simp
  moreover have "hd ?ch = demoBackup ''new'' ''base'' 30 True" by simp
  ultimately obtain plan where "BuildPlan demoBackups demoRestore = Inr plan" "plSteps plan = map stepOf (rev ?ch)"
    using BuildPlan_exact [OF demo_lookup] by blast
  thus ?thesis by (auto simp: stepOf_def demoBackup_def)
qed

section \<open>Retention keeps plans\<close>

definition keptBackups :: "planItem list \<Rightarrow> backup list" where
  "keptBackups plan = map Backup (filter Keep plan)"

lemma KeepIDs_kept: "KeepIDs plan = bID ` set (keptBackups plan)"
  by (auto simp: KeepIDs_def keptBackups_def image_image)

lemma kept_lookup:
  assumes "Resolve G clock bs policy now = Inr plan" "distinct (map bID bs)"
  shows "backupByID (keptBackups plan) i = Some b \<longleftrightarrow> b \<in> set (keptBackups plan) \<and> bID b = i \<and> \<not> ID_IsZero i"
    "set (keptBackups plan) \<subseteq> set bs"
proof -
  note m = Resolve_plan(1) [OF assms(1)]
  have "distinct (map bID (map Backup plan))" unfolding m using assms(2) by (simp add: newestFirst_def distinct_map)
  hence "distinct (map bID (keptBackups plan))" by (simp add: keptBackups_def comp_def distinct_map_filter)
  thus "backupByID (keptBackups plan) i = Some b \<longleftrightarrow> b \<in> set (keptBackups plan) \<and> bID b = i \<and> \<not> ID_IsZero i"
    by (rule backupByID_distinct)
  show "set (keptBackups plan) \<subseteq> set bs" using arg_cong [OF m, of set] by (auto simp: keptBackups_def newestFirst_def)
qed

lemma kept_parents:
  assumes "Resolve G clock bs policy now = Inr plan" "distinct (map bID bs)" "x \<in> set (keptBackups plan)" "\<not> ID_IsZero (bParentID x)"
  shows "backupByID (keptBackups plan) (bParentID x) = backupByID bs (bParentID x)"
proof -
  note l = kept_lookup [OF assms(1,2)] and d = backupByID_distinct [OF assms(2)]
  obtain it where it: "it \<in> set plan" "Keep it" "x = Backup it" using assms(3) by (auto simp: keptBackups_def)
  show ?thesis
  proof (cases "backupByID bs (bParentID x)")
    case (Some c)
    have "bParentID x \<in> KeepIDs plan" using Resolve_chains [OF assms(1) it(1)] it(2,3) assms(4) d Some by (auto intro: rev_image_eqI)
    then obtain c' where c': "c' \<in> set (keptBackups plan)" "bID c' = bParentID x" by (metis KeepIDs_kept imageE)
    hence "backupByID bs (bParentID x) = Some c'" using d l(2) assms(4) by blast
    thus ?thesis using l(1) [of "bParentID x" c'] c' assms(4) by simp
  next
    case None
    thus ?thesis using l d by (metis not_None_eq subsetD)
  qed
qed

text \<open>C37. Retention keeps what it keeps restorable: when the backups that a plan of \<open>Resolve\<close> drops are gone, \<open>BuildPlan\<close> gives
  for every kept backup the same result as before, whatever the policy.\<close>

theorem retention_keeps_restore_plans:
  assumes "Resolve G clock bs policy now = Inr plan" "distinct (map bID bs)" "rqBackupID rq \<in> KeepIDs plan"
  shows "BuildPlan (keptBackups plan) rq = BuildPlan bs rq"
proof (cases "ID_IsZero (rqBackupID rq)")
  case False
  note l = kept_lookup [OF assms(1,2)] and d = backupByID_distinct [OF assms(2)]
  obtain b where b: "b \<in> set (keptBackups plan)" "bID b = rqBackupID rq" using assms(3) by (metis KeepIDs_kept imageE)
  have e: "backupByID (keptBackups plan) (rqBackupID rq) = Some b" "backupByID bs (rqBackupID rq) = Some b"
    using b False l d by blast+
  have "chainLoop (keptBackups plan) [] b = chainLoop bs [] b"
    by (rule chainLoop_cong [where P = "\<lambda>x. x \<in> set (keptBackups plan)"])
      (use kept_parents [OF assms(1,2)] backupByID_in [of "keptBackups plan"] b(1) in \<open>metis+\<close>)
  thus ?thesis using e by (simp add: BuildPlan_def)
qed (simp add: BuildPlan_def)

theorem retention_keeps_restore_plans_witness:
  "\<exists>plan steps. Resolve demoGo 1 demoBackups (demoPolicy []) 40 = Inr plan \<and> BuildPlan (keptBackups plan) demoRestore = Inr steps"
proof -
  obtain plan where plan: "Resolve demoGo 1 demoBackups (demoPolicy []) 40 = Inr plan" using demo_resolves by blast
  have d: "distinct (map bID demoBackups)" by code_simp
  have m: "map Backup plan = demoBackups" using Resolve_plan(1) [OF plan] by (simp add: demo_order)
  hence ne: "plan \<noteq> []" by (auto simp: demoBackups_def)
  have b: "Backup (plan ! 0) = demoBackup ''new'' ''base'' 30 True" using m ne by (metis demoBackups_def length_greater_0_conv nth_Cons_0 nth_map)
  have "Keep (plan ! 0)" using Resolve_chains [OF plan, of "plan ! 0"] ne b by (simp add: demoBackup_def)
  hence "rqBackupID demoRestore \<in> KeepIDs plan" using b ne by (auto simp: KeepIDs_def demoRestore_def demoBackup_def intro!: rev_image_eqI [of "plan ! 0"])
  moreover obtain steps where "BuildPlan demoBackups demoRestore = Inr steps" using demo_plan by blast
  ultimately show ?thesis using retention_keeps_restore_plans [OF plan d, of demoRestore] plan by metis
qed

end
