(* ===== verification/Agents.thy ===== *)
theory Agents
  imports Store
begin

text \<open>
  The registry of agents (\<open>internal/server/agents.go\<close>): the last heartbeat of every agent and the status that follows
  from its age. The map of agents is a list of pairs in the order of the identifiers, the order in which \<open>List\<close> returns
  them; readings of the clock are arguments. The lock of the registry makes every operation one step.

  Shown here: an agent is healthy exactly up to the age that the registry allows, and a heartbeat changes its agent only.
\<close>

section \<open>The registry\<close>

definition AgentHealthy :: string where "AgentHealthy = ''healthy''"

definition AgentDegraded :: string where "AgentDegraded = ''degraded''"

record agentHeartbeat =
  hbID :: string
  hbVersion :: string
  hbAddress :: string
  hbCapacity :: int
  hbLabels :: "(string \<times> string) list option"
  hbNow :: gotime

record agentSnapshot =
  agID :: string
  agVersion :: string
  agAddress :: string
  agCapacity :: int
  agLabels :: "(string \<times> string) list option"
  agLastHeartbeat :: gotime
  agStatus :: string

record agentRegistry =
  degradedAfter :: int
  agents :: "(string \<times> agentSnapshot) list"

definition NewAgentRegistry :: "int \<Rightarrow> agentRegistry" where
  "NewAgentRegistry after = \<lparr>degradedAfter = (if after \<le> 0 then 30 * Second else after), agents = []\<rparr>"

text \<open>\<open>Time.Sub\<close>, which stops at the largest and the smallest duration.\<close>

definition timeSub :: "gotime \<Rightarrow> gotime \<Rightarrow> int" where
  "timeSub t u = max (- (2 ^ 63)) (min (2 ^ 63 - 1) (t - u))"

definition statusAt :: "agentRegistry \<Rightarrow> gotime \<Rightarrow> gotime \<Rightarrow> string" where
  "statusAt r lastHeartbeat now = (if degradedAfter r < timeSub now lastHeartbeat then AgentDegraded else AgentHealthy)"

text \<open>A copied map is the same list.\<close>

definition cloneLabels :: "(string \<times> string) list option \<Rightarrow> (string \<times> string) list option" where
  "cloneLabels labels = (case labels of None \<Rightarrow> None | Some m \<Rightarrow> Some m)"

definition Heartbeat :: "gotime \<Rightarrow> agentHeartbeat \<Rightarrow> agentRegistry \<Rightarrow> agentSnapshot \<times> agentRegistry" where
  "Heartbeat clock h r =
     (let snapshot = \<lparr>agID = hbID h, agVersion = hbVersion h, agAddress = hbAddress h, agCapacity = hbCapacity h,
            agLabels = cloneLabels (hbLabels h), agLastHeartbeat = (if IsZero (hbNow h) then clock else hbNow h), agStatus = AgentHealthy\<rparr> in
      (snapshot, r\<lparr>agents := kv_upd (hbID h) snapshot (agents r)\<rparr>))"

definition withStatus :: "agentRegistry \<Rightarrow> gotime \<Rightarrow> agentSnapshot \<Rightarrow> agentSnapshot" where
  "withStatus r now a = a\<lparr>agStatus := statusAt r (agLastHeartbeat a) now, agLabels := cloneLabels (agLabels a)\<rparr>"

definition Agents_List :: "gotime \<Rightarrow> agentRegistry \<Rightarrow> agentSnapshot list" where
  "Agents_List now r = map (\<lambda>x. withStatus r now (snd x)) (agents r)"

definition Agents_Get :: "gotime \<Rightarrow> string \<Rightarrow> agentRegistry \<Rightarrow> agentSnapshot option" where
  "Agents_Get now i r = map_option (withStatus r now) (map_of (agents r) i)"

definition Agents_Prune :: "gotime \<Rightarrow> int \<Rightarrow> agentRegistry \<Rightarrow> nat \<times> agentRegistry" where
  "Agents_Prune now maxAge r =
     (if maxAge \<le> 0 then (0, r)
      else
        let cutoff = now - maxAge; left = filter (\<lambda>x. \<not> agLastHeartbeat (snd x) < cutoff) (agents r) in
        (length (agents r) - length left, r\<lparr>agents := left\<rparr>))"

section \<open>Liveness\<close>

definition registry_ok :: "agentRegistry \<Rightarrow> bool" where
  "registry_ok r \<longleftrightarrow> 0 < degradedAfter r \<and> degradedAfter r < 2 ^ 63 - 1 \<and> kv_sorted (agents r) \<and> (\<forall>x \<in> set (agents r). agID (snd x) = fst x)"

lemma NewAgentRegistry_ok: "after < 2 ^ 63 - 1 \<Longrightarrow> registry_ok (NewAgentRegistry after)"
  by (simp add: registry_ok_def NewAgentRegistry_def Second_def kv_simps)

lemma Heartbeat_ok: "registry_ok r \<Longrightarrow> registry_ok (snd (Heartbeat clock h r))"
  by (auto simp: registry_ok_def Heartbeat_def Let_def kv_sorted_kv_upd set_kv_upd)

lemma Prune_ok: "registry_ok r \<Longrightarrow> registry_ok (snd (Agents_Prune now maxAge r))"
  by (auto simp: registry_ok_def Agents_Prune_def Let_def kv_sorted_filter)

lemma degraded_iff: "registry_ok r \<Longrightarrow> statusAt r heard now = AgentDegraded \<longleftrightarrow> degradedAfter r < now - heard"
  by (auto simp: statusAt_def timeSub_def registry_ok_def AgentHealthy_def AgentDegraded_def)

lemma Get_Heartbeat:
  assumes "registry_ok r" "degradedAfter r = d"
  shows "Agents_Get now i (snd (Heartbeat clock h r)) =
    (if i = hbID h then Some (withStatus r now (fst (Heartbeat clock h r))) else Agents_Get now i r)"
  using assms by (auto simp: Agents_Get_def Heartbeat_def Let_def registry_ok_def map_of_kv_upd withStatus_def statusAt_def option.map_comp comp_def
      intro!: option.map_cong)

end
