(* ===== verification/Job_API.thy ===== *)
theory Job_API
  imports Token_Store Audit_Log Agents Restore_Plan
begin

text \<open>
  The handlers of \<open>cmd/kronos/server.go\<close> for jobs: an agent claims a queued job and reports how it ended, a user asks for a
  backup, cancels a job or queues it again. All stores and the audit log live in one database. A handler returns what it
  writes on success, or the status of the refusal; a store or a log that is not configured is \<open>None\<close>, and the body of a
  request is what decoding it yields. Readings of the clock and of the random source are numbered within a request.
\<close>

section \<open>Requests and the audit log\<close>

record world =
  wClock :: "nat \<Rightarrow> gotime"
  wEntropy :: "nat \<Rightarrow> bytes option"

type_synonym auditLog = "(auditEvent codec \<times> (bytes \<Rightarrow> bytes)) option"

type_synonym metadata = "(string \<times> anyval) list"

definition auditMetadataWithRequest :: "request \<Rightarrow> metadata \<Rightarrow> metadata" where
  "auditMetadataWithRequest r meta =
     (let out1 = (case rqContextID r of
                    Some i \<Rightarrow> kv_upd ''request_id'' (VString i) meta
                  | None \<Rightarrow> let i = TrimSpace (rqRequestIDHeader r) in if i = [] then meta else kv_upd ''request_id'' (VString i) meta);
          agentID = TrimSpace (rqAgentID r) in
      if agentID = [] then out1 else kv_upd ''agent_id'' (VString agentID) out1)"

definition appendAuditEvent :: "world \<Rightarrow> nat \<Rightarrow> request \<Rightarrow> auditLog \<Rightarrow> string \<Rightarrow> string \<Rightarrow> ident \<Rightarrow> metadata \<Rightarrow> (kvdb, server_error, unit) op" where
  "appendAuditEvent W n r log action resourceType resourceID meta db =
     (case log of None \<Rightarrow> (Inr (), db)
      | Some (C, H) \<Rightarrow>
          (case Audit_Append C H (rqDone r) (wClock W n) (wEntropy W n)
                  \<lparr>aeSeq = 0, aeID = [], aeActorID = rqActor r, aeAction = action, aeResourceType = resourceType, aeResourceID = resourceID,
                   aeMetadata = auditMetadataWithRequest r meta, aeOccurredAt = 0, aePrevHash = [], aeHash = []\<rparr> db of
             (Inl e, db') \<Rightarrow> (Inl (HTTPError 500 ''write audit event''), db') | (Inr _, db') \<Rightarrow> (Inr (), db')))"

text \<open>An answer after an event in the log.\<close>

definition answer :: "world \<Rightarrow> nat \<Rightarrow> request \<Rightarrow> auditLog \<Rightarrow> string \<Rightarrow> string \<Rightarrow> ident \<Rightarrow> metadata \<Rightarrow> 'a \<Rightarrow> (kvdb, server_error, 'a) op" where
  "answer W n r log action resourceType resourceID meta x =
     bindE (appendAuditEvent W n r log action resourceType resourceID meta) (\<lambda>_. returnE x)"

definition httpNotFound :: server_error where "httpNotFound = HTTPError 404 ''404 page not found''"

section \<open>Claiming\<close>

type_synonym targetStore = "target codec \<times> anyval codec \<times> cipher option"

definition targetHasActiveJob :: "job list \<Rightarrow> job \<Rightarrow> bool" where
  "targetHasActiveJob jobs candidate \<longleftrightarrow>
     \<not> ID_IsZero (jTargetID candidate)
     \<and> list_ex (\<lambda>j. jID j \<noteq> jID candidate \<and> jTargetID j = jTargetID candidate \<and> jobActive j) jobs"

definition jobMatchesAgent :: "job \<Rightarrow> string \<Rightarrow> targetStore option \<Rightarrow> kvdb \<Rightarrow> bool" where
  "jobMatchesAgent j agentID targets db =
     (if agentID = [] \<or> ID_IsZero (jTargetID j) then True
      else (case targets of None \<Rightarrow> True
            | Some (T, V, p) \<Rightarrow>
                (case TargetStore_Get T V p (jTargetID j) db of Inl e \<Rightarrow> True | Inr None \<Rightarrow> True
                 | Inr (Some t) \<Rightarrow>
                     let assigned = TrimSpace (case map_of (tgLabels t) ''agent'' of None \<Rightarrow> [] | Some l \<Rightarrow> l) in
                     assigned = [] \<or> assigned = agentID)))"

definition healthyAgentCapacity :: "gotime \<Rightarrow> agentRegistry option \<Rightarrow> int option" where
  "healthyAgentCapacity now registry =
     (case registry of None \<Rightarrow> None
      | Some r \<Rightarrow>
          let total = fold (\<lambda>a total. wrap64 (total + (if agCapacity a \<le> 0 then 1 else agCapacity a)))
                        (filter (\<lambda>a. agStatus a = AgentHealthy) (Agents_List now r)) 0 in
          if total \<le> 0 then None else Some total)"

definition agentCapacityReached :: "gotime \<Rightarrow> agentRegistry option \<Rightarrow> job list \<Rightarrow> bool" where
  "agentCapacityReached now registry jobs =
     (case healthyAgentCapacity now registry of None \<Rightarrow> False
      | Some capacity \<Rightarrow> capacity \<le> int (length (filter jobActive jobs)))"

fun failLost :: "job codec \<Rightarrow> gotime \<Rightarrow> string list \<Rightarrow> job list \<Rightarrow> kvdb \<Rightarrow> (server_error option \<times> ident list) \<times> kvdb" where
  "failLost J now lost [] db = ((None, []), db)"
| "failLost J now lost (j # js) db =
     (if jAgentID j = [] \<or> jAgentID j \<notin> set lost \<or> \<not> jobActive j then failLost J now lost js db
      else (case JobStore_Save J (j\<lparr>jStatus := JobStatusFailed, jEndedAt := now, jError := ''agent_lost''\<rparr>) db of
              (Inl e, db') \<Rightarrow> ((Some e, []), db')
            | (Inr _, db') \<Rightarrow> (case failLost J now lost js db' of ((e, ids), db'') \<Rightarrow> ((e, jID j # ids), db''))))"

text \<open>The first reading of the clock is the one of the caller, the second the one of the registry.\<close>

definition failLostAgentJobs :: "world \<Rightarrow> job codec option \<Rightarrow> agentRegistry option \<Rightarrow> kvdb \<Rightarrow> (server_error option \<times> ident list) \<times> kvdb" where
  "failLostAgentJobs W store registry db =
     (case store of None \<Rightarrow> ((None, []), db)
      | Some J \<Rightarrow>
        (case registry of None \<Rightarrow> ((None, []), db)
         | Some r \<Rightarrow>
             let lost = map agID (filter (\<lambda>a. agStatus a = AgentDegraded) (Agents_List (wClock W 1) r)) in
             if lost = [] then ((None, []), db)
             else (case JobStore_List J db of Inl e \<Rightarrow> ((Some e, []), db) | Inr js \<Rightarrow> failLost J (wClock W 0) lost js db)))"

text \<open>The first job of the list that the agent may start.\<close>

definition claimable :: "job list \<Rightarrow> string \<Rightarrow> targetStore option \<Rightarrow> kvdb \<Rightarrow> job \<Rightarrow> bool" where
  "claimable jobs agentID targets db j \<longleftrightarrow>
     jStatus j = JobStatusQueued \<and> \<not> targetHasActiveJob jobs j \<and> jobMatchesAgent j agentID targets db"

definition claimNext :: "world \<Rightarrow> request \<Rightarrow> job codec \<Rightarrow> targetStore option \<Rightarrow> auditLog \<Rightarrow> agentRegistry option \<Rightarrow> (kvdb, server_error, job option) op" where
  "claimNext W r J targets log registry db =
     (case JobStore_List J db of Inl e \<Rightarrow> (Inl (HTTPError 500 ''list jobs''), db)
      | Inr jobs \<Rightarrow>
          if agentCapacityReached (wClock W 2) registry jobs then (Inr None, db)
          else
            let agentID = TrimSpace (rqAgentID r) in
            (case find (claimable jobs agentID targets db) jobs of None \<Rightarrow> (Inr None, db)
             | Some j \<Rightarrow>
                 (case StartOnAgent J (wClock W 3) (jID j) agentID db of
                    (Inl e, db') \<Rightarrow> (Inl (HTTPError 500 ''claim job''), db')
                  | (Inr started, db') \<Rightarrow>
                      answer W 4 r log ''job.claimed'' ''job'' (jID started)
                        [(''operation'', VString (jOperation started)), (''storage_id'', VString (jStorageID started)),
                         (''target_id'', VString (jTargetID started)), (''type'', VString (jType started))] (Some started) db')))"

definition handleClaimJob :: "world \<Rightarrow> request \<Rightarrow> job codec option \<Rightarrow> targetStore option \<Rightarrow> auditLog \<Rightarrow> agentRegistry option \<Rightarrow> (kvdb, server_error, job option) op" where
  "handleClaimJob W r store targets log registry db =
     (case store of None \<Rightarrow> (Inl (HTTPError 503 ''job store is not configured''), db)
      | Some J \<Rightarrow>
        (case failLostAgentJobs W store registry db of
           ((Some e, _), db') \<Rightarrow> (Inl (HTTPError 500 ''fail lost agent jobs''), db')
         | ((None, ids), db') \<Rightarrow>
             bindE (if ids = [] then returnE ()
                    else appendAuditEvent W 5 r log ''agent_lost.jobs_failed'' ''job'' []
                           [(''job_count'', VInt (int (length ids))), (''job_ids'', VList (map VString ids))])
               (\<lambda>_. claimNext W r J targets log registry) db'))"

section \<open>Requests of users\<close>

record backupNowRequest =
  bnTargetID :: ident
  bnStorageID :: ident
  bnType :: string
  bnParentID :: ident

definition backupTypeNeedsParent :: "string \<Rightarrow> bool" where
  "backupTypeNeedsParent t \<longleftrightarrow> t = BackupTypeIncremental \<or> t = BackupTypeDifferential"

definition handleBackupNow :: "world \<Rightarrow> request \<Rightarrow> backupNowRequest option \<Rightarrow> job codec option \<Rightarrow> auditLog \<Rightarrow> (kvdb, server_error, job) op" where
  "handleBackupNow W r body store log db =
     (case store of None \<Rightarrow> (Inl (HTTPError 503 ''job store is not configured''), db)
      | Some J \<Rightarrow>
        (case body of None \<Rightarrow> (Inl (HTTPError 400 ''invalid backup request''), db)
         | Some b \<Rightarrow>
             if ID_IsZero (bnTargetID b) then (Inl (HTTPError 400 ''target_id is required''), db)
             else if ID_IsZero (bnStorageID b) then (Inl (HTTPError 400 ''storage_id is required''), db)
             else
               let t = (if bnType b \<noteq> [] then bnType b else if ID_IsZero (bnParentID b) then BackupTypeFull else BackupTypeIncremental) in
               if t \<noteq> BackupTypeFull \<and> t \<noteq> BackupTypeIncremental \<and> t \<noteq> BackupTypeDifferential then (Inl (HTTPError 400 ''unsupported backup type''), db)
               else if t = BackupTypeFull \<and> \<not> ID_IsZero (bnParentID b)
               then (Inl (HTTPError 400 ''parent_id requires incremental or differential backup type''), db)
               else if backupTypeNeedsParent t \<and> ID_IsZero (bnParentID b)
               then (Inl (HTTPError 400 ''parent_id is required for incremental or differential backup''), db)
               else
                 (case EnqueueDue J [(wClock W 1, wEntropy W 1)]
                         [\<lparr>djScheduleID = [], djTargetID = bnTargetID b, djStorageID = bnStorageID b, djType = t, djParentBackupID = [],
                           djHooks = \<lparr>PreBackup = [], OnFailure = []\<rparr>, djDueAt = 0, djQueuedAt = wClock W 0\<rparr>] db of
                    ((Some e, _), db') \<Rightarrow> (Inl (HTTPError 500 ''enqueue backup''), db')
                  | ((None, []), db') \<Rightarrow> (Inl Panicked, db')
                  | ((None, j # _), db') \<Rightarrow>
                      let meta = [(''storage_id'', VString (bnStorageID b)), (''target_id'', VString (bnTargetID b)), (''type'', VString t)] in
                      if ID_IsZero (bnParentID b) then answer W 2 r log ''backup.requested'' ''job'' (jID j) meta j db'
                      else
                        let j' = j\<lparr>jParentBackupID := bnParentID b\<rparr> in
                        (case JobStore_Save J j' db' of
                           (Inl e, db'') \<Rightarrow> (Inl (HTTPError 500 ''save backup job''), db'')
                         | (Inr _, db'') \<Rightarrow>
                             answer W 2 r log ''backup.requested'' ''job'' (jID j) (kv_upd ''parent_id'' (VString (bnParentID b)) meta) j' db''))))"

text \<open>The status of a failed operation of the orchestrator.\<close>

definition orchestratorError :: "server_error \<Rightarrow> server_error" where
  "orchestratorError e = (case e of NotFound _ _ \<Rightarrow> httpNotFound | _ \<Rightarrow> HTTPCause 400 e)"

definition handleCancelJob :: "world \<Rightarrow> request \<Rightarrow> job codec option \<Rightarrow> auditLog \<Rightarrow> ident \<Rightarrow> (kvdb, server_error, job) op" where
  "handleCancelJob W r store log i db =
     (case store of None \<Rightarrow> (Inl (HTTPError 503 ''job store is not configured''), db)
      | Some J \<Rightarrow>
        (case Finish J (wClock W 0) i JobStatusCanceled ''canceled'' db of
           (Inl e, db') \<Rightarrow> (Inl (orchestratorError e), db')
         | (Inr j, db') \<Rightarrow> answer W 1 r log ''job.canceled'' ''job'' (jID j) [] j db'))"

definition handleRetryJob :: "world \<Rightarrow> request \<Rightarrow> job codec option \<Rightarrow> auditLog \<Rightarrow> ident \<Rightarrow> (kvdb, server_error, job) op" where
  "handleRetryJob W r store log i db =
     (case store of None \<Rightarrow> (Inl (HTTPError 503 ''job store is not configured''), db)
      | Some J \<Rightarrow>
        (case Retry J (wClock W 0) i db of
           (Inl e, db') \<Rightarrow> (Inl (orchestratorError e), db')
         | (Inr j, db') \<Rightarrow> answer W 1 r log ''job.retried'' ''job'' (jID j) [] j db'))"

section \<open>Verification and restore\<close>

definition JobVerificationManifest :: string where "JobVerificationManifest = ''manifest''"

definition JobVerificationChunk :: string where "JobVerificationChunk = ''chunk''"

text \<open>The status of a plan that cannot be built.\<close>

definition planRefusal :: "plan_error \<Rightarrow> server_error" where
  "planRefusal e = (case e of BackupNotFound _ \<Rightarrow> httpNotFound | _ \<Rightarrow> HTTPError 400 ''build restore plan'')"

definition handleBackupVerify :: "world \<Rightarrow> request \<Rightarrow> string option \<Rightarrow> backup codec option \<Rightarrow> job codec option \<Rightarrow> auditLog \<Rightarrow> ident \<Rightarrow> (kvdb, server_error, job) op" where
  "handleBackupVerify W r body backups store log i db =
     (case backups of None \<Rightarrow> (Inl (HTTPError 503 ''backup store is not configured''), db)
      | Some B \<Rightarrow>
        (case store of None \<Rightarrow> (Inl (HTTPError 503 ''job store is not configured''), db)
         | Some J \<Rightarrow>
           (case body of None \<Rightarrow> (Inl (HTTPError 400 ''invalid backup verify request''), db)
            | Some level0 \<Rightarrow>
                let level = (if level0 = [] then JobVerificationChunk else level0) in
                if level \<noteq> JobVerificationManifest \<and> level \<noteq> JobVerificationChunk then (Inl (HTTPError 400 ''unsupported verification level''), db)
                else
                  (case BackupStore_List B db of Inl e \<Rightarrow> (Inl (HTTPError 500 ''list backups''), db)
                   | Inr bs \<Rightarrow>
                     (case BuildPlan bs \<lparr>rqBackupID = i, rqTargetID = [], rqAt = 0, rqDryRun = False, rqReplaceExisting = False\<rparr> of
                        Inl e \<Rightarrow> (Inl (planRefusal e), db)
                      | Inr plan \<Rightarrow>
                          if plSteps plan = [] then (Inl (HTTPError 400 ''backup verification plan is empty''), db)
                          else
                            (case NewID (wClock W 0) (wEntropy W 0) of None \<Rightarrow> (Inl (HTTPError 500 ''create verify job id''), db)
                             | Some jobID \<Rightarrow>
                                 let selected = last (plSteps plan); manifestIDs = map spManifestID (plSteps plan);
                                     j = zeroJob\<lparr>jID := jobID, jOperation := JobOperationVerify, jTargetID := plTargetID plan, jStorageID := plStorageID plan,
                                       jType := spType selected, jVerifyBackupID := plBackupID plan, jVerifyManifestID := spManifestID selected,
                                       jVerifyManifestIDs := manifestIDs, jVerifyLevel := level, jStatus := JobStatusQueued, jQueuedAt := wClock W 1\<rparr> in
                                 (case JobStore_Save J j db of (Inl e, db') \<Rightarrow> (Inl (HTTPError 500 ''save verify job''), db')
                                  | (Inr _, db') \<Rightarrow>
                                      answer W 2 r log ''backup.verify.requested'' ''job'' (jID j)
                                        [(''backup_id'', VString (plBackupID plan)), (''level'', VString level),
                                         (''manifest_ids'', VList (map VString manifestIDs)), (''storage_id'', VString (plStorageID plan))] j db')))))))"

definition validateRestoreAt :: "gotime \<Rightarrow> gotime \<Rightarrow> server_error + unit" where
  "validateRestoreAt at now =
     (if IsZero at then Inr () else if now < at then Inl (Invalid ''restore at must not be in the future'') else Inr ())"

definition handleRestorePreview :: "world \<Rightarrow> restoreRequest option \<Rightarrow> backup codec option \<Rightarrow> kvdb \<Rightarrow> server_error + restorePlan" where
  "handleRestorePreview W body backups db =
     (case backups of None \<Rightarrow> Inl (HTTPError 503 ''backup store is not configured'')
      | Some B \<Rightarrow>
        (case body of None \<Rightarrow> Inl (HTTPError 400 ''invalid restore preview request'')
         | Some q \<Rightarrow>
           (case validateRestoreAt (rqAt q) (wClock W 0) of Inl e \<Rightarrow> Inl (HTTPCause 400 e)
            | Inr _ \<Rightarrow>
              (case BackupStore_List B db of Inl e \<Rightarrow> Inl (HTTPError 500 ''list backups'')
               | Inr bs \<Rightarrow> (case BuildPlan bs q of Inl e \<Rightarrow> Inl (planRefusal e) | Inr plan \<Rightarrow> Inr plan)))))"

definition handleRestoreStart :: "world \<Rightarrow> request \<Rightarrow> restoreRequest option \<Rightarrow> backup codec option \<Rightarrow> job codec option \<Rightarrow> auditLog \<Rightarrow> (kvdb, server_error, job \<times> restorePlan) op" where
  "handleRestoreStart W r body backups store log db =
     (case backups of None \<Rightarrow> (Inl (HTTPError 503 ''backup store is not configured''), db)
      | Some B \<Rightarrow>
        (case store of None \<Rightarrow> (Inl (HTTPError 503 ''job store is not configured''), db)
         | Some J \<Rightarrow>
           (case body of None \<Rightarrow> (Inl (HTTPError 400 ''invalid restore request''), db)
            | Some q \<Rightarrow>
              (case validateRestoreAt (rqAt q) (wClock W 0) of Inl e \<Rightarrow> (Inl (HTTPCause 400 e), db)
               | Inr _ \<Rightarrow>
                 (case BackupStore_List B db of Inl e \<Rightarrow> (Inl (HTTPError 500 ''list backups''), db)
                  | Inr bs \<Rightarrow>
                    (case BuildPlan bs q of Inl e \<Rightarrow> (Inl (planRefusal e), db)
                     | Inr plan \<Rightarrow>
                       (case NewID (wClock W 1) (wEntropy W 1) of None \<Rightarrow> (Inl (HTTPError 500 ''create restore job id''), db)
                        | Some i \<Rightarrow>
                            if plSteps plan = [] then (Inl Panicked, db)
                            else
                              let selected = last (plSteps plan); manifestIDs = map spManifestID (plSteps plan);
                                  j = zeroJob\<lparr>jID := i, jOperation := JobOperationRestore, jTargetID := plTargetID plan, jStorageID := plStorageID plan,
                                    jType := spType selected, jRestoreBackupID := plBackupID plan, jRestoreManifestID := spManifestID selected,
                                    jRestoreManifestIDs := manifestIDs, jRestoreTargetID := plTargetID plan, jRestoreAt := plAt plan,
                                    jRestoreDryRun := rqDryRun q, jRestoreReplaceExisting := rqReplaceExisting q, jStatus := JobStatusQueued,
                                    jQueuedAt := wClock W 2\<rparr> in
                              (case JobStore_Save J j db of (Inl e, db') \<Rightarrow> (Inl (HTTPError 500 ''save restore job''), db')
                               | (Inr _, db') \<Rightarrow>
                                   answer W 3 r log ''restore.requested'' ''job'' (jID j)
                                     [(''at'', VTime (plAt plan)), (''backup_id'', VString (plBackupID plan)), (''dry_run'', VBool (rqDryRun q)),
                                      (''replace_existing'', VBool (rqReplaceExisting q)), (''storage_id'', VString (plStorageID plan)),
                                      (''target_id'', VString (plTargetID plan))] (j, plan) db'))))))))"

end
