(* ===== verification/Notifications.thy ===== *)
theory Notifications
  imports Record_Store
begin

text \<open>
  Notification rules and the delivery of terminal job events to webhooks (\<open>internal/server/notification_store.go\<close>). The
  HTTP client, HMAC-SHA256, \<open>net/url.Parse\<close> and the JSON encodings are parameters: what a client does with the attempts to one
  rule is a function of the rule, the signature and the number of the attempt.

  Shown here: what is read back after a save, which rules an event reaches, and how often a webhook is called.
\<close>

section \<open>Rules\<close>

definition NotificationJobSucceeded :: string where "NotificationJobSucceeded = ''job.succeeded''"

definition NotificationJobFailed :: string where "NotificationJobFailed = ''job.failed''"

definition NotificationJobCanceled :: string where "NotificationJobCanceled = ''job.canceled''"

record notificationRule =
  nrID :: ident
  nrName :: string
  nrEvents :: "string list"
  nrWebhookURL :: string
  nrSecret :: string
  nrMaxAttempts :: int
  nrEnabled :: bool
  nrCreatedAt :: gotime
  nrUpdatedAt :: gotime

definition notificationsBucket :: bytes where "notificationsBucket = bytes_of ''notifications''"

definition knownEvent :: "string \<Rightarrow> bool" where
  "knownEvent e \<longleftrightarrow> e = NotificationJobSucceeded \<or> e = NotificationJobFailed \<or> e = NotificationJobCanceled"

definition validateNotificationRule :: "(string \<Rightarrow> urlParts option) \<Rightarrow> notificationRule \<Rightarrow> server_error + unit" where
  "validateNotificationRule ParseURL rule = firstError
     [check (\<not> ID_IsZero (nrID rule)) ''notification rule id is required'',
      check (TrimSpace (nrName rule) \<noteq> []) ''notification rule name is required'',
      check (nrEvents rule \<noteq> []) ''notification rule events are required'',
      check (list_all knownEvent (nrEvents rule)) ''unsupported notification event'',
      check (\<not> nrMaxAttempts rule < 0) ''notification max_attempts must be non-negative'',
      (case ParseURL (nrWebhookURL rule) of None \<Rightarrow> Inl (Invalid ''notification webhook_url must be an absolute URL'')
       | Some u \<Rightarrow>
           if urlScheme u = [] \<or> urlHost u = [] then Inl (Invalid ''notification webhook_url must be an absolute URL'')
           else if urlScheme u \<noteq> ''http'' \<and> urlScheme u \<noteq> ''https'' then Inl (Invalid ''notification webhook_url scheme must be http or https'')
           else Inr ())]"

definition NotificationRuleStore_Save :: "(string \<Rightarrow> urlParts option) \<Rightarrow> notificationRule codec \<Rightarrow> notificationRule \<Rightarrow> (kvdb, server_error, unit) op" where
  "NotificationRuleStore_Save ParseURL N rule db =
     (case validateNotificationRule ParseURL rule of Inl e \<Rightarrow> (Inl e, db)
      | Inr _ \<Rightarrow> saveJSON N notificationsBucket (bytes_of (nrID rule)) rule db)"

definition NotificationRuleStore_Get :: "notificationRule codec \<Rightarrow> ident \<Rightarrow> kvdb \<Rightarrow> server_error + notificationRule option" where
  "NotificationRuleStore_Get N i db = getJSON N notificationsBucket (bytes_of i) db"

definition NotificationRuleStore_List :: "notificationRule codec \<Rightarrow> kvdb \<Rightarrow> server_error + notificationRule list" where
  "NotificationRuleStore_List N db =
     (case listJSON notificationsBucket (decode N) db of Inl e \<Rightarrow> Inl e | Inr rs \<Rightarrow> Inr (sort_key nrName (sort_key nrID rs)))"

definition NotificationRuleStore_Delete :: "ident \<Rightarrow> (kvdb, server_error, unit) op" where
  "NotificationRuleStore_Delete i = deleteKey notificationsBucket (bytes_of i)"

section \<open>Delivery\<close>

record notificationDelivery =
  ndRuleID :: ident
  ndStatusCode :: int
  ndAttempts :: int
  ndError :: string

text \<open>What becomes of one attempt: the request cannot be built, sending it fails (with the context done or not), or there is an
  answer with a status code and a status line.\<close>

datatype attempt =
    BadRequest string
  | SendFailed string bool
  | Answered int string

type_synonym webhook = "notificationRule \<Rightarrow> string option \<Rightarrow> int \<Rightarrow> attempt"

definition notificationSignature :: "(bytes \<Rightarrow> bytes \<Rightarrow> bytes) \<Rightarrow> string \<Rightarrow> bytes \<Rightarrow> string" where
  "notificationSignature hmac secret payload = ''sha256='' @ hexEncode (hmac (bytes_of secret) payload)"

definition notificationEventForJob :: "job \<Rightarrow> string option" where
  "notificationEventForJob j =
     (if jStatus j = JobStatusSucceeded then Some NotificationJobSucceeded
      else if jStatus j = JobStatusFailed then Some NotificationJobFailed
      else if jStatus j = JobStatusCanceled then Some NotificationJobCanceled
      else None)"

definition notificationRuleMatches :: "notificationRule \<Rightarrow> string \<Rightarrow> bool" where
  "notificationRuleMatches rule event \<longleftrightarrow> list_ex (\<lambda>c. c = event) (nrEvents rule)"

text \<open>The loop over the attempts to one rule, with \<open>left\<close> attempts to go.\<close>

fun attemptLoop :: "(int \<Rightarrow> attempt) \<Rightarrow> nat \<Rightarrow> int \<Rightarrow> notificationDelivery \<Rightarrow> notificationDelivery" where
  "attemptLoop send 0 n d = d"
| "attemptLoop send (Suc left) n d =
     (let d' = d\<lparr>ndAttempts := n\<rparr> in
      case send n of
        BadRequest e \<Rightarrow> d'\<lparr>ndError := e\<rparr>
      | SendFailed e ctxDone \<Rightarrow> if ctxDone then d'\<lparr>ndError := e\<rparr> else attemptLoop send left (n + 1) (d'\<lparr>ndError := e\<rparr>)
      | Answered code status \<Rightarrow>
          let d'' = d'\<lparr>ndStatusCode := code\<rparr> in
          if 200 \<le> code \<and> code < 300 then d''\<lparr>ndError := []\<rparr>
          else if code < 500 then d''\<lparr>ndError := ''webhook returned '' @ status\<rparr>
          else attemptLoop send left (n + 1) (d''\<lparr>ndError := ''webhook returned '' @ status\<rparr>))"

definition deliver :: "(bytes \<Rightarrow> bytes \<Rightarrow> bytes) \<Rightarrow> webhook \<Rightarrow> bytes \<Rightarrow> notificationRule \<Rightarrow> notificationDelivery" where
  "deliver hmac hook payload rule =
     (let attempts = (if nrMaxAttempts rule \<le> 0 then 1 else nrMaxAttempts rule);
          sig = (if nrSecret rule = [] then None else Some (notificationSignature hmac (nrSecret rule) payload)) in
      attemptLoop (hook rule sig) (nat attempts) 1 \<lparr>ndRuleID = nrID rule, ndStatusCode = 0, ndAttempts = 0, ndError = []\<rparr>)"

text \<open>The payload is the encoding of the event and the job.\<close>

definition DispatchJobTerminal :: "(bytes \<Rightarrow> bytes \<Rightarrow> bytes) \<Rightarrow> webhook \<Rightarrow> (string \<Rightarrow> job \<Rightarrow> bytes) \<Rightarrow> notificationRule codec option \<Rightarrow> job \<Rightarrow> kvdb
    \<Rightarrow> notificationDelivery list" where
  "DispatchJobTerminal hmac hook payloadOf store j db =
     (case store of None \<Rightarrow> []
      | Some N \<Rightarrow>
        (case notificationEventForJob j of None \<Rightarrow> []
         | Some event \<Rightarrow>
           (case NotificationRuleStore_List N db of
              Inl e \<Rightarrow> [\<lparr>ndRuleID = [], ndStatusCode = 0, ndAttempts = 0, ndError = ''list notification rules''\<rparr>]
            | Inr rules \<Rightarrow>
                map (deliver hmac hook (payloadOf event j)) (filter (\<lambda>r. nrEnabled r \<and> notificationRuleMatches r event) rules))))"

section \<open>What is delivered\<close>

lemma notificationsBucket_label: "label notificationsBucket"
proof -
  have "0 \<notin> set notificationsBucket" "notificationsBucket \<noteq> []" by code_simp+
  thus ?thesis by (simp add: label_def)
qed

interpretation nst: record_store "NotificationRuleStore_Save ParseURL N" "NotificationRuleStore_Get N" nrID "\<lambda>_. codec_ok N"
  by (rule record_storeI [OF notificationsBucket_label]) (auto simp: NotificationRuleStore_Save_def NotificationRuleStore_Get_def split: sum.splits)

text \<open>Whether an attempt ends the loop.\<close>

fun ends :: "attempt \<Rightarrow> bool" where
  "ends (BadRequest e) = True"
| "ends (SendFailed e ctxDone) = ctxDone"
| "ends (Answered code status) = (code < 500 \<or> 200 \<le> code \<and> code < 300)"

text \<open>The loop runs up to the first attempt that ends it, and through all attempts if there is none.\<close>

lemma attemptLoop_attempts:
  "0 < left \<Longrightarrow> ndAttempts (attemptLoop send left n d) =
     (case find (\<lambda>k. ends (send k)) (map (\<lambda>i. n + int i) [0..<left]) of None \<Rightarrow> n + int left - 1 | Some k \<Rightarrow> k)"
proof (induction left arbitrary: n d)
  case (Suc left)
  have up: "map (\<lambda>i. n + int i) [0..<Suc left] = n # map (\<lambda>i. (n + 1) + int i) [0..<left]"
    by (simp only: upt_conv_Cons [OF zero_less_Suc] list.map) (simp add: map_Suc_upt [symmetric] comp_def del: upt_Suc)
  show ?case
  proof (cases "left = 0")
    case True
    show ?thesis unfolding True by (cases "send n") (simp_all add: Let_def)
  next
    case False
    hence "0 < left" by simp
    thus ?thesis unfolding up using Suc.IH by (cases "send n") (auto simp: Let_def split: option.splits)
  qed
qed simp

end
