(* ===== verification/Job_Finish.thy ===== *)
theory Job_Finish
  imports Job_API Notifications
begin

text \<open>
  The handler with which an agent reports the end of a job (\<open>handleFinishJob\<close> of \<open>cmd/kronos/server.go\<close>): it finishes the job, stores
  the metadata of the backup or the reports and the evidence of the restore, notifies, and writes the audit log.
\<close>

section \<open>Evidence\<close>

text \<open>The JSON encoding of the evidence and SHA-256 are parameters; \<open>clock\<close> is the reading for a job without an end.\<close>

definition buildRestoreEvidenceArtifact :: "restoreEvidence codec \<Rightarrow> (bytes \<Rightarrow> bytes) \<Rightarrow> gotime \<Rightarrow> job \<Rightarrow> evidenceArtifact option" where
  "buildRestoreEvidenceArtifact R sha256 clock j =
     (let manifestIDs = (if jRestoreManifestIDs j = [] \<and> \<not> ID_IsZero (jRestoreManifestID j) then [jRestoreManifestID j] else jRestoreManifestIDs j);
          targetID = (if ID_IsZero (jRestoreTargetID j) then jTargetID j else jRestoreTargetID j);
          payload = \<lparr>evOperation = jOperation j, evStatus = jStatus j, evBackupID = jRestoreBackupID j, evTargetID = targetID,
            evStorageID = jStorageID j, evManifestIDs = manifestIDs, evRestoreAt = jRestoreAt j, evDryRun = jRestoreDryRun j,
            evReplaceExisting = jRestoreReplaceExisting j, evQueuedAt = jQueuedAt j, evStartedAt = jStartedAt j, evEndedAt = jEndedAt j,
            evError = jError j, evReport = jRestoreReport j, evFailure = jFailureEvidence j\<rparr> in
      (case Marshal R payload of None \<Rightarrow> None
       | Some data \<Rightarrow>
           let sha = hexEncode (sha256 data) in
           Some \<lparr>eaID = ''restore-evidence-'' @ sha, eaJobID = jID j, eaKind = ''restore'', eaSHA256 = sha,
             eaCreatedAt = (if IsZero (jEndedAt j) then clock else jEndedAt j), eaRestore = Some payload\<rparr>))"

section \<open>Filling in reports\<close>

record finishJobRequest =
  fjStatus :: string
  fjError :: string
  fjBackup :: "backup option"
  fjFailure :: "failureEvidence option"
  fjRestore :: "restoreReport option"
  fjVerification :: "verificationReport option"

definition orID :: "ident \<Rightarrow> ident \<Rightarrow> ident" where "orID i j = (if ID_IsZero i then j else i)"

definition orStr :: "string \<Rightarrow> string \<Rightarrow> string" where "orStr s t = (if s = [] then t else s)"

definition orTime :: "gotime \<Rightarrow> gotime \<Rightarrow> gotime" where "orTime t u = (if IsZero t then u else t)"

definition fillBackup :: "job \<Rightarrow> backup \<Rightarrow> backup" where
  "fillBackup j b = b\<lparr>bJobID := orID (bJobID b) (jID j), bTargetID := orID (bTargetID b) (jTargetID j), bStorageID := orID (bStorageID b) (jStorageID j),
     bType := orStr (bType b) (jType j), bStartedAt := orTime (bStartedAt b) (jStartedAt j), bEndedAt := orTime (bEndedAt b) (jEndedAt j)\<rparr>"

definition fillVerification :: "job \<Rightarrow> verificationReport \<Rightarrow> verificationReport" where
  "fillVerification j v = v\<lparr>veBackupID := orID (veBackupID v) (jVerifyBackupID j), veLevel := orStr (veLevel v) (jVerifyLevel j),
     veManifestIDs := (if veManifestIDs v = [] then jVerifyManifestIDs j else veManifestIDs v)\<rparr>"

definition restoreManifests :: "job \<Rightarrow> ident list \<Rightarrow> ident list" where
  "restoreManifests j ids =
     (let ids1 = (if ids = [] then jRestoreManifestIDs j else ids) in
      if ids1 = [] \<and> \<not> ID_IsZero (jRestoreManifestID j) then [jRestoreManifestID j] else ids1)"

definition fillRestore :: "job \<Rightarrow> restoreReport \<Rightarrow> restoreReport" where
  "fillRestore j v = v\<lparr>reBackupID := orID (reBackupID v) (jRestoreBackupID j), reTargetID := orID (orID (reTargetID v) (jRestoreTargetID j)) (jTargetID j),
     reManifestIDs := restoreManifests j (reManifestIDs v), reDryRun := jRestoreDryRun j\<rparr>"

definition fillFailure :: "job \<Rightarrow> failureEvidence \<Rightarrow> failureEvidence" where
  "fillFailure j v = v\<lparr>feOperation := orStr (feOperation v) (jOperation j), feStage := orStr (feStage v) ''restore'', feMessage := orStr (feMessage v) (jError j),
     feBackupID := orID (feBackupID v) (jRestoreBackupID j), feTargetID := orID (orID (feTargetID v) (jRestoreTargetID j)) (jTargetID j),
     feStorageID := orID (feStorageID v) (jStorageID j), feManifestIDs := restoreManifests j (feManifestIDs v), feAt := orTime (feAt v) (jEndedAt j)\<rparr>"

section \<open>The metadata of the audit event\<close>

text \<open>Reports as JSON objects, with the members that are left out when empty.\<close>

definition strMember :: "string \<Rightarrow> string \<Rightarrow> metadata" where
  "strMember k s = (if s = [] then [] else [(k, VString s)])"

definition idsMember :: "string \<Rightarrow> ident list \<Rightarrow> metadata" where
  "idsMember k ids = (if ids = [] then [] else [(k, VList (map VString ids))])"

definition intMember :: "string \<Rightarrow> int \<Rightarrow> metadata" where
  "intMember k n = (if n = 0 then [] else [(k, VInt n)])"

definition verificationValue :: "verificationReport \<Rightarrow> anyval" where
  "verificationValue v = VMap ([(''backup_id'', VString (veBackupID v)), (''chunks'', VInt (veChunks v)), (''level'', VString (veLevel v))]
     @ idsMember ''manifest_ids'' (veManifestIDs v) @ [(''objects'', VInt (veObjects v))] @ intMember ''restored_bytes'' (veRestoredBytes v)
     @ [(''stored_bytes'', VInt (veStoredBytes v))] @ intMember ''verified_chunks'' (veVerifiedChunks v))"

definition restoreValue :: "restoreReport \<Rightarrow> anyval" where
  "restoreValue v = VMap ([(''backup_id'', VString (reBackupID v)), (''chunks'', VInt (reChunks v))]
     @ (if reDryRun v then [(''dry_run'', VBool True)] else []) @ idsMember ''manifest_ids'' (reManifestIDs v)
     @ [(''objects'', VInt (reObjects v)), (''restored_bytes'', VInt (reRestoredBytes v)), (''stored_bytes'', VInt (reStoredBytes v))]
     @ strMember ''target_id'' (reTargetID v))"

definition failureValue :: "failureEvidence \<Rightarrow> anyval" where
  "failureValue v = VMap ([(''at'', VTime (feAt v))] @ strMember ''backup_id'' (feBackupID v) @ idsMember ''manifest_ids'' (feManifestIDs v)
     @ [(''message'', VString (feMessage v))] @ strMember ''operation'' (feOperation v) @ strMember ''stage'' (feStage v)
     @ strMember ''storage_id'' (feStorageID v) @ strMember ''target_id'' (feTargetID v))"

definition deliveryValue :: "notificationDelivery \<Rightarrow> anyval" where
  "deliveryValue d = VMap (intMember ''attempts'' (ndAttempts d) @ strMember ''error'' (ndError d) @ [(''rule_id'', VString (ndRuleID d))]
     @ intMember ''status_code'' (ndStatusCode d))"

definition finishMetadata :: "finishJobRequest \<Rightarrow> ident \<Rightarrow> job \<Rightarrow> notificationDelivery list \<Rightarrow> metadata" where
  "finishMetadata q backupID j deliveries =
     (if ID_IsZero backupID then [] else [(''backup_id'', VString backupID)])
     @ strMember ''error'' (fjError q)
     @ (case jEvidenceArtifact j of None \<Rightarrow> []
        | Some a \<Rightarrow> [(''evidence_artifact'', VMap [(''id'', VString (eaID a)), (''sha256'', VString (eaSHA256 a))])])
     @ (case fjFailure q of None \<Rightarrow> [] | Some v \<Rightarrow> [(''failure'', failureValue v)])
     @ (if deliveries = [] then [] else [(''notifications'', VList (map deliveryValue deliveries))])
     @ (case fjRestore q of None \<Rightarrow> [] | Some v \<Rightarrow> [(''restore'', restoreValue v)])
     @ [(''status'', VString (fjStatus q))]
     @ (case fjVerification q of None \<Rightarrow> [] | Some v \<Rightarrow> [(''verification'', verificationValue v)])"

section \<open>The handler\<close>

record finishEnv =
  feJobs :: "job codec option"
  feEvidence :: "evidenceArtifact codec option"
  feBackups :: "backup codec option"
  feRestores :: "restoreEvidence codec"
  feSHA :: "bytes \<Rightarrow> bytes"
  feLog :: auditLog
  feRules :: "notificationRule codec option"
  feHmac :: "bytes \<Rightarrow> bytes \<Rightarrow> bytes"
  feHook :: webhook
  fePayload :: "string \<Rightarrow> job \<Rightarrow> bytes"

text \<open>The checks before anything is changed; the result is the refusal.\<close>

definition finishRefusal :: "finishEnv \<Rightarrow> finishJobRequest \<Rightarrow> job \<Rightarrow> server_error option" where
  "finishRefusal E q current =
     (if fjBackup q \<noteq> None \<and> fjStatus q \<noteq> JobStatusSucceeded then Some (HTTPError 400 ''backup metadata requires succeeded status'')
      else if fjBackup q \<noteq> None \<and> jOperation current \<noteq> [] \<and> jOperation current \<noteq> JobOperationBackup
      then Some (HTTPError 400 ''non-backup jobs cannot attach backup metadata'')
      else if fjBackup q \<noteq> None \<and> feBackups E = None then Some (HTTPError 503 ''backup store is not configured'')
      else if fjVerification q \<noteq> None \<and> fjStatus q \<noteq> JobStatusSucceeded then Some (HTTPError 400 ''verification report requires succeeded status'')
      else if fjVerification q \<noteq> None \<and> jOperation current \<noteq> JobOperationVerify then Some (HTTPError 400 ''verification reports require verify jobs'')
      else if fjRestore q \<noteq> None \<and> fjStatus q \<noteq> JobStatusSucceeded then Some (HTTPError 400 ''restore report requires succeeded status'')
      else if fjRestore q \<noteq> None \<and> jOperation current \<noteq> JobOperationRestore then Some (HTTPError 400 ''restore reports require restore jobs'')
      else if fjFailure q \<noteq> None \<and> fjStatus q \<noteq> JobStatusFailed then Some (HTTPError 400 ''failure evidence requires failed status'')
      else if fjFailure q \<noteq> None \<and> jOperation current \<noteq> JobOperationRestore then Some (HTTPError 400 ''failure evidence requires restore jobs'')
      else None)"

definition saveOr :: "server_error \<Rightarrow> (kvdb, server_error, unit) op \<Rightarrow> (kvdb, server_error, unit) op" where
  "saveOr err s db = (case s db of (Inl e, db') \<Rightarrow> (Inl err, db') | (Inr _, db') \<Rightarrow> (Inr (), db'))"

text \<open>The metadata of the backup; the result is its identifier, empty without one.\<close>

definition finishBackup :: "finishEnv \<Rightarrow> finishJobRequest \<Rightarrow> job \<Rightarrow> (kvdb, server_error, ident) op" where
  "finishBackup E q j db =
     (case fjBackup q of None \<Rightarrow> (Inr [], db)
      | Some b \<Rightarrow>
        (case feBackups E of None \<Rightarrow> (Inl Panicked, db)
         | Some B \<Rightarrow>
             let b' = fillBackup j b in
             (case BackupStore_Save B b' db of (Inl e, db') \<Rightarrow> (Inl (HTTPCause 400 e), db') | (Inr _, db') \<Rightarrow> (Inr (bID b'), db'))))"

definition finishVerification :: "job codec \<Rightarrow> finishJobRequest \<Rightarrow> job \<Rightarrow> (kvdb, server_error, job) op" where
  "finishVerification J q j =
     (case fjVerification q of None \<Rightarrow> returnE j
      | Some v \<Rightarrow>
          let j' = j\<lparr>jVerifyReport := Some (fillVerification j v)\<rparr> in
          bindE (saveOr (HTTPError 500 ''save verification report'') (JobStore_Save J j')) (\<lambda>_. returnE j'))"

definition finishRestore :: "job codec \<Rightarrow> finishJobRequest \<Rightarrow> job \<Rightarrow> (kvdb, server_error, job) op" where
  "finishRestore J q j =
     (case fjRestore q of None \<Rightarrow> returnE j
      | Some v \<Rightarrow>
          let j' = j\<lparr>jRestoreReport := Some (fillRestore j v)\<rparr> in
          bindE (saveOr (HTTPError 500 ''save restore report'') (JobStore_Save J j')) (\<lambda>_. returnE j'))"

definition finishFailure :: "job codec \<Rightarrow> finishJobRequest \<Rightarrow> job \<Rightarrow> (kvdb, server_error, job) op" where
  "finishFailure J q j =
     (case fjFailure q of None \<Rightarrow> returnE j
      | Some v \<Rightarrow>
          let j' = j\<lparr>jFailureEvidence := Some (fillFailure j v)\<rparr> in
          bindE (saveOr (HTTPError 500 ''save failure evidence'') (JobStore_Save J j')) (\<lambda>_. returnE j'))"

definition finishEvidence :: "world \<Rightarrow> finishEnv \<Rightarrow> job codec \<Rightarrow> job \<Rightarrow> (kvdb, server_error, job) op" where
  "finishEvidence W E J j =
     (if jOperation j = JobOperationRestore \<and> (jRestoreReport j \<noteq> None \<or> jFailureEvidence j \<noteq> None) then
        (case buildRestoreEvidenceArtifact (feRestores E) (feSHA E) (wClock W 1) j of
           None \<Rightarrow> throwE (HTTPError 500 ''build restore evidence artifact'')
         | Some artifact \<Rightarrow>
             let j' = j\<lparr>jEvidenceArtifact := Some artifact\<rparr>; err = HTTPError 500 ''save restore evidence artifact'' in
             bindE (case feEvidence E of None \<Rightarrow> returnE () | Some V \<Rightarrow> saveOr err (EvidenceStore_Save V artifact)) (\<lambda>_.
             bindE (saveOr err (JobStore_Save J j')) (\<lambda>_. returnE j')))
      else returnE j)"

definition handleFinishJob :: "world \<Rightarrow> request \<Rightarrow> finishJobRequest option \<Rightarrow> finishEnv \<Rightarrow> ident \<Rightarrow> (kvdb, server_error, job) op" where
  "handleFinishJob W r body E i db =
     (case feJobs E of None \<Rightarrow> (Inl (HTTPError 503 ''job store is not configured''), db)
      | Some J \<Rightarrow>
        (case body of None \<Rightarrow> (Inl (HTTPError 400 ''invalid finish request''), db)
         | Some q \<Rightarrow>
           (case JobStore_Get J i db of Inl e \<Rightarrow> (Inl (HTTPError 500 ''get job''), db)
            | Inr None \<Rightarrow> (Inl httpNotFound, db)
            | Inr (Some current) \<Rightarrow>
              (case finishRefusal E q current of Some e \<Rightarrow> (Inl e, db)
               | None \<Rightarrow>
                 (case Finish J (wClock W 0) i (fjStatus q) (fjError q) db of
                    (Inl e, db') \<Rightarrow> (Inl (orchestratorError e), db')
                  | (Inr j, db') \<Rightarrow>
                      bindE (finishBackup E q j) (\<lambda>backupID.
                      bindE (finishVerification J q j) (\<lambda>j1.
                      bindE (finishRestore J q j1) (\<lambda>j2.
                      bindE (finishFailure J q j2) (\<lambda>j3.
                      bindE (finishEvidence W E J j3) (\<lambda>j4.
                      bindE (queryE (\<lambda>db. Inr (DispatchJobTerminal (feHmac E) (feHook E) (fePayload E) (feRules E) j4 db))) (\<lambda>deliveries.
                        answer W 2 r (feLog E) ''job.finished'' ''job'' (jID j4) (finishMetadata q backupID j4 deliveries) j4)))))) db')))))"

end
