(* ===== verification/Job_Inv.thy ===== *)
theory Job_Inv
  imports Job_Finish Audit_Props
begin

text \<open>
  What the handlers do to the jobs of the database: writes to other buckets, the audit log included, leave them alone, and
  every handler keeps at most one job of a target active.
\<close>

section \<open>Transactions on other buckets\<close>

text \<open>A transaction that leaves the rows of a bucket alone when it succeeds.\<close>

definition keeps_rows :: "bytes \<Rightarrow> nat \<Rightarrow> (pager, kv_error, 'a) op \<Rightarrow> bool" where
  "keeps_rows nm root f \<longleftrightarrow> (\<forall>p t x q. tree_in p t \<longrightarrow> tid t = root \<longrightarrow> f p = (Inr x, q) \<longrightarrow>
     (\<exists>t'. txn_post p t q t' \<and> rows nm (kvs t') = rows nm (kvs t)))"

lemma keeps_rows_bindE: "keeps_rows nm root f \<Longrightarrow> (\<And>x. keeps_rows nm root (g x)) \<Longrightarrow> keeps_rows nm root (bindE f g)"
  unfolding keeps_rows_def
proof (intro allI impI)
  fix p t x q
  assume f: "\<forall>p t x q. tree_in p t \<longrightarrow> tid t = root \<longrightarrow> f p = (Inr x, q) \<longrightarrow> (\<exists>t'. txn_post p t q t' \<and> rows nm (kvs t') = rows nm (kvs t))"
    and g: "\<And>y. \<forall>p t x q. tree_in p t \<longrightarrow> tid t = root \<longrightarrow> g y p = (Inr x, q) \<longrightarrow> (\<exists>t'. txn_post p t q t' \<and> rows nm (kvs t') = rows nm (kvs t))"
    and t: "tree_in p t" "tid t = root" "bindE f g p = (Inr x, q)"
  obtain y p1 where y: "f p = (Inr y, p1)" "g y p1 = (Inr x, q)" using t(3) by (rule bindE_InrE)
  obtain t1 where t1: "txn_post p t p1 t1" "rows nm (kvs t1) = rows nm (kvs t)" using f t(1,2) y(1) by blast
  then obtain t2 where "txn_post p1 t1 q t2" "rows nm (kvs t2) = rows nm (kvs t1)" using g t(2) y(2) unfolding txn_post_def by metis
  thus "\<exists>t'. txn_post p t q t' \<and> rows nm (kvs t') = rows nm (kvs t)" using txn_post_trans [OF t1(1)] t1(2) by auto
qed

lemma keeps_rows_returnE: "keeps_rows nm root (returnE x)"
  unfolding keeps_rows_def by (auto simp: txn_post_def)

lemma keeps_rows_Put:
  assumes "label nm" "label nm'" "nm' \<noteq> nm" "txRoot x = root"
  shows "keeps_rows nm' root (Bucket_Put \<lparr>bTx = x, bPrefix = nm @ [0]\<rparr> k v)"
  unfolding keeps_rows_def
proof (intro allI impI)
  fix p t u q assume t: "tree_in p t" "tid t = root" "Bucket_Put \<lparr>bTx = x, bPrefix = nm @ [0]\<rparr> k v p = (Inr u, q)"
  obtain t' where t': "txn_post p t q t'" "kvs t' = kv_upd (nm @ 0 # k) v (kvs t)"
    using Bucket_Put_txn [OF t(1) _ t(3)] t(2) assms(4) by auto
  have "kv_sorted (kvs t)" using t(1) root_ok_sorted by (auto simp: tree_in_def)
  hence "rows nm' (kvs t') = rows nm' (kvs t)" using rows_upd assms(1-3) t'(2) by metis
  thus "\<exists>t'. txn_post p t q t' \<and> rows nm' (kvs t') = rows nm' (kvs t)" using t'(1) by blast
qed

lemma Update_keeps_rows:
  assumes "db_kv db kv" "Update fn db = (Inr x, db')" "keeps_rows nm (dbRoot db) (fn \<lparr>txRoot = dbRoot db, txWritable = True\<rparr>)"
  obtains kv' where "db_kv db' kv'" "rows nm kv' = rows nm kv"
proof (rule Update_kv [OF assms(1,2), of "\<lambda>kv'. rows nm kv' = rows nm kv"])
  fix t q assume "tree_in (dbPager db) t" "tid t = dbRoot db" "kvs t = kv" "fn \<lparr>txRoot = dbRoot db, txWritable = True\<rparr> (dbPager db) = (Inr x, q)"
  thus "\<exists>t'. txn_post (dbPager db) t q t' \<and> rows nm (kvs t') = rows nm kv" using assms(3) unfolding keeps_rows_def by metis
qed (use that in blast)

lemma keeps_rows_appendTx:
  assumes "label nm" "nm \<noteq> metaBucket" "nm \<noteq> eventsBucket" "txRoot x = root"
  shows "keeps_rows nm root (appendTx C H event x)"
  unfolding keeps_rows_def
proof (intro allI impI)
  fix p t e q assume t: "tree_in p t" "tid t = root" "appendTx C H event x p = (Inr e, q)"
  let ?m = "\<lparr>bTx = x, bPrefix = metaBucket @ [0]\<rparr>" and ?v = "\<lparr>bTx = x, bPrefix = eventsBucket @ [0]\<rparr>"
  obtain k d s h where r: "bindE (Bucket_Put ?v k d) (\<lambda>_. bindE (Bucket_Put ?m seqKey s) (\<lambda>_. bindE (Bucket_Put ?m hashKey h) (\<lambda>_. returnE e))) p = (Inr e, q)"
  proof -
    obtain e2 k d s h where r: "bindE (Bucket_Put ?v k d) (\<lambda>_. bindE (Bucket_Put ?m seqKey s) (\<lambda>_. bindE (Bucket_Put ?m hashKey h) (\<lambda>_. returnE e2))) p = (Inr e, q)"
      using t(3) by (auto simp: appendTx_def Tx_Bucket_label bucket_labels Let_def split: option.splits sum.splits)
    hence "e2 = e" by (auto simp: returnE_def elim!: bindE_InrE)
    thus thesis using r that by blast
  qed
  have "keeps_rows nm root (bindE (Bucket_Put ?v k d) (\<lambda>_. bindE (Bucket_Put ?m seqKey s) (\<lambda>_. bindE (Bucket_Put ?m hashKey h) (\<lambda>_. returnE e))))"
    by (intro keeps_rows_bindE keeps_rows_Put keeps_rows_returnE) (use assms bucket_labels in auto)
  thus "\<exists>t'. txn_post p t q t' \<and> rows nm (kvs t') = rows nm (kvs t)" using r t(1,2) unfolding keeps_rows_def by blast
qed

section \<open>Jobs under other writes\<close>

lemma jobs_keep:
  assumes "jobs_in J db js" "Update fn db = (Inr x, db')" "keeps_rows jobsBucket (dbRoot db) (fn \<lparr>txRoot = dbRoot db, txWritable = True\<rparr>)"
  shows "jobs_in J db' js"
proof -
  obtain kv where kv: "db_kv db kv" "\<forall>x \<in> set (rows jobsBucket kv). job_row J x" "js = map (\<lambda>x. jobOf J (snd x)) (rows jobsBucket kv)"
    using assms(1) by (auto simp: jobs_in_def)
  obtain kv' where "db_kv db' kv'" "rows jobsBucket kv' = rows jobsBucket kv" by (rule Update_keeps_rows [OF kv(1) assms(2,3)])
  thus ?thesis using kv by (auto simp: jobs_in_def)
qed

lemma bucket_names: "jobsBucket \<noteq> metaBucket" "jobsBucket \<noteq> eventsBucket" "jobsBucket \<noteq> backupsBucket" "jobsBucket \<noteq> evidenceArtifactsBucket"
  "jobsBucket \<noteq> evidenceArtifactsJobBucket" "label evidenceArtifactsBucket" "label evidenceArtifactsJobBucket"
proof -
  have "0 \<notin> set evidenceArtifactsBucket" "evidenceArtifactsBucket \<noteq> []" "0 \<notin> set evidenceArtifactsJobBucket" "evidenceArtifactsJobBucket \<noteq> []"
    by code_simp+
  thus "label evidenceArtifactsBucket" "label evidenceArtifactsJobBucket" by (simp_all add: label_def)
  show "jobsBucket \<noteq> metaBucket" "jobsBucket \<noteq> eventsBucket" "jobsBucket \<noteq> backupsBucket" "jobsBucket \<noteq> evidenceArtifactsBucket"
    "jobsBucket \<noteq> evidenceArtifactsJobBucket" by code_simp+
qed

lemma appendAuditEvent_jobs:
  assumes "jobs_in J db js" "appendAuditEvent W n r log action ty i meta db = (Inr u, db')"
  shows "jobs_in J db' js"
proof (cases log)
  case (Some CH)
  then obtain C H where "log = Some (C, H)" by (cases CH) auto
  then obtain ev e where "Update (appendTx C H ev) db = (Inr e, db')"
    using assms(2) by (auto simp: appendAuditEvent_def Audit_Append_def Let_def liftKV_def split: if_splits option.splits prod.splits sum.splits)
  from jobs_keep [OF assms(1) this keeps_rows_appendTx] show ?thesis using jobsBucket_label bucket_names by simp
qed (use assms in \<open>simp add: appendAuditEvent_def\<close>)

lemma BackupStore_Save_jobs:
  assumes "jobs_in J db js" "BackupStore_Save B b db = (Inr u, db')"
  shows "jobs_in J db' js"
proof -
  obtain data x where u: "Update (bucketPutTx backupsBucket (bytes_of (bID b)) data) db = (Inr x, db')"
    using assms(2) by (auto simp: BackupStore_Save_def saveJSON_def liftKV_def split: if_splits option.splits prod.splits sum.splits)
  have "keeps_rows jobsBucket (dbRoot db) (bucketPutTx backupsBucket (bytes_of (bID b)) data \<lparr>txRoot = dbRoot db, txWritable = True\<rparr>)"
    using keeps_rows_Put [OF resource_labels(4) jobsBucket_label bucket_names(3)]
    by (simp add: bucketPutTx_def [abs_def] Tx_Bucket_label [OF resource_labels(4)])
  from jobs_keep [OF assms(1) u this] show ?thesis .
qed

lemma EvidenceStore_Save_jobs:
  assumes "jobs_in J db js" "EvidenceStore_Save V a db = (Inr u, db')"
  shows "jobs_in J db' js"
proof -
  let ?f = "\<lambda>data t p. case Tx_Bucket t evidenceArtifactsBucket of Inl e \<Rightarrow> (Inl e, p) | Inr artifacts \<Rightarrow>
       (case Tx_Bucket t evidenceArtifactsJobBucket of Inl e \<Rightarrow> (Inl e, p) | Inr byJob \<Rightarrow>
        bindE (Bucket_Put artifacts (bytes_of (eaID a)) data) (\<lambda>_. Bucket_Put byJob (bytes_of (eaJobID a)) (bytes_of (eaID a))) p)"
  obtain data x where u: "Update (?f data) db = (Inr x, db')"
    using assms(2) by (auto simp: EvidenceStore_Save_def liftKV_def split: if_splits option.splits prod.splits sum.splits)
  have "keeps_rows jobsBucket (dbRoot db) (?f data \<lparr>txRoot = dbRoot db, txWritable = True\<rparr>)"
    unfolding Tx_Bucket_label [OF bucket_names(6)] Tx_Bucket_label [OF bucket_names(7)] sum.case
    by (intro keeps_rows_bindE keeps_rows_Put) (use bucket_names jobsBucket_label in auto)
  from jobs_keep [OF assms(1) u this] show ?thesis .
qed

section \<open>One active job per target\<close>

definition one_active :: "job set \<Rightarrow> bool" where
  "one_active S \<longleftrightarrow> (\<forall>a \<in> S. \<forall>b \<in> S. jobActive a \<and> jobActive b \<and> jTargetID a = jTargetID b \<and> \<not> ID_IsZero (jTargetID a) \<longrightarrow> a = b)"

definition jobs_fine :: "job codec \<Rightarrow> kvdb \<Rightarrow> bool" where
  "jobs_fine J db \<longleftrightarrow> (\<exists>js. jobs_in J db js \<and> one_active (set js))"

text \<open>An operation that keeps this when it succeeds.\<close>

definition safe :: "job codec \<Rightarrow> (kvdb, server_error, 'a) op \<Rightarrow> bool" where
  "safe J f \<longleftrightarrow> (\<forall>db x db'. jobs_fine J db \<longrightarrow> f db = (Inr x, db') \<longrightarrow> jobs_fine J db')"

named_theorems safe_intros

lemma safeD: "safe J f \<Longrightarrow> jobs_fine J db \<Longrightarrow> f db = (Inr x, db') \<Longrightarrow> jobs_fine J db'"
  by (auto simp: safe_def)

lemma safe_bindE [safe_intros]: "safe J f \<Longrightarrow> (\<And>x. safe J (g x)) \<Longrightarrow> safe J (bindE f g)"
  unfolding safe_def by (blast elim: bindE_InrE)

lemma safe_returnE [safe_intros]: "safe J (returnE x)"
  by (simp add: safe_def)

lemma safe_throwE [safe_intros]: "safe J (throwE e)"
  by (simp add: safe_def)

lemma safe_queryE [safe_intros]: "safe J (queryE q)"
  by (auto simp: safe_def split: sum.splits)

lemma safe_audit [safe_intros]: "safe J (appendAuditEvent W n r log action ty i meta)"
  unfolding safe_def jobs_fine_def by (blast dest: appendAuditEvent_jobs)

lemma safe_answer [safe_intros]: "safe J (answer W n r log action ty i meta x)"
  unfolding answer_def by (intro safe_intros)

lemma one_active_insert:
  "one_active S \<Longrightarrow> (jobActive j \<Longrightarrow> \<not> ID_IsZero (jTargetID j) \<Longrightarrow> \<forall>x \<in> S. jID x \<noteq> jID j \<longrightarrow> jTargetID x = jTargetID j \<longrightarrow> \<not> jobActive x)
    \<Longrightarrow> one_active (insert j {x \<in> S. jID x \<noteq> jID j})"
  unfolding one_active_def by (intro ballI impI) (elim insertE; force)

lemma Save_fine:
  assumes "codec_ok J" "jobs_in J db js" "one_active (set js)" "JobStore_Save J j db = (Inr u, db')"
    "jobActive j \<Longrightarrow> \<not> ID_IsZero (jTargetID j) \<Longrightarrow> \<forall>x \<in> set js. jID x \<noteq> jID j \<longrightarrow> jTargetID x = jTargetID j \<longrightarrow> \<not> jobActive x"
  shows "jobs_fine J db'"
proof -
  obtain js' where "jobs_in J db' js'" "set js' = insert j {x \<in> set js. jID x \<noteq> jID j}" by (rule Save_jobs [OF assms(1,2,4)])
  moreover have "one_active (insert j {x \<in> set js. jID x \<noteq> jID j})" by (rule one_active_insert [OF assms(3)]) (rule assms(5))
  ultimately show ?thesis by (auto simp: jobs_fine_def)
qed

text \<open>Saving a job that is not active is always fine.\<close>

lemma safe_Save: "codec_ok J \<Longrightarrow> \<not> jobActive j \<Longrightarrow> safe J (JobStore_Save J j)"
  unfolding safe_def
proof (intro allI impI)
  fix db x db' assume a: "codec_ok J" "\<not> jobActive j" "jobs_fine J db" "JobStore_Save J j db = (Inr x, db')"
  obtain js where js: "jobs_in J db js" "one_active (set js)" using a(3) by (auto simp: jobs_fine_def)
  show "jobs_fine J db'" by (rule Save_fine [OF a(1) js a(4)]) (use a(2) in simp)
qed

lemma safe_saveOr: "safe J f \<Longrightarrow> safe J (saveOr err f)"
  by (auto simp: safe_def saveOr_def split: prod.splits sum.splits)

lemma status_inactive: "terminalJobStatus (jStatus j) \<Longrightarrow> \<not> jobActive j" "jStatus j = JobStatusQueued \<Longrightarrow> \<not> jobActive j"
  by (auto simp: terminalJobStatus_def jobActive_def jobStatus_defs)

section \<open>The orchestrator\<close>

lemma Finish_steps:
  assumes "Finish J clock i status message db = (Inr j, db')"
  obtains u where "terminalJobStatus (jStatus j)" "JobStore_Save J j db = (Inr u, db')"
  using assms by (auto simp: Finish_def Let_def terminalJobStatus_def split: if_splits sum.splits option.splits prod.splits)

lemma Save_inactive_fine:
  "codec_ok J \<Longrightarrow> jobs_fine J db \<Longrightarrow> JobStore_Save J j db = (Inr u, db') \<Longrightarrow> terminalJobStatus (jStatus j) \<or> jStatus j = JobStatusQueued \<Longrightarrow> jobs_fine J db'"
  using safeD [OF safe_Save] status_inactive by blast

lemma safe_Finish: "codec_ok J \<Longrightarrow> safe J (Finish J clock i status message)"
  unfolding safe_def
proof (intro allI impI)
  fix db x db' assume a: "codec_ok J" "jobs_fine J db" "Finish J clock i status message db = (Inr x, db')"
  obtain u where "terminalJobStatus (jStatus x)" "JobStore_Save J x db = (Inr u, db')" by (rule Finish_steps [OF a(3)])
  with Save_inactive_fine [OF a(1,2)] show "jobs_fine J db'" by blast
qed

lemma Retry_steps:
  assumes "Retry J clock i db = (Inr j, db')"
  obtains u where "jStatus j = JobStatusQueued" "JobStore_Save J j db = (Inr u, db')"
  using assms by (auto simp: Retry_def Let_def split: if_splits sum.splits option.splits prod.splits)

lemma safe_Retry: "codec_ok J \<Longrightarrow> safe J (Retry J clock i)"
  unfolding safe_def
proof (intro allI impI)
  fix db x db' assume a: "codec_ok J" "jobs_fine J db" "Retry J clock i db = (Inr x, db')"
  obtain u where "jStatus x = JobStatusQueued" "JobStore_Save J x db = (Inr u, db')" by (rule Retry_steps [OF a(3)])
  with Save_inactive_fine [OF a(1,2)] show "jobs_fine J db'" by blast
qed

lemma EnqueueDue_step:
  assumes "EnqueueDue J (ce # env) (item # due) db = ((None, js), db')"
  obtains j u db1 js1 where "jStatus j = JobStatusQueued" "JobStore_Save J j db = (Inr u, db1)"
    "EnqueueDue J env due db1 = ((None, js1), db')"
proof -
  obtain clock entropy where ce: "ce = (clock, entropy)" by (cases ce)
  obtain i where i: "NewID clock entropy = Some i" using assms ce by (auto split: option.splits)
  let ?j = "zeroJob\<lparr>jID := i, jOperation := JobOperationBackup, jScheduleID := djScheduleID item, jTargetID := djTargetID item,
    jStorageID := djStorageID item, jType := djType item, jParentBackupID := djParentBackupID item,
    jHooks := djHooks item, jStatus := JobStatusQueued, jQueuedAt := (if IsZero (djQueuedAt item) then clock else djQueuedAt item)\<rparr>"
  obtain u db1 js1 where "JobStore_Save J ?j db = (Inr u, db1)" "EnqueueDue J env due db1 = ((None, js1), db')"
    using assms ce i by (auto simp: Let_def split: prod.splits sum.splits)
  thus thesis by (rule that [rotated]) simp
qed

lemma EnqueueDue_fine: "codec_ok J \<Longrightarrow> jobs_fine J db \<Longrightarrow> EnqueueDue J env due db = ((None, js), db') \<Longrightarrow> jobs_fine J db'"
proof (induction due arbitrary: env js db)
  case (Cons item due)
  then obtain ce env' where e: "env = ce # env'" by (cases env) auto
  obtain j u db1 js1 where s: "jStatus j = JobStatusQueued" "JobStore_Save J j db = (Inr u, db1)" "EnqueueDue J env' due db1 = ((None, js1), db')"
    by (rule EnqueueDue_step [OF Cons.prems(3) [unfolded e]])
  show ?case by (rule Cons.IH [OF Cons.prems(1) Save_inactive_fine [OF Cons.prems(1,2) s(2)] s(3)]) (simp add: s(1))
qed simp

lemma failLoop_fine: "codec_ok J \<Longrightarrow> jobs_fine J db \<Longrightarrow> failLoop J now reason js n db = ((None, m), db') \<Longrightarrow> jobs_fine J db'"
proof (induction js arbitrary: n db)
  case (Cons j js)
  let ?j = "j\<lparr>jStatus := JobStatusFailed, jEndedAt := now, jError := reason\<rparr>"
  show ?case
  proof (cases "jobActive j")
    case True
    then obtain u db1 where s: "JobStore_Save J ?j db = (Inr u, db1)" "failLoop J now reason js (n + 1) db1 = ((None, m), db')"
      using Cons.prems(3) by (auto split: prod.splits sum.splits)
    have "jobs_fine J db1" by (rule Save_inactive_fine [OF Cons.prems(1,2) s(1)]) (simp add: terminalJobStatus_def)
    from Cons.IH [OF Cons.prems(1) this s(2)] show ?thesis .
  next
    case False
    hence "failLoop J now reason js n db = ((None, m), db')" using Cons.prems(3) by simp
    from Cons.IH [OF Cons.prems(1,2) this] show ?thesis .
  qed
qed simp

lemma failLost_fine: "codec_ok J \<Longrightarrow> jobs_fine J db \<Longrightarrow> failLost J now lost js db = ((None, ids), db') \<Longrightarrow> jobs_fine J db'"
proof (induction js arbitrary: ids db)
  case (Cons j js)
  let ?j = "j\<lparr>jStatus := JobStatusFailed, jEndedAt := now, jError := ''agent_lost''\<rparr>"
  show ?case
  proof (cases "jAgentID j = [] \<or> jAgentID j \<notin> set lost \<or> \<not> jobActive j")
    case True
    hence "failLost J now lost js db = ((None, ids), db')" using Cons.prems(3) by simp
    from Cons.IH [OF Cons.prems(1,2) this] show ?thesis .
  next
    case False
    then obtain u db1 ids1 where s: "JobStore_Save J ?j db = (Inr u, db1)" "failLost J now lost js db1 = ((None, ids1), db')"
      using Cons.prems(3) by (auto split: prod.splits sum.splits)
    have "jobs_fine J db1" by (rule Save_inactive_fine [OF Cons.prems(1,2) s(1)]) (simp add: terminalJobStatus_def)
    from Cons.IH [OF Cons.prems(1) this s(2)] show ?thesis .
  qed
qed simp

end
