(* ===== verification/Job_Props.thy ===== *)
theory Job_Props
  imports Job_Inv KV_Props
begin

text \<open>
  The life of jobs under requests. A step is a request of an agent or of a user that touches the job store, the scheduler adding due
  jobs, or the start of the server failing what was active; along any sequence of them at most one job of a target is active. The last
  sections show what the separate transactions of one request allow: two claims that overlap, and the end of a job whose backup is
  refused.
\<close>

section \<open>The claim of a job\<close>






section \<open>The other requests\<close>













section \<open>The end of a job\<close>













section \<open>Any sequence of requests\<close>






section \<open>An example\<close>

definition demoJob :: job where
  "demoJob = zeroJob\<lparr>jID := ''j'', jTargetID := ''t'', jOperation := JobOperationBackup, jStatus := JobStatusQueued\<rparr>"

definition demoRunning :: "string \<Rightarrow> job" where
  "demoRunning agent = demoJob\<lparr>jStatus := JobStatusRunning, jStartedAt := 3, jAgentID := agent\<rparr>"

definition demoDone :: job where
  "demoDone = demoJob\<lparr>jStatus := JobStatusSucceeded, jEndedAt := 3\<rparr>"

definition demoJobs :: "job codec" where
  "demoJobs = tableCodec [(demoJob, [1]), (demoRunning ''a'', [2]), (demoRunning ''b'', [3]), (demoDone, [4])]"

definition demoWorld :: world where "demoWorld = \<lparr>wClock = (\<lambda>_. 3), wEntropy = (\<lambda>_. None)\<rparr>"

definition demoAgent :: "string \<Rightarrow> request" where
  "demoAgent agent = \<lparr>rqAuthorization = [], rqActor = [], rqAgentID = agent, rqRequestIDHeader = [], rqContextID = None, rqNoAuth = None, rqDone = False\<rparr>"

lemma demoJobs_ok: "codec_ok demoJobs"
  unfolding demoJobs_def by (rule tableCodec_ok) simp

lemma demoJobs_Marshal:
  "Marshal demoJobs demoJob = Some [1]" "Marshal demoJobs (demoRunning ''a'') = Some [2]" "Marshal demoJobs (demoRunning ''b'') = Some [3]"
  "Marshal demoJobs demoDone = Some [4]"
  by (simp_all add: demoJobs_def tableCodec_def demoJob_def demoRunning_def demoDone_def zeroJob_def jobStatus_defs)

lemma demoJobs_Unmarshal:
  "Unmarshal demoJobs [1] = Some demoJob" "Unmarshal demoJobs [2] = Some (demoRunning ''a'')" "Unmarshal demoJobs [3] = Some (demoRunning ''b'')"
  "Unmarshal demoJobs [4] = Some demoDone"
  by (simp_all add: demoJobs_def tableCodec_def)

lemma demo_id: "bytes_of ''j'' = [106]" "\<not> ID_IsZero ''j''"
  by code_simp+

lemma demoJobs_Save:
  assumes "db_ok db (PLeaf 1 0 es)" "es = [] \<or> (\<exists>v. es = [(jobsBucket @ [0, 106], [v])])" "Marshal demoJobs j = Some [w]" "jID j = ''j''"
  obtains db' where "JobStore_Save demoJobs j db = (Inr (), db')" "db_ok db' (PLeaf 1 0 [(jobsBucket @ [0, 106], [w])])"
proof -
  have k: "bytes_of (jID j) = [106]" using assms(4) demo_id by simp
  have u: "kv_upd (jobsBucket @ 0 # bytes_of (jID j)) [w] es = [(jobsBucket @ [0, 106], [w])]" using assms(2) k by (auto simp: kv_upd_def)
  have c: "leaf_costs [(jobsBucket @ [0, 106], [w])] \<le> 4080" by (simp add: leaf_costs_def costs_def cost_def leafEntries_def leafEntry_def jobsBucket_def bytes_of_def)
  obtain db' where "saveJSON demoJobs jobsBucket (bytes_of (jID j)) j db = (Inr (), db')" "db_ok db' (PLeaf 1 0 [(jobsBucket @ [0, 106], [w])])"
    by (rule saveJSON_leaf [OF assms(1) jobsBucket_label, of "bytes_of (jID j)" demoJobs j "[w]"]) (use u c k assms(3) in \<open>simp_all add: label_def\<close>)
  thus thesis using that assms(3,4) by (simp add: JobStore_Save_def saveJSON_def demo_id)
qed

lemma demoJobs_in:
  assumes "db_ok db (PLeaf 1 0 [(jobsBucket @ [0, 106], [v])])" "Unmarshal demoJobs [v] = Some j" "jID j = ''j''"
  shows "jobs_in demoJobs db [j]"
proof -
  have "rows jobsBucket [(jobsBucket @ [0, 106], [v])] = [([106], [v])]" by (simp add: rows_def)
  moreover have "job_row demoJobs ([106], [v])" using assms(2,3) demo_id by (simp add: job_row_def label_def)
  ultimately show ?thesis using leaf_kv [OF assms(1)] assms(2) unfolding jobs_in_def
    by (intro exI [of _ "[(jobsBucket @ [0, 106], [v])]"]) (simp add: jobOf_def)
qed

lemma demoJobs_queued:
  obtains db where "db_ok db (PLeaf 1 0 [(jobsBucket @ [0, 106], [1])])" "jobs_in demoJobs db [demoJob]"
proof -
  obtain db0 where db0: "db_ok db0 (PLeaf 1 0 [])" by (metis example_db)
  have j: "jID demoJob = ''j''" by (simp add: demoJob_def)
  obtain db where "db_ok db (PLeaf 1 0 [(jobsBucket @ [0, 106], [1])])" by (rule demoJobs_Save [OF db0 _ demoJobs_Marshal(1) j]) simp
  thus thesis using that demoJobs_in [OF _ demoJobs_Unmarshal(1) j] by blast
qed



section \<open>Claims that overlap\<close>

text \<open>A claim reads in transactions of its own, and writes in another; these are its two halves.\<close>

definition claimPick :: "world \<Rightarrow> request \<Rightarrow> job codec \<Rightarrow> targetStore option \<Rightarrow> agentRegistry option \<Rightarrow> kvdb \<Rightarrow> server_error + job option" where
  "claimPick W r J targets registry db =
     (case JobStore_List J db of Inl e \<Rightarrow> Inl (HTTPError 500 ''list jobs'')
      | Inr jobs \<Rightarrow>
          if agentCapacityReached (wClock W 2) registry jobs then Inr None
          else
            (case find (claimable jobs (TrimSpace (rqAgentID r)) targets db) jobs of None \<Rightarrow> Inr None
             | Some j \<Rightarrow>
                 (case JobStore_Get J (jID j) db of
                    Inr (Some j') \<Rightarrow> if jStatus j' = JobStatusQueued then Inr (Some j') else Inl (HTTPError 500 ''claim job'')
                  | _ \<Rightarrow> Inl (HTTPError 500 ''claim job''))))"

definition claimCommit :: "world \<Rightarrow> request \<Rightarrow> job codec \<Rightarrow> auditLog \<Rightarrow> job \<Rightarrow> (kvdb, server_error, job option) op" where
  "claimCommit W r J log j db =
     (let started = j\<lparr>jStatus := JobStatusRunning, jStartedAt := wClock W 3, jAgentID := TrimSpace (rqAgentID r)\<rparr> in
      case JobStore_Save J started db of
        (Inl e, db') \<Rightarrow> (Inl (HTTPError 500 ''claim job''), db')
      | (Inr _, db') \<Rightarrow>
          answer W 4 r log ''job.claimed'' ''job'' (jID started)
            [(''operation'', VString (jOperation started)), (''storage_id'', VString (jStorageID started)),
             (''target_id'', VString (jTargetID started)), (''type'', VString (jType started))] (Some started) db')"

lemma claimNext_split:
  "claimNext W r J targets log registry db =
     (case claimPick W r J targets registry db of Inl e \<Rightarrow> (Inl e, db) | Inr None \<Rightarrow> (Inr None, db) | Inr (Some j) \<Rightarrow> claimCommit W r J log j db)"
  by (auto simp: claimNext_def claimPick_def claimCommit_def StartOnAgent_def Let_def split: sum.split option.split prod.split)



section \<open>The end of a job whose backup is refused\<close>

lemma empty_id: "ID_IsZero []"
  by code_simp

lemma JobStore_Save_json: "JobStore_Save J j db = (Inr u, db') \<Longrightarrow> saveJSON J jobsBucket (bytes_of (jID j)) j db = (Inr u, db')"
  by (auto simp: JobStore_Save_def saveJSON_def empty_id split: if_splits)

text \<open>C40. When an agent reports success with metadata the store of backups refuses, the answer is an error, no backup is recorded,
  and yet the job has succeeded for good: every later report of its end and every retry is refused.\<close>

theorem refused_backup_leaves_job_succeeded:
  assumes "codec_ok J" "feJobs E = Some J" "feBackups E = Some B" "jobs_in J db js" "JobStore_Get J i db = Inr (Some current)"
    "finishRefusal E q current = None" "fjBackup q = Some b" "Finish J (wClock W 0) i (fjStatus q) (fjError q) db = (Inr j, db')"
    "validateBackup (fillBackup j b) = Inl e"
  shows "handleFinishJob W r (Some q) E i db = (Inl (HTTPCause 400 e), db') \<and> JobStore_Get J i db' = Inr (Some j) \<and> jStatus j = JobStatusSucceeded
    \<and> BackupStore_Get B k db' = BackupStore_Get B k db
    \<and> (\<exists>e. handleFinishJob W' r' body E i db' = (Inl e, db')) \<and> (\<exists>e. handleRetryJob W' r' (Some J) log i db' = (Inl e, db'))"
proof -
  have st: "fjStatus q = JobStatusSucceeded" using assms(6,7) by (auto simp: finishRefusal_def split: if_splits)
  have f: "j = current\<lparr>jStatus := JobStatusSucceeded, jEndedAt := wClock W 0, jError := fjError q\<rparr>" "JobStore_Save J j db = (Inr (), db')"
    using assms(5,8) st by (auto simp: Finish_def Let_def split: if_splits prod.splits sum.splits)
  obtain js' where js': "jobs_in J db' js'" "set js' = insert j {x \<in> set js. jID x \<noteq> jID j}" by (rule Save_jobs [OF assms(1,4) f(2)])
  have i: "jID j = i" using Get_jobs(2) [OF assms(4,5)] f(1) by simp
  have g: "JobStore_Get J i db' = Inr (Some j)" using Get_jobs_found [OF js'(1), of j] js'(2) i by simp
  have "bindE (finishBackup E q j) h db' = (Inl (HTTPCause 400 e), db')" for h :: "ident \<Rightarrow> (kvdb, server_error, job) op"
    using assms(3,7,9) by (simp add: finishBackup_def bindE_def BackupStore_Save_def Let_def)
  hence a: "handleFinishJob W r (Some q) E i db = (Inl (HTTPCause 400 e), db')" using assms(2,5,6,8) by (simp add: handleFinishJob_def)
  have again: "\<exists>e. Finish J clock i status message db' = (Inl e, db')" for clock status message
    using g f(1) by (simp add: Finish_def terminalJobStatus_def)
  have b: "\<exists>e. handleFinishJob W' r' body E i db' = (Inl e, db')"
  proof (cases body)
    case (Some q')
    obtain e' where "Finish J (wClock W' 0) i (fjStatus q') (fjError q') db' = (Inl e', db')" using again by blast
    thus ?thesis using g assms(2) Some by (simp add: handleFinishJob_def split: option.split)
  qed (simp add: handleFinishJob_def assms(2))
  have c: "\<exists>e. handleRetryJob W' r' (Some J) log i db' = (Inl e, db')"
    using g f(1) by (simp add: handleRetryJob_def Retry_def jobStatus_defs)
  have "db_fine db" using assms(4) by (auto simp: jobs_in_def db_fine_def)
  hence "BackupStore_Get B k db' = BackupStore_Get B k db"
    using saveJSON_other_bucket [OF _ jobsBucket_label resource_labels(4) _ JobStore_Save_json [OF f(2)]] bucket_names(3) by (simp add: BackupStore_Get_def)
  with a b c g f(1) show ?thesis by simp
qed

definition demoFinish :: finishJobRequest where
  "demoFinish = \<lparr>fjStatus = JobStatusSucceeded, fjError = [], fjBackup = Some \<lparr>bID = [], bTargetID = [], bStorageID = [], bJobID = [], bType = [], bParentID = [],
     bManifestID = [], bStartedAt = 0, bEndedAt = 0, bSizeBytes = 0, bChunkCount = 0, bProtected = False\<rparr>, fjFailure = None, fjRestore = None, fjVerification = None\<rparr>"

definition demoEnv :: finishEnv where
  "demoEnv = \<lparr>feJobs = Some demoJobs, feEvidence = None, feBackups = Some (tableCodec []), feRestores = tableCodec [], feSHA = id, feLog = None, feRules = None,
     feHmac = (\<lambda>_ _. []), feHook = (\<lambda>_ _ _. BadRequest []), fePayload = (\<lambda>_ _. [])\<rparr>"

theorem refused_backup_leaves_job_succeeded_witness:
  "\<exists>db db' e. handleFinishJob demoWorld (demoAgent ''a'') (Some demoFinish) demoEnv ''j'' db = (Inl e, db')
     \<and> JobStore_Get demoJobs ''j'' db' = Inr (Some demoDone) \<and> jStatus demoDone = JobStatusSucceeded"
proof -
  obtain db where d: "db_ok db (PLeaf 1 0 [(jobsBucket @ [0, 106], [1])])" "jobs_in demoJobs db [demoJob]" by (rule demoJobs_queued)
  have i: "jID demoDone = ''j''" "jID demoJob = ''j''" by (simp_all add: demoDone_def demoJob_def)
  obtain db' where s: "JobStore_Save demoJobs demoDone db = (Inr (), db')" by (rule demoJobs_Save [OF d(1) _ demoJobs_Marshal(4) i(1)]) simp
  have g: "JobStore_Get demoJobs ''j'' db = Inr (Some demoJob)" using Get_jobs_found [OF d(2), of demoJob] i(2) by simp
  have f: "Finish demoJobs (wClock demoWorld 0) ''j'' (fjStatus demoFinish) (fjError demoFinish) db = (Inr demoDone, db')"
    using g s by (simp add: Finish_def demoFinish_def demoWorld_def demoDone_def terminalJobStatus_def) (simp add: demoJob_def zeroJob_def jobStatus_defs)
  have "feJobs demoEnv = Some demoJobs" "feBackups demoEnv = Some (tableCodec [])" by (simp_all add: demoEnv_def)
  moreover have "finishRefusal demoEnv demoFinish demoJob = None" by (simp add: finishRefusal_def demoFinish_def demoEnv_def demoJob_def)
  moreover obtain b where b: "fjBackup demoFinish = Some b" "bID b = []" by (simp add: demoFinish_def)
  moreover have "validateBackup (fillBackup demoDone b) = Inl (Invalid ''backup id is required'')"
    using b(2) by (simp add: validateBackup_def fillBackup_def empty_id check_def)
  ultimately show ?thesis using refused_backup_leaves_job_succeeded [OF demoJobs_ok _ _ d(2) g _ _ f, of demoEnv] by blast
qed

end
