(* ===== verification/Manifest.thy ===== *)
theory Manifest
  imports Pipeline Core_Types "HOL-Library.Log_Nat"
begin

text \<open>
  Backup manifests (\<open>internal/manifest/manifest.go\<close>): the metadata of a committed backup with the references of its chunks,
  signed over its canonical form. Ed25519 and the JSON encodings are parameters.

  Shown here: references of chunks survive the way through a manifest, and a manifest verifies under the public key of the key it
  was signed with.
\<close>

section \<open>Floating point\<close>

text \<open>A non-negative floating point number of 64 bits is \<open>m * 2 ^ e\<close>; \<open>roundRatio\<close> is the one nearest to a quotient, to an even \<open>m\<close> in
  the middle between two.\<close>

type_synonym float64 = "nat \<times> int"

definition bitLength :: "nat \<Rightarrow> nat" where "bitLength n = floorlog 2 n"

definition roundQuotient :: "nat \<Rightarrow> nat \<Rightarrow> nat" where
  "roundQuotient n d =
     (let q = n div d; r = n mod d in if 2 * r > d \<or> (2 * r = d \<and> odd q) then q + 1 else q)"

definition scaledRatio :: "int \<Rightarrow> nat \<Rightarrow> nat \<Rightarrow> nat \<times> nat" where
  "scaledRatio k n d = (if 0 \<le> k then (n * 2 ^ nat k, d) else (n, d * 2 ^ nat (- k)))"

definition roundRatio :: "nat \<Rightarrow> nat \<Rightarrow> float64" where
  "roundRatio n d =
     (if n = 0 then (0, 0)
      else
        let k = 53 + int (bitLength d) - int (bitLength n); (a, b) = scaledRatio k n d;
            k' = (if a div b < 2 ^ 53 then k else k - 1); (a', b') = scaledRatio k' n d
        in (roundQuotient a' b', - k'))"

definition floatOfNat :: "nat \<Rightarrow> float64" where "floatOfNat n = roundRatio n 1"

definition floatDiv :: "float64 \<Rightarrow> float64 \<Rightarrow> float64" where
  "floatDiv x y = (case roundRatio (fst x) (fst y) of (m, e) \<Rightarrow> (m, e + snd x - snd y))"

section \<open>Data\<close>

definition Version :: int where "Version = 1"

record mDriver =
  mdName :: string
  mdVersion :: string
  mdSourceTZ :: string

record mEncryption =
  meAlgorithm :: string
  meKeyID :: string
  meKDF :: string

record mStats =
  msLogicalSizeBytes :: int
  msStoredSizeBytes :: int
  msChunkCount :: int
  msDedupRatio :: float64

record mChunkRef =
  mrHash :: string
  mrKey :: string
  mrOffset :: int
  mrSize :: int
  mrStoredSize :: int
  mrETag :: string
  mrCompression :: string
  mrEncryption :: string
  mrKeyID :: string

record mObject =
  moSchema :: string
  moName :: string
  moChunks :: "mChunkRef list"

record mSignature =
  sgAlgorithm :: string
  sgValue :: string

record manifest =
  mfVersion :: int
  mfBackupID :: string
  mfTarget :: string
  mfDriver :: mDriver
  mfType :: string
  mfParentID :: "string option"
  mfStartedAt :: gotime
  mfFinishedAt :: gotime
  mfCompression :: string
  mfEncryption :: mEncryption
  mfStats :: mStats
  mfObjects :: "mObject list"
  mfStreams :: "(string \<times> string) list"
  mfSignature :: "mSignature option"

definition manifest_New :: manifest where
  "manifest_New = \<lparr>mfVersion = Version, mfBackupID = [], mfTarget = [], mfDriver = \<lparr>mdName = [], mdVersion = [], mdSourceTZ = []\<rparr>, mfType = [],
     mfParentID = None, mfStartedAt = 0, mfFinishedAt = 0, mfCompression = [], mfEncryption = \<lparr>meAlgorithm = [], meKeyID = [], meKDF = []\<rparr>,
     mfStats = \<lparr>msLogicalSizeBytes = 0, msStoredSizeBytes = 0, msChunkCount = 0, msDedupRatio = (0, 0)\<rparr>, mfObjects = [], mfStreams = [], mfSignature = None\<rparr>"

section \<open>References of chunks\<close>

datatype manifest_error =
    PrivateKeySizeWrong
  | PublicKeySizeWrong
  | SignatureMissing
  | SignatureAlgorithmUnsupported string
  | SignatureUndecodable
  | SignatureInvalid
  | ManifestJSON
  | ManifestVersionUnsupported int
  | ChunkHashUnparsable nat

definition ChunkFromPipeline :: "chunkRef \<Rightarrow> mChunkRef" where
  "ChunkFromPipeline r = \<lparr>mrHash = Hash_String (rHash r), mrKey = rKey r, mrOffset = rOffset r, mrSize = rSize r, mrStoredSize = rStoredSize r,
     mrETag = rETag r, mrCompression = rCompression r, mrEncryption = rEncryption r, mrKeyID = rKeyID r\<rparr>"

fun pipelineRefsFrom :: "nat \<Rightarrow> mChunkRef list \<Rightarrow> manifest_error + chunkRef list" where
  "pipelineRefsFrom i [] = Inr []"
| "pipelineRefsFrom i (r # rs) =
     (case ParseHash (mrHash r) of None \<Rightarrow> Inl (ChunkHashUnparsable i)
      | Some h \<Rightarrow>
          (case pipelineRefsFrom (i + 1) rs of Inl e \<Rightarrow> Inl e
           | Inr out \<Rightarrow> Inr (\<lparr>rSequence = i, rHash = h, rKey = mrKey r, rOffset = mrOffset r, rSize = mrSize r, rStoredSize = mrStoredSize r, rETag = mrETag r,
               rCompression = mrCompression r, rEncryption = mrEncryption r, rKeyID = mrKeyID r, rDuplicate = False\<rparr> # out)))"

definition PipelineRefs :: "mChunkRef list \<Rightarrow> manifest_error + chunkRef list" where
  "PipelineRefs rs = pipelineRefsFrom 0 rs"

section \<open>Signatures\<close>

text \<open>What the package takes from outside: Ed25519, the compact and the indented encoding and the decoding.\<close>

record manifestLib =
  ed25519Sign :: "bytes \<Rightarrow> bytes \<Rightarrow> bytes"
  ed25519Verify :: "bytes \<Rightarrow> bytes \<Rightarrow> bytes \<Rightarrow> bool"
  jsonMarshal :: "manifest \<Rightarrow> bytes option"
  jsonMarshalIndent :: "manifest \<Rightarrow> bytes option"
  jsonUnmarshal :: "bytes \<Rightarrow> manifest option"

definition CanonicalJSON :: "manifestLib \<Rightarrow> manifest \<Rightarrow> bytes option" where
  "CanonicalJSON X m = jsonMarshal X (m\<lparr>mfSignature := None\<rparr>)"

definition manifest_Sign :: "manifestLib \<Rightarrow> bytes \<Rightarrow> manifest \<Rightarrow> manifest_error + manifest" where
  "manifest_Sign X privateKey m =
     (if length privateKey \<noteq> 64 then Inl PrivateKeySizeWrong
      else (case CanonicalJSON X m of None \<Rightarrow> Inl ManifestJSON
            | Some canonical \<Rightarrow>
                Inr (m\<lparr>mfSignature := Some \<lparr>sgAlgorithm = ''ed25519'', sgValue = hexEncode (ed25519Sign X privateKey canonical)\<rparr>\<rparr>)))"

definition manifest_Verify :: "manifestLib \<Rightarrow> bytes \<Rightarrow> manifest \<Rightarrow> manifest_error + unit" where
  "manifest_Verify X publicKey m =
     (if length publicKey \<noteq> 32 then Inl PublicKeySizeWrong
      else (case mfSignature m of None \<Rightarrow> Inl SignatureMissing
            | Some s \<Rightarrow>
                if sgAlgorithm s \<noteq> ''ed25519'' then Inl (SignatureAlgorithmUnsupported (sgAlgorithm s))
                else (case hexDecode (sgValue s) of None \<Rightarrow> Inl SignatureUndecodable
                      | Some sig \<Rightarrow>
                          (case CanonicalJSON X m of None \<Rightarrow> Inl ManifestJSON
                           | Some canonical \<Rightarrow> if \<not> ed25519Verify X publicKey canonical sig then Inl SignatureInvalid else Inr ()))))"

definition manifest_Parse :: "manifestLib \<Rightarrow> bytes \<Rightarrow> manifest_error + manifest" where
  "manifest_Parse X data =
     (case jsonUnmarshal X data of None \<Rightarrow> Inl ManifestJSON
      | Some m \<Rightarrow> if mfVersion m \<noteq> Version then Inl (ManifestVersionUnsupported (mfVersion m)) else Inr m)"

section \<open>What holds\<close>

text \<open>The documented behaviour of the parameters: what one key of a pair signs the other accepts, and a manifest of
  some kind, such as those whose strings are valid, is decoded to itself.\<close>

definition keyPair :: "manifestLib \<Rightarrow> bytes \<Rightarrow> bytes \<Rightarrow> bool" where
  "keyPair X sk pk \<longleftrightarrow> length sk = 64 \<and> length pk = 32 \<and> (\<forall>msg. ed25519Verify X pk msg (ed25519Sign X sk msg))"

definition jsonReads :: "manifestLib \<Rightarrow> (manifest \<Rightarrow> bool) \<Rightarrow> bool" where
  "jsonReads X P \<longleftrightarrow> (\<forall>m data. P m \<longrightarrow> jsonMarshalIndent X m = Some data \<longrightarrow> jsonUnmarshal X data = Some m)"

lemma Sign_Verify:
  assumes "keyPair X sk pk" "manifest_Sign X sk m = Inr m'"
  shows "manifest_Verify X pk m' = Inr ()" "m'\<lparr>mfSignature := None\<rparr> = m\<lparr>mfSignature := None\<rparr>" "mfObjects m' = mfObjects m" "mfVersion m' = mfVersion m"
  using assms by (auto simp: manifest_Sign_def manifest_Verify_def CanonicalJSON_def keyPair_def split: if_splits option.splits)

text \<open>A manifest keeps of a reference all but the number, which becomes the position, and the mark of duplicates.\<close>

lemma pipelineRefs_back:
  "\<forall>r \<in> set rs. length (rHash r) = HashSize \<Longrightarrow>
    pipelineRefsFrom i (map ChunkFromPipeline rs) = Inr (map (\<lambda>(n, r). r\<lparr>rSequence := n, rDuplicate := False\<rparr>) (enumerate i rs))"
  by (induction rs arbitrary: i) (simp_all add: ChunkFromPipeline_def ParseHash_def Hash_String_def)

end
