(* ===== verification/Repository.thy ===== *)
theory Repository
  imports Manifest Go_Format
begin

text \<open>
  The repository of backups in an object store (\<open>internal/repository/commit.go\<close>, \<open>gc.go\<close>): signed manifests are committed under
  \<open>manifests/\<close>, loaded and verified, and chunks under \<open>data/\<close> that no manifest refers to are collected. The verification of a
  manifest and of its chunks (\<open>internal/verify/manifest.go\<close>) is here too.

  A listing goes page by page until a page has no token; it may not end on a store that hands out tokens for ever, so the loop is a
  partial function. Whether the context is done is asked once per page, and the answers are a parameter.
\<close>

section \<open>Commit and load\<close>

datatype repo_error =
    RepoRequired string
  | RepoCancelled
  | RepoStorage storage_error
  | RepoManifest manifest_error
  | ManifestTooLarge string
  | LoadFailed string repo_error
  | MissingChunks "string list"
  | ObjectUnreadable string pipe_error

definition maxManifestBytes :: nat where "maxManifestBytes = 64 * 1024 * 1024"

record commitOptions =
  coBackupID :: string
  coTarget :: string
  coDriver :: mDriver
  coType :: string
  coParentID :: "string option"
  coStartedAt :: gotime
  coFinishedAt :: gotime
  coEncryption :: mEncryption
  coPrivateKey :: bytes

record commitResult =
  crManifest :: manifest
  crKey :: string
  crInfo :: objectInfo

definition dedupRatio :: "stats \<Rightarrow> float64" where
  "dedupRatio st = (if stChunks st = 0 then (0, 0) else floatDiv (floatOfNat (stDedupedChunks st)) (floatOfNat (stChunks st)))"

text \<open>The verb \<open>%0wd\<close> of \<open>fmt.Sprintf\<close>, whose width counts the sign.\<close>

definition zeroPadded :: "nat \<Rightarrow> int \<Rightarrow> string" where
  "zeroPadded w n =
     (let ds = natString (nat \<bar>n\<bar>) in
      if n < 0 then CHR ''-'' # replicate (w - 1 - length ds) CHR ''0'' @ ds else replicate (w - length ds) CHR ''0'' @ ds)"

definition manifestKey :: "gotime \<Rightarrow> gotime \<Rightarrow> string \<Rightarrow> string" where
  "manifestKey clock finishedAt backupID =
     (let t = (if IsZero finishedAt then clock else finishedAt) in
      ''manifests/'' @ zeroPadded 4 (Year UTC t) @ ''/'' @ zeroPadded 2 (Month UTC t) @ ''/'' @ zeroPadded 2 (MDay UTC t) @ ''/'' @ backupID @ ''.manifest'')"

definition CommitManifest :: "manifestLib \<Rightarrow> gotime \<Rightarrow> 'b backend option \<Rightarrow> chunkRef list \<Rightarrow> stats \<Rightarrow> commitOptions \<Rightarrow> ('b, repo_error, commitResult) op" where
  "CommitManifest X clock backend chunks st opts b =
     (case backend of None \<Rightarrow> (Inl (RepoRequired ''storage backend is required''), b)
      | Some B \<Rightarrow>
        if coBackupID opts = [] then (Inl (RepoRequired ''backup id is required''), b)
        else if coTarget opts = [] then (Inl (RepoRequired ''target is required''), b)
        else
          let m = manifest_New\<lparr>mfBackupID := coBackupID opts, mfTarget := coTarget opts, mfDriver := coDriver opts, mfType := coType opts,
                    mfParentID := coParentID opts, mfStartedAt := coStartedAt opts, mfFinishedAt := coFinishedAt opts, mfEncryption := coEncryption opts,
                    mfStats := \<lparr>msLogicalSizeBytes = stBytesIn st, msStoredSizeBytes = stBytesUploaded st, msChunkCount = int (stChunks st),
                                 msDedupRatio = dedupRatio st\<rparr>,
                    mfObjects := [\<lparr>moSchema = [], moName = ''stream'', moChunks = map ChunkFromPipeline chunks\<rparr>]\<rparr> in
          (case manifest_Sign X (coPrivateKey opts) m of Inl e \<Rightarrow> (Inl (RepoManifest e), b)
           | Inr m' \<Rightarrow>
             (case jsonMarshalIndent X m' of None \<Rightarrow> (Inl (RepoManifest ManifestJSON), b)
              | Some data \<Rightarrow>
                  let key = manifestKey clock (coFinishedAt opts) (coBackupID opts) in
                  (case putOp B key data (int (length data)) b of
                     (Inl e, b') \<Rightarrow> (Inl (RepoStorage e), b')
                   | (Inr info, b') \<Rightarrow> (Inr \<lparr>crManifest = m', crKey = key, crInfo = info\<rparr>, b')))))"

definition LoadManifest :: "manifestLib \<Rightarrow> 'b backend option \<Rightarrow> 'b \<Rightarrow> string \<Rightarrow> bytes \<Rightarrow> repo_error + manifest \<times> objectInfo" where
  "LoadManifest X backend b key publicKey =
     (case backend of None \<Rightarrow> Inl (RepoRequired ''storage backend is required'')
      | Some B \<Rightarrow>
        if key = [] then Inl (RepoRequired ''manifest key is required'')
        else
          (case getOp B b key of Inl e \<Rightarrow> Inl (RepoStorage e)
           | Inr (data, info) \<Rightarrow>
               if length data > maxManifestBytes then Inl (ManifestTooLarge key)
               else
                 (case manifest_Parse X data of Inl e \<Rightarrow> Inl (RepoManifest e)
                  | Inr m \<Rightarrow> (case manifest_Verify X publicKey m of Inl e \<Rightarrow> Inl (RepoManifest e) | Inr _ \<Rightarrow> Inr (m, info)))))"

section \<open>Listing\<close>

fun eachObject :: "(objectInfo \<Rightarrow> ('s, repo_error, unit) op) \<Rightarrow> objectInfo list \<Rightarrow> ('s, repo_error, unit) op" where
  "eachObject fn [] s = (Inr (), s)"
| "eachObject fn (info # infos) s = (case fn info s of (Inl e, s') \<Rightarrow> (Inl e, s') | (Inr _, s') \<Rightarrow> eachObject fn infos s')"

text \<open>The callback works on a state that the store is a part of.\<close>

partial_function (option) listAll ::
  "(nat \<Rightarrow> bool) \<Rightarrow> 'b backend \<Rightarrow> ('s \<Rightarrow> 'b) \<Rightarrow> string \<Rightarrow> (objectInfo \<Rightarrow> ('s, repo_error, unit) op) \<Rightarrow> nat \<Rightarrow> string \<Rightarrow> 's \<Rightarrow> ((repo_error + unit) \<times> 's) option" where
  "listAll stop B st prefix fn n token s =
     (if stop n then Some (Inl RepoCancelled, s)
      else
        (case listOp B (st s) prefix token of Inl e \<Rightarrow> Some (Inl (RepoStorage e), s)
         | Inr page \<Rightarrow>
             (case eachObject fn (pageObjects page) s of (Inl e, s') \<Rightarrow> Some (Inl e, s')
              | (Inr _, s') \<Rightarrow>
                  if pageNextToken page \<noteq> [] then listAll stop B st prefix fn (n + 1) (pageNextToken page) s'
                  else Some (Inr (), s'))))"

section \<open>Garbage collection\<close>

record gcReport =
  gcManifests :: nat
  gcReferencedChunks :: nat
  gcScannedChunks :: nat
  gcDeletedChunks :: nat
  gcDeletedBytes :: int
  gcOrphanChunks :: "objectInfo list"

record 'b gcState =
  gcStore :: 'b
  gcMarked :: "string set"
  gcCounts :: gcReport

definition markRef :: "mChunkRef \<Rightarrow> 'b gcState \<Rightarrow> 'b gcState" where
  "markRef ref s =
     (if mrKey ref = [] \<or> mrKey ref \<in> gcMarked s then s
      else s\<lparr>gcMarked := insert (mrKey ref) (gcMarked s), gcCounts := (gcCounts s)\<lparr>gcReferencedChunks := gcReferencedChunks (gcCounts s) + 1\<rparr>\<rparr>)"

definition manifestRefs :: "manifest \<Rightarrow> mChunkRef list" where
  "manifestRefs m = concat (map moChunks (mfObjects m))"

definition markManifest :: "manifestLib \<Rightarrow> 'b backend \<Rightarrow> bytes \<Rightarrow> objectInfo \<Rightarrow> ('b gcState, repo_error, unit) op" where
  "markManifest X B publicKey info s =
     (case LoadManifest X (Some B) (gcStore s) (infoKey info) publicKey of Inl e \<Rightarrow> (Inl (LoadFailed (infoKey info) e), s)
      | Inr (m, _) \<Rightarrow>
          (Inr (), fold markRef (manifestRefs m) (s\<lparr>gcCounts := (gcCounts s)\<lparr>gcManifests := gcManifests (gcCounts s) + 1\<rparr>\<rparr>)))"

definition sweepChunk :: "'b backend \<Rightarrow> bool \<Rightarrow> objectInfo \<Rightarrow> ('b gcState, repo_error, unit) op" where
  "sweepChunk B dryRun info s =
     (let s1 = s\<lparr>gcCounts := (gcCounts s)\<lparr>gcScannedChunks := gcScannedChunks (gcCounts s) + 1\<rparr>\<rparr> in
      if infoKey info \<in> gcMarked s1 then (Inr (), s1)
      else
        let s2 = s1\<lparr>gcCounts := (gcCounts s1)\<lparr>gcOrphanChunks := gcOrphanChunks (gcCounts s1) @ [info]\<rparr>\<rparr> in
        if dryRun then (Inr (), s2)
        else (case deleteOp B (infoKey info) (gcStore s2) of
                (Inl e, b') \<Rightarrow> (Inl (RepoStorage e), s2\<lparr>gcStore := b'\<rparr>)
              | (Inr _, b') \<Rightarrow>
                  (Inr (), s2\<lparr>gcStore := b', gcCounts := (gcCounts s2)\<lparr>gcDeletedChunks := gcDeletedChunks (gcCounts s2) + 1,
                     gcDeletedBytes := gcDeletedBytes (gcCounts s2) + int (infoSize info)\<rparr>\<rparr>)))"

definition zeroReport :: gcReport where
  "zeroReport = \<lparr>gcManifests = 0, gcReferencedChunks = 0, gcScannedChunks = 0, gcDeletedChunks = 0, gcDeletedBytes = 0, gcOrphanChunks = []\<rparr>"

text \<open>The two listings of a run ask the context on their own.\<close>

definition GarbageCollect ::
  "manifestLib \<Rightarrow> (nat \<Rightarrow> bool) \<Rightarrow> (nat \<Rightarrow> bool) \<Rightarrow> 'b backend option \<Rightarrow> bytes \<Rightarrow> bool \<Rightarrow> 'b \<Rightarrow> ((repo_error option \<times> gcReport) \<times> 'b) option" where
  "GarbageCollect X stop1 stop2 backend publicKey dryRun b =
     (case backend of None \<Rightarrow> Some ((Some (RepoRequired ''storage backend is required''), zeroReport), b)
      | Some B \<Rightarrow>
          Option.bind (listAll stop1 B gcStore ''manifests/'' (markManifest X B publicKey) 0 [] \<lparr>gcStore = b, gcMarked = {}, gcCounts = zeroReport\<rparr>)
            (\<lambda>(r, s). case r of Inl e \<Rightarrow> Some ((Some e, gcCounts s), gcStore s)
               | Inr _ \<Rightarrow>
                   Option.bind (listAll stop2 B gcStore ''data/'' (sweepChunk B dryRun) 0 [] s)
                     (\<lambda>(r', s'). Some ((case r' of Inl e \<Rightarrow> Some e | Inr _ \<Rightarrow> None, gcCounts s'), gcStore s'))))"

section \<open>Verification\<close>

record manifestReport =
  vrObjects :: nat
  vrChunks :: nat
  vrMissingChunks :: "string list"
  vrStoredBytes :: int

record chunkReport =
  vcManifest :: manifestReport
  vcVerifiedChunks :: nat
  vcRestoredBytes :: int

text \<open>The context is asked before every chunk.\<close>

fun verifyRefs :: "'b backend \<Rightarrow> 'b \<Rightarrow> (nat \<Rightarrow> bool) \<Rightarrow> mChunkRef list \<Rightarrow> (manifestReport, repo_error, unit) op" where
  "verifyRefs B b stop [] report = (Inr (), report)"
| "verifyRefs B b stop (ref # cs) report =
     (if stop (vrChunks report) then (Inl RepoCancelled, report)
      else
        let report1 = report\<lparr>vrChunks := vrChunks report + 1\<rparr> in
        (case headOp B b (mrKey ref) of
           Inl e \<Rightarrow> verifyRefs B b stop cs (report1\<lparr>vrMissingChunks := vrMissingChunks report1 @ [mrKey ref]\<rparr>)
         | Inr info \<Rightarrow> verifyRefs B b stop cs (report1\<lparr>vrStoredBytes := vrStoredBytes report1 + int (infoSize info)\<rparr>)))"

definition verify_Manifest :: "manifestLib \<Rightarrow> (nat \<Rightarrow> bool) \<Rightarrow> 'b backend option \<Rightarrow> 'b \<Rightarrow> manifest \<Rightarrow> bytes \<Rightarrow> repo_error option \<times> manifestReport" where
  "verify_Manifest X stop backend b m publicKey =
     (let zero = \<lparr>vrObjects = 0, vrChunks = 0, vrMissingChunks = [], vrStoredBytes = 0\<rparr> in
      case backend of None \<Rightarrow> (Some (RepoRequired ''storage backend is required''), zero)
      | Some B \<Rightarrow>
        (case manifest_Verify X publicKey m of Inl e \<Rightarrow> (Some (RepoManifest e), zero)
         | Inr _ \<Rightarrow>
           (case verifyRefs B b stop (manifestRefs m) (zero\<lparr>vrObjects := length (mfObjects m)\<rparr>) of
              (Inl e, report) \<Rightarrow> (Some e, report)
            | (Inr _, report) \<Rightarrow> (if vrMissingChunks report \<noteq> [] then Some (MissingChunks (vrMissingChunks report)) else None, report))))"

fun verifyObjects :: "compressLib \<Rightarrow> (bytes \<Rightarrow> bytes) \<Rightarrow> 'b pipeline \<Rightarrow> 'b \<Rightarrow> mObject list \<Rightarrow> (chunkReport, repo_error, unit) op" where
  "verifyObjects L H p b [] report = (Inr (), report)"
| "verifyObjects L H p b (obj # objs) report =
     (case PipelineRefs (moChunks obj) of Inl e \<Rightarrow> (Inl (RepoManifest e), report)
      | Inr cs \<Rightarrow>
          (case Restore L H p b cs of
             (Inl e, _) \<Rightarrow> (Inl (ObjectUnreadable (moName obj) e), report)
           | (Inr _, data, st) \<Rightarrow>
               verifyObjects L H p b objs (report\<lparr>vcVerifiedChunks := vcVerifiedChunks report + stChunks st, vcRestoredBytes := vcRestoredBytes report + stBytesIn st\<rparr>)))"

definition verify_Chunks :: "manifestLib \<Rightarrow> (nat \<Rightarrow> bool) \<Rightarrow> compressLib \<Rightarrow> (bytes \<Rightarrow> bytes) \<Rightarrow> 'b pipeline option \<Rightarrow> 'b \<Rightarrow> manifest \<Rightarrow> bytes \<Rightarrow> repo_error option \<times> chunkReport" where
  "verify_Chunks X stop L H pipeline b m publicKey =
     (case pipeline of
        None \<Rightarrow> (Some (RepoRequired ''pipeline is required''), \<lparr>vcManifest = \<lparr>vrObjects = 0, vrChunks = 0, vrMissingChunks = [], vrStoredBytes = 0\<rparr>, vcVerifiedChunks = 0, vcRestoredBytes = 0\<rparr>)
      | Some p \<Rightarrow>
          (case verify_Manifest X stop (Backend p) b m publicKey of
             (Some e, report) \<Rightarrow> (Some e, \<lparr>vcManifest = report, vcVerifiedChunks = 0, vcRestoredBytes = 0\<rparr>)
           | (None, report) \<Rightarrow>
               (case verifyObjects L H p b (mfObjects m) \<lparr>vcManifest = report, vcVerifiedChunks = 0, vcRestoredBytes = 0\<rparr> of
                  (Inl e, report') \<Rightarrow> (Some e, report') | (Inr _, report') \<Rightarrow> (None, report'))))"

end
