(* ===== verification/Repository_Inv.thy ===== *)
theory Repository_Inv
  imports Repository
begin

text \<open>
  What garbage collection needs of an object store, beyond \<open>object_store\<close>: a listing by pages in the order of the keys, with the last
  key of a page as the token of the next one. On such a store a listing ends, and a collection removes chunks that no manifest
  refers to and nothing else.
\<close>

section \<open>Stores with listings\<close>

definition in_page :: "string \<Rightarrow> string \<Rightarrow> string \<Rightarrow> bool" where
  "in_page prefix token k \<longleftrightarrow> HasPrefix k prefix \<and> (token = [] \<or> token < k)"

text \<open>What the callback of a listing may do to the store: keep it, or remove the object it is called for.\<close>

definition removes :: "('b \<Rightarrow> bool) \<Rightarrow> ('b \<Rightarrow> string \<Rightarrow> bytes option) \<Rightarrow> (string \<Rightarrow> bool) \<Rightarrow> ('s \<Rightarrow> 'b) \<Rightarrow> (objectInfo \<Rightarrow> ('s, repo_error, unit) op) \<Rightarrow> bool" where
  "removes binv objs good_key st fn \<longleftrightarrow> (\<forall>info s r s'. binv (st s) \<longrightarrow> good_key (infoKey info) \<longrightarrow> fn info s = (r, s') \<longrightarrow>
     binv (st s') \<and> (\<forall>k. objs (st s') k = objs (st s) k \<or> (k = infoKey info \<and> objs (st s') k = None)))"

lemma removesD:
  assumes "removes binv objs good_key st fn" "binv (st s)" "good_key (infoKey info)" "fn info s = (r, s')"
  shows "binv (st s')" "objs (st s') k = objs (st s) k \<or> (k = infoKey info \<and> objs (st s') k = None)"
  using assms by (auto simp: removes_def)

lemma eachObject_append:
  "eachObject fn (xs @ ys) s = (case eachObject fn xs s of (Inl e, s') \<Rightarrow> (Inl e, s') | (Inr _, s') \<Rightarrow> eachObject fn ys s')"
  by (induction xs arbitrary: s) (auto split: prod.split sum.split)

lemma eachObject_removes:
  assumes "removes binv objs good_key st fn" "binv (st s)" "\<forall>i \<in> set infos. good_key (infoKey i)" "eachObject fn infos s = (r, s')"
  shows "binv (st s') \<and> (\<forall>k. objs (st s') k = objs (st s) k \<or> (k \<in> infoKey ` set infos \<and> objs (st s') k = None))"
  using assms(2-)
proof (induction infos arbitrary: s)
  case (Cons i infos)
  obtain q s1 where f: "fn i s = (q, s1)" by (cases "fn i s")
  note d = removesD [OF assms(1) Cons.prems(1) _ f]
  have g: "good_key (infoKey i)" using Cons.prems(2) by simp
  show ?case
  proof (cases q)
    case (Inl e)
    thus ?thesis using Cons.prems(3) f d [OF g] by auto
  next
    case (Inr u)
    hence "eachObject fn infos s1 = (r, s')" using Cons.prems(3) f by simp
    from Cons.IH [OF d(1) [OF g] _ this] Cons.prems(2) d(2) [OF g] show ?thesis by (metis image_insert insertCI list.simps(15))
  qed
qed simp

locale listing_store = object_store +
  assumes stored_good: "binv s \<Longrightarrow> objs s k \<noteq> None \<Longrightarrow> good_key k"
    and get_good: "binv s \<Longrightarrow> getOp B s k = Inr x \<Longrightarrow> good_key k"
    and finite_objs: "binv s \<Longrightarrow> finite (dom (objs s))"
    and page_stored: "binv s \<Longrightarrow> listOp B s prefix token = Inr page \<Longrightarrow> info \<in> set (pageObjects page) \<Longrightarrow>
      objs s (infoKey info) \<noteq> None \<and> in_page prefix token (infoKey info)"
    and page_complete: "binv s \<Longrightarrow> listOp B s prefix token = Inr page \<Longrightarrow> objs s k \<noteq> None \<Longrightarrow> in_page prefix token k \<Longrightarrow>
      k \<in> infoKey ` set (pageObjects page) \<or> (pageNextToken page \<noteq> [] \<and> pageNextToken page < k)"
    and page_token: "binv s \<Longrightarrow> listOp B s prefix token = Inr page \<Longrightarrow> pageNextToken page \<noteq> [] \<Longrightarrow>
      pageNextToken page \<in> infoKey ` set (pageObjects page) \<and> (\<forall>info \<in> set (pageObjects page). infoKey info \<le> pageNextToken page)"
begin

lemma page_good: "binv s \<Longrightarrow> listOp B s prefix token = Inr page \<Longrightarrow> \<forall>i \<in> set (pageObjects page). good_key (infoKey i)"
  using page_stored stored_good by blast

lemma token_page:
  assumes "binv s" "listOp B s prefix token = Inr page" "pageNextToken page \<noteq> []"
  shows "objs s (pageNextToken page) \<noteq> None" "token = [] \<or> token < pageNextToken page"
    "in_page prefix (pageNextToken page) k \<Longrightarrow> in_page prefix token k"
proof -
  obtain i where i: "i \<in> set (pageObjects page)" "pageNextToken page = infoKey i" using page_token [OF assms] by blast
  note p = page_stored [OF assms(1,2) i(1)]
  show "objs s (pageNextToken page) \<noteq> None" "token = [] \<or> token < pageNextToken page" using p i(2) by (auto simp: in_page_def)
  thus "in_page prefix (pageNextToken page) k \<Longrightarrow> in_page prefix token k" unfolding in_page_def using assms(3) less_trans by metis
qed

text \<open>A listing ends. It calls its callback for stored objects of the prefix only, and for all of them if it succeeds.\<close>

lemma listAll_lists:
  assumes "removes binv objs good_key st fn" "binv (st s)"
  shows "\<exists>r s' infos q. listAll stop B st prefix fn n token s = Some (r, s') \<and> eachObject fn infos s = (q, s') \<and> (q \<noteq> Inr () \<longrightarrow> r = q)
    \<and> (\<forall>i \<in> set infos. objs (st s) (infoKey i) \<noteq> None \<and> in_page prefix token (infoKey i))
    \<and> (r = Inr () \<longrightarrow> q = Inr () \<and> infoKey ` set infos = {k. objs (st s) k \<noteq> None \<and> in_page prefix token k})"
  using assms(2)
proof (induction "card {k \<in> dom (objs (st s)). token = [] \<or> token < k}" arbitrary: n token s rule: less_induct)
  case less
  note unf = listAll.simps [of stop B st prefix fn n token s]
  consider "stop n \<or> (\<exists>e. listOp B (st s) prefix token = Inl e)" | page where "\<not> stop n" "listOp B (st s) prefix token = Inr page"
    by (cases "listOp B (st s) prefix token") auto
  thus ?case
  proof cases
    case 1
    thus ?thesis using unf by (intro exI [of _ "if stop n then Inl RepoCancelled else Inl (RepoStorage (projl (listOp B (st s) prefix token)))"]
        exI [of _ s] exI [of _ "[]"] exI [of _ "Inr ()"]) auto
  next
    case 2
    note pg = page_good [OF less.prems 2(2)] and ps = page_stored [OF less.prems 2(2)] and pc = page_complete [OF less.prems 2(2)]
    obtain q1 s1 where e: "eachObject fn (pageObjects page) s = (q1, s1)" by (cases "eachObject fn (pageObjects page) s")
    note rm = eachObject_removes [OF assms(1) less.prems pg e]
    show ?thesis
    proof (cases "q1 = Inr () \<and> pageNextToken page \<noteq> []")
      case False
      hence "listAll stop B st prefix fn n token s = Some (q1, s1)" using unf 2 e by (auto split: sum.split)
      moreover have "infoKey ` set (pageObjects page) = {k. objs (st s) k \<noteq> None \<and> in_page prefix token k}" if "q1 = Inr ()"
        using ps pc False that by blast
      ultimately show ?thesis using e ps by (intro exI [of _ q1] exI [of _ s1] exI [of _ "pageObjects page"]) auto
    next
      case True
      let ?t = "pageNextToken page"
      note tk = token_page [OF less.prems 2(2) conjunct2 [OF True]] and tp = page_token [OF less.prems 2(2) conjunct2 [OF True]]
      have l: "listAll stop B st prefix fn n token s = listAll stop B st prefix fn (n + 1) ?t s1" using unf 2 e True by simp
      have sub: "objs (st s1) k \<noteq> None \<Longrightarrow> objs (st s) k \<noteq> None" for k using rm by metis
      have "{k \<in> dom (objs (st s1)). ?t = [] \<or> ?t < k} \<subset> {k \<in> dom (objs (st s)). token = [] \<or> token < k}"
        using sub tk(1,2) True by (auto simp: psubset_eq dom_def)
      hence "card {k \<in> dom (objs (st s1)). ?t = [] \<or> ?t < k} < card {k \<in> dom (objs (st s)). token = [] \<or> token < k}"
        by (intro psubset_card_mono) (use finite_objs [OF less.prems] in simp)
      from less.hyps [OF this conjunct1 [OF rm], of "n + 1"] obtain r s' infos q where ih:
        "listAll stop B st prefix fn (n + 1) ?t s1 = Some (r, s')" "eachObject fn infos s1 = (q, s')" "q \<noteq> Inr () \<longrightarrow> r = q"
        "\<forall>i \<in> set infos. objs (st s1) (infoKey i) \<noteq> None \<and> in_page prefix ?t (infoKey i)"
        "r = Inr () \<longrightarrow> q = Inr () \<and> infoKey ` set infos = {k. objs (st s1) k \<noteq> None \<and> in_page prefix ?t k}" by blast
      have ea: "eachObject fn (pageObjects page @ infos) s = (q, s')" using e True ih(2) by (simp add: eachObject_append)
      have st: "\<forall>i \<in> set (pageObjects page @ infos). objs (st s) (infoKey i) \<noteq> None \<and> in_page prefix token (infoKey i)"
        using ps ih(4) sub tk(3) by auto
      have all: "k \<in> infoKey ` set (pageObjects page @ infos)" if r: "r = Inr ()" and k: "objs (st s) k \<noteq> None" "in_page prefix token k" for k
      proof (cases "k \<in> infoKey ` set (pageObjects page)")
        case False
        hence "?t < k" using pc [OF k] by blast
        moreover have "objs (st s1) k \<noteq> None" using rm k(1) False by metis
        ultimately have "k \<in> infoKey ` set infos" using ih(5) r k(2) by (auto simp: in_page_def)
        thus ?thesis by auto
      qed auto
      have fin: "r = Inr () \<longrightarrow> q = Inr () \<and> infoKey ` set (pageObjects page @ infos) = {k. objs (st s) k \<noteq> None \<and> in_page prefix token k}"
      proof
        assume r: "r = Inr ()"
        have "infoKey ` set (pageObjects page @ infos) \<subseteq> {k. objs (st s) k \<noteq> None \<and> in_page prefix token k}" using st by blast
        moreover have "{k. objs (st s) k \<noteq> None \<and> in_page prefix token k} \<subseteq> infoKey ` set (pageObjects page @ infos)" using all [OF r] by blast
        ultimately show "q = Inr () \<and> infoKey ` set (pageObjects page @ infos) = {k. objs (st s) k \<noteq> None \<and> in_page prefix token k}"
          using ih(5) r by blast
      qed
      have "listAll stop B st prefix fn n token s = Some (r, s')" using l ih(1) by simp
      from this ea ih(3) st fin show ?thesis by (intro exI conjI)
    qed
  qed
qed

end

section \<open>Mark and sweep\<close>

text \<open>The chunks that a manifest of the store refers to.\<close>

definition referenced :: "manifestLib \<Rightarrow> 'b backend \<Rightarrow> bytes \<Rightarrow> 'b \<Rightarrow> string set" where
  "referenced X B pk s = {k. \<exists>key m info. HasPrefix key ''manifests/'' \<and> LoadManifest X (Some B) s key pk = Inr (m, info)
     \<and> k \<in> mrKey ` set (manifestRefs m) \<and> k \<noteq> []}"

lemma fold_markRef: "gcStore (fold markRef rs s) = gcStore s" "gcMarked (fold markRef rs s) = gcMarked s \<union> (mrKey ` set rs - {[]})"
  by (induction rs arbitrary: s) (auto simp: markRef_def)

lemma markManifest_step:
  assumes "markManifest X B pk info s = (r, s')"
  shows "gcStore s' = gcStore s"
    and "r = Inr u \<Longrightarrow> gcMarked s' = gcMarked s \<union> {k. \<exists>m i. LoadManifest X (Some B) (gcStore s) (infoKey info) pk = Inr (m, i) \<and> k \<in> mrKey ` set (manifestRefs m) \<and> k \<noteq> []}"
  using assms by (auto simp: markManifest_def fold_markRef split: sum.splits)

lemma eachObject_mark_store: "eachObject (markManifest X B pk) infos s = (r, s') \<Longrightarrow> gcStore s' = gcStore s"
  by (induction infos arbitrary: s) (auto split: prod.splits sum.splits dest: markManifest_step(1))

lemma eachObject_mark:
  "eachObject (markManifest X B pk) infos s = (Inr u, s') \<Longrightarrow>
    gcMarked s' = gcMarked s \<union> {k. \<exists>info \<in> set infos. \<exists>m i. LoadManifest X (Some B) (gcStore s) (infoKey info) pk = Inr (m, i) \<and> k \<in> mrKey ` set (manifestRefs m) \<and> k \<noteq> []}"
proof (induction infos arbitrary: s)
  case (Cons info infos)
  obtain v s1 where f: "markManifest X B pk info s = (Inr v, s1)" "eachObject (markManifest X B pk) infos s1 = (Inr u, s')"
    using Cons.prems by (auto split: prod.splits sum.splits)
  show ?case unfolding Cons.IH [OF f(2)] markManifest_step(2) [OF f(1) HOL.refl] markManifest_step(1) [OF f(1)] by auto
qed simp

lemma eachObject_mark_loads:
  "eachObject (markManifest X B pk) infos s = (Inr u, s') \<Longrightarrow> info \<in> set infos \<Longrightarrow> \<exists>m i. LoadManifest X (Some B) (gcStore s) (infoKey info) pk = Inr (m, i)"
proof (induction infos arbitrary: s)
  case (Cons i infos)
  obtain v s1 where f: "markManifest X B pk i s = (Inr v, s1)" "eachObject (markManifest X B pk) infos s1 = (Inr u, s')"
    using Cons.prems(1) by (auto split: prod.splits sum.splits)
  have "\<exists>m x. LoadManifest X (Some B) (gcStore s) (infoKey i) pk = Inr (m, x)" using f(1) by (auto simp: markManifest_def split: sum.splits)
  thus ?case using Cons.IH [OF f(2)] Cons.prems(2) markManifest_step(1) [OF f(1)] by auto
qed simp

context listing_store
begin

lemma removes_mark: "removes binv objs good_key gcStore (markManifest X B pk)"
  by (auto simp: removes_def dest: markManifest_step(1))

lemma sweep_step:
  assumes "binv (gcStore s)" "good_key (infoKey info)" "sweepChunk B dry info s = (r, s')"
  shows "binv (gcStore s')" "gcMarked s' = gcMarked s"
    "objs (gcStore s') k = objs (gcStore s) k \<or> (k = infoKey info \<and> objs (gcStore s') k = None \<and> k \<notin> gcMarked s \<and> \<not> dry)"
    "r = Inr u \<Longrightarrow> \<not> dry \<Longrightarrow> infoKey info \<notin> gcMarked s \<Longrightarrow> objs (gcStore s') (infoKey info) = None"
proof -
  have "(gcStore s' = gcStore s \<or> (\<exists>x. deleteOp B (infoKey info) (gcStore s) = (x, gcStore s') \<and> (r = Inr u \<longrightarrow> x = Inr ()) \<and> infoKey info \<notin> gcMarked s \<and> \<not> dry))
      \<and> gcMarked s' = gcMarked s \<and> (\<not> dry \<and> infoKey info \<notin> gcMarked s \<longrightarrow> (\<exists>x. deleteOp B (infoKey info) (gcStore s) = (x, gcStore s') \<and> (r = Inr u \<longrightarrow> x = Inr ())))"
    using assms(3) by (cases "deleteOp B (infoKey info) (gcStore s)") (auto simp: sweepChunk_def Let_def split: if_splits sum.splits)
  note c = this
  have del: "binv b' \<and> (objs b' k = objs (gcStore s) k \<or> (k = infoKey info \<and> objs b' k = None)) \<and> (x = Inr () \<longrightarrow> objs b' (infoKey info) = None)"
    if "deleteOp B (infoKey info) (gcStore s) = (x, b')" for x b' k
    using delete_ok [OF assms(1,2), of "()" b'] delete_err [OF assms(1,2), of _ b'] that by (cases x) auto
  show "gcMarked s' = gcMarked s" using c by blast
  show "binv (gcStore s')" using c del assms(1) by metis
  show "objs (gcStore s') k = objs (gcStore s) k \<or> (k = infoKey info \<and> objs (gcStore s') k = None \<and> k \<notin> gcMarked s \<and> \<not> dry)" using c del by metis
  show "r = Inr u \<Longrightarrow> \<not> dry \<Longrightarrow> infoKey info \<notin> gcMarked s \<Longrightarrow> objs (gcStore s') (infoKey info) = None" using c del by metis
qed

lemma removes_sweep: "removes binv objs good_key gcStore (sweepChunk B dry)"
  unfolding removes_def using sweep_step(1,3) by blast

lemma eachObject_sweep:
  "binv (gcStore s) \<Longrightarrow> \<forall>i \<in> set infos. good_key (infoKey i) \<Longrightarrow> eachObject (sweepChunk B dry) infos s = (r, s') \<Longrightarrow>
    gcMarked s' = gcMarked s
    \<and> (\<forall>k. objs (gcStore s') k = objs (gcStore s) k \<or> (k \<in> infoKey ` set infos \<and> objs (gcStore s') k = None \<and> k \<notin> gcMarked s \<and> \<not> dry))
    \<and> (r = Inr () \<longrightarrow> \<not> dry \<longrightarrow> (\<forall>k \<in> infoKey ` set infos. k \<notin> gcMarked s \<longrightarrow> objs (gcStore s') k = None))"
proof (induction infos arbitrary: s)
  case (Cons i infos)
  obtain q s1 where f: "sweepChunk B dry i s = (q, s1)" by (cases "sweepChunk B dry i s")
  have g: "good_key (infoKey i)" "\<forall>i \<in> set infos. good_key (infoKey i)" using Cons.prems(2) by simp_all
  note d = sweep_step [OF Cons.prems(1) g(1) f]
  show ?case
  proof (cases q)
    case (Inl e)
    hence r: "r = Inl e" "s' = s1" using Cons.prems(3) f by simp_all
    show ?thesis unfolding r using d(2,3) by (metis Inl_Inr_False image_insert insertCI list.simps(15))
  next
    case (Inr u)
    hence "eachObject (sweepChunk B dry) infos s1 = (r, s')" using Cons.prems(3) f by simp
    note ih = Cons.IH [OF d(1) g(2) this]
    have one: "objs (gcStore s') (infoKey i) = None" if "\<not> dry" "infoKey i \<notin> gcMarked s" using conjunct1 [OF conjunct2 [OF ih], THEN spec, of "infoKey i"] d(4) [OF Inr that] by auto
    have ih': "objs (gcStore s') k = objs (gcStore s1) k \<or> (k \<in> infoKey ` set infos \<and> objs (gcStore s') k = None \<and> k \<notin> gcMarked s1 \<and> \<not> dry)"
      "r = Inr () \<Longrightarrow> \<not> dry \<Longrightarrow> k \<in> infoKey ` set infos \<Longrightarrow> k \<notin> gcMarked s1 \<Longrightarrow> objs (gcStore s') k = None" for k
      by (rule spec [OF conjunct1 [OF conjunct2 [OF ih]]]) (rule conjunct2 [OF conjunct2 [OF ih], THEN mp, THEN mp, THEN bspec, THEN mp])
    have two: "objs (gcStore s') k = objs (gcStore s) k \<or> (k \<in> infoKey ` set (i # infos) \<and> objs (gcStore s') k = None \<and> k \<notin> gcMarked s \<and> \<not> dry)" for k
      using ih'(1) [of k] d(3) [of k] d(2) by auto
    have three: "objs (gcStore s') k = None" if "r = Inr ()" "\<not> dry" "k \<in> infoKey ` set (i # infos)" "k \<notin> gcMarked s" for k
      using that ih'(2) [of k] one d(2) by auto
    show ?thesis using conjunct1 [OF ih] d(2) two three by simp
  qed
qed simp

lemma marked_referenced:
  assumes "binv s" "infoKey ` set infos = {k. objs s k \<noteq> None \<and> in_page ''manifests/'' [] k}"
  shows "{k. \<exists>info \<in> set infos. \<exists>m i. LoadManifest X (Some B) s (infoKey info) pk = Inr (m, i) \<and> k \<in> mrKey ` set (manifestRefs m) \<and> k \<noteq> []} = referenced X B pk s"
    (is "?L = ?R")
proof (intro equalityI subsetI)
  fix k assume "k \<in> ?L"
  then obtain info m i where k: "info \<in> set infos" "LoadManifest X (Some B) s (infoKey info) pk = Inr (m, i)" "k \<in> mrKey ` set (manifestRefs m)" "k \<noteq> []" by blast
  have "HasPrefix (infoKey info) ''manifests/''" using assms(2) k(1) by (auto simp: in_page_def)
  thus "k \<in> ?R" using k(2-) by (auto simp: referenced_def)
next
  fix k assume "k \<in> ?R"
  then obtain key m i where k: "HasPrefix key ''manifests/''" "LoadManifest X (Some B) s key pk = Inr (m, i)" "k \<in> mrKey ` set (manifestRefs m)" "k \<noteq> []"
    by (auto simp: referenced_def)
  obtain data x where "getOp B s key = Inr (data, x)" using k(2) by (auto simp: LoadManifest_def split: if_splits sum.splits)
  hence "objs s key \<noteq> None" using get_iff get_good assms(1) by blast
  hence "key \<in> infoKey ` set infos" using assms(2) k(1) by (simp add: in_page_def)
  thus "k \<in> ?L" using k(2-) by auto
qed

lemma collect_exact:
  assumes "binv s"
  shows "\<exists>e rep s'. GarbageCollect X stop1 stop2 (Some B) pk dry s = Some ((e, rep), s') \<and> binv s'
    \<and> (\<forall>k. objs s' k = objs s k \<or> (objs s' k = None \<and> \<not> dry \<and> HasPrefix k ''data/'' \<and> k \<notin> referenced X B pk s))
    \<and> (e = None \<longrightarrow> (\<forall>k. objs s' k = (if \<not> dry \<and> HasPrefix k ''data/'' \<and> k \<notin> referenced X B pk s then None else objs s k)))"
proof -
  let ?s = "\<lparr>gcStore = s, gcMarked = {}, gcCounts = zeroReport\<rparr>"
  have b: "binv (gcStore ?s)" using assms by simp
  obtain r s1 infos q where l: "listAll stop1 B gcStore ''manifests/'' (markManifest X B pk) 0 [] ?s = Some (r, s1)"
    "eachObject (markManifest X B pk) infos ?s = (q, s1)"
    "r = Inr () \<longrightarrow> q = Inr () \<and> infoKey ` set infos = {k. objs s k \<noteq> None \<and> in_page ''manifests/'' [] k}"
    using listAll_lists [OF removes_mark b, of stop1 "''manifests/''" X pk 0 "[]"] by auto
  have s1: "gcStore s1 = s" using eachObject_mark_store [OF l(2)] by simp
  show ?thesis
  proof (cases r)
    case (Inl e)
    hence "GarbageCollect X stop1 stop2 (Some B) pk dry s = Some ((Some e, gcCounts s1), s)" using l(1) s1 by (simp add: GarbageCollect_def)
    thus ?thesis using assms by blast
  next
    case (Inr u)
    have m: "gcMarked s1 = referenced X B pk s"
      using eachObject_mark [of X B pk infos ?s "()" s1] l(2,3) Inr marked_referenced [OF assms, of infos X pk] by simp
    have b1: "binv (gcStore s1)" using assms s1 by simp
    obtain r' s2 infos' q' where k: "listAll stop2 B gcStore ''data/'' (sweepChunk B dry) 0 [] s1 = Some (r', s2)"
      "eachObject (sweepChunk B dry) infos' s1 = (q', s2)"
      "\<forall>i \<in> set infos'. objs s (infoKey i) \<noteq> None \<and> in_page ''data/'' [] (infoKey i)"
      "r' = Inr () \<longrightarrow> q' = Inr () \<and> infoKey ` set infos' = {k. objs s k \<noteq> None \<and> in_page ''data/'' [] k}"
      using listAll_lists [OF removes_sweep b1, of stop2 "''data/''" dry 0 "[]"] s1 by auto
    have g: "\<forall>i \<in> set infos'. good_key (infoKey i)" using k(3) stored_good [OF assms] by blast
    note sw = eachObject_sweep [OF b1 g k(2)] and rm = eachObject_removes [OF removes_sweep b1 g k(2)]
    have keep: "objs (gcStore s2) k = objs s k \<or> (objs (gcStore s2) k = None \<and> \<not> dry \<and> HasPrefix k ''data/'' \<and> k \<notin> referenced X B pk s)" for k
      using sw k(3) s1 m by (auto simp: in_page_def)
    have all: "objs (gcStore s2) k = (if \<not> dry \<and> HasPrefix k ''data/'' \<and> k \<notin> referenced X B pk s then None else objs s k)" if "r' = Inr ()" for k
    proof (cases "objs s k = None")
      case False
      thus ?thesis using sw k(4) that keep [of k] s1 m by (auto simp: in_page_def)
    qed (use keep [of k] in auto)
    have "GarbageCollect X stop1 stop2 (Some B) pk dry s = Some ((case r' of Inl e \<Rightarrow> Some e | Inr _ \<Rightarrow> None, gcCounts s2), gcStore s2)"
      using l(1) Inr k(1) by (simp add: GarbageCollect_def)
    moreover have "(case r' of Inl e \<Rightarrow> Some e | Inr _ \<Rightarrow> None) = None \<longrightarrow> r' = Inr ()" by (simp split: sum.split)
    ultimately show ?thesis using conjunct1 [OF rm] keep all by (intro exI conjI allI impI) blast+
  qed
qed

text \<open>A manifest that cannot be loaded stops a collection before anything is deleted.\<close>

lemma collect_stops:
  assumes "binv s" "objs s key \<noteq> None" "HasPrefix key ''manifests/''" "LoadManifest X (Some B) s key pk = Inl e"
  shows "\<exists>e rep. GarbageCollect X stop1 stop2 (Some B) pk dry s = Some ((Some e, rep), s)"
proof -
  let ?s = "\<lparr>gcStore = s, gcMarked = {}, gcCounts = zeroReport\<rparr>"
  have b: "binv (gcStore ?s)" using assms(1) by simp
  obtain r s1 infos q where l: "listAll stop1 B gcStore ''manifests/'' (markManifest X B pk) 0 [] ?s = Some (r, s1)"
    "eachObject (markManifest X B pk) infos ?s = (q, s1)"
    "r = Inr () \<longrightarrow> q = Inr () \<and> infoKey ` set infos = {k. objs s k \<noteq> None \<and> in_page ''manifests/'' [] k}"
    using listAll_lists [OF removes_mark b, of stop1 "''manifests/''" X pk 0 "[]"] by auto
  have "r \<noteq> Inr ()"
  proof
    assume "r = Inr ()"
    hence q: "q = Inr ()" "key \<in> infoKey ` set infos" using l(3) assms(2,3) by (simp_all add: in_page_def)
    then obtain i where "i \<in> set infos" "infoKey i = key" by blast
    thus False using eachObject_mark_loads [of X B pk infos ?s "()" s1] l(2) q(1) assms(4) by fastforce
  qed
  then obtain e' where "r = Inl e'" by (cases r) auto
  hence "GarbageCollect X stop1 stop2 (Some B) pk dry s = Some ((Some e', gcCounts s1), s)"
    using l(1) eachObject_mark_store [OF l(2)] by (simp add: GarbageCollect_def)
  thus ?thesis by blast
qed

end

end
