(* ===== verification/Repository_Props.thy ===== *)
theory Repository_Props
  imports Repository_Inv Chunk_Props
begin

text \<open>
  Backups in a repository, from the stream that is read to the stream that is restored: what \<open>Feed\<close> uploads and \<open>CommitManifest\<close>
  records is restored byte for byte after any further uploads, commits and collections. The stores meant are those of
  \<open>listing_store\<close>, which the in-memory backend is shown to be.
\<close>

section \<open>The in-memory backend\<close>

definition mem_listed :: "memoryBackend \<Rightarrow> bool" where
  "mem_listed b \<longleftrightarrow> mem_inv b \<and> (\<forall>k. mem_objs b k \<noteq> None \<longrightarrow> key_ok k)"

interpretation mel: listing_store "memoryOps sha now" mem_objs mem_listed key_ok for sha now
proof
  fix s s' :: memoryBackend and k bs n info
  assume *: "mem_listed s" "key_ok k" "putOp (memoryOps sha now) k bs n s = (Inr info, s')"
  thus "mem_objs s k = None \<and> mem_objs s' = (mem_objs s)(k \<mapsto> bs) \<and> infoSize info = length bs \<and> mem_listed s'"
    using mem.put_ok [of s k sha now bs n info s'] by (auto simp: mem_listed_def)
next
  fix s s' :: memoryBackend and k bs n e
  assume *: "mem_listed s" "key_ok k" "putOp (memoryOps sha now) k bs n s = (Inl e, s')"
  thus "mem_objs s' = mem_objs s \<and> mem_listed s'" using mem.put_err [of s k sha now bs n e s'] by (auto simp: mem_listed_def)
next
  fix s s' :: memoryBackend and k u
  assume *: "mem_listed s" "key_ok k" "deleteOp (memoryOps sha now) k s = (Inr u, s')"
  thus "mem_objs s' = (mem_objs s)(k := None) \<and> mem_listed s'" using mem.delete_ok [of s k sha now u s'] by (auto simp: mem_listed_def)
next
  fix s s' :: memoryBackend and k e
  assume *: "mem_listed s" "key_ok k" "deleteOp (memoryOps sha now) k s = (Inl e, s')"
  thus "mem_objs s' = mem_objs s \<and> mem_listed s'" using mem.delete_err [of s k sha now e s'] by (auto simp: mem_listed_def)
next
  fix s :: memoryBackend and k x
  assume "getOp (memoryOps sha now) s k = Inr x"
  thus "key_ok k" by (auto simp: memoryOps_def Memory_Get_def key_ok_def split: sum.splits)
next
  fix s :: memoryBackend
  have "dom (mem_objs s) = dom (map_of (memObjects s))" by (auto simp: mem_objs_def dom_def)
  thus "finite (dom (mem_objs s))" by (simp add: finite_dom_map_of)
next
  fix s :: memoryBackend and prefix token page info
  assume *: "mem_listed s" "listOp (memoryOps sha now) s prefix token = Inr page" "info \<in> set (pageObjects page)"
  then obtain k obj where k: "(k, obj) \<in> set (memObjects s)" "in_page prefix token k" "info = objInfo obj"
    by (auto simp: memoryOps_def Memory_List_def in_page_def)
  have "infoKey info = k" "map_of (memObjects s) k = Some obj"
    using *(1) k kv_sorted_fst_inj [of "memObjects s"] by (auto simp: mem_listed_def mem_inv_def)
  thus "mem_objs s (infoKey info) \<noteq> None \<and> in_page prefix token (infoKey info)" using k by (simp add: mem_objs_def)
next
  fix s :: memoryBackend and prefix token page k
  assume *: "mem_listed s" "listOp (memoryOps sha now) s prefix token = Inr page" "mem_objs s k \<noteq> None" "in_page prefix token k"
  then obtain obj where k: "(k, obj) \<in> set (memObjects s)" by (auto simp: mem_objs_def dest: map_of_SomeD)
  hence "infoKey (objInfo obj) = k" using *(1) by (auto simp: mem_listed_def mem_inv_def)
  thus "k \<in> infoKey ` set (pageObjects page) \<or> (pageNextToken page \<noteq> [] \<and> pageNextToken page < k)"
    using *(2,4) k by (force simp: memoryOps_def Memory_List_def in_page_def)
next
  fix s :: memoryBackend and prefix token page
  assume "listOp (memoryOps sha now) s prefix token = Inr page" "pageNextToken page \<noteq> []"
  thus "pageNextToken page \<in> infoKey ` set (pageObjects page) \<and> (\<forall>info \<in> set (pageObjects page). infoKey info \<le> pageNextToken page)"
    by (auto simp: memoryOps_def Memory_List_def)
next
  fix s :: memoryBackend and k
  assume "mem_listed s" "key_ok k"
  thus "existsOp (memoryOps sha now) s k = Inr (mem_objs s k \<noteq> None)" using mem.exists_law [of s k sha now] by (simp add: mem_listed_def)
qed (auto simp: mem_listed_def intro: mem.put_taken mem.get_found mem.get_missing)

section \<open>Restoring from another state of the store\<close>

definition same_chunk :: "chunkRef \<Rightarrow> chunkRef \<Rightarrow> bool" where
  "same_chunk r r' \<longleftrightarrow> rKey r' = rKey r \<and> rHash r' = rHash r \<and> rCompression r' = rCompression r \<and> rSize r' = rSize r"

lemma restoreLoop_ConsE:
  assumes "restoreLoop L H p B b (r # rs) ws = (Inr u, ws')"
  obtains env i z hd cmp bs where "rKey r \<noteq> []" "getOp B b (rKey r) = Inr (env, i)" "OpenEnvelope (Cipher p) env (rHash r) = Inr (z, hd)"
    "compressorFor L p (rCompression r) = Inr cmp" "decompressFn cmp z = Some bs" "H bs = rHash r" "\<not> (0 \<le> rSize r \<and> int (length bs) \<noteq> rSize r)"
    "restoreLoop L H p B b rs (fst ws @ bs, (snd ws)\<lparr>stChunks := stChunks (snd ws) + 1, stBytesIn := stBytesIn (snd ws) + int (length bs)\<rparr>) = (Inr u, ws')"
proof -
  have k: "rKey r \<noteq> []" using assms by (auto simp: Let_def split: if_splits)
  obtain env i where g: "getOp B b (rKey r) = Inr (env, i)" using assms k by (auto simp: Let_def split: sum.splits)
  obtain z hd where o: "OpenEnvelope (Cipher p) env (rHash r) = Inr (z, hd)" using assms k g by (auto simp: Let_def split: sum.splits)
  obtain cmp where c: "compressorFor L p (rCompression r) = Inr cmp" using assms k g o by (auto simp: Let_def split: sum.splits)
  obtain bs where d: "decompressFn cmp z = Some bs" using assms k g o c by (auto simp: Let_def split: option.splits)
  have h: "H bs = rHash r" "\<not> (0 \<le> rSize r \<and> int (length bs) \<noteq> rSize r)" using assms k g o c d by (auto simp: Let_def split: if_splits)
  from that [OF k g o c d h] show thesis using assms k g o c d h by (simp add: Let_def)
qed

lemma restoreLoop_moves:
  assumes "list_all2 same_chunk rs rs'" "restoreLoop L H p B b rs ws = (Inr u, ws')"
    "\<And>r env i. r \<in> set rs \<Longrightarrow> rKey r \<noteq> [] \<Longrightarrow> getOp B b (rKey r) = Inr (env, i) \<Longrightarrow> \<exists>i'. getOp B b' (rKey r) = Inr (env, i')"
  shows "restoreLoop L H p B b' rs' ws = (Inr u, ws')"
  using assms
proof (induction arbitrary: ws rule: list_all2_induct)
  case (Cons r rs r' rs')
  have f: "rKey r' = rKey r" "rHash r' = rHash r" "rCompression r' = rCompression r" "rSize r' = rSize r" using Cons.hyps(1) by (simp_all add: same_chunk_def)
  obtain env i z hd cmp bs where r: "rKey r \<noteq> []" "getOp B b (rKey r) = Inr (env, i)" "OpenEnvelope (Cipher p) env (rHash r) = Inr (z, hd)"
    "compressorFor L p (rCompression r) = Inr cmp" "decompressFn cmp z = Some bs" "H bs = rHash r" "\<not> (0 \<le> rSize r \<and> int (length bs) \<noteq> rSize r)"
    "restoreLoop L H p B b rs (fst ws @ bs, (snd ws)\<lparr>stChunks := stChunks (snd ws) + 1, stBytesIn := stBytesIn (snd ws) + int (length bs)\<rparr>) = (Inr u, ws')"
    by (rule restoreLoop_ConsE [OF Cons.prems(1)])
  obtain i' where g': "getOp B b' (rKey r) = Inr (env, i')" using Cons.prems(2) [of r] r(1,2) by auto
  from Cons.IH [OF r(8) Cons.prems(2)] show ?case using f r(1,3-7) g' by (simp add: Let_def)
qed simp

lemma restoreLoop_read:
  "restoreLoop L H p B b rs ws = (Inr u, ws') \<Longrightarrow> r \<in> set rs \<Longrightarrow> rKey r \<noteq> [] \<and> (\<exists>x. rHash r = H x)"
proof (induction rs arbitrary: ws)
  case (Cons r' rs)
  from Cons.prems(1) show ?case by (rule restoreLoop_ConsE) (use Cons.IH Cons.prems(2) in \<open>auto intro: sym\<close>)
qed simp

lemma pipelineRefsFrom_keys: "pipelineRefsFrom i rs = Inr out \<Longrightarrow> map rKey out = map mrKey rs \<and> map rSequence out = [i..<i + length rs]"
proof (induction rs arbitrary: i out)
  case (Cons r rs)
  obtain h out' where o: "pipelineRefsFrom (i + 1) rs = Inr out'" "map rKey out = mrKey r # map rKey out'" "map rSequence out = i # map rSequence out'"
    using Cons.prems by (auto split: option.splits sum.splits)
  thus ?case using Cons.IH [OF o(1)] by (simp add: upt_conv_Cons del: upt_Suc)
qed simp

lemma PipelineRefs_sorted: "PipelineRefs rs = Inr out \<Longrightarrow> sort_key rSequence out = out"
  using pipelineRefsFrom_keys [of 0 rs out] by (auto simp: PipelineRefs_def intro!: sort_key_id_if_sorted)

text \<open>The way of references through a manifest.\<close>

lemma PipelineRefs_Restore:
  assumes "Restore L H p b rs = (Inr u, data, st)" "sort_key rSequence rs = rs" "\<forall>x. length (H x) = HashSize"
  obtains rs' where "PipelineRefs (map ChunkFromPipeline rs) = Inr rs'" "Restore L H p b rs' = (Inr u, data, st)"
proof -
  obtain B where B: "Backend p = Some B" "Cipher p \<noteq> None" "restoreLoop L H p B b rs ([], zeroStats) = (Inr u, data, st)"
    using assms(1,2) by (auto simp: Restore_def split: option.splits if_splits)
  let ?rs' = "map (\<lambda>(n, r). r\<lparr>rSequence := n, rDuplicate := False\<rparr>) (enumerate 0 rs)"
  have p: "PipelineRefs (map ChunkFromPipeline rs) = Inr ?rs'"
    unfolding PipelineRefs_def by (rule pipelineRefs_back) (metis restoreLoop_read [OF B(3)] assms(3))
  have "list_all2 same_chunk rs ?rs'" by (simp add: list_all2_conv_all_nth nth_enumerate_eq same_chunk_def)
  from restoreLoop_moves [OF this B(3), of b] have "restoreLoop L H p B b ?rs' ([], zeroStats) = (Inr u, data, st)" by blast
  thus thesis using that [OF p] B(1,2) PipelineRefs_sorted [OF p] by (simp add: Restore_def)
qed

section \<open>Backups that can be restored\<close>

text \<open>The object under the key is a manifest that verifies, and restoring what it refers to writes the data.\<close>

definition restorable :: "manifestLib \<Rightarrow> 'b backend \<Rightarrow> bytes \<Rightarrow> compressLib \<Rightarrow> (bytes \<Rightarrow> bytes) \<Rightarrow> 'b pipeline \<Rightarrow> 'b \<Rightarrow> string \<Rightarrow> bytes \<Rightarrow> bool" where
  "restorable X B pk L H p s key data \<longleftrightarrow> (\<exists>m info obj rs st. LoadManifest X (Some B) s key pk = Inr (m, info) \<and> mfObjects m = [obj]
     \<and> PipelineRefs (moChunks obj) = Inr rs \<and> Restore L H p s rs = (Inr (), data, st))"

lemma LoadManifest_cong:
  assumes "LoadManifest X (Some B) s key pk = Inr (m, info)" "\<And>data i. getOp B s key = Inr (data, i) \<Longrightarrow> \<exists>i'. getOp B s' key = Inr (data, i')"
  shows "\<exists>info'. LoadManifest X (Some B) s' key pk = Inr (m, info')"
proof -
  obtain data i where g: "getOp B s key = Inr (data, i)" using assms(1) by (auto simp: LoadManifest_def split: if_splits sum.splits)
  then obtain i' where "getOp B s' key = Inr (data, i')" using assms(2) by blast
  thus ?thesis using assms(1) g by (auto simp: LoadManifest_def split: if_splits sum.splits)
qed

context listing_store
begin

lemma get_moves: "binv s \<Longrightarrow> binv s' \<Longrightarrow> getOp B s k = Inr (data, i) \<Longrightarrow> objs s' k = objs s k \<Longrightarrow> \<exists>i'. getOp B s' k = Inr (data, i')"
  using get_iff get_good get_found by metis

lemma restorable_moves:
  assumes "binv s" "binv s'" "restorable X B pk L H p s key data" "Backend p = Some B" "HasPrefix key ''manifests/''" "objs s' key = objs s key"
    "\<And>k. k \<in> referenced X B pk s \<Longrightarrow> objs s k \<noteq> None \<Longrightarrow> objs s' k = objs s k"
  shows "restorable X B pk L H p s' key data"
proof -
  obtain m info obj rs st where r: "LoadManifest X (Some B) s key pk = Inr (m, info)" "mfObjects m = [obj]" "PipelineRefs (moChunks obj) = Inr rs"
    "Restore L H p s rs = (Inr (), data, st)" using assms(3) by (auto simp: restorable_def)
  obtain info' where l: "LoadManifest X (Some B) s' key pk = Inr (m, info')"
    using LoadManifest_cong [OF r(1)] get_moves [OF assms(1,2) _ assms(6)] by blast
  have lp: "Cipher p \<noteq> None" "restoreLoop L H p B s rs ([], zeroStats) = (Inr (), data, st)"
    using r(4) assms(4) PipelineRefs_sorted [OF r(3)] by (auto simp: Restore_def split: if_splits)
  have "\<exists>i'. getOp B s' (rKey x) = Inr (env, i')" if x: "x \<in> set rs" "rKey x \<noteq> []" "getOp B s (rKey x) = Inr (env, i)" for x env i
  proof -
    have "rKey x \<in> mrKey ` set (manifestRefs m)"
      using pipelineRefsFrom_keys [of 0 "moChunks obj" rs] r(2,3) x(1) by (metis PipelineRefs_def concat.simps image_set append_Nil2 list.simps(8,9) manifestRefs_def image_eqI)
    hence "rKey x \<in> referenced X B pk s" using r(1) assms(5) x(2) by (auto simp: referenced_def)
    moreover have "objs s (rKey x) \<noteq> None" using get_iff [OF assms(1) get_good [OF assms(1) x(3)] x(3)] by simp
    ultimately show ?thesis using get_moves [OF assms(1,2) x(3)] assms(7) by blast
  qed
  from restoreLoop_moves [OF list_all2_refl lp(2) this] have "restoreLoop L H p B s' rs ([], zeroStats) = (Inr (), data, st)" by (simp add: same_chunk_def)
  hence "Restore L H p s' rs = (Inr (), data, st)" using assms(4) lp(1) PipelineRefs_sorted [OF r(3)] by (simp add: Restore_def)
  with l r(2,3) show ?thesis by (auto simp: restorable_def)
qed

lemma upload_restorable:
  assumes "binv s" "good_key k" "putOp B k bs n s = (r, s')" "restorable X B pk L H p s key data" "Backend p = Some B" "HasPrefix key ''manifests/''"
  shows "binv s'" "restorable X B pk L H p s' key data"
proof -
  have u: "binv s' \<and> (\<forall>k. objs s k \<noteq> None \<longrightarrow> objs s' k = objs s k)"
    using put_ok [OF assms(1,2), of bs n _ s'] put_err [OF assms(1,2), of bs n _ s'] assms(3) by (cases r) auto
  thus "binv s'" by blast
  obtain d i where "getOp B s key = Inr (d, i)" using assms(4) by (auto simp: restorable_def LoadManifest_def split: if_splits sum.splits)
  hence "objs s key \<noteq> None" using get_iff get_good assms(1) by blast
  with u show "restorable X B pk L H p s' key data" by (intro restorable_moves [OF assms(1) _ assms(4-6)]) auto
qed

lemma collect_restorable:
  assumes "binv s" "GarbageCollect X stop1 stop2 (Some B) pk dry s = Some (res, s')" "restorable X B pk L H p s key data" "Backend p = Some B" "HasPrefix key ''manifests/''"
  shows "binv s'" "restorable X B pk L H p s' key data"
proof -
  obtain e rep where c: "binv s'" "\<forall>k. objs s' k = objs s k \<or> (objs s' k = None \<and> \<not> dry \<and> HasPrefix k ''data/'' \<and> k \<notin> referenced X B pk s)"
    using collect_exact [OF assms(1), of X stop1 stop2 pk dry] assms(2) by auto
  thus "binv s'" by blast
  have "\<not> HasPrefix key ''data/''" using assms(5) by (auto simp: HasPrefix_iff)
  with c show "restorable X B pk L H p s' key data" by (intro restorable_moves [OF assms(1) _ assms(3-5)]) blast+
qed

end

section \<open>Any sequence of operations\<close>

text \<open>What else happens to a repository: objects are uploaded, which all other backups do, manifests are committed, and garbage is
  collected, with success or not.\<close>

inductive repo_step :: "manifestLib \<Rightarrow> 'b backend \<Rightarrow> (string \<Rightarrow> bool) \<Rightarrow> bytes \<Rightarrow> 'b \<Rightarrow> 'b \<Rightarrow> bool" for X B good_key pk where
  upload: "good_key k \<Longrightarrow> putOp B k bs n s = (r, s') \<Longrightarrow> repo_step X B good_key pk s s'"
| commit: "good_key (manifestKey clock (coFinishedAt opts) (coBackupID opts)) \<Longrightarrow> CommitManifest Y clock (Some B) rs st opts s = (r2, s') \<Longrightarrow> repo_step X B good_key pk s s'"
| collect: "GarbageCollect X stop1 stop2 (Some B) pk dry s = Some (res, s') \<Longrightarrow> repo_step X B good_key pk s s'"

lemma CommitManifest_put:
  assumes "CommitManifest Y clock (Some B) rs st opts s = (r, s')"
  shows "s' = s \<or> (\<exists>data n x. putOp B (manifestKey clock (coFinishedAt opts) (coBackupID opts)) data n s = (x, s'))"
  using assms by (auto simp: CommitManifest_def Let_def split: if_splits sum.splits option.splits prod.splits)

lemma repo_step_restorable:
  assumes "listing_store B objs binv good_key" "repo_step X B good_key pk s s'" "binv s" "restorable X B pk L H p s key data" "Backend p = Some B"
    "HasPrefix key ''manifests/''"
  shows "binv s' \<and> restorable X B pk L H p s' key data"
  using assms(2)
proof cases
  case (upload k bs n r)
  show ?thesis using listing_store.upload_restorable [OF assms(1,3) upload assms(4-6)] by blast
next
  case (commit clock opts Y rs st r2)
  consider "s' = s" | data n x where "putOp B (manifestKey clock (coFinishedAt opts) (coBackupID opts)) data n s = (x, s')"
    using CommitManifest_put [OF commit(2)] by blast
  thus ?thesis
  proof cases
    case 2
    show ?thesis using listing_store.upload_restorable [OF assms(1,3) commit(1) 2 assms(4-6)] by blast
  qed (use assms(3,4) in simp)
next
  case (collect stop1 stop2 dry res)
  show ?thesis using listing_store.collect_restorable [OF assms(1,3) collect assms(4-6)] by blast
qed

lemma repo_steps_restorable:
  assumes "listing_store B objs binv good_key" "(repo_step X B good_key pk)\<^sup>*\<^sup>* s s'" "binv s" "restorable X B pk L H p s key data" "Backend p = Some B"
    "HasPrefix key ''manifests/''"
  shows "restorable X B pk L H p s' key data"
proof -
  have "binv s' \<and> restorable X B pk L H p s' key data"
    using assms(2)
  proof (induction rule: rtranclp_induct)
    case (step y z)
    thus ?case using repo_step_restorable [OF assms(1) step.hyps(2) _ _ assms(5,6)] by blast
  qed (use assms(3,4) in simp)
  thus ?thesis by blast
qed

section \<open>Commit\<close>

lemma CommitManifest_steps:
  assumes "CommitManifest X clock (Some B) rs st opts s = (Inr res, s')"
  obtains m data where "manifest_Sign X (coPrivateKey opts) m = Inr (crManifest res)" "mfVersion m = Version"
    "mfObjects m = [\<lparr>moSchema = [], moName = ''stream'', moChunks = map ChunkFromPipeline rs\<rparr>]" "jsonMarshalIndent X (crManifest res) = Some data"
    "crKey res = manifestKey clock (coFinishedAt opts) (coBackupID opts)" "putOp B (crKey res) data (int (length data)) s = (Inr (crInfo res), s')"
  using assms by (fastforce simp: CommitManifest_def Let_def manifest_New_def split: if_splits sum.splits option.splits prod.splits)

lemma manifestKey_prefix: "HasPrefix (manifestKey clock t i) ''manifests/''" "manifestKey clock t i \<noteq> []"
  by (simp_all add: manifestKey_def Let_def HasPrefix_iff)

lemma listing_object: "listing_store B objs binv good_key \<Longrightarrow> object_store B objs binv good_key"
  by (rule listing_store.axioms(1))

lemma CommitManifest_stored:
  assumes "listing_store B objs binv good_key" "binv s" "good_key (crKey res)" "CommitManifest X clock (Some B) rs st opts s = (Inr res, s')"
  obtains data where "jsonMarshalIndent X (crManifest res) = Some data" "objs s (crKey res) = None" "objs s' = (objs s)(crKey res \<mapsto> data)"
    "infoSize (crInfo res) = length data" "binv s'"
proof -
  obtain m data where c: "jsonMarshalIndent X (crManifest res) = Some data" "putOp B (crKey res) data (int (length data)) s = (Inr (crInfo res), s')"
    using CommitManifest_steps [OF assms(4)] by metis
  note p = object_store.put_ok [OF listing_object [OF assms(1)] assms(2,3) c(2)]
  show thesis by (rule that [OF c(1)]) (use p in simp_all)
qed

text \<open>Committing the references of a stream that can be restored makes the backup restorable.\<close>

lemma Commit_restorable:
  assumes "listing_store B objs binv good_key" "binv s" "Backend p = Some B" "\<forall>x. length (H x) = HashSize"
    and "Restore L H p s rs = (Inr (), data, st')" "sort_key rSequence rs = rs"
    and "CommitManifest X clock (Some B) rs st opts s = (Inr res, s1)" "good_key (crKey res)" "infoSize (crInfo res) \<le> maxManifestBytes"
    and "keyPair X (coPrivateKey opts) pk" "jsonReads X P" "P (crManifest res)"
  shows "binv s1" "restorable X B pk L H p s1 (crKey res) data"
proof -
  note os = listing_object [OF assms(1)]
  obtain m where m: "manifest_Sign X (coPrivateKey opts) m = Inr (crManifest res)" "mfVersion m = Version"
    "mfObjects m = [\<lparr>moSchema = [], moName = ''stream'', moChunks = map ChunkFromPipeline rs\<rparr>]"
    "crKey res = manifestKey clock (coFinishedAt opts) (coBackupID opts)" by (rule CommitManifest_steps [OF assms(7)])
  obtain bs where b: "jsonMarshalIndent X (crManifest res) = Some bs" "objs s (crKey res) = None" "objs s1 = (objs s)(crKey res \<mapsto> bs)"
    "infoSize (crInfo res) = length bs" "binv s1" by (rule CommitManifest_stored [OF assms(1,2,8,7)])
  show "binv s1" by (rule b(5))
  note sg = Sign_Verify [OF assms(10) m(1)]
  obtain info where g: "getOp B s1 (crKey res) = Inr (bs, info)" using object_store.get_found [OF os b(5) assms(8)] b(3) by auto
  have j: "jsonUnmarshal X bs = Some (crManifest res)" using assms(11,12) b(1) by (auto simp: jsonReads_def)
  have l: "LoadManifest X (Some B) s1 (crKey res) pk = Inr (crManifest res, info)"
    using g j sg(1,4) m(2,4) b(4) assms(9) manifestKey_prefix(2) by (simp add: LoadManifest_def manifest_Parse_def)
  obtain rs' where rs': "PipelineRefs (map ChunkFromPipeline rs) = Inr rs'" "Restore L H p s rs' = (Inr (), data, st')"
    by (rule PipelineRefs_Restore [OF assms(5,6,4)])
  have lp: "Cipher p \<noteq> None" "restoreLoop L H p B s rs' ([], zeroStats) = (Inr (), data, st')"
    using rs'(2) assms(3) PipelineRefs_sorted [OF rs'(1)] by (auto simp: Restore_def split: if_splits)
  have "\<exists>i'. getOp B s1 k = Inr (env, i')" if k: "getOp B s k = Inr (env, i)" for k env i
  proof -
    have "objs s k = Some env" by (rule object_store.get_iff [OF os assms(2) listing_store.get_good [OF assms(1,2) k] k])
    hence "objs s1 k = objs s k" using b(2,3) by auto
    thus ?thesis by (rule listing_store.get_moves [OF assms(1,2) b(5) k])
  qed
  hence "restoreLoop L H p B s1 rs' ([], zeroStats) = (Inr (), data, st')"
    using restoreLoop_moves [OF list_all2_refl lp(2)] by (simp add: same_chunk_def)
  hence "Restore L H p s1 rs' = (Inr (), data, st')" using assms(3) lp(1) PipelineRefs_sorted [OF rs'(1)] by (simp add: Restore_def)
  thus "restorable X B pk L H p s1 (crKey res) data" using l sg(3) m(3) rs'(1) by (auto simp: restorable_def)
qed

section \<open>The properties\<close>

text \<open>C1. Backup, commit and restore, from end to end: let \<open>Feed\<close> read a good reader into a store with listings, and let
  \<open>CommitManifest\<close> record the references it returns in a manifest of at most 64 MiB. After any sequence of further uploads, commits and
  garbage collections, whether they succeed or fail, the manifest still loads and verifies under the public key, and \<open>Restore\<close> of what
  it refers to writes exactly the content of the reader.\<close>

theorem committed_backup_restores:
  assumes "listing_store B objs binv good_key" "io_reader rd content good"
    and "Backend p = Some B" "\<forall>h. length h = HashSize \<longrightarrow> good_key (contentKey h)" "pipe_ok L H p D"
    and "cdc_ok (pipeChunker p)" "good r" "length (content r) < rounds" "set (cuts (pipeChunker p) (content r)) \<subseteq> D"
    and "dedupInv d" "binv b" "\<forall>k \<in> dedupKnown d. stored_in (objs b) p H D k"
    and "feed_run H p (feedStart rd rounds procs p d b r) t" "feedDone t" "\<not> ctxCancelled t" "feedResult t = Inr (rs, st)"
    and "CommitManifest X clock (Some B) rs st opts (store t) = (Inr res, s1)" "good_key (crKey res)" "infoSize (crInfo res) \<le> maxManifestBytes"
    and "keyPair X (coPrivateKey opts) pk" "jsonReads X P" "P (crManifest res)"
    and "(repo_step X B good_key pk)\<^sup>*\<^sup>* s1 s2"
  shows "\<exists>m info obj rs' st'. LoadManifest X (Some B) s2 (crKey res) pk = Inr (m, info) \<and> mfObjects m = [obj] \<and> PipelineRefs (moChunks obj) = Inr rs'
    \<and> Restore L H p s2 rs' = (Inr (), content r, st')"
proof -
  note fr = Feed_restored [OF listing_object [OF assms(1)] assms(2-16)]
  obtain st' where st': "Restore L H p (store t) rs = (Inr (), content r, st')" using fr(1) by blast
  have so: "sort_key rSequence rs = rs" using feedResult_live(2) [OF assms(13,15,16)] by (simp add: sort_key_id_if_sorted)
  have h: "\<forall>x. length (H x) = HashSize" using assms(5) by (simp add: pipe_ok_def)
  note c = Commit_restorable [OF assms(1) fr(2) assms(3) h st' so assms(17-22)]
  obtain m where "crKey res = manifestKey clock (coFinishedAt opts) (coBackupID opts)" by (rule CommitManifest_steps [OF assms(17)])
  from repo_steps_restorable [OF assms(1,23) c assms(3)] this manifestKey_prefix(1)
  have "restorable X B pk L H p s2 (crKey res) (content r)" by simp
  thus ?thesis by (simp add: restorable_def)
qed

text \<open>C2. A garbage collection ends on every store with listings. If it returns no error, and is not a dry run, it has removed exactly
  the objects under \<open>data/\<close> that no manifest refers to; a dry run removes nothing; and if it returns an error, everything it removed is
  such an object.\<close>

theorem GarbageCollect_exact:
  assumes "listing_store B objs binv good_key" "binv s"
  shows "\<exists>e rep s'. GarbageCollect X stop1 stop2 (Some B) pk dry s = Some ((e, rep), s')
    \<and> (\<forall>k. objs s' k = objs s k \<or> (objs s' k = None \<and> \<not> dry \<and> HasPrefix k ''data/'' \<and> k \<notin> referenced X B pk s))
    \<and> (e = None \<longrightarrow> (\<forall>k. objs s' k = (if \<not> dry \<and> HasPrefix k ''data/'' \<and> k \<notin> referenced X B pk s then None else objs s k)))"
  using listing_store.collect_exact [OF assms, of X stop1 stop2 pk dry] by metis


section \<open>Examples\<close>

definition demoOpts :: commitOptions where
  "demoOpts = \<lparr>coBackupID = ''b'', coTarget = ''t'', coDriver = \<lparr>mdName = ''redis'', mdVersion = [], mdSourceTZ = []\<rparr>, coType = BackupTypeFull, coParentID = None,
     coStartedAt = 1, coFinishedAt = 1, coEncryption = \<lparr>meAlgorithm = AlgorithmAES256GCM, meKeyID = ''k'', meKDF = []\<rparr>, coPrivateKey = replicate 64 0\<rparr>"

definition demoSigner :: "bytes \<Rightarrow> manifest \<Rightarrow> manifestLib" where
  "demoSigner bs m = \<lparr>ed25519Sign = (\<lambda>_ _. []), ed25519Verify = (\<lambda>_ _ _. True), jsonMarshal = (\<lambda>_. Some []), jsonMarshalIndent = (\<lambda>_. Some bs), jsonUnmarshal = (\<lambda>_. Some m)\<rparr>"

lemma demo_key: "key_ok (manifestKey 1 (coFinishedAt demoOpts) (coBackupID demoOpts))"
proof -
  have e: "coFinishedAt demoOpts = 1" "coBackupID demoOpts = ''b''" by (simp_all add: demoOpts_def)
  show ?thesis unfolding e by code_simp
qed

lemma demo_commit:
  assumes "\<forall>k. mem_objs s k \<noteq> None \<longrightarrow> HasPrefix k ''data/''"
  obtains res s1 where "\<forall>m. CommitManifest (demoSigner bs m) 1 (Some (memoryOps (\<lambda>x. x) 0)) rs st demoOpts s = (Inr res, s1)" "key_ok (crKey res)"
    "infoSize (crInfo res) = length bs"
proof -
  let ?k = "manifestKey 1 (coFinishedAt demoOpts) (coBackupID demoOpts)"
  let ?m = "manifest_New\<lparr>mfBackupID := coBackupID demoOpts, mfTarget := coTarget demoOpts, mfDriver := coDriver demoOpts, mfType := coType demoOpts,
    mfParentID := coParentID demoOpts, mfStartedAt := coStartedAt demoOpts, mfFinishedAt := coFinishedAt demoOpts, mfEncryption := coEncryption demoOpts,
    mfStats := \<lparr>msLogicalSizeBytes = stBytesIn st, msStoredSizeBytes = stBytesUploaded st, msChunkCount = int (stChunks st), msDedupRatio = dedupRatio st\<rparr>,
    mfObjects := [\<lparr>moSchema = [], moName = ''stream'', moChunks = map ChunkFromPipeline rs\<rparr>]\<rparr>"
  let ?s = "?m\<lparr>mfSignature := Some \<lparr>sgAlgorithm = ''ed25519'', sgValue = hexEncode []\<rparr>\<rparr>"
  have "\<not> HasPrefix ?k ''data/''" using manifestKey_prefix(1) [of 1 "coFinishedAt demoOpts" "coBackupID demoOpts"] by (auto simp: HasPrefix_iff)
  hence "map_of (memObjects s) ?k = None" using assms by (auto simp: mem_objs_def)
  then obtain info s1 where p: "putOp (memoryOps (\<lambda>x. x) 0) ?k bs (int (length bs)) s = (Inr info, s1)" "infoSize info = length bs"
    using demo_key by (simp add: memoryOps_def Memory_Put_def key_ok_def Let_def)
  have k: "length (coPrivateKey demoOpts) = 64" "coBackupID demoOpts \<noteq> []" "coTarget demoOpts \<noteq> []" by (simp_all add: demoOpts_def)
  have "manifest_Sign (demoSigner bs m) (coPrivateKey demoOpts) ?m = Inr ?s" for m
    using k(1) by (simp add: manifest_Sign_def CanonicalJSON_def demoSigner_def)
  hence "\<forall>m. CommitManifest (demoSigner bs m) 1 (Some (memoryOps (\<lambda>x. x) 0)) rs st demoOpts s = (Inr \<lparr>crManifest = ?s, crKey = ?k, crInfo = info\<rparr>, s1)"
    using p(1) k(2,3) by (simp only: CommitManifest_def option.case if_False Let_def sum.case prod.case) (simp add: demoSigner_def)
  thus thesis by (rule that) (use demo_key p(2) in simp_all)
qed

lemma demo_keyPair: "keyPair (demoSigner bs m) (coPrivateKey demoOpts) (replicate 32 0)" "jsonReads (demoSigner bs m) (\<lambda>x. x = m)"
  by (simp_all add: keyPair_def demoSigner_def demoOpts_def jsonReads_def)

lemma demo_empty: "mem_listed (NewMemoryBackend nm)" "mem_objs (NewMemoryBackend nm) k = None"
  by (simp_all add: mem_listed_def NewMemoryBackend_ok)

theorem committed_backup_restores_witness:
  "\<exists>t rs st res s1 g s2 info m obj rs' st'. feedResult t = Inr (rs, st)
     \<and> CommitManifest (demoSigner [1] (crManifest res)) 1 (Some (memoryOps (\<lambda>x. x) 0)) rs st demoOpts (store t) = (Inr res, s1)
     \<and> GarbageCollect (demoSigner [1] (crManifest res)) (\<lambda>_. False) (\<lambda>_. False) (Some (memoryOps (\<lambda>x. x) 0)) (replicate 32 0) False s1 = Some (g, s2)
     \<and> LoadManifest (demoSigner [1] (crManifest res)) (Some (memoryOps (\<lambda>x. x) 0)) s2 (crKey res) (replicate 32 0) = Inr (m, info)
     \<and> mfObjects m = [obj] \<and> PipelineRefs (moChunks obj) = Inr rs' \<and> Restore demoLib demoHash demoPipe s2 rs' = (Inr (), [1], st')"
proof -
  obtain t rs st where t: "feed_run demoHash demoPipe (feedStart bytesRead 2 1 demoPipe (Seen {}) (NewMemoryBackend ''m'') [1]) t"
     "feedDone t" "\<not> ctxCancelled t" "feedResult t = Inr (rs, st)" and d: "\<forall>k. mem_objs (store t) k \<noteq> None \<longrightarrow> HasPrefix k ''data/''" using demo_run_data by blast
  obtain res s1 where c: "\<forall>m. CommitManifest (demoSigner [1] m) 1 (Some (memoryOps (\<lambda>x. x) 0)) rs st demoOpts (store t) = (Inr res, s1)" "key_ok (crKey res)"
    "infoSize (crInfo res) = length [1 :: byte]" by (rule demo_commit [OF d, of "[1]" rs st])
  have z: "infoSize (crInfo res) \<le> maxManifestBytes" using c(3) by (simp add: maxManifestBytes_def)
  let ?X = "demoSigner [1] (crManifest res)" and ?B = "memoryOps (\<lambda>x. x) 0" and ?pk = "replicate 32 0 :: bytes"
  have ob: "object_store ?B mem_objs mem_listed key_ok" by (rule listing_object [OF mel.listing_store_axioms])
  have "mem_listed (store t)"
    by (rule Feed_restored(2) [OF ob br.io_reader_axioms _ _ demo_ok _ _ _ _ _ _ _ t])
      (use demo_chunker demo_cuts in \<open>simp_all add: demoPipe_def contentKey_ok HashSize_def demo_empty\<close>)
  then obtain bs where "mem_listed s1" by (rule CommitManifest_stored [OF mel.listing_store_axioms _ c(2) spec [OF c(1), of "crManifest res"]])
  from mel.collect_exact [where X = ?X and pk = ?pk and dry = False and ?stop1.0 = "\<lambda>_. False" and ?stop2.0 = "\<lambda>_. False", OF this, of "\<lambda>x. x" 0]
  obtain g s2 where g: "GarbageCollect ?X (\<lambda>_. False) (\<lambda>_. False) (Some ?B) ?pk False s1 = Some (g, s2)" by blast
  hence "(repo_step ?X ?B key_ok ?pk)\<^sup>*\<^sup>* s1 s2" by (blast intro: repo_step.collect)
  from committed_backup_restores [OF mel.listing_store_axioms br.io_reader_axioms _ _ demo_ok _ _ _ _ _ _ _ t spec [OF c(1)] c(2) z demo_keyPair HOL.refl this]
  have "\<exists>m info obj rs' st'. LoadManifest ?X (Some ?B) s2 (crKey res) ?pk = Inr (m, info) \<and> mfObjects m = [obj] \<and> PipelineRefs (moChunks obj) = Inr rs'
    \<and> Restore demoLib demoHash demoPipe s2 rs' = (Inr (), [1], st')"
    using demo_chunker demo_cuts by (simp add: demoPipe_def contentKey_ok HashSize_def demo_empty)
  with t(4) spec [OF c(1), of "crManifest res"] g show ?thesis by blast
qed

theorem GarbageCollect_exact_witness:
  "\<exists>e rep s'. GarbageCollect (demoSigner [1] manifest_New) (\<lambda>_. False) (\<lambda>_. False) (Some (memoryOps (\<lambda>x. x) 0)) (replicate 32 0) False (NewMemoryBackend ''m'') = Some ((e, rep), s')
     \<and> (\<forall>k. mem_objs s' k = None)"
  using GarbageCollect_exact [where X = "demoSigner [1] manifest_New" and pk = "replicate 32 0" and dry = False and ?stop1.0 = "\<lambda>_. False" and ?stop2.0 = "\<lambda>_. False", OF mel.listing_store_axioms demo_empty(1), of "\<lambda>x. x" 0 "''m''"]
  by (auto simp: demo_empty)


end
