(* ===== verification/Spec2Isabelle.thy ===== *)
theory Spec2Isabelle
  imports KV_Props Chunk_Props Retention_Props Schedule_Props Audit_Props Token_Props Restore_Props Job_Props Repository_Props
begin

text \<open>
  A verification development for Kronos, a backup system for databases: a control plane that schedules backups and keeps its state
  in an embedded database, agents that stream dumps through a deduplicating, encrypting chunk pipeline into an object store, and
  signed manifests from which backups are verified, collected and restored.

  \<^bold>\<open>How the parts fit together.\<close> The control plane (\<open>src/cmd/kronos/server.go\<close>, \<open>src/internal/server\<close>) stores jobs, resources, tokens
  and the audit log in buckets of the embedded database (\<open>src/internal/kvstore\<close>). The scheduler (\<open>src/internal/schedule\<close>) hands out due
  jobs; agents claim them, run \<open>Feed\<close> of the pipeline (\<open>src/internal/chunk\<close>) against a storage backend (\<open>src/internal/storage\<close>), commit
  a manifest (\<open>src/internal/manifest\<close>, \<open>src/internal/repository\<close>) and report the end of the job. Retention (\<open>src/internal/retention\<close>)
  decides which backups stay and \<open>src/internal/restore\<close> plans how one is restored.

  \<^bold>\<open>Conventions.\<close> State is passed explicitly: an operation of type \<open>('s, 'e, 'a) op\<close> maps a state to an error or a result, and a new
  state. Bytes are words of 8 bits, times are nanoseconds since Go's zero time, identifiers and strings are character lists. Code
  outside the sources is a parameter, with its documented behaviour as a named hypothesis where a theorem needs it: JSON encodings
  (\<open>codec\<close> with \<open>codec_ok\<close> or \<open>codec_on\<close>, \<open>jsonReads\<close>), hash functions, authenticated encryption (\<open>aead_opens\<close>, \<open>aead_authentic\<close>),
  Ed25519 (\<open>keyPair\<close>), compression, time zones, \<open>net/url\<close> and the HTTP client of webhooks. Readings of the clock and of the random
  source are arguments. \<open>Prelude\<close> holds the shared lemmas on bytes, slices and sorted association lists, \<open>Go_Strings\<close>, \<open>Go_Format\<close>,
  \<open>Go_Time\<close> and \<open>Go_Base64\<close> what the code uses of Go's library, \<open>Core_Types\<close> and \<open>Server_Types\<close> the types of \<open>core/types.go\<close>.

  \<^bold>\<open>The embedded database.\<close> \<open>Pager\<close> models \<open>pager.go\<close>: the page file with its metadata page and free list as a record, at the level of
  bytes. \<open>Btree_Node\<close>, \<open>Btree\<close> are \<open>btree.go\<close>, nodes with their byte layout and the operations, written against the interface
  \<open>node_store\<close>; \<open>Btree_Spec\<close>, \<open>Btree_Put\<close>, \<open>Btree_Delete\<close>, \<open>Btree_Scan\<close> prove them against trees whose value is a sorted list of pairs,
  and \<open>Btree_Store\<close> interprets the interface by the pager. \<open>KV_DB\<close> is \<open>db.go\<close> and \<open>wal.go\<close>, \<open>KV_Crash\<close> the file-system steps of a
  transaction and of the recovery with crashes between them, \<open>Bucket\<close> and \<open>Repair\<close> the files of these names. \<open>KV_Props\<close> shows that
  \<open>Put\<close>, \<open>Delete\<close>, \<open>Scan\<close> and \<open>Repair\<close> do what they should to the value, that \<open>Put\<close> succeeds within bounds, that transactions are atomic
  under crashes and that buckets do not interfere; \<open>KV_Limits\<close> shows by example where this ends: a full disk and the scan after a
  delete.

  \<^bold>\<open>Chunks and storage.\<close> \<open>FastCDC\<close> is \<open>fastcdc.go\<close> and \<open>gear.go\<close> over readers of any behaviour (locale \<open>io_reader\<close>), \<open>Chunk_Index\<close> is
  \<open>index.go\<close>, \<open>Envelope\<close> is \<open>envelope.go\<close> with \<open>crypto/cipher.go\<close>, \<open>Storage\<close> the interface of backends (locale \<open>object_store\<close>) with the
  in-memory backend. \<open>Pipeline\<close> is \<open>pipeline.go\<close>: \<open>Feed\<close> is a step relation over its channels and workers, so that every interleaving
  is a run of it, and \<open>Pipeline_Inv\<close> its invariant. \<open>Chunk_Props\<close> shows the round trip of \<open>Feed\<close> and \<open>Restore\<close>, deduplication,
  termination, that splitting does not depend on the reader, and that envelopes are authentic.

  \<^bold>\<open>Repositories.\<close> \<open>Manifest\<close> is \<open>manifest.go\<close>, \<open>Repository\<close> is \<open>commit.go\<close>, \<open>gc.go\<close> and \<open>verify/manifest.go\<close>; \<open>Repository_Inv\<close> extends the
  interface of backends by listings (locale \<open>listing_store\<close>) and proves what a collection removes, and \<open>Repository_Props\<close> shows that a
  committed backup is restored byte for byte after any uploads, commits and collections.

  \<^bold>\<open>Schedules and retention.\<close> \<open>Cron\<close>, \<open>Cron_Next\<close>, \<open>Cron_Props\<close> are \<open>cron.go\<close>; \<open>Schedule\<close>, \<open>Schedule_Spec\<close> and \<open>Schedule_Props\<close> are
  \<open>window.go\<close>, \<open>scheduler.go\<close> and \<open>queue.go\<close> with the locales \<open>occurrences\<close> and \<open>job_queue\<close>: the next instant of an expression is the first
  one, ticks hand out every occurrence once and in order, and the queue runs one job of a target at a time. \<open>Retention\<close> and
  \<open>Retention_Props\<close> are \<open>retention.go\<close>; \<open>Restore_Plan\<close> and \<open>Restore_Props\<close> are \<open>restore/plan.go\<close>, together with the proof that retention
  keeps every restore plan of the backups it keeps.

  \<^bold>\<open>The control plane.\<close> \<open>Store\<close> connects stores of records with the value of the database; \<open>Record_Store\<close> states the laws they share
  (locale \<open>record_store\<close>) and interprets them for the stores of \<open>Resource_Store\<close> (\<open>resource_store.go\<close>), \<open>Job_Store\<close> (\<open>job_store.go\<close>,
  \<open>orchestrator.go\<close>), \<open>Token_Store\<close> (\<open>token_store.go\<close>) and \<open>Notifications\<close> (\<open>notification_store.go\<close>). \<open>Resource_Secret\<close> is
  \<open>resource_secret.go\<close> with \<open>crypto/kdf.go\<close>, \<open>Agents\<close> is \<open>agents.go\<close>. \<open>Audit_Log\<close> and \<open>Audit_Props\<close> are \<open>audit/log.go\<close>: the hash chain
  is kept and is evidence against changes. \<open>Token_Props\<close> shows when a token is accepted and that a revoked one stays refused.
  \<open>Job_API\<close> and \<open>Job_Finish\<close> are the handlers of \<open>server.go\<close> that change jobs; \<open>Job_Inv\<close> and \<open>Job_Props\<close> show that any sequence of them
  keeps at most one active job per target, and what happens when two claims overlap or the metadata of a backup are refused.

  \<^bold>\<open>Bounds and fuel.\<close> Loops of the code are total recursions wherever they end. The descent into a tree takes the number of pages as
  its fuel, which no path exceeds; the reading loop of \<open>ForEach\<close> takes a number of rounds, and any number above the length of the content
  is enough; the search of \<open>Next\<close> takes rounds, and the theorems on it say how many suffice. \<open>listAll\<close> may run for ever on a store that hands out tokens for
  ever and is a partial function, shown to return on every \<open>listing_store\<close>. Integers are unbounded except where the code depends on
  their width: pages, offsets and bit sets are words or reduced explicitly, and \<open>ParseInt\<close> and the arithmetic of retention wrap at 64 bits.

  \<^bold>\<open>Not modelled.\<close> The drivers of PostgreSQL, MySQL, MongoDB and Redis (\<open>src/internal/drivers\<close>) speak wire protocols or run
  dump tools; the backends for files, S3, Azure, GCS and SFTP are calls of the system and of remote services behind the interface
  that is modelled; gRPC uses generated types. Agents (\<open>src/internal/agent\<close>, \<open>src/internal/engine\<close>) are represented by what they
  ask of the control plane and of the repository. Routing, TLS, metrics, logging, configuration files, the command line and
  the web interface are input and output. Of \<open>server.go\<close> the handlers of jobs and the check of scopes are modelled, the other handlers
  and the loop of \<open>scheduler_runner.go\<close> are not. Requests are steps that run to their end, except where the overlap of
  two claims is the subject, and a request that fails inside the database after some of its transactions is not a step.
\<close>

end
